(* ===== verification/Rtos_Prelude.thy ===== *)
theory Rtos_Prelude
  imports Main "HOL-Library.Word" "HOL-Library.Monad_Syntax"
begin

text \<open>
  Shared vocabulary of the development: machine words and addresses, typed object stores
  with checked pointer access, chains of pointers (\<open>link_path\<close>), circular rings
  (\<open>ring\<close>) and singly linked wait lists with a tail pointer (\<open>wait_list\<close>), and the
  lemmas about pointer surgery that every component uses.

  The C sources manipulate objects through pointers. The model keeps, for each C type, a
  store of type \<open>addr \<rightharpoonup> 'r\<close>: the objects of that type that are alive, by address.
  An operation is a function in the \<open>option\<close> monad: \<open>None\<close> is the result of a run that
  never returns normally, because it reads or writes through a pointer to no live object
  (undefined behaviour in C), indexes an array out of range, or loops for ever. A theorem
  that an operation is \<open>Some\<close> therefore states memory safety and termination as well.
\<close>

unbundle bit_operations_syntax

named_theorems kernel_defs \<open>definitions of the small accessors of the model\<close>
named_theorems store_simps \<open>evaluation of checked reads and writes\<close>
named_theorems chain_simps \<open>rewriting of pointer chains\<close>

type_synonym u8 = "8 word"
type_synonym u32 = "32 word"
type_synonym addr = "32 word"

abbreviation (input) NULL :: addr where "NULL \<equiv> 0"

abbreviation (input) UINT32_MAX :: u32 where "UINT32_MAX \<equiv> 0xFFFFFFFF"

lemma last_disjoint: "xs \<noteq> [] \<Longrightarrow> set xs \<inter> A = {} \<Longrightarrow> last xs \<notin> A"
  using last_in_set by blast

lemma bind_to_map: "x \<bind> (\<lambda>y. Some (g y)) = map_option g x"
  by (cases x) simp_all

section \<open>Typed stores\<close>

text \<open>Reading through a pointer: fails on \<open>NULL\<close> and on an address with no live object.\<close>

definition fetch :: "(addr \<rightharpoonup> 'r) \<Rightarrow> addr \<Rightarrow> 'r option" where
  "fetch st p = (if p = NULL then None else st p)"

text \<open>\<open>p->field = v\<close>: update the object at \<open>p\<close>, failing as \<open>fetch\<close> does.\<close>

definition modify :: "addr \<Rightarrow> ('r \<Rightarrow> 'r) \<Rightarrow> (addr \<rightharpoonup> 'r) \<Rightarrow> (addr \<rightharpoonup> 'r) option" where
  "modify p f st = do { x \<leftarrow> fetch st p; Some (st(p \<mapsto> f x)) }"

text \<open>Array access with the bounds check written out.\<close>

definition arr_get :: "'a list \<Rightarrow> nat \<Rightarrow> 'a option" where
  "arr_get xs i = (if i < length xs then Some (xs ! i) else None)"

definition arr_set :: "nat \<Rightarrow> 'a \<Rightarrow> 'a list \<Rightarrow> 'a list option" where
  "arr_set i v xs = (if i < length xs then Some (xs[i := v]) else None)"

lemma fetch_Some [simp, store_simps]: "st p = Some x \<Longrightarrow> p \<noteq> NULL \<Longrightarrow> fetch st p = Some x"
  by (simp add: fetch_def)

lemma fetch_NULL [simp]: "fetch st NULL = None"
  by (simp add: fetch_def)

lemma fetch_eq_Some_iff: "fetch st p = Some x \<longleftrightarrow> p \<noteq> NULL \<and> st p = Some x"
  by (simp add: fetch_def)

lemma modify_Some [simp, store_simps]:
  "st p = Some x \<Longrightarrow> p \<noteq> NULL \<Longrightarrow> modify p f st = Some (st(p \<mapsto> f x))"
  by (simp add: modify_def)

lemma modify_eq_Some_iff:
  "modify p f st = Some st' \<longleftrightarrow> p \<noteq> NULL \<and> (\<exists>x. st p = Some x \<and> st' = st(p \<mapsto> f x))"
  by (auto simp: modify_def fetch_def bind_eq_Some_conv)

lemma arr_get_Some [simp, store_simps]: "i < length xs \<Longrightarrow> arr_get xs i = Some (xs ! i)"
  by (simp add: arr_get_def)

lemma arr_set_Some [simp, store_simps]: "i < length xs \<Longrightarrow> arr_set i v xs = Some (xs[i := v])"
  by (simp add: arr_set_def)

section \<open>Chains of pointers\<close>

text \<open>
  \<open>link_path h p xs q\<close>: following the link map \<open>h\<close> from \<open>p\<close> visits exactly the live,
  non-null addresses \<open>xs\<close> and then arrives at \<open>q\<close>.
\<close>

fun link_path :: "(addr \<rightharpoonup> addr) \<Rightarrow> addr \<Rightarrow> addr list \<Rightarrow> addr \<Rightarrow> bool" where
  "link_path h p [] q \<longleftrightarrow> p = q"
| "link_path h p (x # xs) q \<longleftrightarrow> p = x \<and> x \<noteq> NULL \<and> (\<exists>r. h x = Some r \<and> link_path h r xs q)"

lemma link_path_append [simp, chain_simps]:
  "link_path h p (xs @ ys) q \<longleftrightarrow> (\<exists>r. link_path h p xs r \<and> link_path h r ys q)"
  by (induction xs arbitrary: p) auto

lemma link_path_upd [simp, chain_simps]:
  "u \<notin> set xs \<Longrightarrow> link_path (h(u := v)) p xs q = link_path h p xs q"
  by (induction xs arbitrary: p) auto

lemma link_path_cong:
  "(\<And>x. x \<in> set xs \<Longrightarrow> h x = h' x) \<Longrightarrow> link_path h p xs q = link_path h' p xs q"
  by (induction xs arbitrary: p) auto

lemma link_path_from_NULL [simp]: "link_path h NULL xs q \<longleftrightarrow> xs = [] \<and> q = NULL"
  by (cases xs) auto

lemma link_path_nonnull: "link_path h p xs q \<Longrightarrow> NULL \<notin> set xs"
  by (induction xs arbitrary: p) auto

lemma link_path_live: "link_path h p xs q \<Longrightarrow> x \<in> set xs \<Longrightarrow> x \<noteq> NULL \<and> (\<exists>r. h x = Some r)"
  by (induction xs arbitrary: p) auto

lemma link_path_hd: "link_path h p xs q \<Longrightarrow> xs \<noteq> [] \<Longrightarrow> p = hd xs"
  by (cases xs) auto

lemma link_path_last: "link_path h p xs q \<Longrightarrow> xs \<noteq> [] \<Longrightarrow> h (last xs) = Some q"
  by (induction xs arbitrary: p) auto

lemma link_path_unique:
  "link_path h p xs NULL \<Longrightarrow> link_path h p ys NULL \<Longrightarrow> xs = ys"
proof (induction xs arbitrary: p ys)
  case Nil
  then show ?case by simp
next
  case (Cons x xs)
  then show ?case by (cases ys) auto
qed

lemma link_path_unique_to:
  "link_path h p xs q \<Longrightarrow> link_path h p ys q \<Longrightarrow> q \<notin> set xs \<Longrightarrow> q \<notin> set ys \<Longrightarrow> xs = ys"
proof (induction xs arbitrary: p ys)
  case Nil
  then show ?case by (cases ys) auto
next
  case (Cons x xs)
  then show ?case by (cases ys) auto
qed

text \<open>Redirecting the last link of a chain.\<close>

lemma link_path_snoc_upd:
  assumes "link_path h p (xs @ [l]) q" and "l \<notin> set xs"
  shows "link_path (h(l \<mapsto> r)) p (xs @ [l]) r"
  using assms by auto

lemma link_path_last_upd:
  assumes "link_path h p xs q" and "xs \<noteq> []" and "distinct xs"
  shows "link_path (h(last xs \<mapsto> r)) p xs r"
proof -
  obtain ys l where xs: "xs = ys @ [l]"
    using \<open>xs \<noteq> []\<close> by (metis append_butlast_last_id)
  with assms show ?thesis by (auto intro: link_path_snoc_upd)
qed

section \<open>Rings\<close>

text \<open>A circular list: an empty ring has a null head, and the last element links to the head.\<close>

definition ring :: "(addr \<rightharpoonup> addr) \<Rightarrow> addr \<Rightarrow> addr list \<Rightarrow> bool" where
  "ring h p xs \<longleftrightarrow> distinct xs \<and> (if xs = [] then p = NULL else link_path h p xs p)"

lemma ring_Nil [simp]: "ring h p [] \<longleftrightarrow> p = NULL"
  by (simp add: ring_def)

lemma ring_NULL [simp]: "ring h NULL xs \<longleftrightarrow> xs = []"
  by (auto simp: ring_def)

lemma ring_hd: "ring h p xs \<Longrightarrow> xs \<noteq> [] \<Longrightarrow> p = hd xs"
  by (auto simp: ring_def dest: link_path_hd)

lemma ring_live: "ring h p xs \<Longrightarrow> x \<in> set xs \<Longrightarrow> x \<noteq> NULL \<and> (\<exists>r. h x = Some r)"
  by (cases "xs = []") (auto simp: ring_def dest: link_path_live)

lemma ring_distinct: "ring h p xs \<Longrightarrow> distinct xs"
  by (simp add: ring_def)

lemma ring_upd: "u \<notin> set xs \<Longrightarrow> ring (h(u := v)) p xs = ring h p xs"
  by (simp add: ring_def)

lemma ring_cong: "(\<And>x. x \<in> set xs \<Longrightarrow> h x = h' x) \<Longrightarrow> ring h p xs = ring h' p xs"
  by (simp add: ring_def link_path_cong [of xs h h'])

lemma ring_last: "ring h p xs \<Longrightarrow> xs \<noteq> [] \<Longrightarrow> h (last xs) = Some p"
  by (auto simp: ring_def dest: link_path_last)

lemma ring_unique: "ring h p xs \<Longrightarrow> ring h p ys \<Longrightarrow> xs = ys"
  by (cases xs; cases ys) (auto simp: ring_def dest: link_path_unique_to)

lemma ring_insert_tail:
  assumes "ring h p xs" and "xs \<noteq> []" and "t \<notin> set xs" and "t \<noteq> NULL"
  shows "ring (h(last xs \<mapsto> t, t \<mapsto> p)) p (xs @ [t])"
proof -
  have "link_path (h(last xs \<mapsto> t)) p xs t"
    using assms by (auto simp: ring_def intro: link_path_last_upd)
  with assms show ?thesis by (auto simp: ring_def)
qed

lemma ring_single: "t \<noteq> NULL \<Longrightarrow> ring (h(t \<mapsto> t)) t [t]"
  by (simp add: ring_def)

lemma ring_rotate1:
  assumes "ring h p xs" and "xs \<noteq> []" and "h p = Some r"
  shows "ring h r (rotate1 xs)"
proof -
  obtain y ys where xs: "xs = y # ys" using \<open>xs \<noteq> []\<close> by (cases xs) auto
  with assms show ?thesis by (auto simp: ring_def)
qed

text \<open>Unlinking the head, respectively an inner element, of a ring with at least two elements.\<close>

lemma ring_remove_head:
  assumes "ring h p (p # xs)" and "xs \<noteq> []"
  shows "h p = Some (hd xs)" and "ring (h(last xs \<mapsto> hd xs, p := v)) (hd xs) xs"
proof -
  obtain r where r: "h p = Some r" and path: "link_path h r xs p" and ds: "distinct (p # xs)"
    using assms by (auto simp: ring_def)
  have hd: "r = hd xs" using path \<open>xs \<noteq> []\<close> by (rule link_path_hd)
  then show "h p = Some (hd xs)" using r by simp
  have "link_path (h(last xs \<mapsto> hd xs)) r xs (hd xs)"
    using path \<open>xs \<noteq> []\<close> ds by (auto intro: link_path_last_upd)
  with hd ds show "ring (h(last xs \<mapsto> hd xs, p := v)) (hd xs) xs"
    by (simp add: ring_def \<open>xs \<noteq> []\<close>)
qed

lemma ring_remove_inner:
  assumes "ring h p (xs @ t # ys)" and "xs \<noteq> []"
  shows "h t = Some (if ys = [] then p else hd ys)"
    and "ring (h(last xs \<mapsto> (if ys = [] then p else hd ys), t := v)) p (xs @ ys)"
proof -
  let ?r = "if ys = [] then p else hd ys"
  obtain q where px: "link_path h p xs t" and ht: "h t = Some q" and qy: "link_path h q ys p"
    and ds: "distinct (xs @ t # ys)"
    using assms by (auto simp: ring_def)
  have q: "q = ?r" using qy by (cases ys) auto
  with ht show "h t = Some ?r" by simp
  have "link_path (h(last xs \<mapsto> ?r)) p xs ?r"
    using px \<open>xs \<noteq> []\<close> ds by (auto intro: link_path_last_upd)
  moreover have "last xs \<notin> set ys" using ds last_in_set [OF \<open>xs \<noteq> []\<close>] by auto
  ultimately show "ring (h(last xs \<mapsto> ?r, t := v)) p (xs @ ys)"
    using ds q qy \<open>xs \<noteq> []\<close> by (auto simp: ring_def simp del: link_path.simps)
qed

section \<open>The first minimal element of a list\<close>

text \<open>\<open>arg_min_list\<close> of the library returns the first element with the least key.\<close>

lemma arg_min_list_snoc:
  fixes f :: "'a \<Rightarrow> 'b::linorder"
  assumes "xs \<noteq> []"
  shows "arg_min_list f (xs @ [y]) = (if f y < f (arg_min_list f xs) then y else arg_min_list f xs)"
  using assms
proof (induction xs rule: induct_list012)
  case 1
  then show ?case by simp
next
  case (2 x)
  then show ?case by auto
next
  case (3 x z zs)
  then show ?case by (auto simp: Let_def)
qed

lemma arg_min_list_least:
  fixes f :: "'a \<Rightarrow> 'b::linorder"
  shows "x \<in> set xs \<Longrightarrow> f (arg_min_list f xs) \<le> f x"
  by (metis Min_le finite_imageI finite_set f_arg_min_list_f image_eqI length_pos_if_in_set length_greater_0_conv)

lemma arg_min_list_cong:
  fixes f :: "'a \<Rightarrow> 'b::linorder"
  assumes "\<And>x. x \<in> set xs \<Longrightarrow> f x = g x" and "xs \<noteq> []"
  shows "arg_min_list f xs = arg_min_list g xs"
  using assms
proof (induction xs rule: induct_list012)
  case (3 x y zs)
  have "arg_min_list g (y # zs) \<in> set (y # zs)" by (rule arg_min_list_in) simp
  with 3 show ?case by (simp add: Let_def)
qed simp_all

text \<open>The predecessor of a position, \<open>NULL\<close> for the first one, as the pointer walks track it.\<close>

definition pred_ptr :: "addr list \<Rightarrow> addr" where
  "pred_ptr us = (if us = [] then NULL else last us)"

end
