(* ===== verification/Rtos_Types.thy ===== *)
theory Rtos_Types
  imports Rtos_Prelude
begin

text \<open>
  The data model: the enumerations and structures of \<^verbatim>\<open>include/rtos_types.h\<close> and of the
  module headers, the constants of \<^verbatim>\<open>include/rtos_config.h\<close>, and the record \<open>kernel\<close> that
  holds every static variable of the kernel together with the stores of live objects and
  the hardware registers the kernel writes.
\<close>

section \<open>Configuration constants\<close>

definition RTOS_NUM_PRIORITIES :: nat where "RTOS_NUM_PRIORITIES = 8"
definition RTOS_MAX_TASKS :: u32 where "RTOS_MAX_TASKS = 32"
definition RTOS_MIN_STACK_SIZE :: u32 where "RTOS_MIN_STACK_SIZE = 256"
definition RTOS_IDLE_STACK_SIZE :: u32 where "RTOS_IDLE_STACK_SIZE = 4096"
definition RTOS_WAIT_FOREVER :: u32 where "RTOS_WAIT_FOREVER = 0"
definition RTOS_TASK_NAME_MAX :: nat where "RTOS_TASK_NAME_MAX = 16"
definition RTOS_PRIORITY_MAX :: u8 where "RTOS_PRIORITY_MAX = 255"
definition RTOS_HEAP_POOL_SIZE :: u32 where "RTOS_HEAP_POOL_SIZE = 32768"
definition RTOS_STACK_CANARY :: u32 where "RTOS_STACK_CANARY = 0xDEADBEEF"
definition RTOS_TIME_SLICE_TICKS :: u32 where "RTOS_TIME_SLICE_TICKS = 1"
definition RTOS_TICK_RATE_HZ :: u32 where "RTOS_TICK_RATE_HZ = 1000"

lemmas config_defs [kernel_defs] =
  RTOS_NUM_PRIORITIES_def RTOS_MAX_TASKS_def RTOS_MIN_STACK_SIZE_def RTOS_IDLE_STACK_SIZE_def
  RTOS_WAIT_FOREVER_def RTOS_TASK_NAME_MAX_def RTOS_PRIORITY_MAX_def RTOS_HEAP_POOL_SIZE_def
  RTOS_STACK_CANARY_def RTOS_TIME_SLICE_TICKS_def RTOS_TICK_RATE_HZ_def

section \<open>Enumerations\<close>

datatype block_reason_t =
    BLOCK_NONE | BLOCK_DELAY | BLOCK_MUTEX | BLOCK_SEMAPHORE | BLOCK_MSG_SEND | BLOCK_MSG_RECV

datatype task_state_t =
    TASK_STATE_READY | TASK_STATE_RUNNING | TASK_STATE_BLOCKED | TASK_STATE_SUSPENDED
  | TASK_STATE_TERMINATED

datatype rtos_status_t =
    RTOS_OK | RTOS_ERR_PARAM | RTOS_ERR_NO_MEM | RTOS_ERR_STATE | RTOS_ERR_TIMEOUT
  | RTOS_ERR_FULL | RTOS_ERR_EMPTY | RTOS_ERR_OWNER | RTOS_ERR_BUSY

section \<open>Structures\<close>

text \<open>The task control block; the field \<^verbatim>\<open>next\<close> of the C structure is \<open>next_tcb\<close> here.\<close>

record TCB_t =
  stack_ptr :: addr
  prio_bucket :: u8
  priority :: u8
  state :: task_state_t
  stack_base :: addr
  stack_size :: u32
  name :: "u8 list"
  wake_time :: u32
  next_tcb :: addr
  base_priority :: u8
  blocked_on_mutex :: addr
  mutex_wait_next :: addr
  task_func :: addr
  next_ready :: addr
  time_slice_counter :: u32
  block_reason :: block_reason_t
  block_object :: addr
  block_wake_status :: rtos_status_t

record mutex_t =
  locked :: bool
  owner :: addr
  wait_head :: addr
  wait_tail :: addr

record semaphore_t =
  sem_count :: u32
  max_count :: u32
  sem_wait_head :: addr
  sem_wait_tail :: addr

record msg_queue_t =
  buffer :: addr
  msg_size :: u32
  depth :: u32
  q_head :: u32
  q_tail :: u32
  q_count :: u32
  send_wait_head :: addr
  send_wait_tail :: addr
  recv_wait_head :: addr
  recv_wait_tail :: addr

record sw_timer_t =
  expiry_tick :: u32
  period_ticks :: u32
  callback :: addr
  callback_arg :: addr
  periodic :: bool
  active :: bool
  next_timer :: addr

record heap_block_t =
  blk_size :: u32
  blk_next :: addr

section \<open>The kernel state\<close>

text \<open>
  One field per static variable of the modules, one store per object type. \<open>ram\<close> is the
  byte memory behind message buffers and names, \<open>stack_mem\<close> the word memory of the task
  stacks; the stores are disjoint from both. \<open>icsr\<close> is the interrupt control register the
  scheduler writes to request PendSV, \<open>primask\<close> is set between \<^verbatim>\<open>cpsid i\<close> and \<^verbatim>\<open>cpsie i\<close>.
\<close>

record kernel =
  tcbs :: "addr \<rightharpoonup> TCB_t"
  mutexes :: "addr \<rightharpoonup> mutex_t"
  semaphores :: "addr \<rightharpoonup> semaphore_t"
  msg_queues :: "addr \<rightharpoonup> msg_queue_t"
  sw_timers :: "addr \<rightharpoonup> sw_timer_t"
  ram :: "addr \<Rightarrow> u8"
  stack_mem :: "addr \<Rightarrow> u32"
  current_tcb :: addr
  idle_tcb :: addr
  ready_head :: "addr list"
  task_registry :: "addr list"
  task_registry_count :: u32
  s_rtos_tick_count :: u32
  g_rtos_stack_overflow_task_name :: "u8 list"
  g_rtos_stack_overflow_canary :: u32
  timer_list :: addr
  heap_blocks :: "addr \<rightharpoonup> heap_block_t"
  free_list :: addr
  heap_ready :: bool
  icsr :: u32
  primask :: bool

section \<open>Normal form of record updates\<close>

text \<open>
  Updates of different fields commute; as rewrite rules the equations below sort a sequence
  of updates by the order in which the record declares the fields, so that two ways to reach
  the same state become the same term.
\<close>

lemma kernel_update_sort [simp]:
  fixes s :: kernel
  shows "tcbs_update f1 (mutexes_update f2 s) = mutexes_update f2 (tcbs_update f1 s)"
    and "tcbs_update f1 (semaphores_update f3 s) = semaphores_update f3 (tcbs_update f1 s)"
    and "tcbs_update f1 (msg_queues_update f4 s) = msg_queues_update f4 (tcbs_update f1 s)"
    and "tcbs_update f1 (sw_timers_update f5 s) = sw_timers_update f5 (tcbs_update f1 s)"
    and "tcbs_update f1 (ram_update f6 s) = ram_update f6 (tcbs_update f1 s)"
    and "tcbs_update f1 (stack_mem_update f7 s) = stack_mem_update f7 (tcbs_update f1 s)"
    and "tcbs_update f1 (current_tcb_update f8 s) = current_tcb_update f8 (tcbs_update f1 s)"
    and "tcbs_update f1 (idle_tcb_update f9 s) = idle_tcb_update f9 (tcbs_update f1 s)"
    and "tcbs_update f1 (ready_head_update f10 s) = ready_head_update f10 (tcbs_update f1 s)"
    and "tcbs_update f1 (task_registry_update f11 s) = task_registry_update f11 (tcbs_update f1 s)"
    and "tcbs_update f1 (task_registry_count_update f12 s) = task_registry_count_update f12 (tcbs_update f1 s)"
    and "tcbs_update f1 (s_rtos_tick_count_update f13 s) = s_rtos_tick_count_update f13 (tcbs_update f1 s)"
    and "tcbs_update f1 (timer_list_update f14 s) = timer_list_update f14 (tcbs_update f1 s)"
    and "tcbs_update f1 (heap_blocks_update f15 s) = heap_blocks_update f15 (tcbs_update f1 s)"
    and "tcbs_update f1 (free_list_update f16 s) = free_list_update f16 (tcbs_update f1 s)"
    and "tcbs_update f1 (heap_ready_update f17 s) = heap_ready_update f17 (tcbs_update f1 s)"
    and "tcbs_update f1 (icsr_update f18 s) = icsr_update f18 (tcbs_update f1 s)"
    and "tcbs_update f1 (primask_update f19 s) = primask_update f19 (tcbs_update f1 s)"
    and "mutexes_update f2 (semaphores_update f3 s) = semaphores_update f3 (mutexes_update f2 s)"
    and "mutexes_update f2 (msg_queues_update f4 s) = msg_queues_update f4 (mutexes_update f2 s)"
    and "mutexes_update f2 (sw_timers_update f5 s) = sw_timers_update f5 (mutexes_update f2 s)"
    and "mutexes_update f2 (ram_update f6 s) = ram_update f6 (mutexes_update f2 s)"
    and "mutexes_update f2 (stack_mem_update f7 s) = stack_mem_update f7 (mutexes_update f2 s)"
    and "mutexes_update f2 (current_tcb_update f8 s) = current_tcb_update f8 (mutexes_update f2 s)"
    and "mutexes_update f2 (idle_tcb_update f9 s) = idle_tcb_update f9 (mutexes_update f2 s)"
    and "mutexes_update f2 (ready_head_update f10 s) = ready_head_update f10 (mutexes_update f2 s)"
    and "mutexes_update f2 (task_registry_update f11 s) = task_registry_update f11 (mutexes_update f2 s)"
    and "mutexes_update f2 (task_registry_count_update f12 s) = task_registry_count_update f12 (mutexes_update f2 s)"
    and "mutexes_update f2 (s_rtos_tick_count_update f13 s) = s_rtos_tick_count_update f13 (mutexes_update f2 s)"
    and "mutexes_update f2 (timer_list_update f14 s) = timer_list_update f14 (mutexes_update f2 s)"
    and "mutexes_update f2 (heap_blocks_update f15 s) = heap_blocks_update f15 (mutexes_update f2 s)"
    and "mutexes_update f2 (free_list_update f16 s) = free_list_update f16 (mutexes_update f2 s)"
    and "mutexes_update f2 (heap_ready_update f17 s) = heap_ready_update f17 (mutexes_update f2 s)"
    and "mutexes_update f2 (icsr_update f18 s) = icsr_update f18 (mutexes_update f2 s)"
    and "mutexes_update f2 (primask_update f19 s) = primask_update f19 (mutexes_update f2 s)"
    and "semaphores_update f3 (msg_queues_update f4 s) = msg_queues_update f4 (semaphores_update f3 s)"
    and "semaphores_update f3 (sw_timers_update f5 s) = sw_timers_update f5 (semaphores_update f3 s)"
    and "semaphores_update f3 (ram_update f6 s) = ram_update f6 (semaphores_update f3 s)"
    and "semaphores_update f3 (stack_mem_update f7 s) = stack_mem_update f7 (semaphores_update f3 s)"
    and "semaphores_update f3 (current_tcb_update f8 s) = current_tcb_update f8 (semaphores_update f3 s)"
    and "semaphores_update f3 (idle_tcb_update f9 s) = idle_tcb_update f9 (semaphores_update f3 s)"
    and "semaphores_update f3 (ready_head_update f10 s) = ready_head_update f10 (semaphores_update f3 s)"
    and "semaphores_update f3 (task_registry_update f11 s) = task_registry_update f11 (semaphores_update f3 s)"
    and "semaphores_update f3 (task_registry_count_update f12 s) = task_registry_count_update f12 (semaphores_update f3 s)"
    and "semaphores_update f3 (s_rtos_tick_count_update f13 s) = s_rtos_tick_count_update f13 (semaphores_update f3 s)"
    and "semaphores_update f3 (timer_list_update f14 s) = timer_list_update f14 (semaphores_update f3 s)"
    and "semaphores_update f3 (heap_blocks_update f15 s) = heap_blocks_update f15 (semaphores_update f3 s)"
    and "semaphores_update f3 (free_list_update f16 s) = free_list_update f16 (semaphores_update f3 s)"
    and "semaphores_update f3 (heap_ready_update f17 s) = heap_ready_update f17 (semaphores_update f3 s)"
    and "semaphores_update f3 (icsr_update f18 s) = icsr_update f18 (semaphores_update f3 s)"
    and "semaphores_update f3 (primask_update f19 s) = primask_update f19 (semaphores_update f3 s)"
    and "msg_queues_update f4 (sw_timers_update f5 s) = sw_timers_update f5 (msg_queues_update f4 s)"
    and "msg_queues_update f4 (ram_update f6 s) = ram_update f6 (msg_queues_update f4 s)"
    and "msg_queues_update f4 (stack_mem_update f7 s) = stack_mem_update f7 (msg_queues_update f4 s)"
    and "msg_queues_update f4 (current_tcb_update f8 s) = current_tcb_update f8 (msg_queues_update f4 s)"
    and "msg_queues_update f4 (idle_tcb_update f9 s) = idle_tcb_update f9 (msg_queues_update f4 s)"
    and "msg_queues_update f4 (ready_head_update f10 s) = ready_head_update f10 (msg_queues_update f4 s)"
    and "msg_queues_update f4 (task_registry_update f11 s) = task_registry_update f11 (msg_queues_update f4 s)"
    and "msg_queues_update f4 (task_registry_count_update f12 s) = task_registry_count_update f12 (msg_queues_update f4 s)"
    and "msg_queues_update f4 (s_rtos_tick_count_update f13 s) = s_rtos_tick_count_update f13 (msg_queues_update f4 s)"
    and "msg_queues_update f4 (timer_list_update f14 s) = timer_list_update f14 (msg_queues_update f4 s)"
    and "msg_queues_update f4 (heap_blocks_update f15 s) = heap_blocks_update f15 (msg_queues_update f4 s)"
    and "msg_queues_update f4 (free_list_update f16 s) = free_list_update f16 (msg_queues_update f4 s)"
    and "msg_queues_update f4 (heap_ready_update f17 s) = heap_ready_update f17 (msg_queues_update f4 s)"
    and "msg_queues_update f4 (icsr_update f18 s) = icsr_update f18 (msg_queues_update f4 s)"
    and "msg_queues_update f4 (primask_update f19 s) = primask_update f19 (msg_queues_update f4 s)"
    and "sw_timers_update f5 (ram_update f6 s) = ram_update f6 (sw_timers_update f5 s)"
    and "sw_timers_update f5 (stack_mem_update f7 s) = stack_mem_update f7 (sw_timers_update f5 s)"
    and "sw_timers_update f5 (current_tcb_update f8 s) = current_tcb_update f8 (sw_timers_update f5 s)"
    and "sw_timers_update f5 (idle_tcb_update f9 s) = idle_tcb_update f9 (sw_timers_update f5 s)"
    and "sw_timers_update f5 (ready_head_update f10 s) = ready_head_update f10 (sw_timers_update f5 s)"
    and "sw_timers_update f5 (task_registry_update f11 s) = task_registry_update f11 (sw_timers_update f5 s)"
    and "sw_timers_update f5 (task_registry_count_update f12 s) = task_registry_count_update f12 (sw_timers_update f5 s)"
    and "sw_timers_update f5 (s_rtos_tick_count_update f13 s) = s_rtos_tick_count_update f13 (sw_timers_update f5 s)"
    and "sw_timers_update f5 (timer_list_update f14 s) = timer_list_update f14 (sw_timers_update f5 s)"
    and "sw_timers_update f5 (heap_blocks_update f15 s) = heap_blocks_update f15 (sw_timers_update f5 s)"
    and "sw_timers_update f5 (free_list_update f16 s) = free_list_update f16 (sw_timers_update f5 s)"
    and "sw_timers_update f5 (heap_ready_update f17 s) = heap_ready_update f17 (sw_timers_update f5 s)"
    and "sw_timers_update f5 (icsr_update f18 s) = icsr_update f18 (sw_timers_update f5 s)"
    and "sw_timers_update f5 (primask_update f19 s) = primask_update f19 (sw_timers_update f5 s)"
    and "ram_update f6 (stack_mem_update f7 s) = stack_mem_update f7 (ram_update f6 s)"
    and "ram_update f6 (current_tcb_update f8 s) = current_tcb_update f8 (ram_update f6 s)"
    and "ram_update f6 (idle_tcb_update f9 s) = idle_tcb_update f9 (ram_update f6 s)"
    and "ram_update f6 (ready_head_update f10 s) = ready_head_update f10 (ram_update f6 s)"
    and "ram_update f6 (task_registry_update f11 s) = task_registry_update f11 (ram_update f6 s)"
    and "ram_update f6 (task_registry_count_update f12 s) = task_registry_count_update f12 (ram_update f6 s)"
    and "ram_update f6 (s_rtos_tick_count_update f13 s) = s_rtos_tick_count_update f13 (ram_update f6 s)"
    and "ram_update f6 (timer_list_update f14 s) = timer_list_update f14 (ram_update f6 s)"
    and "ram_update f6 (heap_blocks_update f15 s) = heap_blocks_update f15 (ram_update f6 s)"
    and "ram_update f6 (free_list_update f16 s) = free_list_update f16 (ram_update f6 s)"
    and "ram_update f6 (heap_ready_update f17 s) = heap_ready_update f17 (ram_update f6 s)"
    and "ram_update f6 (icsr_update f18 s) = icsr_update f18 (ram_update f6 s)"
    and "ram_update f6 (primask_update f19 s) = primask_update f19 (ram_update f6 s)"
    and "stack_mem_update f7 (current_tcb_update f8 s) = current_tcb_update f8 (stack_mem_update f7 s)"
    and "stack_mem_update f7 (idle_tcb_update f9 s) = idle_tcb_update f9 (stack_mem_update f7 s)"
    and "stack_mem_update f7 (ready_head_update f10 s) = ready_head_update f10 (stack_mem_update f7 s)"
    and "stack_mem_update f7 (task_registry_update f11 s) = task_registry_update f11 (stack_mem_update f7 s)"
    and "stack_mem_update f7 (task_registry_count_update f12 s) = task_registry_count_update f12 (stack_mem_update f7 s)"
    and "stack_mem_update f7 (s_rtos_tick_count_update f13 s) = s_rtos_tick_count_update f13 (stack_mem_update f7 s)"
    and "stack_mem_update f7 (timer_list_update f14 s) = timer_list_update f14 (stack_mem_update f7 s)"
    and "stack_mem_update f7 (heap_blocks_update f15 s) = heap_blocks_update f15 (stack_mem_update f7 s)"
    and "stack_mem_update f7 (free_list_update f16 s) = free_list_update f16 (stack_mem_update f7 s)"
    and "stack_mem_update f7 (heap_ready_update f17 s) = heap_ready_update f17 (stack_mem_update f7 s)"
    and "stack_mem_update f7 (icsr_update f18 s) = icsr_update f18 (stack_mem_update f7 s)"
    and "stack_mem_update f7 (primask_update f19 s) = primask_update f19 (stack_mem_update f7 s)"
    and "current_tcb_update f8 (idle_tcb_update f9 s) = idle_tcb_update f9 (current_tcb_update f8 s)"
    and "current_tcb_update f8 (ready_head_update f10 s) = ready_head_update f10 (current_tcb_update f8 s)"
    and "current_tcb_update f8 (task_registry_update f11 s) = task_registry_update f11 (current_tcb_update f8 s)"
    and "current_tcb_update f8 (task_registry_count_update f12 s) = task_registry_count_update f12 (current_tcb_update f8 s)"
    and "current_tcb_update f8 (s_rtos_tick_count_update f13 s) = s_rtos_tick_count_update f13 (current_tcb_update f8 s)"
    and "current_tcb_update f8 (timer_list_update f14 s) = timer_list_update f14 (current_tcb_update f8 s)"
    and "current_tcb_update f8 (heap_blocks_update f15 s) = heap_blocks_update f15 (current_tcb_update f8 s)"
    and "current_tcb_update f8 (free_list_update f16 s) = free_list_update f16 (current_tcb_update f8 s)"
    and "current_tcb_update f8 (heap_ready_update f17 s) = heap_ready_update f17 (current_tcb_update f8 s)"
    and "current_tcb_update f8 (icsr_update f18 s) = icsr_update f18 (current_tcb_update f8 s)"
    and "current_tcb_update f8 (primask_update f19 s) = primask_update f19 (current_tcb_update f8 s)"
    and "idle_tcb_update f9 (ready_head_update f10 s) = ready_head_update f10 (idle_tcb_update f9 s)"
    and "idle_tcb_update f9 (task_registry_update f11 s) = task_registry_update f11 (idle_tcb_update f9 s)"
    and "idle_tcb_update f9 (task_registry_count_update f12 s) = task_registry_count_update f12 (idle_tcb_update f9 s)"
    and "idle_tcb_update f9 (s_rtos_tick_count_update f13 s) = s_rtos_tick_count_update f13 (idle_tcb_update f9 s)"
    and "idle_tcb_update f9 (timer_list_update f14 s) = timer_list_update f14 (idle_tcb_update f9 s)"
    and "idle_tcb_update f9 (heap_blocks_update f15 s) = heap_blocks_update f15 (idle_tcb_update f9 s)"
    and "idle_tcb_update f9 (free_list_update f16 s) = free_list_update f16 (idle_tcb_update f9 s)"
    and "idle_tcb_update f9 (heap_ready_update f17 s) = heap_ready_update f17 (idle_tcb_update f9 s)"
    and "idle_tcb_update f9 (icsr_update f18 s) = icsr_update f18 (idle_tcb_update f9 s)"
    and "idle_tcb_update f9 (primask_update f19 s) = primask_update f19 (idle_tcb_update f9 s)"
    and "ready_head_update f10 (task_registry_update f11 s) = task_registry_update f11 (ready_head_update f10 s)"
    and "ready_head_update f10 (task_registry_count_update f12 s) = task_registry_count_update f12 (ready_head_update f10 s)"
    and "ready_head_update f10 (s_rtos_tick_count_update f13 s) = s_rtos_tick_count_update f13 (ready_head_update f10 s)"
    and "ready_head_update f10 (timer_list_update f14 s) = timer_list_update f14 (ready_head_update f10 s)"
    and "ready_head_update f10 (heap_blocks_update f15 s) = heap_blocks_update f15 (ready_head_update f10 s)"
    and "ready_head_update f10 (free_list_update f16 s) = free_list_update f16 (ready_head_update f10 s)"
    and "ready_head_update f10 (heap_ready_update f17 s) = heap_ready_update f17 (ready_head_update f10 s)"
    and "ready_head_update f10 (icsr_update f18 s) = icsr_update f18 (ready_head_update f10 s)"
    and "ready_head_update f10 (primask_update f19 s) = primask_update f19 (ready_head_update f10 s)"
    and "task_registry_update f11 (task_registry_count_update f12 s) = task_registry_count_update f12 (task_registry_update f11 s)"
    and "task_registry_update f11 (s_rtos_tick_count_update f13 s) = s_rtos_tick_count_update f13 (task_registry_update f11 s)"
    and "task_registry_update f11 (timer_list_update f14 s) = timer_list_update f14 (task_registry_update f11 s)"
    and "task_registry_update f11 (heap_blocks_update f15 s) = heap_blocks_update f15 (task_registry_update f11 s)"
    and "task_registry_update f11 (free_list_update f16 s) = free_list_update f16 (task_registry_update f11 s)"
    and "task_registry_update f11 (heap_ready_update f17 s) = heap_ready_update f17 (task_registry_update f11 s)"
    and "task_registry_update f11 (icsr_update f18 s) = icsr_update f18 (task_registry_update f11 s)"
    and "task_registry_update f11 (primask_update f19 s) = primask_update f19 (task_registry_update f11 s)"
    and "task_registry_count_update f12 (s_rtos_tick_count_update f13 s) = s_rtos_tick_count_update f13 (task_registry_count_update f12 s)"
    and "task_registry_count_update f12 (timer_list_update f14 s) = timer_list_update f14 (task_registry_count_update f12 s)"
    and "task_registry_count_update f12 (heap_blocks_update f15 s) = heap_blocks_update f15 (task_registry_count_update f12 s)"
    and "task_registry_count_update f12 (free_list_update f16 s) = free_list_update f16 (task_registry_count_update f12 s)"
    and "task_registry_count_update f12 (heap_ready_update f17 s) = heap_ready_update f17 (task_registry_count_update f12 s)"
    and "task_registry_count_update f12 (icsr_update f18 s) = icsr_update f18 (task_registry_count_update f12 s)"
    and "task_registry_count_update f12 (primask_update f19 s) = primask_update f19 (task_registry_count_update f12 s)"
    and "s_rtos_tick_count_update f13 (timer_list_update f14 s) = timer_list_update f14 (s_rtos_tick_count_update f13 s)"
    and "s_rtos_tick_count_update f13 (heap_blocks_update f15 s) = heap_blocks_update f15 (s_rtos_tick_count_update f13 s)"
    and "s_rtos_tick_count_update f13 (free_list_update f16 s) = free_list_update f16 (s_rtos_tick_count_update f13 s)"
    and "s_rtos_tick_count_update f13 (heap_ready_update f17 s) = heap_ready_update f17 (s_rtos_tick_count_update f13 s)"
    and "s_rtos_tick_count_update f13 (icsr_update f18 s) = icsr_update f18 (s_rtos_tick_count_update f13 s)"
    and "s_rtos_tick_count_update f13 (primask_update f19 s) = primask_update f19 (s_rtos_tick_count_update f13 s)"
    and "timer_list_update f14 (heap_blocks_update f15 s) = heap_blocks_update f15 (timer_list_update f14 s)"
    and "timer_list_update f14 (free_list_update f16 s) = free_list_update f16 (timer_list_update f14 s)"
    and "timer_list_update f14 (heap_ready_update f17 s) = heap_ready_update f17 (timer_list_update f14 s)"
    and "timer_list_update f14 (icsr_update f18 s) = icsr_update f18 (timer_list_update f14 s)"
    and "timer_list_update f14 (primask_update f19 s) = primask_update f19 (timer_list_update f14 s)"
    and "heap_blocks_update f15 (free_list_update f16 s) = free_list_update f16 (heap_blocks_update f15 s)"
    and "heap_blocks_update f15 (heap_ready_update f17 s) = heap_ready_update f17 (heap_blocks_update f15 s)"
    and "heap_blocks_update f15 (icsr_update f18 s) = icsr_update f18 (heap_blocks_update f15 s)"
    and "heap_blocks_update f15 (primask_update f19 s) = primask_update f19 (heap_blocks_update f15 s)"
    and "free_list_update f16 (heap_ready_update f17 s) = heap_ready_update f17 (free_list_update f16 s)"
    and "free_list_update f16 (icsr_update f18 s) = icsr_update f18 (free_list_update f16 s)"
    and "free_list_update f16 (primask_update f19 s) = primask_update f19 (free_list_update f16 s)"
    and "heap_ready_update f17 (icsr_update f18 s) = icsr_update f18 (heap_ready_update f17 s)"
    and "heap_ready_update f17 (primask_update f19 s) = primask_update f19 (heap_ready_update f17 s)"
    and "icsr_update f18 (primask_update f19 s) = primask_update f19 (icsr_update f18 s)"
  by (cases s; simp)+

lemma TCB_update_sort [simp]:
  fixes t :: TCB_t
  shows "stack_ptr_update f1 (prio_bucket_update f2 t) = prio_bucket_update f2 (stack_ptr_update f1 t)"
    and "stack_ptr_update f1 (priority_update f3 t) = priority_update f3 (stack_ptr_update f1 t)"
    and "stack_ptr_update f1 (state_update f4 t) = state_update f4 (stack_ptr_update f1 t)"
    and "stack_ptr_update f1 (wake_time_update f5 t) = wake_time_update f5 (stack_ptr_update f1 t)"
    and "stack_ptr_update f1 (base_priority_update f6 t) = base_priority_update f6 (stack_ptr_update f1 t)"
    and "stack_ptr_update f1 (blocked_on_mutex_update f7 t) = blocked_on_mutex_update f7 (stack_ptr_update f1 t)"
    and "stack_ptr_update f1 (mutex_wait_next_update f8 t) = mutex_wait_next_update f8 (stack_ptr_update f1 t)"
    and "stack_ptr_update f1 (task_func_update f9 t) = task_func_update f9 (stack_ptr_update f1 t)"
    and "stack_ptr_update f1 (next_ready_update f10 t) = next_ready_update f10 (stack_ptr_update f1 t)"
    and "stack_ptr_update f1 (time_slice_counter_update f11 t) = time_slice_counter_update f11 (stack_ptr_update f1 t)"
    and "stack_ptr_update f1 (block_reason_update f12 t) = block_reason_update f12 (stack_ptr_update f1 t)"
    and "stack_ptr_update f1 (block_object_update f13 t) = block_object_update f13 (stack_ptr_update f1 t)"
    and "stack_ptr_update f1 (block_wake_status_update f14 t) = block_wake_status_update f14 (stack_ptr_update f1 t)"
    and "prio_bucket_update f2 (priority_update f3 t) = priority_update f3 (prio_bucket_update f2 t)"
    and "prio_bucket_update f2 (state_update f4 t) = state_update f4 (prio_bucket_update f2 t)"
    and "prio_bucket_update f2 (wake_time_update f5 t) = wake_time_update f5 (prio_bucket_update f2 t)"
    and "prio_bucket_update f2 (base_priority_update f6 t) = base_priority_update f6 (prio_bucket_update f2 t)"
    and "prio_bucket_update f2 (blocked_on_mutex_update f7 t) = blocked_on_mutex_update f7 (prio_bucket_update f2 t)"
    and "prio_bucket_update f2 (mutex_wait_next_update f8 t) = mutex_wait_next_update f8 (prio_bucket_update f2 t)"
    and "prio_bucket_update f2 (task_func_update f9 t) = task_func_update f9 (prio_bucket_update f2 t)"
    and "prio_bucket_update f2 (next_ready_update f10 t) = next_ready_update f10 (prio_bucket_update f2 t)"
    and "prio_bucket_update f2 (time_slice_counter_update f11 t) = time_slice_counter_update f11 (prio_bucket_update f2 t)"
    and "prio_bucket_update f2 (block_reason_update f12 t) = block_reason_update f12 (prio_bucket_update f2 t)"
    and "prio_bucket_update f2 (block_object_update f13 t) = block_object_update f13 (prio_bucket_update f2 t)"
    and "prio_bucket_update f2 (block_wake_status_update f14 t) = block_wake_status_update f14 (prio_bucket_update f2 t)"
    and "priority_update f3 (state_update f4 t) = state_update f4 (priority_update f3 t)"
    and "priority_update f3 (wake_time_update f5 t) = wake_time_update f5 (priority_update f3 t)"
    and "priority_update f3 (base_priority_update f6 t) = base_priority_update f6 (priority_update f3 t)"
    and "priority_update f3 (blocked_on_mutex_update f7 t) = blocked_on_mutex_update f7 (priority_update f3 t)"
    and "priority_update f3 (mutex_wait_next_update f8 t) = mutex_wait_next_update f8 (priority_update f3 t)"
    and "priority_update f3 (task_func_update f9 t) = task_func_update f9 (priority_update f3 t)"
    and "priority_update f3 (next_ready_update f10 t) = next_ready_update f10 (priority_update f3 t)"
    and "priority_update f3 (time_slice_counter_update f11 t) = time_slice_counter_update f11 (priority_update f3 t)"
    and "priority_update f3 (block_reason_update f12 t) = block_reason_update f12 (priority_update f3 t)"
    and "priority_update f3 (block_object_update f13 t) = block_object_update f13 (priority_update f3 t)"
    and "priority_update f3 (block_wake_status_update f14 t) = block_wake_status_update f14 (priority_update f3 t)"
    and "state_update f4 (wake_time_update f5 t) = wake_time_update f5 (state_update f4 t)"
    and "state_update f4 (base_priority_update f6 t) = base_priority_update f6 (state_update f4 t)"
    and "state_update f4 (blocked_on_mutex_update f7 t) = blocked_on_mutex_update f7 (state_update f4 t)"
    and "state_update f4 (mutex_wait_next_update f8 t) = mutex_wait_next_update f8 (state_update f4 t)"
    and "state_update f4 (task_func_update f9 t) = task_func_update f9 (state_update f4 t)"
    and "state_update f4 (next_ready_update f10 t) = next_ready_update f10 (state_update f4 t)"
    and "state_update f4 (time_slice_counter_update f11 t) = time_slice_counter_update f11 (state_update f4 t)"
    and "state_update f4 (block_reason_update f12 t) = block_reason_update f12 (state_update f4 t)"
    and "state_update f4 (block_object_update f13 t) = block_object_update f13 (state_update f4 t)"
    and "state_update f4 (block_wake_status_update f14 t) = block_wake_status_update f14 (state_update f4 t)"
    and "wake_time_update f5 (base_priority_update f6 t) = base_priority_update f6 (wake_time_update f5 t)"
    and "wake_time_update f5 (blocked_on_mutex_update f7 t) = blocked_on_mutex_update f7 (wake_time_update f5 t)"
    and "wake_time_update f5 (mutex_wait_next_update f8 t) = mutex_wait_next_update f8 (wake_time_update f5 t)"
    and "wake_time_update f5 (task_func_update f9 t) = task_func_update f9 (wake_time_update f5 t)"
    and "wake_time_update f5 (next_ready_update f10 t) = next_ready_update f10 (wake_time_update f5 t)"
    and "wake_time_update f5 (time_slice_counter_update f11 t) = time_slice_counter_update f11 (wake_time_update f5 t)"
    and "wake_time_update f5 (block_reason_update f12 t) = block_reason_update f12 (wake_time_update f5 t)"
    and "wake_time_update f5 (block_object_update f13 t) = block_object_update f13 (wake_time_update f5 t)"
    and "wake_time_update f5 (block_wake_status_update f14 t) = block_wake_status_update f14 (wake_time_update f5 t)"
    and "base_priority_update f6 (blocked_on_mutex_update f7 t) = blocked_on_mutex_update f7 (base_priority_update f6 t)"
    and "base_priority_update f6 (mutex_wait_next_update f8 t) = mutex_wait_next_update f8 (base_priority_update f6 t)"
    and "base_priority_update f6 (task_func_update f9 t) = task_func_update f9 (base_priority_update f6 t)"
    and "base_priority_update f6 (next_ready_update f10 t) = next_ready_update f10 (base_priority_update f6 t)"
    and "base_priority_update f6 (time_slice_counter_update f11 t) = time_slice_counter_update f11 (base_priority_update f6 t)"
    and "base_priority_update f6 (block_reason_update f12 t) = block_reason_update f12 (base_priority_update f6 t)"
    and "base_priority_update f6 (block_object_update f13 t) = block_object_update f13 (base_priority_update f6 t)"
    and "base_priority_update f6 (block_wake_status_update f14 t) = block_wake_status_update f14 (base_priority_update f6 t)"
    and "blocked_on_mutex_update f7 (mutex_wait_next_update f8 t) = mutex_wait_next_update f8 (blocked_on_mutex_update f7 t)"
    and "blocked_on_mutex_update f7 (task_func_update f9 t) = task_func_update f9 (blocked_on_mutex_update f7 t)"
    and "blocked_on_mutex_update f7 (next_ready_update f10 t) = next_ready_update f10 (blocked_on_mutex_update f7 t)"
    and "blocked_on_mutex_update f7 (time_slice_counter_update f11 t) = time_slice_counter_update f11 (blocked_on_mutex_update f7 t)"
    and "blocked_on_mutex_update f7 (block_reason_update f12 t) = block_reason_update f12 (blocked_on_mutex_update f7 t)"
    and "blocked_on_mutex_update f7 (block_object_update f13 t) = block_object_update f13 (blocked_on_mutex_update f7 t)"
    and "blocked_on_mutex_update f7 (block_wake_status_update f14 t) = block_wake_status_update f14 (blocked_on_mutex_update f7 t)"
    and "mutex_wait_next_update f8 (task_func_update f9 t) = task_func_update f9 (mutex_wait_next_update f8 t)"
    and "mutex_wait_next_update f8 (next_ready_update f10 t) = next_ready_update f10 (mutex_wait_next_update f8 t)"
    and "mutex_wait_next_update f8 (time_slice_counter_update f11 t) = time_slice_counter_update f11 (mutex_wait_next_update f8 t)"
    and "mutex_wait_next_update f8 (block_reason_update f12 t) = block_reason_update f12 (mutex_wait_next_update f8 t)"
    and "mutex_wait_next_update f8 (block_object_update f13 t) = block_object_update f13 (mutex_wait_next_update f8 t)"
    and "mutex_wait_next_update f8 (block_wake_status_update f14 t) = block_wake_status_update f14 (mutex_wait_next_update f8 t)"
    and "task_func_update f9 (next_ready_update f10 t) = next_ready_update f10 (task_func_update f9 t)"
    and "task_func_update f9 (time_slice_counter_update f11 t) = time_slice_counter_update f11 (task_func_update f9 t)"
    and "task_func_update f9 (block_reason_update f12 t) = block_reason_update f12 (task_func_update f9 t)"
    and "task_func_update f9 (block_object_update f13 t) = block_object_update f13 (task_func_update f9 t)"
    and "task_func_update f9 (block_wake_status_update f14 t) = block_wake_status_update f14 (task_func_update f9 t)"
    and "next_ready_update f10 (time_slice_counter_update f11 t) = time_slice_counter_update f11 (next_ready_update f10 t)"
    and "next_ready_update f10 (block_reason_update f12 t) = block_reason_update f12 (next_ready_update f10 t)"
    and "next_ready_update f10 (block_object_update f13 t) = block_object_update f13 (next_ready_update f10 t)"
    and "next_ready_update f10 (block_wake_status_update f14 t) = block_wake_status_update f14 (next_ready_update f10 t)"
    and "time_slice_counter_update f11 (block_reason_update f12 t) = block_reason_update f12 (time_slice_counter_update f11 t)"
    and "time_slice_counter_update f11 (block_object_update f13 t) = block_object_update f13 (time_slice_counter_update f11 t)"
    and "time_slice_counter_update f11 (block_wake_status_update f14 t) = block_wake_status_update f14 (time_slice_counter_update f11 t)"
    and "block_reason_update f12 (block_object_update f13 t) = block_object_update f13 (block_reason_update f12 t)"
    and "block_reason_update f12 (block_wake_status_update f14 t) = block_wake_status_update f14 (block_reason_update f12 t)"
    and "block_object_update f13 (block_wake_status_update f14 t) = block_wake_status_update f14 (block_object_update f13 t)"
  by (cases t; simp)+

section \<open>Access to objects\<close>

definition get_tcb :: "kernel \<Rightarrow> addr \<Rightarrow> TCB_t option" where
  "get_tcb s p = fetch (tcbs s) p"

definition upd_tcb :: "addr \<Rightarrow> (TCB_t \<Rightarrow> TCB_t) \<Rightarrow> kernel \<Rightarrow> kernel option" where
  "upd_tcb p f s = map_option (\<lambda>st. s\<lparr>tcbs := st\<rparr>) (modify p f (tcbs s))"

definition get_mutex :: "kernel \<Rightarrow> addr \<Rightarrow> mutex_t option" where
  "get_mutex s p = fetch (mutexes s) p"

definition upd_mutex :: "addr \<Rightarrow> (mutex_t \<Rightarrow> mutex_t) \<Rightarrow> kernel \<Rightarrow> kernel option" where
  "upd_mutex p f s = map_option (\<lambda>st. s\<lparr>mutexes := st\<rparr>) (modify p f (mutexes s))"

definition get_sem :: "kernel \<Rightarrow> addr \<Rightarrow> semaphore_t option" where
  "get_sem s p = fetch (semaphores s) p"

definition upd_sem :: "addr \<Rightarrow> (semaphore_t \<Rightarrow> semaphore_t) \<Rightarrow> kernel \<Rightarrow> kernel option" where
  "upd_sem p f s = map_option (\<lambda>st. s\<lparr>semaphores := st\<rparr>) (modify p f (semaphores s))"

definition get_queue :: "kernel \<Rightarrow> addr \<Rightarrow> msg_queue_t option" where
  "get_queue s p = fetch (msg_queues s) p"

definition upd_queue :: "addr \<Rightarrow> (msg_queue_t \<Rightarrow> msg_queue_t) \<Rightarrow> kernel \<Rightarrow> kernel option" where
  "upd_queue p f s = map_option (\<lambda>st. s\<lparr>msg_queues := st\<rparr>) (modify p f (msg_queues s))"

definition cpsid :: "kernel \<Rightarrow> kernel" where "cpsid s = s\<lparr>primask := True\<rparr>"
definition cpsie :: "kernel \<Rightarrow> kernel" where "cpsie s = s\<lparr>primask := False\<rparr>"

lemmas access_defs [kernel_defs] =
  get_tcb_def upd_tcb_def get_mutex_def upd_mutex_def get_sem_def upd_sem_def
  get_queue_def upd_queue_def cpsid_def cpsie_def

text \<open>A task address is live when it can be dereferenced.\<close>

definition live_tcb :: "kernel \<Rightarrow> addr \<Rightarrow> bool" where
  "live_tcb s p \<longleftrightarrow> p \<noteq> NULL \<and> tcbs s p \<noteq> None"

lemma get_tcb_Some [simp, store_simps]:
  "tcbs s p = Some t \<Longrightarrow> p \<noteq> NULL \<Longrightarrow> get_tcb s p = Some t"
  by (simp add: get_tcb_def)

lemma upd_tcb_Some [simp, store_simps]:
  "tcbs s p = Some t \<Longrightarrow> p \<noteq> NULL \<Longrightarrow> upd_tcb p f s = Some (s\<lparr>tcbs := (tcbs s)(p \<mapsto> f t)\<rparr>)"
  by (simp add: upd_tcb_def)

lemma get_mutex_Some [simp, store_simps]:
  "mutexes s p = Some m \<Longrightarrow> p \<noteq> NULL \<Longrightarrow> get_mutex s p = Some m"
  by (simp add: get_mutex_def)

lemma upd_mutex_Some [simp, store_simps]:
  "mutexes s p = Some m \<Longrightarrow> p \<noteq> NULL \<Longrightarrow>
   upd_mutex p f s = Some (s\<lparr>mutexes := (mutexes s)(p \<mapsto> f m)\<rparr>)"
  by (simp add: upd_mutex_def)

lemma get_sem_Some [simp, store_simps]:
  "semaphores s p = Some m \<Longrightarrow> p \<noteq> NULL \<Longrightarrow> get_sem s p = Some m"
  by (simp add: get_sem_def)

lemma upd_sem_Some [simp, store_simps]:
  "semaphores s p = Some m \<Longrightarrow> p \<noteq> NULL \<Longrightarrow>
   upd_sem p f s = Some (s\<lparr>semaphores := (semaphores s)(p \<mapsto> f m)\<rparr>)"
  by (simp add: upd_sem_def)

lemma get_queue_Some [simp, store_simps]:
  "msg_queues s p = Some q \<Longrightarrow> p \<noteq> NULL \<Longrightarrow> get_queue s p = Some q"
  by (simp add: get_queue_def)

lemma upd_queue_Some [simp, store_simps]:
  "msg_queues s p = Some q \<Longrightarrow> p \<noteq> NULL \<Longrightarrow>
   upd_queue p f s = Some (s\<lparr>msg_queues := (msg_queues s)(p \<mapsto> f q)\<rparr>)"
  by (simp add: upd_queue_def)

section \<open>Priority buckets\<close>

text \<open>\<^verbatim>\<open>_prio_bucket\<close> of \<^verbatim>\<open>task.c\<close>; \<^verbatim>\<open>mutex.c\<close> repeats the same computation inline.\<close>

definition prio_bucket_of :: "u8 \<Rightarrow> u8" where
  "prio_bucket_of prio =
     (let bucket = drop_bit 5 prio in
      if unat bucket \<ge> RTOS_NUM_PRIORITIES then of_nat (RTOS_NUM_PRIORITIES - 1) else bucket)"

lemma unat_prio_bucket_of: "unat (prio_bucket_of p) = unat p div 32"
proof -
  have "unat (drop_bit 5 p) = unat p div 32"
    by (simp add: drop_bit_eq_div unat_div_distrib)
  moreover have "unat p < 256" using unsigned_less [of p, where 'a = nat] by simp
  ultimately show ?thesis by (simp add: prio_bucket_of_def RTOS_NUM_PRIORITIES_def Let_def)
qed

lemma prio_bucket_of_less [simp]: "unat (prio_bucket_of p) < RTOS_NUM_PRIORITIES"
  using unsigned_less [of p, where 'a = nat] by (simp add: unat_prio_bucket_of RTOS_NUM_PRIORITIES_def)

lemma prio_bucket_of_mono: "p \<le> q \<Longrightarrow> unat (prio_bucket_of p) \<le> unat (prio_bucket_of q)"
  by (simp add: unat_prio_bucket_of word_le_nat_alt div_le_mono)

section \<open>Link maps and frames of the task store\<close>

definition ready_link :: "(addr \<rightharpoonup> TCB_t) \<Rightarrow> addr \<rightharpoonup> addr" where
  "ready_link T = (\<lambda>a. map_option next_ready (T a))"

definition wait_link :: "(addr \<rightharpoonup> TCB_t) \<Rightarrow> addr \<rightharpoonup> addr" where
  "wait_link T = (\<lambda>a. map_option mutex_wait_next (T a))"

lemma ready_link_upd [simp]: "ready_link (T(a \<mapsto> t)) = (ready_link T)(a \<mapsto> next_ready t)"
  by (auto simp: ready_link_def)

lemma wait_link_upd [simp]: "wait_link (T(a \<mapsto> t)) = (wait_link T)(a \<mapsto> mutex_wait_next t)"
  by (auto simp: wait_link_def)

lemma ready_link_Some_iff: "ready_link T a = Some r \<longleftrightarrow> (\<exists>t. T a = Some t \<and> next_ready t = r)"
  by (auto simp: ready_link_def)

lemma wait_link_Some_iff: "wait_link T a = Some r \<longleftrightarrow> (\<exists>t. T a = Some t \<and> mutex_wait_next t = r)"
  by (auto simp: wait_link_def)

lemma ready_link_triv [simp]:
  "map_option next_ready (T a) = Some r \<Longrightarrow> (ready_link T)(a \<mapsto> r) = ready_link T"
  by (auto simp: ready_link_def)

lemma wait_link_triv [simp]:
  "map_option mutex_wait_next (T a) = Some r \<Longrightarrow> (wait_link T)(a \<mapsto> r) = wait_link T"
  by (auto simp: wait_link_def)

text \<open>\<open>same_but_ready T T'\<close>: the stores agree except for the ready links of the tasks.\<close>

definition erase_ready :: "TCB_t \<Rightarrow> TCB_t" where
  "erase_ready t = t\<lparr>next_ready := NULL\<rparr>"

definition same_but_ready :: "(addr \<rightharpoonup> TCB_t) \<Rightarrow> (addr \<rightharpoonup> TCB_t) \<Rightarrow> bool" where
  "same_but_ready T T' \<longleftrightarrow> (\<forall>a. map_option erase_ready (T a) = map_option erase_ready (T' a))"

definition erase_wait :: "TCB_t \<Rightarrow> TCB_t" where
  "erase_wait t = t\<lparr>mutex_wait_next := NULL\<rparr>"

definition same_but_wait :: "(addr \<rightharpoonup> TCB_t) \<Rightarrow> (addr \<rightharpoonup> TCB_t) \<Rightarrow> bool" where
  "same_but_wait T T' \<longleftrightarrow> (\<forall>a. map_option erase_wait (T a) = map_option erase_wait (T' a))"

lemma same_but_ready_refl [simp]: "same_but_ready T T"
  by (simp add: same_but_ready_def)

lemma same_but_wait_refl [simp]: "same_but_wait T T"
  by (simp add: same_but_wait_def)

lemma same_but_ready_trans: "same_but_ready T U \<Longrightarrow> same_but_ready U V \<Longrightarrow> same_but_ready T V"
  by (simp add: same_but_ready_def)

lemma same_but_wait_trans: "same_but_wait T U \<Longrightarrow> same_but_wait U V \<Longrightarrow> same_but_wait T V"
  by (simp add: same_but_wait_def)

lemma same_but_ready_upd [simp]:
  "same_but_ready T T' \<Longrightarrow> T' a = Some t \<Longrightarrow> same_but_ready T (T'(a \<mapsto> t\<lparr>next_ready := r\<rparr>))"
  by (auto simp: same_but_ready_def erase_ready_def)

lemma same_but_wait_upd [simp]:
  "same_but_wait T T' \<Longrightarrow> T' a = Some t \<Longrightarrow> same_but_wait T (T'(a \<mapsto> t\<lparr>mutex_wait_next := r\<rparr>))"
  by (auto simp: same_but_wait_def erase_wait_def)

lemma same_but_ready_Some:
  assumes "same_but_ready T T'" and "T a = Some t"
  obtains r where "T' a = Some (t\<lparr>next_ready := r\<rparr>)"
proof -
  from assms have "map_option erase_ready (T' a) = Some (erase_ready t)"
    by (metis option.simps(9) same_but_ready_def)
  then obtain t' where "T' a = Some t'" and "erase_ready t' = erase_ready t"
    by (auto simp: map_option_case split: option.splits)
  moreover then have "t' = t\<lparr>next_ready := next_ready t'\<rparr>"
    by (cases t; cases t') (simp add: erase_ready_def)
  ultimately show thesis using that by metis
qed

lemma same_but_wait_Some:
  assumes "same_but_wait T T'" and "T a = Some t"
  obtains r where "T' a = Some (t\<lparr>mutex_wait_next := r\<rparr>)"
proof -
  from assms have "map_option erase_wait (T' a) = Some (erase_wait t)"
    by (metis option.simps(9) same_but_wait_def)
  then obtain t' where "T' a = Some t'" and "erase_wait t' = erase_wait t"
    by (auto simp: map_option_case split: option.splits)
  moreover then have "t' = t\<lparr>mutex_wait_next := mutex_wait_next t'\<rparr>"
    by (cases t; cases t') (simp add: erase_wait_def)
  ultimately show thesis using that by metis
qed

lemma same_but_ready_None: "same_but_ready T T' \<Longrightarrow> T' a = None \<longleftrightarrow> T a = None"
  by (metis option.map_disc_iff same_but_ready_def)

lemma same_but_wait_None: "same_but_wait T T' \<Longrightarrow> T' a = None \<longleftrightarrow> T a = None"
  by (metis option.map_disc_iff same_but_wait_def)

lemma same_but_ready_wait_link: "same_but_ready T T' \<Longrightarrow> wait_link T' = wait_link T"
proof
  fix a assume eq: "same_but_ready T T'"
  show "wait_link T' a = wait_link T a"
  proof (cases "T a")
    case None
    with eq have "T' a = None" by (simp add: same_but_ready_None)
    with None show ?thesis by (simp add: wait_link_def)
  next
    case (Some t)
    with eq obtain r where "T' a = Some (t\<lparr>next_ready := r\<rparr>)" by (rule same_but_ready_Some)
    with Some show ?thesis by (simp add: wait_link_def)
  qed
qed

lemma same_but_wait_ready_link: "same_but_wait T T' \<Longrightarrow> ready_link T' = ready_link T"
proof
  fix a assume eq: "same_but_wait T T'"
  show "ready_link T' a = ready_link T a"
  proof (cases "T a")
    case None
    with eq have "T' a = None" by (simp add: same_but_wait_None)
    with None show ?thesis by (simp add: ready_link_def)
  next
    case (Some t)
    with eq obtain r where "T' a = Some (t\<lparr>mutex_wait_next := r\<rparr>)" by (rule same_but_wait_Some)
    with Some show ?thesis by (simp add: ready_link_def)
  qed
qed

end
