(* ===== verification/Rtos_Scheduler.thy ===== *)
theory Rtos_Scheduler
  imports Rtos_Types
begin

text \<open>
  The scheduler of \<^verbatim>\<open>src/core/scheduler.c\<close>: eight circular ready rings linked through
  \<open>next_ready\<close>, selection of the next task, and the time-slice check. The abstract view of
  the rings is a function from bucket numbers to lists of tasks, in ring order from the
  head; \<open>ready_rel\<close> relates the pointers to it, and every operation is shown to implement
  an operation on these lists: append, remove, rotate.
\<close>

section \<open>Operations\<close>

definition scheduler_init :: "kernel \<Rightarrow> kernel" where
  "scheduler_init s =
     s\<lparr>ready_head := replicate RTOS_NUM_PRIORITIES NULL, current_tcb := NULL, idle_tcb := NULL\<rparr>"

text \<open>The loop \<^verbatim>\<open>while (tail->next_ready != head) tail = tail->next_ready\<close>.\<close>

partial_function (option) ring_tail :: "(addr \<rightharpoonup> TCB_t) \<Rightarrow> addr \<Rightarrow> addr \<Rightarrow> addr option" where
  "ring_tail T head tail = do {
     t \<leftarrow> fetch T tail;
     if next_ready t \<noteq> head then ring_tail T head (next_ready t) else Some tail
   }"

definition ring_insert :: "u8 \<Rightarrow> addr \<Rightarrow> kernel \<Rightarrow> kernel option" where
  "ring_insert bucket tcb s = do {
     head \<leftarrow> arr_get (ready_head s) (unat bucket);
     if head = NULL then do {
       s \<leftarrow> upd_tcb tcb (\<lambda>t. t\<lparr>next_ready := tcb\<rparr>) s;
       rh \<leftarrow> arr_set (unat bucket) tcb (ready_head s);
       Some (s\<lparr>ready_head := rh\<rparr>)
     } else do {
       tail \<leftarrow> ring_tail (tcbs s) head head;
       s \<leftarrow> upd_tcb tail (\<lambda>t. t\<lparr>next_ready := tcb\<rparr>) s;
       upd_tcb tcb (\<lambda>t. t\<lparr>next_ready := head\<rparr>) s
     }
   }"

definition scheduler_add_task :: "addr \<Rightarrow> kernel \<Rightarrow> (rtos_status_t \<times> kernel) option" where
  "scheduler_add_task tcb s =
     (if tcb = NULL then Some (RTOS_ERR_PARAM, s)
      else do {
        t \<leftarrow> get_tcb s tcb;
        if state t = TASK_STATE_TERMINATED then Some (RTOS_ERR_STATE, s)
        else do {
          s \<leftarrow> ring_insert (prio_bucket t) tcb s;
          t \<leftarrow> get_tcb s tcb;
          s \<leftarrow> (if state t \<noteq> TASK_STATE_BLOCKED \<and> state t \<noteq> TASK_STATE_SUSPENDED
               then upd_tcb tcb (\<lambda>t. t\<lparr>state := TASK_STATE_READY\<rparr>) s else Some s);
          Some (RTOS_OK, s)
        }
      })"

text \<open>
  The search loop of \<open>scheduler_remove_task\<close>: \<open>Some (Some prev)\<close> when \<open>tcb\<close> is found,
  with its predecessor (\<open>NULL\<close> at the head); \<open>Some None\<close> when the walk is back at the head.
\<close>

partial_function (option) ring_find ::
    "(addr \<rightharpoonup> TCB_t) \<Rightarrow> addr \<Rightarrow> addr \<Rightarrow> addr \<Rightarrow> addr \<Rightarrow> addr option option" where
  "ring_find T head tcb prev walk =
     (if walk = tcb then Some (Some prev)
      else do {
        w \<leftarrow> fetch T walk;
        if next_ready w = head then Some None
        else ring_find T head tcb walk (next_ready w)
      })"

definition scheduler_remove_task :: "addr \<Rightarrow> kernel \<Rightarrow> kernel option" where
  "scheduler_remove_task tcb s =
     (if tcb = NULL then Some s
      else do {
        t \<leftarrow> get_tcb s tcb;
        head \<leftarrow> arr_get (ready_head s) (unat (prio_bucket t));
        if head = NULL then Some s
        else do {
          found \<leftarrow> ring_find (tcbs s) head tcb NULL head;
          case found of
            None \<Rightarrow> Some s
          | Some prev \<Rightarrow> do {
              s \<leftarrow> (if next_ready t = tcb then do {
                       rh \<leftarrow> arr_set (unat (prio_bucket t)) NULL (ready_head s);
                       Some (s\<lparr>ready_head := rh\<rparr>)
                     }
                   else if prev = NULL then do {
                       tail \<leftarrow> ring_tail (tcbs s) head head;
                       s \<leftarrow> upd_tcb tail (\<lambda>u. u\<lparr>next_ready := next_ready t\<rparr>) s;
                       rh \<leftarrow> arr_set (unat (prio_bucket t)) (next_ready t) (ready_head s);
                       Some (s\<lparr>ready_head := rh\<rparr>)
                     }
                   else upd_tcb prev (\<lambda>u. u\<lparr>next_ready := next_ready t\<rparr>) s);
              upd_tcb tcb (\<lambda>u. u\<lparr>next_ready := NULL\<rparr>) s
            }
        }
      })"

definition scheduler_rebucket_task :: "addr \<Rightarrow> u8 \<Rightarrow> u8 \<Rightarrow> kernel \<Rightarrow> kernel option" where
  "scheduler_rebucket_task tcb old_bucket new_bucket s =
     (if tcb = NULL \<or> old_bucket = new_bucket then Some s
      else do {
        t \<leftarrow> get_tcb s tcb;
        if state t = TASK_STATE_READY then do {
          s \<leftarrow> upd_tcb tcb (\<lambda>t. t\<lparr>prio_bucket := old_bucket\<rparr>) s;
          s \<leftarrow> scheduler_remove_task tcb s;
          s \<leftarrow> upd_tcb tcb (\<lambda>t. t\<lparr>prio_bucket := new_bucket\<rparr>) s;
          (_, s) \<leftarrow> scheduler_add_task tcb s;
          Some s
        } else upd_tcb tcb (\<lambda>t. t\<lparr>prio_bucket := new_bucket\<rparr>) s
      })"

text \<open>The scan of the buckets: the first index with a non-null head.\<close>

fun scan_ready :: "addr list \<Rightarrow> nat \<Rightarrow> nat option" where
  "scan_ready [] p = None"
| "scan_ready (h # hs) p = (if h \<noteq> NULL then Some p else scan_ready hs (Suc p))"

definition scheduler_get_next :: "kernel \<Rightarrow> (addr \<times> kernel) option" where
  "scheduler_get_next s = do {
     let prev = current_tcb s;
     s \<leftarrow> (if prev \<noteq> NULL then do {
              t \<leftarrow> get_tcb s prev;
              if state t = TASK_STATE_RUNNING
              then upd_tcb prev (\<lambda>t. t\<lparr>state := TASK_STATE_READY\<rparr>) s else Some s
            } else Some s);
     case scan_ready (ready_head s) 0 of
       Some p \<Rightarrow> do {
         sel \<leftarrow> arr_get (ready_head s) p;
         t \<leftarrow> get_tcb s sel;
         rh \<leftarrow> arr_set p (next_ready t) (ready_head s);
         s \<leftarrow> upd_tcb sel (\<lambda>t. t\<lparr>state := TASK_STATE_RUNNING, time_slice_counter := 0\<rparr>)
               (s\<lparr>ready_head := rh\<rparr>);
         Some (sel, s\<lparr>current_tcb := sel\<rparr>)
       }
     | None \<Rightarrow>
         if idle_tcb s \<noteq> NULL then do {
           s \<leftarrow> upd_tcb (idle_tcb s)
                 (\<lambda>t. t\<lparr>state := TASK_STATE_RUNNING, time_slice_counter := 0\<rparr>) s;
           Some (idle_tcb s, s\<lparr>current_tcb := idle_tcb s\<rparr>)
         } else None
   }"

definition scheduler_mark_reschedule :: "kernel \<Rightarrow> kernel" where
  "scheduler_mark_reschedule s = s\<lparr>icsr := 0x10000000\<rparr>"

definition scheduler_time_slice_tick :: "kernel \<Rightarrow> kernel option" where
  "scheduler_time_slice_tick s =
     (let cur = current_tcb s in
      if cur = NULL \<or> cur = idle_tcb s then Some s
      else do {
        t \<leftarrow> get_tcb s cur;
        if state t \<noteq> TASK_STATE_RUNNING then Some s
        else do {
          s \<leftarrow> upd_tcb cur (\<lambda>t. t\<lparr>time_slice_counter := time_slice_counter t + 1\<rparr>) s;
          t \<leftarrow> get_tcb s cur;
          if time_slice_counter t < RTOS_TIME_SLICE_TICKS then Some s
          else do {
            head \<leftarrow> arr_get (ready_head s) (unat (prio_bucket t));
            alone \<leftarrow> (if head = NULL then Some True
                      else do { h \<leftarrow> get_tcb s head; Some (next_ready h = head) });
            s \<leftarrow> upd_tcb cur (\<lambda>t. t\<lparr>time_slice_counter := 0\<rparr>) s;
            Some (if alone then s else scheduler_mark_reschedule s)
          }
        }
      })"

section \<open>Abstraction of the ready rings\<close>

type_synonym ready_queues = "nat \<Rightarrow> addr list"

definition ready_rel :: "kernel \<Rightarrow> ready_queues \<Rightarrow> bool" where
  "ready_rel s Q \<longleftrightarrow>
     length (ready_head s) = RTOS_NUM_PRIORITIES \<and>
     (\<forall>b < RTOS_NUM_PRIORITIES. ring (ready_link (tcbs s)) (ready_head s ! b) (Q b)) \<and>
     (\<forall>b < RTOS_NUM_PRIORITIES. \<forall>c < RTOS_NUM_PRIORITIES. b \<noteq> c \<longrightarrow> set (Q b) \<inter> set (Q c) = {})"

definition queued :: "ready_queues \<Rightarrow> addr set" where
  "queued Q = (\<Union>b<RTOS_NUM_PRIORITIES. set (Q b))"

text \<open>An operation on the rings changes nothing but \<open>ready_head\<close> and the ready links.\<close>

definition ready_frame :: "kernel \<Rightarrow> kernel \<Rightarrow> bool" where
  "ready_frame s s' \<longleftrightarrow>
     (\<exists>T rh. s' = s\<lparr>tcbs := T, ready_head := rh\<rparr> \<and> same_but_ready (tcbs s) T)"

lemma ready_rel_ring:
  "ready_rel s Q \<Longrightarrow> b < RTOS_NUM_PRIORITIES \<Longrightarrow> ring (ready_link (tcbs s)) (ready_head s ! b) (Q b)"
  by (simp add: ready_rel_def)

lemma ready_rel_length [simp]: "ready_rel s Q \<Longrightarrow> length (ready_head s) = RTOS_NUM_PRIORITIES"
  by (simp add: ready_rel_def)

lemma ready_rel_live:
  "ready_rel s Q \<Longrightarrow> b < RTOS_NUM_PRIORITIES \<Longrightarrow> t \<in> set (Q b) \<Longrightarrow> t \<noteq> NULL \<and> (\<exists>x. tcbs s t = Some x)"
  by (metis ready_rel_ring ring_live ready_link_Some_iff)

lemma ready_rel_unique:
  "ready_rel s Q \<Longrightarrow> ready_rel s Q' \<Longrightarrow> b < RTOS_NUM_PRIORITIES \<Longrightarrow> Q' b = Q b"
  using ready_rel_ring ring_unique by blast

lemma ready_rel_more [simp]:
  "ready_rel (s\<lparr>mutexes := M\<rparr>) Q = ready_rel s Q"
  "ready_rel (s\<lparr>semaphores := S\<rparr>) Q = ready_rel s Q"
  "ready_rel (s\<lparr>msg_queues := U\<rparr>) Q = ready_rel s Q"
  "ready_rel (s\<lparr>ram := R\<rparr>) Q = ready_rel s Q"
  "ready_rel (s\<lparr>current_tcb := c\<rparr>) Q = ready_rel s Q"
  "ready_rel (s\<lparr>icsr := i\<rparr>) Q = ready_rel s Q"
  "ready_rel (s\<lparr>primask := p\<rparr>) Q = ready_rel s Q"
  by (simp_all add: ready_rel_def)

lemma queuedI: "b < RTOS_NUM_PRIORITIES \<Longrightarrow> t \<in> set (Q b) \<Longrightarrow> t \<in> queued Q"
  by (auto simp: queued_def)

text \<open>Changing one bucket: the other rings must not see the changed links.\<close>

lemma ready_rel_update:
  assumes rel: "ready_rel s Q" and b: "b < RTOS_NUM_PRIORITIES"
    and len: "length (ready_head s') = RTOS_NUM_PRIORITIES"
    and new: "ring (ready_link (tcbs s')) (ready_head s' ! b) xs"
    and heads: "\<And>c. c < RTOS_NUM_PRIORITIES \<Longrightarrow> c \<noteq> b \<Longrightarrow> ready_head s' ! c = ready_head s ! c"
    and links: "\<And>c x. c < RTOS_NUM_PRIORITIES \<Longrightarrow> c \<noteq> b \<Longrightarrow> x \<in> set (Q c) \<Longrightarrow>
                  ready_link (tcbs s') x = ready_link (tcbs s) x"
    and disj: "\<And>c. c < RTOS_NUM_PRIORITIES \<Longrightarrow> c \<noteq> b \<Longrightarrow> set xs \<inter> set (Q c) = {}"
  shows "ready_rel s' (Q(b := xs))"
proof -
  have "ring (ready_link (tcbs s')) (ready_head s' ! c) ((Q(b := xs)) c)"
    if c: "c < RTOS_NUM_PRIORITIES" for c
  proof (cases "c = b")
    case True
    with new show ?thesis by simp
  next
    case False
    have "ring (ready_link (tcbs s)) (ready_head s ! c) (Q c)"
      using rel c by (rule ready_rel_ring)
    with False c heads links show ?thesis
      by (simp add: ring_cong [of "Q c" "ready_link (tcbs s')" "ready_link (tcbs s)"])
  qed
  moreover have "set ((Q(b := xs)) c) \<inter> set ((Q(b := xs)) d) = {}"
    if "c < RTOS_NUM_PRIORITIES" "d < RTOS_NUM_PRIORITIES" "c \<noteq> d" for c d
    using rel that disj [of c] disj [of d] by (auto simp: ready_rel_def)
  ultimately show ?thesis using len by (simp add: ready_rel_def)
qed

section \<open>The walks around a ring\<close>

lemma ring_tail_path:
  "link_path (ready_link T) p xs head \<Longrightarrow> xs \<noteq> [] \<Longrightarrow> head \<notin> set (tl xs) \<Longrightarrow>
   ring_tail T head p = Some (last xs)"
proof (induction xs arbitrary: p)
  case Nil
  then show ?case by simp
next
  case (Cons x xs)
  obtain t where t: "T x = Some t" "p = x" "x \<noteq> NULL" "link_path (ready_link T) (next_ready t) xs head"
    using Cons.prems(1) by (auto simp: ready_link_Some_iff)
  show ?case
  proof (cases "xs = []")
    case True
    with t show ?thesis by (simp add: ring_tail.simps [of T head x])
  next
    case False
    with t Cons.prems have "next_ready t \<noteq> head" and "head \<notin> set (tl xs)"
      by (cases xs; auto)+
    with t False Cons.IH [OF t(4)] show ?thesis
      by (simp add: ring_tail.simps [of T head x])
  qed
qed

lemma ring_tail_ring:
  assumes "ring (ready_link T) p xs" and "xs \<noteq> []"
  shows "ring_tail T p p = Some (last xs)"
proof (rule ring_tail_path)
  show "link_path (ready_link T) p xs p" using assms by (simp add: ring_def)
  show "p \<notin> set (tl xs)" using assms ring_hd [OF assms] by (cases xs) (auto simp: ring_def)
qed (fact assms)

lemma ring_find_found:
  "link_path (ready_link T) p (xs @ t # ys) head \<Longrightarrow> t \<notin> set xs \<Longrightarrow> head \<notin> set (tl (xs @ t # ys)) \<Longrightarrow>
   ring_find T head t prev p = Some (Some (if xs = [] then prev else last xs))"
proof (induction xs arbitrary: p prev)
  case Nil
  then show ?case by (simp add: ring_find.simps [of T head t prev t])
next
  case (Cons x xs)
  obtain u where u: "T x = Some u" "p = x" "x \<noteq> NULL"
      "link_path (ready_link T) (next_ready u) (xs @ t # ys) head"
    using Cons.prems(1) by (auto simp: ready_link_Some_iff)
  have "next_ready u \<noteq> head"
    using u(4) Cons.prems(3) by (cases xs) auto
  moreover have "head \<notin> set (tl (xs @ t # ys))" using Cons.prems(3) by (cases xs) auto
  ultimately show ?case
    using u Cons.prems(2) Cons.IH [OF u(4)] by (auto simp: ring_find.simps [of T head t prev x])
qed

lemma ring_find_absent:
  "link_path (ready_link T) p xs head \<Longrightarrow> xs \<noteq> [] \<Longrightarrow> t \<notin> set xs \<Longrightarrow> head \<notin> set (tl xs) \<Longrightarrow>
   ring_find T head t prev p = Some None"
proof (induction xs arbitrary: p prev)
  case Nil
  then show ?case by simp
next
  case (Cons x xs)
  obtain u where u: "T x = Some u" "p = x" "x \<noteq> NULL" "link_path (ready_link T) (next_ready u) xs head"
    using Cons.prems(1) by (auto simp: ready_link_Some_iff)
  show ?case
  proof (cases "xs = []")
    case True
    with u Cons.prems show ?thesis by (simp add: ring_find.simps [of T head t prev x])
  next
    case False
    with u Cons.prems have "next_ready u \<noteq> head" and "head \<notin> set (tl xs)"
      by (cases xs; auto)+
    with u False Cons.prems Cons.IH [OF u(4)] show ?thesis
      by (auto simp: ring_find.simps [of T head t prev x])
  qed
qed

section \<open>Refinement of the ring operations\<close>

lemma ready_frame_refl [simp]: "ready_frame s s"
proof -
  have "s = s\<lparr>tcbs := tcbs s, ready_head := ready_head s\<rparr>" by simp
  then show ?thesis unfolding ready_frame_def by (metis same_but_ready_refl)
qed

lemma ready_frameI: "same_but_ready (tcbs s) T \<Longrightarrow> ready_frame s (s\<lparr>tcbs := T, ready_head := rh\<rparr>)"
  by (auto simp: ready_frame_def)

lemma ready_frameI_tcbs: "same_but_ready (tcbs s) T \<Longrightarrow> ready_frame s (s\<lparr>tcbs := T\<rparr>)"
  using ready_frameI [of s T "ready_head s"] by simp

lemma ready_frame_sel:
  assumes "ready_frame s s'"
  shows "mutexes s' = mutexes s" "semaphores s' = semaphores s" "msg_queues s' = msg_queues s"
    "sw_timers s' = sw_timers s" "ram s' = ram s" "stack_mem s' = stack_mem s"
    "current_tcb s' = current_tcb s" "idle_tcb s' = idle_tcb s"
    "task_registry s' = task_registry s" "task_registry_count s' = task_registry_count s"
    "s_rtos_tick_count s' = s_rtos_tick_count s" "timer_list s' = timer_list s"
    "heap_blocks s' = heap_blocks s" "free_list s' = free_list s" "heap_ready s' = heap_ready s"
    "icsr s' = icsr s" "primask s' = primask s"
  using assms by (auto simp: ready_frame_def)

lemma ready_frame_tcb:
  assumes "ready_frame s s'" and "tcbs s a = Some t"
  obtains r where "tcbs s' a = Some (t\<lparr>next_ready := r\<rparr>)"
  using assms by (auto simp: ready_frame_def elim: same_but_ready_Some)

lemma ready_frame_wait_link: "ready_frame s s' \<Longrightarrow> wait_link (tcbs s') = wait_link (tcbs s)"
  by (auto simp: ready_frame_def same_but_ready_wait_link)

lemma ready_frame_trans: "ready_frame s s' \<Longrightarrow> ready_frame s' s'' \<Longrightarrow> ready_frame s s''"
proof -
  assume "ready_frame s s'" and "ready_frame s' s''"
  then obtain T rh U rh' where "s'' = s\<lparr>tcbs := U, ready_head := rh'\<rparr>"
    and "same_but_ready (tcbs s) T" and "same_but_ready T U"
    by (auto simp: ready_frame_def)
  then show ?thesis by (simp add: ready_frameI same_but_ready_trans)
qed

text \<open>
  Whatever its arguments, a scheduler operation that returns has written control blocks and
  ring heads only.
\<close>

definition sched_core :: "kernel \<Rightarrow> kernel" where
  "sched_core s = s\<lparr>tcbs := Map.empty, ready_head := []\<rparr>"

lemma sched_core_upd [simp]:
  "sched_core (s\<lparr>tcbs := T\<rparr>) = sched_core s" "sched_core (s\<lparr>ready_head := rh\<rparr>) = sched_core s"
  by (simp_all add: sched_core_def)

lemma sched_core_sel:
  assumes "sched_core s' = sched_core s"
  shows "mutexes s' = mutexes s" "semaphores s' = semaphores s" "msg_queues s' = msg_queues s"
    "ram s' = ram s" "current_tcb s' = current_tcb s" "s_rtos_tick_count s' = s_rtos_tick_count s"
    "icsr s' = icsr s" "primask s' = primask s" "task_registry s' = task_registry s"
    "task_registry_count s' = task_registry_count s" "idle_tcb s' = idle_tcb s"
  using assms by (auto simp: sched_core_def elim: kernel.cases dest: arg_cong [of _ _ mutexes]
    arg_cong [of _ _ semaphores] arg_cong [of _ _ msg_queues] arg_cong [of _ _ ram]
    arg_cong [of _ _ current_tcb] arg_cong [of _ _ s_rtos_tick_count] arg_cong [of _ _ icsr]
    arg_cong [of _ _ primask] arg_cong [of _ _ task_registry] arg_cong [of _ _ task_registry_count]
    arg_cong [of _ _ idle_tcb])

lemma upd_tcb_core: "upd_tcb a f s = Some s' \<Longrightarrow> sched_core s' = sched_core s"
  by (auto simp: upd_tcb_def)

lemma ring_insert_core: "ring_insert b a s = Some s' \<Longrightarrow> sched_core s' = sched_core s"
  by (auto simp: ring_insert_def split: if_splits bind_splits dest!: upd_tcb_core)

lemma add_core: "scheduler_add_task a s = Some (r, s') \<Longrightarrow> sched_core s' = sched_core s"
  by (auto simp: scheduler_add_task_def split: if_splits bind_splits dest!: upd_tcb_core ring_insert_core)

lemma remove_core: "scheduler_remove_task a s = Some s' \<Longrightarrow> sched_core s' = sched_core s"
  by (auto simp: scheduler_remove_task_def split: if_splits bind_splits option.splits dest!: upd_tcb_core)

lemma rebucket_core: "scheduler_rebucket_task a b c s = Some s' \<Longrightarrow> sched_core s' = sched_core s"
  by (auto simp: scheduler_rebucket_task_def split: if_splits bind_splits
      dest!: upd_tcb_core add_core remove_core)

text \<open>Inserting a task that is in no ring appends it to the ring of the bucket.\<close>

lemma ring_insert_refines:
  assumes rel: "ready_rel s Q" and t: "tcbs s tcb = Some t" "tcb \<noteq> NULL"
    and b: "unat bucket < RTOS_NUM_PRIORITIES" and new: "tcb \<notin> queued Q"
  obtains s' where "ring_insert bucket tcb s = Some s'"
    and "ready_rel s' (Q(unat bucket := Q (unat bucket) @ [tcb]))" and "ready_frame s s'"
proof -
  let ?b = "unat bucket" and ?h = "ready_link (tcbs s)"
  have ring: "ring ?h (ready_head s ! ?b) (Q ?b)" using rel b by (rule ready_rel_ring)
  have notin: "tcb \<notin> set (Q c)" if "c < RTOS_NUM_PRIORITIES" for c
    using new that by (auto simp: queued_def)
  have disj: "set (Q ?b) \<inter> set (Q c) = {}" if "c < RTOS_NUM_PRIORITIES" "c \<noteq> ?b" for c
    using rel b that by (auto simp: ready_rel_def)
  have len: "?b < length (ready_head s)" using rel b by simp
  show thesis
  proof (cases "Q ?b = []")
    case True
    then have head: "ready_head s ! ?b = NULL" using ring by simp
    let ?s = "s\<lparr>tcbs := (tcbs s)(tcb \<mapsto> t\<lparr>next_ready := tcb\<rparr>),
                ready_head := (ready_head s)[?b := tcb]\<rparr>"
    have "ring_insert bucket tcb s = Some ?s"
      using t len head by (simp add: ring_insert_def)
    moreover have "ready_rel ?s (Q(?b := Q ?b @ [tcb]))"
      by (rule ready_rel_update [OF rel b])
         (use rel b t notin len True in \<open>auto simp: ring_single\<close>)
    moreover have "ready_frame s ?s" by (rule ready_frameI) (simp add: t)
    ultimately show thesis by (rule that)
  next
    case False
    let ?head = "ready_head s ! ?b"
    have head: "?head \<noteq> NULL" using ring False by auto
    have tail: "ring_tail (tcbs s) ?head ?head = Some (last (Q ?b))"
      using ring False by (rule ring_tail_ring)
    have "last (Q ?b) \<in> set (Q ?b)" using False by simp
    then obtain l where l: "tcbs s (last (Q ?b)) = Some l" "last (Q ?b) \<noteq> NULL"
      using ready_rel_live [OF rel b] by blast
    have ne: "last (Q ?b) \<noteq> tcb" using notin [OF b] False by auto
    let ?s = "s\<lparr>tcbs := (tcbs s)(last (Q ?b) \<mapsto> l\<lparr>next_ready := tcb\<rparr>,
                                tcb \<mapsto> t\<lparr>next_ready := ?head\<rparr>)\<rparr>"
    have "ring_insert bucket tcb s = Some ?s"
      using t l len head tail ne by (simp add: ring_insert_def)
    moreover have "ready_rel ?s (Q(?b := Q ?b @ [tcb]))"
    proof (rule ready_rel_update [OF rel b])
      show "ring (ready_link (tcbs ?s)) (ready_head ?s ! ?b) (Q ?b @ [tcb])"
        using ring_insert_tail [OF ring False notin [OF b] t(2)] by simp
      fix c x assume c: "c < RTOS_NUM_PRIORITIES" "c \<noteq> ?b" and x: "x \<in> set (Q c)"
      then have "x \<noteq> last (Q ?b)" using last_disjoint [OF False disj [OF c]] by auto
      moreover have "x \<noteq> tcb" using notin [OF c(1)] x by auto
      ultimately show "ready_link (tcbs ?s) x = ready_link (tcbs s) x" by simp
    qed (use rel disj notin in auto)
    moreover have "ready_frame s ?s"
      by (rule ready_frameI_tcbs) (use t l ne in simp)
    ultimately show thesis by (rule that)
  qed
qed

lemma ready_rel_cong:
  "ready_head s' = ready_head s \<Longrightarrow> ready_link (tcbs s') = ready_link (tcbs s) \<Longrightarrow>
   ready_rel s' Q = ready_rel s Q"
  by (simp add: ready_rel_def)

lemma ready_rel_tcb_upd:
  "ready_rel s Q \<Longrightarrow> tcbs s a = Some t \<Longrightarrow> next_ready t' = next_ready t \<Longrightarrow>
   ready_rel (s\<lparr>tcbs := (tcbs s)(a \<mapsto> t')\<rparr>) Q"
  by (simp add: ready_rel_def)

text \<open>Removing a task takes it out of the ring of its bucket, if it is there.\<close>

lemma ready_rel_remove1:
  assumes rel: "ready_rel s Q" and b: "b < RTOS_NUM_PRIORITIES" and split: "Q b = xs @ tcb # ys"
    and len: "length (ready_head s') = RTOS_NUM_PRIORITIES"
    and ring: "ring (ready_link (tcbs s')) (ready_head s' ! b) (xs @ ys)"
    and heads: "\<And>c. c < RTOS_NUM_PRIORITIES \<Longrightarrow> c \<noteq> b \<Longrightarrow> ready_head s' ! c = ready_head s ! c"
    and links: "\<And>x. x \<notin> set (Q b) \<Longrightarrow> ready_link (tcbs s') x = ready_link (tcbs s) x"
  shows "ready_rel s' (Q(b := remove1 tcb (Q b)))"
proof -
  have disj: "set (Q b) \<inter> set (Q c) = {}" if "c < RTOS_NUM_PRIORITIES" "c \<noteq> b" for c
    using rel b that by (auto simp: ready_rel_def)
  have "distinct (Q b)" using ready_rel_ring [OF rel b] by (rule ring_distinct)
  then have rm: "remove1 tcb (Q b) = xs @ ys" using split by (simp add: remove1_append)
  show ?thesis unfolding rm
  proof (rule ready_rel_update [OF rel b len ring heads])
    fix c assume c: "c < RTOS_NUM_PRIORITIES" "c \<noteq> b"
    show "set (xs @ ys) \<inter> set (Q c) = {}" using disj [OF c] split by auto
    fix x assume "x \<in> set (Q c)"
    then have "x \<notin> set (Q b)" using disj [OF c] by auto
    then show "ready_link (tcbs s') x = ready_link (tcbs s) x" by (rule links)
  qed
qed

lemma scheduler_remove_absent:
  assumes rel: "ready_rel s Q" and t: "tcbs s tcb = Some t" "tcb \<noteq> NULL"
    and b: "unat (prio_bucket t) < RTOS_NUM_PRIORITIES" and out: "tcb \<notin> set (Q (unat (prio_bucket t)))"
  shows "scheduler_remove_task tcb s = Some s"
proof -
  let ?b = "unat (prio_bucket t)"
  have ring: "ring (ready_link (tcbs s)) (ready_head s ! ?b) (Q ?b)" using rel b by (rule ready_rel_ring)
  show ?thesis
  proof (cases "Q ?b = []")
    case True
    with ring t b rel show ?thesis by (simp add: scheduler_remove_task_def)
  next
    case False
    then have "ring_find (tcbs s) (ready_head s ! ?b) tcb NULL (ready_head s ! ?b) = Some None"
      using ring out ring_hd [OF ring False]
      by (intro ring_find_absent [of _ _ "Q ?b"]) (cases "Q ?b"; auto simp: ring_def)+
    with t b rel show ?thesis by (simp add: scheduler_remove_task_def)
  qed
qed

lemma remove_search:
  assumes rel: "ready_rel s Q" and b: "b < RTOS_NUM_PRIORITIES" and split: "Q b = xs @ tcb # ys"
  shows "ring (ready_link (tcbs s)) (ready_head s ! b) (xs @ tcb # ys)" and "ready_head s ! b = hd (xs @ tcb # ys)"
    and "ready_head s ! b \<noteq> NULL" and "distinct (xs @ tcb # ys)" and "b < length (ready_head s)"
    and "x \<in> set (xs @ tcb # ys) \<Longrightarrow> \<exists>u. x \<noteq> NULL \<and> tcbs s x = Some u"
    and "ring_find (tcbs s) (ready_head s ! b) tcb NULL (ready_head s ! b) = Some (Some (if xs = [] then NULL else last xs))"
proof -
  let ?h = "ready_link (tcbs s)" and ?head = "ready_head s ! b"
  show ring: "ring ?h ?head (xs @ tcb # ys)" using ready_rel_ring [OF rel b] split by simp
  show hd: "?head = hd (xs @ tcb # ys)" using ring by (rule ring_hd) simp
  show "?head \<noteq> NULL" using ring by auto
  show ds: "distinct (xs @ tcb # ys)" using ring by (rule ring_distinct)
  show "b < length (ready_head s)" using rel b by simp
  show "x \<in> set (xs @ tcb # ys) \<Longrightarrow> \<exists>u. x \<noteq> NULL \<and> tcbs s x = Some u" using ready_rel_live [OF rel b] split by auto
  show "ring_find (tcbs s) ?head tcb NULL ?head = Some (Some (if xs = [] then NULL else last xs))"
  proof (rule ring_find_found)
    show "link_path ?h ?head (xs @ tcb # ys) ?head" using ring by (simp add: ring_def)
    show "?head \<notin> set (tl (xs @ tcb # ys))" using hd ds by (cases xs) auto
  qed (use ds in auto)
qed

text \<open>The task is alone in its ring, the head of it, or behind another task.\<close>

lemma scheduler_remove_single:
  assumes rel: "ready_rel s Q" and t: "tcbs s tcb = Some t" "tcb \<noteq> NULL"
    and b: "unat (prio_bucket t) < RTOS_NUM_PRIORITIES" and split: "Q (unat (prio_bucket t)) = [] @ tcb # []"
  obtains s' where "scheduler_remove_task tcb s = Some s'"
    and "ready_rel s' (Q(unat (prio_bucket t) := remove1 tcb (Q (unat (prio_bucket t)))))" and "ready_frame s s'"
proof -
  let ?b = "unat (prio_bucket t)"
  note f = remove_search [OF rel b split]
  have nx: "next_ready t = tcb" using f(1,2) t by (auto simp: ring_def ready_link_def)
  let ?s = "s\<lparr>tcbs := (tcbs s)(tcb \<mapsto> t\<lparr>next_ready := NULL\<rparr>), ready_head := (ready_head s)[?b := NULL]\<rparr>"
  have "scheduler_remove_task tcb s = Some ?s" using t f(3,5,7) nx by (simp add: scheduler_remove_task_def)
  moreover have "ready_rel ?s (Q(?b := remove1 tcb (Q ?b)))"
    by (rule ready_rel_remove1 [OF rel b split]) (use rel f(5) split in auto)
  moreover have "ready_frame s ?s" by (rule ready_frameI) (simp add: t)
  ultimately show thesis by (rule that)
qed

lemma scheduler_remove_head:
  assumes rel: "ready_rel s Q" and t: "tcbs s tcb = Some t" "tcb \<noteq> NULL"
    and b: "unat (prio_bucket t) < RTOS_NUM_PRIORITIES" and split: "Q (unat (prio_bucket t)) = [] @ tcb # ys" and ys: "ys \<noteq> []"
  obtains s' where "scheduler_remove_task tcb s = Some s'"
    and "ready_rel s' (Q(unat (prio_bucket t) := remove1 tcb (Q (unat (prio_bucket t)))))" and "ready_frame s s'"
proof -
  let ?b = "unat (prio_bucket t)" and ?h = "ready_link (tcbs s)"
  note f = remove_search [OF rel b split]
  note ring = f(1)
  have hdt: "ready_head s ! ?b = tcb" using f(2) by simp
  have nx: "next_ready t = hd ys"
    using ring_remove_head(1) [of ?h tcb ys] ring hdt ys t by (simp add: ready_link_def)
  obtain l where l: "tcbs s (last ys) = Some l" "last ys \<noteq> NULL" using f(6) [of "last ys"] ys by auto
  have ne: "last ys \<noteq> tcb" "hd ys \<noteq> tcb" using f(4) ys by auto
  have tail: "ring_tail (tcbs s) tcb tcb = Some (last ys)" using ring_tail_ring [OF ring] hdt ys by simp
  let ?s = "s\<lparr>tcbs := (tcbs s)(last ys \<mapsto> l\<lparr>next_ready := hd ys\<rparr>, tcb \<mapsto> t\<lparr>next_ready := NULL\<rparr>),
              ready_head := (ready_head s)[?b := hd ys]\<rparr>"
  have "scheduler_remove_task tcb s = Some ?s" using t f(3,5,7) nx l ne tail hdt by (simp add: scheduler_remove_task_def)
  moreover have "ready_rel ?s (Q(?b := remove1 tcb (Q ?b)))"
  proof (rule ready_rel_remove1 [OF rel b split])
    show "ring (ready_link (tcbs ?s)) (ready_head ?s ! ?b) ([] @ ys)"
      using ring_remove_head(2) [of ?h tcb ys "Some NULL"] ring hdt ys f(5) by simp
  qed (use rel f(5) split ys in auto)
  moreover have "ready_frame s ?s" by (rule ready_frameI) (use t l ne in simp)
  ultimately show thesis by (rule that)
qed

lemma scheduler_remove_inner:
  assumes rel: "ready_rel s Q" and t: "tcbs s tcb = Some t" "tcb \<noteq> NULL"
    and b: "unat (prio_bucket t) < RTOS_NUM_PRIORITIES" and split: "Q (unat (prio_bucket t)) = xs @ tcb # ys" and xs: "xs \<noteq> []"
  obtains s' where "scheduler_remove_task tcb s = Some s'"
    and "ready_rel s' (Q(unat (prio_bucket t) := remove1 tcb (Q (unat (prio_bucket t)))))" and "ready_frame s s'"
proof -
  let ?b = "unat (prio_bucket t)"
  note f = remove_search [OF rel b split]
  note ring = f(1)
  let ?r = "if ys = [] then ready_head s ! ?b else hd ys"
  have nx: "next_ready t = ?r" using ring_remove_inner(1) [OF ring xs] t by (simp add: ready_link_def)
  obtain l where l: "tcbs s (last xs) = Some l" "last xs \<noteq> NULL" using f(6) [of "last xs"] xs by auto
  have ne: "last xs \<noteq> tcb" "?r \<noteq> tcb" using f(4) xs f(2) by (auto simp: hd_append)
  let ?s = "s\<lparr>tcbs := (tcbs s)(last xs \<mapsto> l\<lparr>next_ready := ?r\<rparr>, tcb \<mapsto> t\<lparr>next_ready := NULL\<rparr>)\<rparr>"
  have "scheduler_remove_task tcb s = Some ?s" using t f(3,5,7) xs nx l ne by (simp add: scheduler_remove_task_def)
  moreover have "ready_rel ?s (Q(?b := remove1 tcb (Q ?b)))"
  proof (rule ready_rel_remove1 [OF rel b split])
    show "ring (ready_link (tcbs ?s)) (ready_head ?s ! ?b) (xs @ ys)"
      using ring_remove_inner(2) [OF ring xs, of "Some NULL"] by simp
  qed (use rel split xs in auto)
  moreover have "ready_frame s ?s" by (rule ready_frameI_tcbs) (use t l ne in simp)
  ultimately show thesis by (rule that)
qed

lemma scheduler_remove_present:
  assumes rel: "ready_rel s Q" and t: "tcbs s tcb = Some t" "tcb \<noteq> NULL"
    and b: "unat (prio_bucket t) < RTOS_NUM_PRIORITIES" and mem: "tcb \<in> set (Q (unat (prio_bucket t)))"
  obtains s' where "scheduler_remove_task tcb s = Some s'"
    and "ready_rel s' (Q(unat (prio_bucket t) := remove1 tcb (Q (unat (prio_bucket t)))))"
    and "ready_frame s s'"
proof -
  obtain xs ys where split: "Q (unat (prio_bucket t)) = xs @ tcb # ys" using mem by (metis split_list)
  consider (single) "xs = []" "ys = []" | (first) "xs = []" "ys \<noteq> []" | (inner) "xs \<noteq> []" by blast
  then show thesis
  proof cases
    case single
    then show thesis using scheduler_remove_single [OF rel t b] split that by blast
  next
    case first
    then show thesis using scheduler_remove_head [OF rel t b] split that by blast
  next
    case inner
    then show thesis using scheduler_remove_inner [OF rel t b split] that by blast
  qed
qed

lemma scheduler_remove_refines:
  assumes rel: "ready_rel s Q" and t: "tcbs s tcb = Some t" "tcb \<noteq> NULL"
    and b: "unat (prio_bucket t) < RTOS_NUM_PRIORITIES"
  obtains s' where "scheduler_remove_task tcb s = Some s'"
    and "ready_rel s' (Q(unat (prio_bucket t) := remove1 tcb (Q (unat (prio_bucket t)))))"
    and "ready_frame s s'"
proof (cases "tcb \<in> set (Q (unat (prio_bucket t)))")
  case True
  then show thesis using scheduler_remove_present [OF rel t b] that by blast
next
  case False
  then show thesis
    using scheduler_remove_absent [OF rel t b] that rel by (simp add: remove1_idem)
qed

text \<open>Adding a task: the state that the code leaves in the control block.\<close>

definition added_state :: "task_state_t \<Rightarrow> task_state_t" where
  "added_state st =
     (if st = TASK_STATE_BLOCKED \<or> st = TASK_STATE_SUSPENDED then st else TASK_STATE_READY)"

lemma ready_frame_upd:
  assumes "ready_frame s s'" and "tcbs s a = Some t" and "tcbs s' a = Some t'"
    and "erase_ready (f t') = erase_ready (g t)"
  shows "ready_frame (s\<lparr>tcbs := (tcbs s)(a \<mapsto> g t)\<rparr>) (s'\<lparr>tcbs := (tcbs s')(a \<mapsto> f t')\<rparr>)"
proof -
  obtain T rh where s': "s' = s\<lparr>tcbs := T, ready_head := rh\<rparr>" and same: "same_but_ready (tcbs s) T"
    using assms(1) by (auto simp: ready_frame_def)
  have "same_but_ready ((tcbs s)(a \<mapsto> g t)) (T(a \<mapsto> f t'))"
    using same assms(4) by (auto simp: same_but_ready_def)
  then show ?thesis unfolding ready_frame_def s'
    by (intro exI [of _ "T(a \<mapsto> f t')"] exI [of _ rh]) simp
qed

lemma scheduler_add_refines:
  assumes rel: "ready_rel s Q" and t: "tcbs s tcb = Some t" "tcb \<noteq> NULL"
    and b: "unat (prio_bucket t) < RTOS_NUM_PRIORITIES" and new: "tcb \<notin> queued Q"
    and st: "state t \<noteq> TASK_STATE_TERMINATED"
  obtains s' where "scheduler_add_task tcb s = Some (RTOS_OK, s')"
    and "ready_rel s' (Q(unat (prio_bucket t) := Q (unat (prio_bucket t)) @ [tcb]))"
    and "ready_frame (s\<lparr>tcbs := (tcbs s)(tcb \<mapsto> t\<lparr>state := added_state (state t)\<rparr>)\<rparr>) s'"
proof -
  obtain s1 where s1: "ring_insert (prio_bucket t) tcb s = Some s1"
    and rel1: "ready_rel s1 (Q(unat (prio_bucket t) := Q (unat (prio_bucket t)) @ [tcb]))"
    and fr: "ready_frame s s1"
    using ring_insert_refines [OF rel t b new] by blast
  obtain r where t1: "tcbs s1 tcb = Some (t\<lparr>next_ready := r\<rparr>)"
    using fr t(1) by (auto simp: ready_frame_def elim: same_but_ready_Some)
  let ?t = "t\<lparr>next_ready := r, state := added_state (state t)\<rparr>"
  let ?s = "s1\<lparr>tcbs := (tcbs s1)(tcb \<mapsto> ?t)\<rparr>"
  have id: "(tcbs s1)(tcb \<mapsto> t\<lparr>next_ready := r\<rparr>) = tcbs s1" using t1 by (rule map_upd_triv)
  have "scheduler_add_task tcb s = Some (RTOS_OK, ?s)"
    using t st s1 t1 id by (auto simp: scheduler_add_task_def added_state_def)
  moreover have "ready_rel ?s (Q(unat (prio_bucket t) := Q (unat (prio_bucket t)) @ [tcb]))"
    using ready_rel_tcb_upd [OF rel1 t1] by simp
  moreover have "ready_frame (s\<lparr>tcbs := (tcbs s)(tcb \<mapsto> t\<lparr>state := added_state (state t)\<rparr>)\<rparr>) ?s"
    by (rule ready_frame_upd [OF fr t(1) t1,
          where f = "\<lambda>u. u\<lparr>state := added_state (state t)\<rparr>" and g = "\<lambda>u. u\<lparr>state := added_state (state t)\<rparr>"])
       (simp add: erase_ready_def)
  ultimately show thesis by (rule that)
qed

section \<open>Selection of the next task\<close>

lemma scan_ready_least:
  "p < length hs \<Longrightarrow> hs ! p \<noteq> NULL \<Longrightarrow> (\<forall>q < p. hs ! q = NULL) \<Longrightarrow> scan_ready hs k = Some (k + p)"
proof (induction hs arbitrary: p k)
  case Nil
  then show ?case by simp
next
  case (Cons h hs)
  show ?case
  proof (cases p)
    case 0
    with Cons.prems show ?thesis by simp
  next
    case (Suc p')
    then have "h = NULL" and "\<forall>q < p'. hs ! q = NULL" using Cons.prems(3) by fastforce+
    with Suc Cons.prems Cons.IH [of p' "Suc k"] show ?thesis by simp
  qed
qed

lemma scan_ready_none: "scan_ready hs k = None \<longleftrightarrow> (\<forall>h \<in> set hs. h = NULL)"
  by (induction hs arbitrary: k) auto

text \<open>The first statement of \<open>scheduler_get_next\<close>: a running task goes back to ready.\<close>

definition demote :: "TCB_t \<Rightarrow> TCB_t" where
  "demote t = (if state t = TASK_STATE_RUNNING then t\<lparr>state := TASK_STATE_READY\<rparr> else t)"

definition demoted :: "kernel \<Rightarrow> addr \<rightharpoonup> TCB_t" where
  "demoted s = (\<lambda>a. if a = current_tcb s \<and> a \<noteq> NULL then map_option demote (tcbs s a) else tcbs s a)"

definition current_ok :: "kernel \<Rightarrow> bool" where
  "current_ok s \<longleftrightarrow> current_tcb s = NULL \<or> live_tcb s (current_tcb s)"

lemma demote_links [simp]:
  "next_ready (demote t) = next_ready t" "mutex_wait_next (demote t) = mutex_wait_next t"
  "prio_bucket (demote t) = prio_bucket t"
  by (simp_all add: demote_def)

lemma ready_link_demoted [simp]: "ready_link (demoted s) = ready_link (tcbs s)"
  by (auto simp: ready_link_def demoted_def option.map_comp comp_def)

lemma demoted_Some: "tcbs s a = Some x \<Longrightarrow> \<exists>t. demoted s a = Some t"
  by (auto simp: demoted_def)

lemma least_bucket:
  assumes "ready_rel s Q" and "queued Q \<noteq> {}"
  obtains p where "p < RTOS_NUM_PRIORITIES" and "Q p \<noteq> []" and "\<forall>q < p. Q q = []"
proof -
  let ?P = "\<lambda>p. p < RTOS_NUM_PRIORITIES \<and> Q p \<noteq> []"
  obtain b where "?P b" using assms(2) by (auto simp: queued_def)
  then have "?P (LEAST p. ?P p)" by (rule LeastI)
  moreover have "\<forall>q < (LEAST p. ?P p). Q q = []"
    using not_less_Least [of _ ?P] calculation by (meson less_trans)
  ultimately show thesis using that by blast
qed

lemma get_next_demote:
  assumes "current_ok s"
  shows "scheduler_get_next s =
    (case scan_ready (ready_head s) 0 of
       Some p \<Rightarrow> do {
         sel \<leftarrow> arr_get (ready_head s) p;
         t \<leftarrow> fetch (demoted s) sel;
         rh \<leftarrow> arr_set p (next_ready t) (ready_head s);
         Some (sel, s\<lparr>tcbs := (demoted s)(sel \<mapsto> t\<lparr>state := TASK_STATE_RUNNING, time_slice_counter := 0\<rparr>),
                     ready_head := rh, current_tcb := sel\<rparr>) }
     | None \<Rightarrow> do {
         t \<leftarrow> fetch (demoted s) (idle_tcb s);
         Some (idle_tcb s,
           s\<lparr>tcbs := (demoted s)(idle_tcb s \<mapsto> t\<lparr>state := TASK_STATE_RUNNING, time_slice_counter := 0\<rparr>),
             current_tcb := idle_tcb s\<rparr>) })"
proof -
  have "(if current_tcb s \<noteq> NULL then do {
            t \<leftarrow> get_tcb s (current_tcb s);
            if state t = TASK_STATE_RUNNING
            then upd_tcb (current_tcb s) (\<lambda>t. t\<lparr>state := TASK_STATE_READY\<rparr>) s else Some s
          } else Some s) = Some (s\<lparr>tcbs := demoted s\<rparr>)"
  proof (cases "current_tcb s = NULL")
    case True
    then show ?thesis by (simp add: demoted_def)
  next
    case False
    with assms obtain t where t: "tcbs s (current_tcb s) = Some t"
      by (auto simp: current_ok_def live_tcb_def)
    then have "demoted s = (tcbs s)(current_tcb s \<mapsto> demote t)"
      using False by (auto simp: demoted_def fun_eq_iff)
    moreover have "(tcbs s)(current_tcb s \<mapsto> t) = tcbs s" using t by (rule map_upd_triv)
    ultimately show ?thesis using t False by (auto simp: demote_def)
  qed
  then show ?thesis
    by (auto simp: scheduler_get_next_def Let_def upd_tcb_def modify_def get_tcb_def fetch_def
        split: option.splits bind_splits)
qed

lemma get_next_refines:
  assumes rel: "ready_rel s Q" and cur: "current_ok s"
    and p: "p < RTOS_NUM_PRIORITIES" "Q p \<noteq> []" "\<forall>q < p. Q q = []"
  obtains t rh where "scheduler_get_next s =
      Some (hd (Q p),
            s\<lparr>tcbs := (demoted s)(hd (Q p) \<mapsto> t\<lparr>state := TASK_STATE_RUNNING, time_slice_counter := 0\<rparr>),
              ready_head := rh, current_tcb := hd (Q p)\<rparr>)"
    and "demoted s (hd (Q p)) = Some t" and "hd (Q p) \<noteq> NULL"
    and "ready_rel (s\<lparr>tcbs := (demoted s)(hd (Q p) \<mapsto> t\<lparr>state := TASK_STATE_RUNNING, time_slice_counter := 0\<rparr>),
              ready_head := rh, current_tcb := hd (Q p)\<rparr>) (Q(p := rotate1 (Q p)))"
proof -
  have ring: "ring (ready_link (tcbs s)) (ready_head s ! p) (Q p)" using rel p(1) by (rule ready_rel_ring)
  have hd: "ready_head s ! p = hd (Q p)" using ring p(2) by (rule ring_hd)
  have mem: "hd (Q p) \<in> set (Q p)" using p(2) by simp
  then have nn: "hd (Q p) \<noteq> NULL" and "\<exists>x. tcbs s (hd (Q p)) = Some x"
    using ready_rel_live [OF rel p(1)] by auto
  then obtain t where t: "demoted s (hd (Q p)) = Some t" using demoted_Some by blast
  have "ready_head s ! q = NULL" if "q < p" for q
    using ready_rel_ring [OF rel, of q] p that by simp
  then have scan: "scan_ready (ready_head s) 0 = Some p"
    using scan_ready_least [of p "ready_head s" 0] rel p hd nn by simp
  have lk: "ready_link (tcbs s) (hd (Q p)) = Some (next_ready t)"
    using t ready_link_demoted [of s] by (metis ready_link_Some_iff)
  let ?rh = "(ready_head s)[p := next_ready t]"
  let ?s = "s\<lparr>tcbs := (demoted s)(hd (Q p) \<mapsto> t\<lparr>state := TASK_STATE_RUNNING, time_slice_counter := 0\<rparr>),
              ready_head := ?rh, current_tcb := hd (Q p)\<rparr>"
  have links: "ready_link (tcbs ?s) = ready_link (tcbs s)"
    using lk by (simp add: map_upd_triv)
  have "scheduler_get_next s = Some (hd (Q p), ?s)"
    using scan rel p hd nn t by (simp add: get_next_demote [OF cur])
  moreover have "ready_rel ?s (Q(p := rotate1 (Q p)))"
  proof (rule ready_rel_update [OF rel p(1)])
    show "ring (ready_link (tcbs ?s)) (ready_head ?s ! p) (rotate1 (Q p))"
      unfolding links using ring_rotate1 [OF ring p(2)] lk hd rel p(1) by simp
    show "ready_link (tcbs ?s) x = ready_link (tcbs s) x" for x by (simp only: links)
    show "set (rotate1 (Q p)) \<inter> set (Q c) = {}" if "c < RTOS_NUM_PRIORITIES" "c \<noteq> p" for c
      using rel p(1) that by (auto simp: ready_rel_def)
  qed (use rel in auto)
  ultimately show thesis using that t nn by blast
qed

text \<open>Moving a ready task between rings.\<close>

lemma scheduler_rebucket_refines:
  assumes rel: "ready_rel s Q" and t: "tcbs s tcb = Some t" "tcb \<noteq> NULL"
    and st: "state t = TASK_STATE_READY" and ne: "old \<noteq> new"
    and old: "unat old < RTOS_NUM_PRIORITIES" and new: "unat new < RTOS_NUM_PRIORITIES"
    and mem: "tcb \<in> set (Q (unat old))"
  obtains s' where "scheduler_rebucket_task tcb old new s = Some s'"
    and "ready_rel s' (Q(unat old := remove1 tcb (Q (unat old)), unat new := Q (unat new) @ [tcb]))"
    and "ready_frame (s\<lparr>tcbs := (tcbs s)(tcb \<mapsto> t\<lparr>prio_bucket := new\<rparr>)\<rparr>) s'"
proof -
  let ?t1 = "t\<lparr>prio_bucket := old\<rparr>"
  let ?s1 = "s\<lparr>tcbs := (tcbs s)(tcb \<mapsto> ?t1)\<rparr>"
  have rel1: "ready_rel ?s1 Q" using ready_rel_tcb_upd [OF rel t(1)] by simp
  let ?Q2 = "Q(unat old := remove1 tcb (Q (unat old)))"
  obtain s2 where s2: "scheduler_remove_task tcb ?s1 = Some s2" and rel2: "ready_rel s2 ?Q2"
    and fr2: "ready_frame ?s1 s2"
    using scheduler_remove_refines [OF rel1, of tcb ?t1] t old by auto
  obtain r where t2: "tcbs s2 tcb = Some (?t1\<lparr>next_ready := r\<rparr>)"
    using fr2 by (auto simp: ready_frame_def elim: same_but_ready_Some)
  let ?t3 = "?t1\<lparr>next_ready := r, prio_bucket := new\<rparr>"
  let ?s3 = "s2\<lparr>tcbs := (tcbs s2)(tcb \<mapsto> ?t3)\<rparr>"
  have rel3: "ready_rel ?s3 ?Q2" using ready_rel_tcb_upd [OF rel2 t2] by simp
  have uneq: "unat new \<noteq> unat old" using ne by (simp add: word_unat_eq_iff)
  have "tcb \<notin> set (Q c)" if "c < RTOS_NUM_PRIORITIES" "c \<noteq> unat old" for c
    using rel old mem that by (auto simp: ready_rel_def)
  moreover have "tcb \<notin> set (remove1 tcb (Q (unat old)))"
    using ring_distinct [OF ready_rel_ring [OF rel old]] by simp
  ultimately have fresh: "tcb \<notin> queued ?Q2" by (auto simp: queued_def)
  obtain s4 where s4: "scheduler_add_task tcb ?s3 = Some (RTOS_OK, s4)"
    and rel4: "ready_rel s4 (?Q2(unat new := ?Q2 (unat new) @ [tcb]))"
    and fr4: "ready_frame (?s3\<lparr>tcbs := (tcbs ?s3)(tcb \<mapsto> ?t3\<lparr>state := added_state (state ?t3)\<rparr>)\<rparr>) s4"
    using scheduler_add_refines [OF rel3, of tcb ?t3] t(2) new fresh st by auto
  have "scheduler_rebucket_task tcb old new s = Some s4"
    using t st ne s2 t2 s4 by (simp add: scheduler_rebucket_task_def)
  moreover have "ready_rel s4 (Q(unat old := remove1 tcb (Q (unat old)), unat new := Q (unat new) @ [tcb]))"
    using rel4 uneq by simp
  moreover have "ready_frame (s\<lparr>tcbs := (tcbs s)(tcb \<mapsto> t\<lparr>prio_bucket := new\<rparr>)\<rparr>) s4"
  proof -
    have "ready_frame (?s1\<lparr>tcbs := (tcbs ?s1)(tcb \<mapsto> t\<lparr>prio_bucket := new\<rparr>)\<rparr>) ?s3"
      using ready_frame_upd [OF fr2 _ t2, of ?t1 "\<lambda>u. u\<lparr>prio_bucket := new\<rparr>" "\<lambda>_. t\<lparr>prio_bucket := new\<rparr>"]
      by (simp add: erase_ready_def)
    moreover have "?t3\<lparr>state := added_state (state ?t3)\<rparr> = ?t3"
      using st by (cases t) (simp add: added_state_def)
    ultimately show ?thesis using fr4 by (auto intro: ready_frame_trans)
  qed
  ultimately show thesis by (rule that)
qed

section \<open>The scheduler invariant\<close>

text \<open>
  A task is placed correctly when its bucket is the one of its priority and it is in the ring
  of that bucket exactly when it is ready or running. The scheduler invariant asks this of
  every live task.
\<close>

definition runnable :: "TCB_t \<Rightarrow> bool" where
  "runnable t \<longleftrightarrow> state t = TASK_STATE_READY \<or> state t = TASK_STATE_RUNNING"

definition placed :: "ready_queues \<Rightarrow> addr \<Rightarrow> TCB_t \<Rightarrow> bool" where
  "placed Q a t \<longleftrightarrow> a \<noteq> NULL \<and> prio_bucket t = prio_bucket_of (priority t) \<and>
     (if runnable t then a \<in> set (Q (unat (prio_bucket t))) else a \<notin> queued Q)"

definition sched_inv :: "kernel \<Rightarrow> ready_queues \<Rightarrow> bool" where
  "sched_inv s Q \<longleftrightarrow> ready_rel s Q \<and> (\<forall>a t. tcbs s a = Some t \<longrightarrow> placed Q a t)"

lemma sched_inv_rel: "sched_inv s Q \<Longrightarrow> ready_rel s Q"
  by (simp add: sched_inv_def)

lemma sched_inv_placed: "sched_inv s Q \<Longrightarrow> tcbs s a = Some t \<Longrightarrow> placed Q a t"
  by (simp add: sched_inv_def)

lemma sched_inv_bucket [simp]:
  "sched_inv s Q \<Longrightarrow> tcbs s a = Some t \<Longrightarrow> unat (prio_bucket t) < RTOS_NUM_PRIORITIES"
  using sched_inv_placed by (fastforce simp: placed_def)

lemma sched_inv_nonnull: "sched_inv s Q \<Longrightarrow> tcbs s a = Some t \<Longrightarrow> a \<noteq> NULL"
  using sched_inv_placed by (fastforce simp: placed_def)

lemma placed_runnable: "placed Q a t \<Longrightarrow> runnable t \<Longrightarrow> a \<in> set (Q (unat (prio_bucket t)))"
  by (auto simp: placed_def)

lemma placed_blocked: "placed Q a t \<Longrightarrow> \<not> runnable t \<Longrightarrow> a \<notin> queued Q"
  by (simp add: placed_def)

lemma placed_links [simp]:
  "placed Q a (t\<lparr>next_ready := r\<rparr>) = placed Q a t"
  "placed Q a (t\<lparr>mutex_wait_next := r\<rparr>) = placed Q a t"
  by (simp_all add: placed_def runnable_def)

text \<open>The only bucket that can hold a live task is its own.\<close>

lemma sched_inv_queued:
  assumes inv: "sched_inv s Q" and t: "tcbs s a = Some t"
    and b: "b < RTOS_NUM_PRIORITIES" and mem: "a \<in> set (Q b)"
  shows "runnable t \<and> b = unat (prio_bucket t)"
proof -
  have "a \<in> queued Q" using b mem by (rule queuedI)
  then have r: "runnable t" and own: "a \<in> set (Q (unat (prio_bucket t)))"
    using sched_inv_placed [OF inv t] by (auto simp: placed_def split: if_splits)
  moreover have "unat (prio_bucket t) < RTOS_NUM_PRIORITIES" using inv t by simp
  ultimately show ?thesis
    using sched_inv_rel [OF inv] b mem unfolding ready_rel_def by blast
qed

text \<open>
  Transfer of the invariant: the new rings differ from the old ones in the position of one
  task only, and every other task keeps its state, priority and bucket.
\<close>

lemma sched_inv_step:
  assumes inv: "sched_inv s Q" and rel: "ready_rel s' Q'"
    and fr: "ready_frame (s\<lparr>tcbs := (tcbs s)(a \<mapsto> u)\<rparr>\<lparr>icsr := i, primask := m\<rparr>) s'"
    and a: "placed Q' a u"
    and same: "\<And>b x. b < RTOS_NUM_PRIORITIES \<Longrightarrow> x \<noteq> a \<Longrightarrow> x \<in> set (Q' b) \<longleftrightarrow> x \<in> set (Q b)"
  shows "sched_inv s' Q'"
proof -
  obtain T rh where s': "tcbs s' = T" and T: "same_but_ready ((tcbs s)(a \<mapsto> u)) T"
    using fr by (auto simp: ready_frame_def)
  have "placed Q' x v" if x: "T x = Some v" for x v
  proof (cases "x = a")
    case True
    then have "((tcbs s)(a \<mapsto> u)) x = Some u" by simp
    with T obtain r where "T x = Some (u\<lparr>next_ready := r\<rparr>)" by (rule same_but_ready_Some)
    with x True a show ?thesis by simp
  next
    case False
    have "((tcbs s)(a \<mapsto> u)) x \<noteq> None" using same_but_ready_None [OF T, of x] x by (metis option.distinct(1))
    with False obtain w where w: "tcbs s x = Some w" by auto
    with False have "((tcbs s)(a \<mapsto> u)) x = Some w" by simp
    with T obtain r where v: "T x = Some (w\<lparr>next_ready := r\<rparr>)" by (rule same_but_ready_Some)
    have "x \<in> queued Q' \<longleftrightarrow> x \<in> queued Q" using same False by (auto simp: queued_def)
    moreover have "x \<in> set (Q' (unat (prio_bucket w))) \<longleftrightarrow> x \<in> set (Q (unat (prio_bucket w)))"
      using same False inv w by simp
    ultimately have "placed Q' x w" using sched_inv_placed [OF inv w] by (auto simp: placed_def)
    with v x show ?thesis by simp
  qed
  with rel s' show ?thesis by (simp add: sched_inv_def)
qed

lemma sched_inv_tcb_upd:
  assumes "sched_inv s Q" and "tcbs s a = Some t" and "next_ready u = next_ready t" and "placed Q a u"
  shows "sched_inv (s\<lparr>tcbs := (tcbs s)(a \<mapsto> u)\<rparr>) Q"
  using assms ready_rel_tcb_upd [of s Q a t u] by (auto simp: sched_inv_def)

lemma sched_inv_cong:
  "tcbs s' = tcbs s \<Longrightarrow> ready_head s' = ready_head s \<Longrightarrow> sched_inv s' Q = sched_inv s Q"
  by (simp add: sched_inv_def ready_rel_def)

lemma sched_inv_more [simp]:
  "sched_inv (s\<lparr>mutexes := M\<rparr>) Q = sched_inv s Q"
  "sched_inv (s\<lparr>semaphores := S\<rparr>) Q = sched_inv s Q"
  "sched_inv (s\<lparr>msg_queues := U\<rparr>) Q = sched_inv s Q"
  "sched_inv (s\<lparr>ram := R\<rparr>) Q = sched_inv s Q"
  "sched_inv (s\<lparr>current_tcb := c\<rparr>) Q = sched_inv s Q"
  "sched_inv (s\<lparr>s_rtos_tick_count := k\<rparr>) Q = sched_inv s Q"
  "sched_inv (s\<lparr>icsr := i\<rparr>) Q = sched_inv s Q"
  "sched_inv (s\<lparr>primask := p\<rparr>) Q = sched_inv s Q"
  by (simp_all add: sched_inv_def ready_rel_def)

text \<open>Wait links are invisible to the scheduler.\<close>

lemma sched_inv_wait:
  assumes inv: "sched_inv s Q" and same: "same_but_wait (tcbs s) T"
  shows "sched_inv (s\<lparr>tcbs := T\<rparr>) Q"
proof -
  have "placed Q a u" if u: "T a = Some u" for a u
  proof -
    obtain t where t: "tcbs s a = Some t" using same_but_wait_None [OF same, of a] u by fastforce
    with same obtain r where "T a = Some (t\<lparr>mutex_wait_next := r\<rparr>)" by (rule same_but_wait_Some)
    with u have "u = t\<lparr>mutex_wait_next := r\<rparr>" by simp
    with sched_inv_placed [OF inv t] show ?thesis by simp
  qed
  with inv same show ?thesis
    by (simp add: sched_inv_def ready_rel_def same_but_wait_ready_link)
qed

text \<open>Making a blocked task ready: its block fields are rewritten, then it joins its ring.\<close>

lemma make_ready_rel:
  assumes rel: "ready_rel s Q" and t: "tcbs s t = Some u" "t \<noteq> NULL"
    and b: "unat (prio_bucket u) < RTOS_NUM_PRIORITIES" and new: "t \<notin> queued Q"
    and v: "state v = TASK_STATE_READY" "prio_bucket v = prio_bucket u" "next_ready v = next_ready u"
  obtains s' where
    "scheduler_add_task t (s\<lparr>tcbs := (tcbs s)(t \<mapsto> v)\<rparr>) = Some (RTOS_OK, s')"
    and "ready_rel s' (Q(unat (prio_bucket u) := Q (unat (prio_bucket u)) @ [t]))"
    and "ready_frame (s\<lparr>tcbs := (tcbs s)(t \<mapsto> v)\<rparr>) s'"
proof -
  let ?s1 = "s\<lparr>tcbs := (tcbs s)(t \<mapsto> v)\<rparr>"
  have rel1: "ready_rel ?s1 Q" using ready_rel_tcb_upd [OF rel t(1) v(3)] .
  obtain s' where add: "scheduler_add_task t ?s1 = Some (RTOS_OK, s')"
    and rel': "ready_rel s' (Q(unat (prio_bucket u) := Q (unat (prio_bucket u)) @ [t]))"
    and fr: "ready_frame (?s1\<lparr>tcbs := (tcbs ?s1)(t \<mapsto> v\<lparr>state := added_state (state v)\<rparr>)\<rparr>) s'"
    using scheduler_add_refines [OF rel1, of t v] t(2) b new v by auto
  have "v\<lparr>state := added_state (state v)\<rparr> = v" using v(1) by (cases v) (simp add: added_state_def)
  with fr show thesis using that [OF add rel'] by simp
qed

lemma make_ready:
  assumes inv: "sched_inv s Q" and t: "tcbs s t = Some u" and blocked: "\<not> runnable u"
    and v: "state v = TASK_STATE_READY" "priority v = priority u" "prio_bucket v = prio_bucket u"
      "next_ready v = next_ready u"
  obtains s' where
    "scheduler_add_task t (s\<lparr>tcbs := (tcbs s)(t \<mapsto> v)\<rparr>) = Some (RTOS_OK, s')"
    and "sched_inv s' (Q(unat (prio_bucket u) := Q (unat (prio_bucket u)) @ [t]))"
    and "ready_frame (s\<lparr>tcbs := (tcbs s)(t \<mapsto> v)\<rparr>) s'"
proof -
  let ?b = "unat (prio_bucket u)"
  let ?Q = "Q(?b := Q ?b @ [t])"
  have nn: "t \<noteq> NULL" using inv t by (rule sched_inv_nonnull)
  have b: "?b < RTOS_NUM_PRIORITIES" using inv t by simp
  have new: "t \<notin> queued Q" using sched_inv_placed [OF inv t] blocked by (simp add: placed_def)
  obtain s' where add: "scheduler_add_task t (s\<lparr>tcbs := (tcbs s)(t \<mapsto> v)\<rparr>) = Some (RTOS_OK, s')"
    and rel': "ready_rel s' ?Q" and fr: "ready_frame (s\<lparr>tcbs := (tcbs s)(t \<mapsto> v)\<rparr>) s'"
    by (rule make_ready_rel [OF sched_inv_rel [OF inv] t nn b new v(1,3,4)])
  have "sched_inv s' ?Q"
  proof (rule sched_inv_step [OF inv rel', where a = t and u = v and i = "icsr s" and m = "primask s"])
    show "ready_frame (s\<lparr>tcbs := (tcbs s)(t \<mapsto> v)\<rparr>\<lparr>icsr := icsr s, primask := primask s\<rparr>) s'"
      using fr by simp
    show "placed ?Q t v" using sched_inv_placed [OF inv t] v by (simp add: placed_def runnable_def)
  qed auto
  then show thesis using add fr that by blast
qed

text \<open>A dispatch keeps the invariant: it moves tasks between ready and running only.\<close>

lemma placed_states:
  "placed Q a t \<Longrightarrow> runnable t' = runnable t \<Longrightarrow> priority t' = priority t \<Longrightarrow>
   prio_bucket t' = prio_bucket t \<Longrightarrow> placed Q a t'"
  by (auto simp: placed_def)

lemma demote_placed [simp]: "placed Q a (demote t) = placed Q a t"
  by (simp add: demote_def placed_def runnable_def)

lemma demoted_placed:
  "sched_inv s Q \<Longrightarrow> demoted s a = Some t \<Longrightarrow> placed Q a t"
  by (auto simp: demoted_def sched_inv_def split: if_splits)

lemma get_next_inv:
  assumes inv: "sched_inv s Q" and cur: "current_ok s"
    and p: "p < RTOS_NUM_PRIORITIES" "Q p \<noteq> []" "\<forall>q < p. Q q = []"
  obtains s' where "scheduler_get_next s = Some (hd (Q p), s')"
    and "sched_inv s' (Q(p := rotate1 (Q p)))" and "current_tcb s' = hd (Q p)"
proof (rule get_next_refines [OF sched_inv_rel [OF inv] cur p])
  fix t :: TCB_t and rh
  let ?t = "t\<lparr>state := TASK_STATE_RUNNING, time_slice_counter := 0\<rparr>"
  let ?s = "s\<lparr>tcbs := (demoted s)(hd (Q p) \<mapsto> ?t), ready_head := rh, current_tcb := hd (Q p)\<rparr>"
  assume eq: "scheduler_get_next s = Some (hd (Q p), ?s)" and t: "demoted s (hd (Q p)) = Some t"
    and rel: "ready_rel ?s (Q(p := rotate1 (Q p)))"
  obtain t0 where t0: "tcbs s (hd (Q p)) = Some t0" "t = t0 \<or> t = demote t0"
    using t by (auto simp: demoted_def split: if_splits)
  then have "runnable t0" using sched_inv_queued [OF inv t0(1) p(1)] p(2) by simp
  then have "runnable t" using t0(2) by (auto simp: demote_def runnable_def)
  then have "placed Q (hd (Q p)) ?t"
    by (intro placed_states [OF demoted_placed [OF inv t]]) (simp_all add: runnable_def)
  moreover have "placed (Q(p := rotate1 (Q p))) x v = placed Q x v" for x v
    by (auto simp: placed_def queued_def)
  ultimately have "sched_inv ?s (Q(p := rotate1 (Q p)))"
    using rel demoted_placed [OF inv] by (auto simp: sched_inv_def)
  with eq show thesis by (rule that) simp
qed

text \<open>Taking a running or ready task off its ring while marking it not runnable.\<close>

lemma make_blocked_placed:
  assumes inv: "sched_inv s Q" and t: "tcbs s a = Some t" and r: "runnable t" and u: "\<not> runnable u"
    and prio: "priority u = priority t" "prio_bucket u = prio_bucket t"
  shows "placed (Q(unat (prio_bucket t) := remove1 a (Q (unat (prio_bucket t))))) a u"
proof -
  let ?b = "unat (prio_bucket t)"
  have b: "?b < RTOS_NUM_PRIORITIES" using inv t by simp
  have "a \<notin> set (Q c)" if "c < RTOS_NUM_PRIORITIES" "c \<noteq> ?b" for c
    using sched_inv_queued [OF inv t that(1)] that(2) by auto
  moreover have "a \<notin> set (remove1 a (Q ?b))"
    using ring_distinct [OF ready_rel_ring [OF sched_inv_rel [OF inv] b]] by simp
  ultimately show ?thesis using sched_inv_placed [OF inv t] u prio by (auto simp: placed_def queued_def)
qed

lemma set_remove1_other: "x \<noteq> a \<Longrightarrow> x \<in> set (remove1 a xs) \<longleftrightarrow> x \<in> set xs"
  by (induction xs) auto

text \<open>Changing the priority of a task that is ready: it migrates to the ring of its new bucket.\<close>

lemma rebucket_ready:
  assumes inv: "sched_inv s Q" and t: "tcbs s tcb = Some t" and st: "state t = TASK_STATE_READY"
    and new: "u = t\<lparr>priority := q, prio_bucket := prio_bucket_of q\<rparr>" and ne: "prio_bucket_of q \<noteq> prio_bucket t"
  obtains s' where
    "scheduler_rebucket_task tcb (prio_bucket t) (prio_bucket_of q) (s\<lparr>tcbs := (tcbs s)(tcb \<mapsto> u)\<rparr>) = Some s'"
    and "sched_inv s' (Q(unat (prio_bucket t) := remove1 tcb (Q (unat (prio_bucket t))),
                         unat (prio_bucket_of q) := Q (unat (prio_bucket_of q)) @ [tcb]))"
    and "ready_frame (s\<lparr>tcbs := (tcbs s)(tcb \<mapsto> u)\<rparr>) s'"
proof -
  let ?s1 = "s\<lparr>tcbs := (tcbs s)(tcb \<mapsto> u)\<rparr>"
  let ?Q = "Q(unat (prio_bucket t) := remove1 tcb (Q (unat (prio_bucket t))),
              unat (prio_bucket_of q) := Q (unat (prio_bucket_of q)) @ [tcb])"
  have nn: "tcb \<noteq> NULL" using inv t by (rule sched_inv_nonnull)
  have mem: "tcb \<in> set (Q (unat (prio_bucket t)))"
    using placed_runnable [OF sched_inv_placed [OF inv t]] st by (simp add: runnable_def)
  have rel1: "ready_rel ?s1 Q" by (rule ready_rel_tcb_upd [OF sched_inv_rel [OF inv] t]) (simp add: new)
  have uneq: "unat (prio_bucket_of q) \<noteq> unat (prio_bucket t)" using ne by (simp add: word_unat_eq_iff)
  obtain s' where eq: "scheduler_rebucket_task tcb (prio_bucket t) (prio_bucket_of q) ?s1 = Some s'"
    and rel': "ready_rel s' ?Q"
    and fr: "ready_frame (?s1\<lparr>tcbs := (tcbs ?s1)(tcb \<mapsto> u\<lparr>prio_bucket := prio_bucket_of q\<rparr>)\<rparr>) s'"
    using scheduler_rebucket_refines [OF rel1, of tcb u "prio_bucket t" "prio_bucket_of q"]
      nn st ne mem inv t new by auto
  then have fr': "ready_frame ?s1 s'" using new by simp
  have "sched_inv s' ?Q"
  proof (rule sched_inv_step [OF inv rel', where a = tcb and u = u and i = "icsr s" and m = "primask s"])
    show "ready_frame (?s1\<lparr>icsr := icsr s, primask := primask s\<rparr>) s'" using fr' by simp
    show "placed ?Q tcb u" using nn st new by (simp add: placed_def runnable_def)
    show "x \<in> set (?Q b) \<longleftrightarrow> x \<in> set (Q b)" if "x \<noteq> tcb" for b x
      using that by (simp add: set_remove1_other)
  qed
  with eq fr' show thesis using that by blast
qed

section \<open>Properties of the scheduler\<close>

text \<open>
  C4. Scheduling decision. Whenever some task is ready, \<open>scheduler_get_next\<close> returns the
  head of the non-empty ring with the smallest bucket number, marks it running with a fresh
  time slice, makes it \<open>current_tcb\<close>, puts a previously running task back to ready, and
  rotates exactly that ring; every other ring keeps its order.
\<close>

theorem get_next_highest_priority:
  assumes "ready_rel s Q" and "current_ok s" and "queued Q \<noteq> {}"
  shows "\<exists>p sel t s'. scheduler_get_next s = Some (sel, s')
    \<and> p < RTOS_NUM_PRIORITIES \<and> Q p \<noteq> [] \<and> (\<forall>q < p. Q q = []) \<and> sel = hd (Q p)
    \<and> ready_rel s' (Q(p := rotate1 (Q p)))
    \<and> current_tcb s' = sel
    \<and> tcbs s' sel = Some t \<and> state t = TASK_STATE_RUNNING \<and> time_slice_counter t = 0
    \<and> (\<forall>a. a \<noteq> sel \<longrightarrow> tcbs s' a = (if a = current_tcb s \<and> a \<noteq> NULL
                                   then map_option demote (tcbs s a) else tcbs s a))"
proof -
  obtain p where p: "p < RTOS_NUM_PRIORITIES" "Q p \<noteq> []" "\<forall>q < p. Q q = []"
    using least_bucket [OF assms(1,3)] by blast
  let ?s' = "\<lambda>t rh. s\<lparr>tcbs := (demoted s)(hd (Q p) \<mapsto> t\<lparr>state := TASK_STATE_RUNNING, time_slice_counter := 0\<rparr>),
                     ready_head := rh, current_tcb := hd (Q p)\<rparr>"
  obtain t rh where "scheduler_get_next s = Some (hd (Q p), ?s' t rh)"
    and "ready_rel (?s' t rh) (Q(p := rotate1 (Q p)))"
    using get_next_refines [OF assms(1,2) p] by blast
  then show ?thesis
    by (intro exI [of _ p] exI [of _ "hd (Q p)"] exI [of _ "?s' t rh"]
              exI [of _ "t\<lparr>state := TASK_STATE_RUNNING, time_slice_counter := 0\<rparr>"])
       (simp add: p demoted_def)
qed

text \<open>
  A concrete scheduler state for the witnesses: three tasks at addresses 16, 32 and 48, two of
  them in bucket 1 and one in bucket 3.
\<close>

definition blank_tcb :: TCB_t where
  "blank_tcb = \<lparr>stack_ptr = 0, prio_bucket = 0, priority = 0, state = TASK_STATE_READY,
     stack_base = 0, stack_size = 0, name = replicate RTOS_TASK_NAME_MAX 0, wake_time = UINT32_MAX,
     next_tcb = 0, base_priority = 0, blocked_on_mutex = 0, mutex_wait_next = 0, task_func = 0,
     next_ready = 0, time_slice_counter = 0, block_reason = BLOCK_NONE, block_object = 0,
     block_wake_status = RTOS_OK\<rparr>"

definition blank_kernel :: kernel where
  "blank_kernel = \<lparr>tcbs = Map.empty, mutexes = Map.empty, semaphores = Map.empty,
     msg_queues = Map.empty, sw_timers = Map.empty, ram = (\<lambda>_. 0), stack_mem = (\<lambda>_. 0),
     current_tcb = 0, idle_tcb = 0, ready_head = replicate RTOS_NUM_PRIORITIES 0,
     task_registry = replicate 33 0, task_registry_count = 0, s_rtos_tick_count = 0,
     g_rtos_stack_overflow_task_name = [], g_rtos_stack_overflow_canary = 0, timer_list = 0,
     heap_blocks = Map.empty, free_list = 0, heap_ready = False, icsr = 0, primask = False\<rparr>"

definition demo_sched :: kernel where
  "demo_sched = blank_kernel\<lparr>
     tcbs := [16 \<mapsto> blank_tcb\<lparr>prio_bucket := 1, next_ready := 32\<rparr>,
              32 \<mapsto> blank_tcb\<lparr>prio_bucket := 1, next_ready := 16\<rparr>,
              48 \<mapsto> blank_tcb\<lparr>prio_bucket := 3, next_ready := 48, state := TASK_STATE_RUNNING\<rparr>],
     ready_head := [0, 16, 0, 48, 0, 0, 0, 0], current_tcb := 48\<rparr>"

definition demo_queues :: ready_queues where
  "demo_queues = (\<lambda>b. [])(1 := [16, 32], 3 := [48])"

lemmas demo_defs = demo_sched_def demo_queues_def blank_kernel_def blank_tcb_def

lemma less_8_cases: "b < 8 \<Longrightarrow> b = 0 \<or> b = 1 \<or> b = 2 \<or> b = 3 \<or> b = 4 \<or> b = 5 \<or> b = 6 \<or> b = (7::nat)"
  by linarith

lemma demo_ready_rel: "ready_rel demo_sched demo_queues"
  by (auto simp: ready_rel_def demo_defs RTOS_NUM_PRIORITIES_def ring_def ready_link_def
      dest!: less_8_cases)

lemma demo_current_ok: "current_ok demo_sched"
  by (simp add: current_ok_def live_tcb_def demo_defs)

lemma demo_queued: "queued demo_queues \<noteq> {}"
  by (auto simp: queued_def demo_queues_def RTOS_NUM_PRIORITIES_def intro: bexI [of _ 1])

theorem get_next_highest_priority_witness:
  "\<exists>p sel s'. scheduler_get_next demo_sched = Some (sel, s')
     \<and> p < RTOS_NUM_PRIORITIES \<and> demo_queues p \<noteq> [] \<and> sel = hd (demo_queues p)"
  using get_next_highest_priority [OF demo_ready_rel demo_current_ok demo_queued] by blast

text \<open>\<open>n\<close> successive dispatches (PendSV after PendSV), with the tasks selected, in order.\<close>

fun dispatches :: "nat \<Rightarrow> kernel \<Rightarrow> (addr list \<times> kernel) option" where
  "dispatches 0 s = Some ([], s)"
| "dispatches (Suc n) s = do {
     (sel, s) \<leftarrow> scheduler_get_next s;
     (sels, s) \<leftarrow> dispatches n s;
     Some (sel # sels, s)
   }"

lemma get_next_step:
  assumes "ready_rel s Q" and "current_ok s"
    and "p < RTOS_NUM_PRIORITIES" and "Q p \<noteq> []" and "\<forall>q < p. Q q = []"
  obtains s' where "scheduler_get_next s = Some (hd (Q p), s')"
    and "ready_rel s' (Q(p := rotate1 (Q p)))" and "current_ok s'"
proof (rule get_next_refines [OF assms])
  fix t rh
  let ?s = "s\<lparr>tcbs := (demoted s)(hd (Q p) \<mapsto> t\<lparr>state := TASK_STATE_RUNNING, time_slice_counter := 0\<rparr>),
              ready_head := rh, current_tcb := hd (Q p)\<rparr>"
  assume "scheduler_get_next s = Some (hd (Q p), ?s)" and "ready_rel ?s (Q(p := rotate1 (Q p)))"
  then show thesis by (rule that) (simp add: current_ok_def live_tcb_def)
qed

lemma nth_mod_rotate1:
  assumes "xs \<noteq> []"
  shows "rotate1 xs ! (i mod length xs) = xs ! (Suc i mod length xs)"
  using assms by (simp add: nth_rotate1 mod_Suc_eq)

text \<open>
  C5. Round robin. While the set of ready tasks does not change, successive dispatches cycle
  through the most urgent non-empty ring: the \<open>i\<close>-th dispatch selects its \<open>i\<close>-th task modulo
  its length, so that in any \<open>length (Q p)\<close> consecutive dispatches every peer runs exactly
  once, and after \<open>n\<close> dispatches the ring is rotated by \<open>n\<close>.
\<close>

theorem dispatches_round_robin:
  assumes "ready_rel s Q" and "current_ok s"
    and "p < RTOS_NUM_PRIORITIES" and "Q p \<noteq> []" and "\<forall>q < p. Q q = []"
  shows "\<exists>s'. dispatches n s = Some (map (\<lambda>i. Q p ! (i mod length (Q p))) [0..<n], s')
              \<and> ready_rel s' (Q(p := rotate n (Q p)))"
  using assms
proof (induction n arbitrary: s Q)
  case 0
  then show ?case by simp
next
  case (Suc n)
  obtain s1 where s1: "scheduler_get_next s = Some (hd (Q p), s1)"
    and rel1: "ready_rel s1 (Q(p := rotate1 (Q p)))" and cur1: "current_ok s1"
    using get_next_step [OF Suc.prems] by blast
  let ?Q = "Q(p := rotate1 (Q p))"
  have "\<exists>s'. dispatches n s1 = Some (map (\<lambda>i. ?Q p ! (i mod length (?Q p))) [0..<n], s')
             \<and> ready_rel s' (?Q(p := rotate n (?Q p)))"
    by (rule Suc.IH [OF rel1 cur1 Suc.prems(3)]) (use Suc.prems in auto)
  then obtain s' where d: "dispatches n s1 = Some (map (\<lambda>i. ?Q p ! (i mod length (?Q p))) [0..<n], s')"
    and rel': "ready_rel s' (?Q(p := rotate n (?Q p)))" by blast
  have "map (\<lambda>i. Q p ! (i mod length (Q p))) [0..<Suc n]
        = hd (Q p) # map (\<lambda>i. ?Q p ! (i mod length (?Q p))) [0..<n]"
    using Suc.prems(4)
    by (simp add: map_upt_Suc hd_conv_nth nth_mod_rotate1 del: upt_Suc)
  then show ?case using s1 d rel' by (simp add: rotate1_rotate_swap fun_upd_def cong: if_cong)
qed

theorem dispatches_round_robin_witness:
  "\<exists>s'. dispatches 3 demo_sched = Some ([16, 32, 16], s')"
  using dispatches_round_robin [OF demo_ready_rel demo_current_ok, of 1 3]
  by (auto simp: demo_queues_def RTOS_NUM_PRIORITIES_def upt_rec)

section \<open>Tasks of the sample states\<close>

text \<open>A task with the given priority, state and ready link; the sample states of the witnesses use it.\<close>

definition sample_task :: "u8 \<Rightarrow> task_state_t \<Rightarrow> addr \<Rightarrow> TCB_t" where
  "sample_task prio st nxt = blank_tcb\<lparr>priority := prio, base_priority := prio,
     prio_bucket := prio_bucket_of prio, state := st, next_ready := nxt\<rparr>"

lemma sample_task_sel [simp]:
  "priority (sample_task p st r) = p" "base_priority (sample_task p st r) = p"
  "prio_bucket (sample_task p st r) = prio_bucket_of p" "state (sample_task p st r) = st"
  "next_ready (sample_task p st r) = r" "mutex_wait_next (sample_task p st r) = NULL"
  "block_object (sample_task p st r) = NULL" "block_reason (sample_task p st r) = BLOCK_NONE"
  "block_wake_status (sample_task p st r) = RTOS_OK" "wake_time (sample_task p st r) = UINT32_MAX"
  by (simp_all add: sample_task_def blank_tcb_def)

lemma prio_bucket_of_eval:
  "prio_bucket_of 40 = 1" "prio_bucket_of 70 = 2" "prio_bucket_of 100 = 3" "prio_bucket_of 200 = 6"
  "prio_bucket_of 255 = 7"
  by (simp_all add: word_unat_eq_iff unat_prio_bucket_of)

lemmas sample_defs = blank_kernel_def RTOS_NUM_PRIORITIES_def prio_bucket_of_eval

end
