(* ===== verification/Rtos_Wait.thy ===== *)
theory Rtos_Wait
  imports Rtos_Types
begin

text \<open>
  Wait lists: tasks linked through \<open>mutex_wait_next\<close> between a head and a tail pointer. The
  routines here are the static helpers of \<^verbatim>\<open>src/ipc/msgqueue.c\<close>, which take the head and
  tail by reference; the mutex and the semaphore have their own copies, defined in their
  theories and proved equal to these. \<open>wait_list\<close> is the abstraction of a list to the
  sequence of waiting tasks, oldest first.
\<close>

section \<open>Operations\<close>

definition tcb_enqueue_tail ::
    "addr \<times> addr \<Rightarrow> addr \<Rightarrow> (addr \<rightharpoonup> TCB_t) \<Rightarrow> ((addr \<times> addr) \<times> (addr \<rightharpoonup> TCB_t)) option" where
  "tcb_enqueue_tail ht t T = do {
     T \<leftarrow> modify t (\<lambda>u. u\<lparr>mutex_wait_next := NULL\<rparr>) T;
     if fst ht = NULL then Some ((t, t), T)
     else do {
       T \<leftarrow> modify (snd ht) (\<lambda>u. u\<lparr>mutex_wait_next := t\<rparr>) T;
       Some ((fst ht, t), T)
     }
   }"

text \<open>
  The walk that looks for a waiter: \<open>Some (Some prev)\<close> when it is found, with its predecessor
  (\<open>NULL\<close> at the head), \<open>Some None\<close> at the end of the list.
\<close>

partial_function (option) wait_walk ::
    "(addr \<rightharpoonup> TCB_t) \<Rightarrow> addr \<Rightarrow> addr \<Rightarrow> addr \<Rightarrow> addr option option" where
  "wait_walk T t prev walk =
     (if walk = NULL then Some None
      else if walk = t then Some (Some prev)
      else do {
        w \<leftarrow> fetch T walk;
        wait_walk T t walk (mutex_wait_next w)
      })"

definition tcb_unlink ::
    "addr \<times> addr \<Rightarrow> addr \<Rightarrow> (addr \<rightharpoonup> TCB_t) \<Rightarrow> ((addr \<times> addr) \<times> (addr \<rightharpoonup> TCB_t)) option" where
  "tcb_unlink ht t T =
     (if fst ht = NULL \<or> t = NULL then Some (ht, T)
      else do {
        found \<leftarrow> wait_walk T t NULL (fst ht);
        case found of
          None \<Rightarrow> Some (ht, T)
        | Some prev \<Rightarrow> do {
            u \<leftarrow> fetch T t;
            T \<leftarrow> (if prev = NULL then Some T
                 else modify prev (\<lambda>v. v\<lparr>mutex_wait_next := mutex_wait_next u\<rparr>) T);
            let head = (if prev = NULL then mutex_wait_next u else fst ht);
            let tail = (if t = snd ht then prev else snd ht);
            let tail = (if head = NULL then NULL else tail);
            T \<leftarrow> modify t (\<lambda>v. v\<lparr>mutex_wait_next := NULL\<rparr>) T;
            Some ((head, tail), T)
          }
      })"

definition tcb_pop_head ::
    "addr \<times> addr \<Rightarrow> (addr \<rightharpoonup> TCB_t) \<Rightarrow> (addr \<times> (addr \<times> addr) \<times> (addr \<rightharpoonup> TCB_t)) option" where
  "tcb_pop_head ht T =
     (if fst ht = NULL then Some (NULL, ht, T)
      else do {
        w \<leftarrow> fetch T (fst ht);
        let head = mutex_wait_next w;
        let tail = (if head = NULL then NULL else snd ht);
        T \<leftarrow> modify (fst ht) (\<lambda>v. v\<lparr>mutex_wait_next := NULL\<rparr>) T;
        Some (fst ht, (head, tail), T)
      })"

section \<open>Abstraction\<close>

definition wait_list :: "(addr \<rightharpoonup> TCB_t) \<Rightarrow> addr \<times> addr \<Rightarrow> addr list \<Rightarrow> bool" where
  "wait_list T ht xs \<longleftrightarrow> distinct xs \<and> link_path (wait_link T) (fst ht) xs NULL \<and>
     snd ht = (if xs = [] then NULL else last xs)"

text \<open>Only wait links change, and only those of the tasks in \<open>A\<close>.\<close>

definition chain_frame :: "addr set \<Rightarrow> (addr \<rightharpoonup> TCB_t) \<Rightarrow> (addr \<rightharpoonup> TCB_t) \<Rightarrow> bool" where
  "chain_frame A T T' \<longleftrightarrow> same_but_wait T T' \<and> (\<forall>a. a \<notin> A \<longrightarrow> T' a = T a)"

lemma wait_list_Nil [simp]: "wait_list T ht [] \<longleftrightarrow> ht = (NULL, NULL)"
  by (cases ht) (auto simp: wait_list_def)

lemma wait_list_head: "wait_list T ht xs \<Longrightarrow> fst ht = (if xs = [] then NULL else hd xs)"
  by (cases xs) (auto simp: wait_list_def)

lemma wait_list_head_NULL: "wait_list T ht xs \<Longrightarrow> fst ht = NULL \<longleftrightarrow> xs = []"
  by (cases xs) (auto simp: wait_list_def)

lemma wait_list_distinct: "wait_list T ht xs \<Longrightarrow> distinct xs"
  by (simp add: wait_list_def)

lemma wait_list_live: "wait_list T ht xs \<Longrightarrow> x \<in> set xs \<Longrightarrow> x \<noteq> NULL \<and> (\<exists>t. T x = Some t)"
  by (metis link_path_live wait_link_Some_iff wait_list_def)

lemma wait_list_cong:
  assumes "\<And>x. x \<in> set xs \<Longrightarrow> wait_link T x = wait_link T' x"
  shows "wait_list T ht xs = wait_list T' ht xs"
  using assms by (simp add: wait_list_def link_path_cong [of xs "wait_link T" "wait_link T'"])

lemma wait_list_link: "wait_link T' = wait_link T \<Longrightarrow> wait_list T' ht xs = wait_list T ht xs"
  by (simp add: wait_list_def)

lemma wait_list_frame:
  "chain_frame A T T' \<Longrightarrow> set xs \<inter> A = {} \<Longrightarrow> wait_list T' ht xs = wait_list T ht xs"
  by (rule wait_list_cong) (auto simp: chain_frame_def wait_link_def)

lemma wait_list_unique: "wait_list T ht xs \<Longrightarrow> wait_list T ht ys \<Longrightarrow> xs = ys"
  unfolding wait_list_def by (metis link_path_unique)

lemma chain_frame_refl [simp]: "chain_frame A T T"
  by (simp add: chain_frame_def)

lemma chain_frame_upd [simp]:
  "chain_frame A T T' \<Longrightarrow> T' a = Some t \<Longrightarrow> a \<in> A \<Longrightarrow>
   chain_frame A T (T'(a \<mapsto> t\<lparr>mutex_wait_next := r\<rparr>))"
  by (simp add: chain_frame_def)

lemma chain_frame_mono: "chain_frame A T T' \<Longrightarrow> A \<subseteq> B \<Longrightarrow> chain_frame B T T'"
  by (auto simp: chain_frame_def)

section \<open>Refinement of the wait-list routines\<close>

lemma enqueue_tail_refines:
  assumes wl: "wait_list T ht xs" and t: "T t = Some u" "t \<noteq> NULL" and new: "t \<notin> set xs"
  obtains ht' T' where "tcb_enqueue_tail ht t T = Some (ht', T')"
    and "wait_list T' ht' (xs @ [t])" and "chain_frame (insert t (set xs)) T T'"
proof (cases "xs = []")
  case True
  let ?T = "T(t \<mapsto> u\<lparr>mutex_wait_next := NULL\<rparr>)"
  have "tcb_enqueue_tail ht t T = Some ((t, t), ?T)"
    using wl t True by (simp add: tcb_enqueue_tail_def)
  moreover have "wait_list ?T (t, t) (xs @ [t])" using t True by (simp add: wait_list_def)
  moreover have "chain_frame (insert t (set xs)) T ?T" using t by simp
  ultimately show thesis by (rule that)
next
  case False
  obtain l where l: "T (last xs) = Some l" "last xs \<noteq> NULL"
    using wait_list_live [OF wl, of "last xs"] False by auto
  have ne: "last xs \<noteq> t" "fst ht \<noteq> NULL" "snd ht = last xs"
    using new False wl wait_list_head_NULL [OF wl] by (auto simp: wait_list_def)
  let ?T = "T(t \<mapsto> u\<lparr>mutex_wait_next := NULL\<rparr>, last xs \<mapsto> l\<lparr>mutex_wait_next := t\<rparr>)"
  have "tcb_enqueue_tail ht t T = Some ((fst ht, t), ?T)"
    using t l ne by (simp add: tcb_enqueue_tail_def)
  moreover have "wait_list ?T (fst ht, t) (xs @ [t])"
  proof -
    have "link_path ((wait_link T)(last xs \<mapsto> t)) (fst ht) xs t"
      using wl False by (auto simp: wait_list_def intro: link_path_last_upd)
    then have "link_path ((wait_link T)(last xs \<mapsto> t, t \<mapsto> NULL)) (fst ht) (xs @ [t]) NULL"
      using new t by auto
    then show ?thesis using wl new False ne by (simp add: wait_list_def fun_upd_twist)
  qed
  moreover have "chain_frame (insert t (set xs)) T ?T" using t l ne False by simp
  ultimately show thesis by (rule that)
qed

lemma wait_walk_absent:
  "link_path (wait_link T) p xs NULL \<Longrightarrow> t \<notin> set xs \<Longrightarrow> wait_walk T t prev p = Some None"
proof (induction xs arbitrary: p prev)
  case Nil
  then show ?case by (simp add: wait_walk.simps [of T t prev 0])
next
  case (Cons x xs)
  then show ?case by (auto simp: wait_walk.simps [of T t prev x] wait_link_Some_iff)
qed

lemma wait_walk_found:
  "link_path (wait_link T) p (xs @ t # ys) NULL \<Longrightarrow> t \<notin> set xs \<Longrightarrow>
   wait_walk T t prev p = Some (Some (if xs = [] then prev else last xs))"
proof (induction xs arbitrary: p prev)
  case Nil
  then show ?case by (auto simp: wait_walk.simps [of T t prev t])
next
  case (Cons x xs)
  then obtain u where "T x = Some u" "p = x" "x \<noteq> NULL"
      "link_path (wait_link T) (mutex_wait_next u) (xs @ t # ys) NULL" "x \<noteq> t"
    by (auto simp: wait_link_Some_iff)
  then show ?case
    using Cons.IH [of "mutex_wait_next u" x] Cons.prems(2)
    by (simp add: wait_walk.simps [of T t prev x])
qed

lemma unlink_absent:
  assumes "wait_list T ht xs" and "t \<notin> set xs"
  shows "tcb_unlink ht t T = Some (ht, T)"
  using assms wait_walk_absent [of T "fst ht" xs t NULL]
  by (simp add: tcb_unlink_def wait_list_def)

lemma unlink_present:
  assumes wl: "wait_list T ht (xs @ t # ys)"
  obtains ht' T' where "tcb_unlink ht t T = Some (ht', T')"
    and "wait_list T' ht' (xs @ ys)" and "chain_frame (set (xs @ t # ys)) T T'"
proof -
  have ds: "distinct (xs @ t # ys)" and path: "link_path (wait_link T) (fst ht) (xs @ t # ys) NULL"
    and tl: "snd ht = last (xs @ t # ys)"
    using wl by (auto simp: wait_list_def)
  obtain u where u: "T t = Some u" "t \<noteq> NULL" using wait_list_live [OF wl, of t] by auto
  have px: "link_path (wait_link T) (fst ht) xs t"
    and py: "link_path (wait_link T) (mutex_wait_next u) ys NULL"
    using path u by (auto simp: wait_link_Some_iff)
  have nx: "mutex_wait_next u = NULL \<longleftrightarrow> ys = []" using py by (cases ys) auto
  have hd: "fst ht \<noteq> NULL" using wait_list_head_NULL [OF wl] by simp
  have walk: "wait_walk T t NULL (fst ht) = Some (Some (if xs = [] then NULL else last xs))"
    using path ds by (intro wait_walk_found) auto
  show thesis
  proof (cases "xs = []")
    case True
    let ?T = "T(t \<mapsto> u\<lparr>mutex_wait_next := NULL\<rparr>)"
    let ?ht = "(mutex_wait_next u, if ys = [] then NULL else snd ht)"
    have tne: "snd ht = t \<Longrightarrow> ys = []" using tl ds True by (cases ys rule: rev_cases) auto
    have "tcb_unlink ht t T = Some (?ht, ?T)"
      using u hd walk True nx tne by (auto simp: tcb_unlink_def Let_def)
    moreover have "wait_list ?T ?ht (xs @ ys)"
      using True py ds tl by (auto simp: wait_list_def)
    moreover have "chain_frame (set (xs @ t # ys)) T ?T" using u by simp
    ultimately show thesis by (rule that)
  next
    case False
    obtain l where l: "T (last xs) = Some l" "last xs \<noteq> NULL"
      using wait_list_live [OF wl, of "last xs"] False by auto
    have ne: "last xs \<noteq> t" "last xs \<notin> set ys" using ds False last_disjoint [OF False, of "set ys"] by auto
    let ?T = "T(last xs \<mapsto> l\<lparr>mutex_wait_next := mutex_wait_next u\<rparr>, t \<mapsto> u\<lparr>mutex_wait_next := NULL\<rparr>)"
    let ?ht = "(fst ht, if ys = [] then last xs else snd ht)"
    have tne: "snd ht = t \<longleftrightarrow> ys = []" using tl ds by auto
    have "tcb_unlink ht t T = Some (?ht, ?T)"
      using u l hd walk False ne tne by (auto simp: tcb_unlink_def Let_def)
    moreover have "wait_list ?T ?ht (xs @ ys)"
    proof -
      have "link_path ((wait_link T)(last xs \<mapsto> mutex_wait_next u)) (fst ht) xs (mutex_wait_next u)"
        using px False ds by (auto intro: link_path_last_upd)
      then show ?thesis using py ne ds False tl by (auto simp: wait_list_def simp del: link_path.simps)
    qed
    moreover have "chain_frame (set (xs @ t # ys)) T ?T" using u l ne False by simp
    ultimately show thesis by (rule that)
  qed
qed

lemma unlink_refines:
  assumes wl: "wait_list T ht xs"
  obtains ht' T' where "tcb_unlink ht t T = Some (ht', T')"
    and "wait_list T' ht' (remove1 t xs)" and "chain_frame (set xs) T T'"
proof (cases "t \<in> set xs")
  case True
  then obtain ys zs where xs: "xs = ys @ t # zs" and "t \<notin> set ys" by (metis split_list_first)
  moreover then have "remove1 t xs = ys @ zs" by (simp add: remove1_append)
  ultimately show thesis using unlink_present [of T ht ys t zs] wl that by metis
next
  case False
  then show thesis using unlink_absent [OF wl False] wl that by (simp add: remove1_idem)
qed

lemma pop_head_refines:
  assumes wl: "wait_list T ht (x # xs)"
  obtains ht' T' where "tcb_pop_head ht T = Some (x, ht', T')"
    and "wait_list T' ht' xs" and "chain_frame {x} T T'"
proof -
  obtain u where u: "T x = Some u" "x \<noteq> NULL" "fst ht = x" "x \<notin> set xs"
      "link_path (wait_link T) (mutex_wait_next u) xs NULL"
    using wl by (auto simp: wait_list_def wait_link_Some_iff)
  have nx: "mutex_wait_next u = NULL \<longleftrightarrow> xs = []" using u(5) by (cases xs) auto
  let ?T = "T(x \<mapsto> u\<lparr>mutex_wait_next := NULL\<rparr>)"
  let ?ht = "(mutex_wait_next u, if xs = [] then NULL else snd ht)"
  have "tcb_pop_head ht T = Some (x, ?ht, ?T)"
    using u nx by (simp add: tcb_pop_head_def Let_def)
  moreover have "wait_list ?T ?ht xs" using u wl by (auto simp: wait_list_def)
  moreover have "chain_frame {x} T ?T" using u by simp
  ultimately show thesis by (rule that)
qed

lemma pop_head_empty: "wait_list T ht [] \<Longrightarrow> tcb_pop_head ht T = Some (NULL, ht, T)"
  by (simp add: tcb_pop_head_def)

section \<open>The wait lists of the kernel objects\<close>

text \<open>
  Every wait list hangs off one object: a mutex, a semaphore, or one of the two sides of a
  message queue. \<open>wptr\<close> reads its head and tail pointer, \<open>set_wptr\<close> replaces them, and
  \<open>waiters_of\<close> is the list of tasks that wait there.
\<close>

datatype wait_obj = MutexQ addr | SemQ addr | SendQ addr | RecvQ addr

definition wptr :: "kernel \<Rightarrow> wait_obj \<Rightarrow> (addr \<times> addr) option" where
  "wptr s w = (case w of
     MutexQ m \<Rightarrow> map_option (\<lambda>x. (wait_head x, wait_tail x)) (get_mutex s m)
   | SemQ m \<Rightarrow> map_option (\<lambda>x. (sem_wait_head x, sem_wait_tail x)) (get_sem s m)
   | SendQ q \<Rightarrow> map_option (\<lambda>x. (send_wait_head x, send_wait_tail x)) (get_queue s q)
   | RecvQ q \<Rightarrow> map_option (\<lambda>x. (recv_wait_head x, recv_wait_tail x)) (get_queue s q))"

definition set_wptr :: "wait_obj \<Rightarrow> addr \<times> addr \<Rightarrow> kernel \<Rightarrow> kernel" where
  "set_wptr w ht s = (case w of
     MutexQ m \<Rightarrow> s\<lparr>mutexes := (mutexes s)(m := map_option
       (\<lambda>x. x\<lparr>wait_head := fst ht, wait_tail := snd ht\<rparr>) (mutexes s m))\<rparr>
   | SemQ m \<Rightarrow> s\<lparr>semaphores := (semaphores s)(m := map_option
       (\<lambda>x. x\<lparr>sem_wait_head := fst ht, sem_wait_tail := snd ht\<rparr>) (semaphores s m))\<rparr>
   | SendQ q \<Rightarrow> s\<lparr>msg_queues := (msg_queues s)(q := map_option
       (\<lambda>x. x\<lparr>send_wait_head := fst ht, send_wait_tail := snd ht\<rparr>) (msg_queues s q))\<rparr>
   | RecvQ q \<Rightarrow> s\<lparr>msg_queues := (msg_queues s)(q := map_option
       (\<lambda>x. x\<lparr>recv_wait_head := fst ht, recv_wait_tail := snd ht\<rparr>) (msg_queues s q))\<rparr>)"

definition waiters_of :: "kernel \<Rightarrow> wait_obj \<Rightarrow> addr list \<Rightarrow> bool" where
  "waiters_of s w xs \<longleftrightarrow> (\<exists>ht. wptr s w = Some ht \<and> wait_list (tcbs s) ht xs)"

lemma set_wptr_sel [simp]:
  "tcbs (set_wptr w ht s) = tcbs s" "ready_head (set_wptr w ht s) = ready_head s"
  "current_tcb (set_wptr w ht s) = current_tcb s" "idle_tcb (set_wptr w ht s) = idle_tcb s"
  "task_registry (set_wptr w ht s) = task_registry s"
  "task_registry_count (set_wptr w ht s) = task_registry_count s"
  "s_rtos_tick_count (set_wptr w ht s) = s_rtos_tick_count s"
  "primask (set_wptr w ht s) = primask s" "icsr (set_wptr w ht s) = icsr s"
  "ram (set_wptr w ht s) = ram s"
  by (simp_all add: set_wptr_def split: wait_obj.split)

lemma wptr_set_same [simp]: "wptr s w \<noteq> None \<Longrightarrow> wptr (set_wptr w ht s) w = Some ht"
  by (cases w) (auto simp: wptr_def set_wptr_def access_defs fetch_def split: if_splits)

lemma wptr_set_other [simp]: "w' \<noteq> w \<Longrightarrow> wptr (set_wptr w ht s) w' = wptr s w'"
  by (cases w; cases w')
     (auto simp: wptr_def set_wptr_def access_defs fetch_def option.map_comp comp_def)

lemma wptr_tcbs [simp]: "wptr (s\<lparr>tcbs := T\<rparr>) w = wptr s w"
  by (simp add: wptr_def access_defs split: wait_obj.split)

lemma wptr_more [simp]:
  "wptr (s\<lparr>icsr := i\<rparr>) w = wptr s w" "wptr (s\<lparr>primask := b\<rparr>) w = wptr s w" "wptr (s\<lparr>ram := r\<rparr>) w = wptr s w"
  by (simp_all add: wptr_def access_defs split: wait_obj.split)

lemma set_wptr_more [simp]:
  "(set_wptr w ht s)\<lparr>tcbs := T\<rparr> = set_wptr w ht (s\<lparr>tcbs := T\<rparr>)"
  "(set_wptr w ht s)\<lparr>icsr := i\<rparr> = set_wptr w ht (s\<lparr>icsr := i\<rparr>)"
  "(set_wptr w ht s)\<lparr>primask := b\<rparr> = set_wptr w ht (s\<lparr>primask := b\<rparr>)"
  by (simp_all add: set_wptr_def split: wait_obj.split)

lemma wptr_cong:
  "mutexes s' = mutexes s \<Longrightarrow> semaphores s' = semaphores s \<Longrightarrow> msg_queues s' = msg_queues s \<Longrightarrow>
   wptr s' w = wptr s w"
  by (simp add: wptr_def access_defs split: wait_obj.split)

lemma waiters_of_cong:
  "waiters_of s w xs \<Longrightarrow> wptr s' w = wptr s w \<Longrightarrow> wait_link (tcbs s') = wait_link (tcbs s) \<Longrightarrow>
   waiters_of s' w xs"
  by (auto simp: waiters_of_def wait_list_def)

lemma waiters_of_live: "waiters_of s w xs \<Longrightarrow> x \<in> set xs \<Longrightarrow> x \<noteq> NULL \<and> (\<exists>t. tcbs s x = Some t)"
  using wait_list_live by (fastforce simp: waiters_of_def)

lemma waiters_of_distinct: "waiters_of s w xs \<Longrightarrow> distinct xs"
  by (auto simp: waiters_of_def wait_list_distinct)

lemma waiters_of_unique: "waiters_of s w xs \<Longrightarrow> waiters_of s w ys \<Longrightarrow> xs = ys"
  by (auto simp: waiters_of_def dest: wait_list_unique)

end
