(* ===== verification/Rtos_Block.thy ===== *)
theory Rtos_Block
  imports Rtos_Scheduler Rtos_Wait
begin

text \<open>
  Blocking the current task, \<^verbatim>\<open>src/core/block.c\<close>. The body of \<open>rtos_block_current\<close> up to its
  busy-wait loop is \<open>block_enter\<close>: first the block fields are written with interrupts
  enabled (\<open>block_prepare\<close>), then the critical section marks the task blocked, computes its
  wake-up tick and takes it off its ready ring (\<open>block_commit\<close>), and PendSV is requested.
  The loop \<^verbatim>\<open>while (self->state == TASK_STATE_BLOCKED)\<close> is \<open>block_spin\<close>: it shows whether the
  task, when it runs again, still spins or leaves with its wake-up status.

  The retry loops \<^verbatim>\<open>for (;;)\<close> of the mutex, semaphore and message queue are instances of
  \<open>blocking_call\<close> (run the critical section; return, or block) and \<open>blocking_resume\<close> (after
  the spin loop: return the timeout, or start over).
\<close>

section \<open>Operations\<close>

definition rtos_get_tick :: "kernel \<Rightarrow> u32" where
  "rtos_get_tick s = s_rtos_tick_count s"

definition block_prepare :: "block_reason_t \<Rightarrow> addr \<Rightarrow> kernel \<Rightarrow> kernel option" where
  "block_prepare reason obj s =
     upd_tcb (current_tcb s)
       (\<lambda>t. t\<lparr>block_reason := reason, block_object := obj, block_wake_status := RTOS_OK\<rparr>) s"

definition block_commit :: "u32 \<Rightarrow> kernel \<Rightarrow> kernel option" where
  "block_commit timeout_ticks s = do {
     let self = current_tcb s;
     let s = cpsid s;
     s \<leftarrow> (if timeout_ticks = RTOS_WAIT_FOREVER \<or> timeout_ticks = 0
          then upd_tcb self (\<lambda>t. t\<lparr>wake_time := UINT32_MAX\<rparr>) s
          else upd_tcb self (\<lambda>t. t\<lparr>wake_time := rtos_get_tick s + timeout_ticks\<rparr>) s);
     s \<leftarrow> upd_tcb self (\<lambda>t. t\<lparr>state := TASK_STATE_BLOCKED\<rparr>) s;
     s \<leftarrow> scheduler_remove_task self s;
     Some (scheduler_mark_reschedule (cpsie s))
   }"

text \<open>
  \<open>Some st\<close>: the call returns \<open>st\<close> at once; \<open>None\<close>: the task is now in its spin loop. The first
  branch is never taken inside a retry loop, which has checked \<open>current_tcb\<close> before.
\<close>

definition block_enter ::
    "u32 \<Rightarrow> block_reason_t \<Rightarrow> addr \<Rightarrow> kernel \<Rightarrow> (rtos_status_t option \<times> kernel) option" where
  "block_enter timeout_ticks reason obj s =
     (if current_tcb s = NULL then Some (Some RTOS_ERR_STATE, s)
      else do {
        s \<leftarrow> block_prepare reason obj s;
        s \<leftarrow> block_commit timeout_ticks s;
        Some (None, s)
      })"

definition block_spin :: "addr \<Rightarrow> kernel \<Rightarrow> rtos_status_t option option" where
  "block_spin self s = do {
     t \<leftarrow> get_tcb s self;
     Some (if state t = TASK_STATE_BLOCKED then None else Some (block_wake_status t))
   }"

type_synonym attempt = "kernel \<Rightarrow> (rtos_status_t option \<times> kernel) option"

definition blocking_call :: "attempt \<Rightarrow> u32 \<Rightarrow> block_reason_t \<Rightarrow> addr \<Rightarrow> attempt" where
  "blocking_call att timeout_ticks reason obj s = do {
     (r, s) \<leftarrow> att s;
     case r of
       Some st \<Rightarrow> Some (Some st, s)
     | None \<Rightarrow> block_enter timeout_ticks reason obj s
   }"

definition blocking_resume :: "attempt \<Rightarrow> u32 \<Rightarrow> block_reason_t \<Rightarrow> addr \<Rightarrow> attempt" where
  "blocking_resume att timeout_ticks reason obj s = do {
     r \<leftarrow> block_spin (current_tcb s) s;
     case r of
       None \<Rightarrow> Some (None, s)
     | Some st \<Rightarrow> if st = RTOS_ERR_TIMEOUT then Some (Some RTOS_ERR_TIMEOUT, s)
                 else blocking_call att timeout_ticks reason obj s
   }"

section \<open>The blocked control block\<close>

definition wake_tick :: "u32 \<Rightarrow> u32 \<Rightarrow> u32" where
  "wake_tick now timeout_ticks = (if timeout_ticks = 0 then UINT32_MAX else now + timeout_ticks)"

definition blocked_tcb :: "u32 \<Rightarrow> u32 \<Rightarrow> block_reason_t \<Rightarrow> addr \<Rightarrow> TCB_t \<Rightarrow> TCB_t" where
  "blocked_tcb now timeout_ticks reason obj t =
     t\<lparr>block_reason := reason, block_object := obj, block_wake_status := RTOS_OK,
       wake_time := wake_tick now timeout_ticks, state := TASK_STATE_BLOCKED\<rparr>"

lemma blocked_tcb_sel [simp]:
  "next_ready (blocked_tcb n w r x t) = next_ready t"
  "mutex_wait_next (blocked_tcb n w r x t) = mutex_wait_next t"
  "prio_bucket (blocked_tcb n w r x t) = prio_bucket t"
  "priority (blocked_tcb n w r x t) = priority t"
  "base_priority (blocked_tcb n w r x t) = base_priority t"
  "state (blocked_tcb n w r x t) = TASK_STATE_BLOCKED"
  "block_reason (blocked_tcb n w r x t) = r"
  "block_object (blocked_tcb n w r x t) = x"
  "block_wake_status (blocked_tcb n w r x t) = RTOS_OK"
  "wake_time (blocked_tcb n w r x t) = wake_tick n w"
  by (simp_all add: blocked_tcb_def)

lemma ready_frame_more:
  "ready_frame s s' \<Longrightarrow> ready_frame (s\<lparr>icsr := i, primask := m\<rparr>) (s'\<lparr>icsr := i, primask := m\<rparr>)"
  unfolding ready_frame_def by auto

lemma ready_frame_icsr: "ready_frame s s' \<Longrightarrow> ready_frame (s\<lparr>icsr := i\<rparr>) (s'\<lparr>icsr := i\<rparr>)"
  unfolding ready_frame_def by auto

lemma block_enter_refines:
  assumes rel: "ready_rel s Q" and t: "tcbs s self = Some t" "self \<noteq> NULL" and cur: "current_tcb s = self"
    and b: "unat (prio_bucket t) < RTOS_NUM_PRIORITIES"
  obtains s' where "block_enter timeout reason obj s = Some (None, s')"
    and "ready_rel s' (Q(unat (prio_bucket t) := remove1 self (Q (unat (prio_bucket t)))))"
    and "ready_frame (s\<lparr>tcbs := (tcbs s)(self \<mapsto> blocked_tcb (s_rtos_tick_count s) timeout reason obj t),
                       icsr := 0x10000000, primask := False\<rparr>) s'"
proof -
  let ?t = "blocked_tcb (s_rtos_tick_count s) timeout reason obj t"
  let ?s1 = "s\<lparr>tcbs := (tcbs s)(self \<mapsto> ?t), primask := True\<rparr>"
  let ?s2 = "s\<lparr>tcbs := (tcbs s)(self \<mapsto> ?t)\<rparr>"
  have "ready_rel ?s2 Q" using ready_rel_tcb_upd [OF rel t(1)] by simp
  then have rel1: "ready_rel ?s1 Q" by (simp add: ready_rel_def)
  obtain s2 where s2: "scheduler_remove_task self ?s1 = Some s2"
    and rel2: "ready_rel s2 (Q(unat (prio_bucket t) := remove1 self (Q (unat (prio_bucket t)))))"
    and fr: "ready_frame ?s1 s2"
    using scheduler_remove_refines [OF rel1, of self ?t] t b by auto
  let ?s' = "s2\<lparr>icsr := 0x10000000, primask := False\<rparr>"
  have "block_enter timeout reason obj s = Some (None, ?s')"
    using t cur s2
    by (auto simp: block_enter_def block_prepare_def block_commit_def Let_def cpsid_def cpsie_def
        rtos_get_tick_def RTOS_WAIT_FOREVER_def blocked_tcb_def wake_tick_def
        scheduler_mark_reschedule_def)
  moreover have "ready_rel ?s' (Q(unat (prio_bucket t) := remove1 self (Q (unat (prio_bucket t)))))"
    using rel2 by (simp add: ready_rel_def)
  moreover have "ready_frame (s\<lparr>tcbs := (tcbs s)(self \<mapsto> ?t), icsr := 0x10000000, primask := False\<rparr>) ?s'"
    using ready_frame_more [OF fr, where i = "0x10000000" and m = False] by simp
  ultimately show thesis by (rule that)
qed

text \<open>Blocking the running task keeps the scheduler invariant.\<close>

lemma block_enter_inv:
  assumes inv: "sched_inv s Q" and t: "tcbs s self = Some t" and cur: "current_tcb s = self"
    and r: "runnable t"
  obtains s' where "block_enter timeout reason obj s = Some (None, s')"
    and "sched_inv s' (Q(unat (prio_bucket t) := remove1 self (Q (unat (prio_bucket t)))))"
    and "ready_frame (s\<lparr>tcbs := (tcbs s)(self \<mapsto> blocked_tcb (s_rtos_tick_count s) timeout reason obj t),
                       icsr := 0x10000000, primask := False\<rparr>) s'"
proof -
  let ?t = "blocked_tcb (s_rtos_tick_count s) timeout reason obj t"
  let ?Q = "Q(unat (prio_bucket t) := remove1 self (Q (unat (prio_bucket t))))"
  obtain s' where eq: "block_enter timeout reason obj s = Some (None, s')" and rel: "ready_rel s' ?Q"
    and fr: "ready_frame (s\<lparr>tcbs := (tcbs s)(self \<mapsto> ?t), icsr := 0x10000000, primask := False\<rparr>) s'"
    using block_enter_refines [OF sched_inv_rel [OF inv] t _ cur] sched_inv_nonnull [OF inv t]
      sched_inv_bucket [OF inv t] by blast
  have "sched_inv s' ?Q"
  proof (rule sched_inv_step [OF inv rel fr])
    show "placed ?Q self ?t" using make_blocked_placed [OF inv t r, of ?t] by (simp add: runnable_def)
    show "x \<in> set (?Q b) \<longleftrightarrow> x \<in> set (Q b)" if "x \<noteq> self" for b x
      using that by (simp add: set_remove1_other)
  qed
  with eq fr show thesis using that by blast
qed

section \<open>The contract of a wait object\<close>

text \<open>
  What \<^verbatim>\<open>task.c\<close> relies on when a wait times out or a waiting task is deleted: an object with a
  wait list offers \<open>unlink\<close>, \<open>wake_timeout\<close> and \<open>detach\<close>, which take a task off the list,
  respectively also make it ready with the timeout status, or forget it. Mutexes, semaphores
  and both sides of message queues interpret this locale with their own code.
\<close>

locale wait_object =
  fixes obj :: wait_obj
    and unlink :: "addr \<Rightarrow> kernel \<Rightarrow> kernel option"
    and wake_timeout :: "addr \<Rightarrow> kernel \<Rightarrow> kernel option"
    and detach :: "addr \<Rightarrow> kernel \<Rightarrow> kernel option"
    and timed_out :: "TCB_t \<Rightarrow> TCB_t"
    and detached :: "TCB_t \<Rightarrow> TCB_t"
    and blocked_here :: "TCB_t \<Rightarrow> bool"
  assumes unlink_eq: "wptr s obj = Some ht \<Longrightarrow> t \<noteq> NULL \<Longrightarrow>
      unlink t s = map_option (\<lambda>(ht', T). set_wptr obj ht' (s\<lparr>tcbs := T\<rparr>)) (tcb_unlink ht t (tcbs s))"
    and wake_eq: "wptr s obj \<noteq> None \<Longrightarrow> tcbs s t = Some u \<Longrightarrow> t \<noteq> NULL \<Longrightarrow> blocked_here u \<Longrightarrow>
      wake_timeout t s = do { s1 \<leftarrow> unlink t s; s2 \<leftarrow> upd_tcb t timed_out s1;
                              (_, s3) \<leftarrow> scheduler_add_task t s2; Some s3 }"
    and detach_eq: "wptr s obj \<noteq> None \<Longrightarrow> tcbs s t = Some u \<Longrightarrow> t \<noteq> NULL \<Longrightarrow> blocked_here u \<Longrightarrow>
      detach t s = do { s1 \<leftarrow> unlink t s; upd_tcb t detached s1 }"
    and timed_out_state: "state (timed_out u) = TASK_STATE_READY"
      "block_wake_status (timed_out u) = RTOS_ERR_TIMEOUT"
      "block_reason (timed_out u) = BLOCK_NONE" "block_object (timed_out u) = NULL"
    and timed_out_same: "priority (timed_out u) = priority u" "prio_bucket (timed_out u) = prio_bucket u"
      "base_priority (timed_out u) = base_priority u" "next_ready (timed_out u) = next_ready u"
      "mutex_wait_next (timed_out u) = mutex_wait_next u"
    and detached_next: "mutex_wait_next (detached u) = NULL"
    and detached_same: "priority (detached u) = priority u" "prio_bucket (detached u) = prio_bucket u"
      "state (detached u) = state u" "next_ready (detached u) = next_ready u"
    and timed_out_wait: "timed_out (u\<lparr>mutex_wait_next := r\<rparr>) = (timed_out u)\<lparr>mutex_wait_next := r\<rparr>"
    and detached_wait: "detached (u\<lparr>mutex_wait_next := r\<rparr>) = detached u"
begin

lemma unlink_waiter:
  assumes w: "waiters_of s obj xs" and t: "t \<noteq> NULL"
  obtains ht T where "unlink t s = Some (set_wptr obj ht (s\<lparr>tcbs := T\<rparr>))"
    and "wait_list T ht (remove1 t xs)" and "chain_frame (set xs) (tcbs s) T"
proof -
  obtain ht0 where p: "wptr s obj = Some ht0" and wl: "wait_list (tcbs s) ht0 xs"
    using w by (auto simp: waiters_of_def)
  show thesis
    by (rule unlink_refines [OF wl, of t]) (simp add: that unlink_eq [OF p t])
qed

lemma wake_timeout_waiter:
  assumes inv: "sched_inv s Q" and w: "waiters_of s obj xs" and t: "tcbs s t = Some u"
    and here: "blocked_here u" and blk: "\<not> runnable u"
  obtains s' ht T r where "wake_timeout t s = Some s'"
    and "sched_inv s' (Q(unat (prio_bucket u) := Q (unat (prio_bucket u)) @ [t]))"
    and "waiters_of s' obj (remove1 t xs)"
    and "chain_frame (set xs) (tcbs s) T" and "T t = Some (u\<lparr>mutex_wait_next := r\<rparr>)"
    and "ready_frame (set_wptr obj ht (s\<lparr>tcbs := T(t \<mapsto> timed_out (u\<lparr>mutex_wait_next := r\<rparr>))\<rparr>)) s'"
proof -
  have nn: "t \<noteq> NULL" using inv t by (rule sched_inv_nonnull)
  have p: "wptr s obj \<noteq> None" using w by (auto simp: waiters_of_def)
  obtain ht T where u1: "unlink t s = Some (set_wptr obj ht (s\<lparr>tcbs := T\<rparr>))"
    and wl: "wait_list T ht (remove1 t xs)" and cf: "chain_frame (set xs) (tcbs s) T"
    using unlink_waiter [OF w nn] by blast
  have same: "same_but_wait (tcbs s) T" using cf by (simp add: chain_frame_def)
  obtain r where t1: "T t = Some (u\<lparr>mutex_wait_next := r\<rparr>)" using same t by (rule same_but_wait_Some)
  let ?u = "u\<lparr>mutex_wait_next := r\<rparr>"
  let ?s1 = "set_wptr obj ht (s\<lparr>tcbs := T\<rparr>)"
  let ?s2 = "set_wptr obj ht (s\<lparr>tcbs := T(t \<mapsto> timed_out ?u)\<rparr>)"
  have eq2: "?s1\<lparr>tcbs := (tcbs ?s1)(t \<mapsto> timed_out ?u)\<rparr> = ?s2"
    by (simp add: set_wptr_def split: wait_obj.split)
  have "sched_inv (s\<lparr>tcbs := T\<rparr>) Q" using sched_inv_wait [OF inv same] .
  then have inv1: "sched_inv ?s1 Q" by (simp add: sched_inv_def ready_rel_def)
  obtain s' where add: "scheduler_add_task t ?s2 = Some (RTOS_OK, s')"
    and inv': "sched_inv s' (Q(unat (prio_bucket u) := Q (unat (prio_bucket u)) @ [t]))"
    and fr: "ready_frame ?s2 s'"
    using make_ready [OF inv1, of t ?u "timed_out ?u"] t1 blk eq2
    by (auto simp: timed_out_state timed_out_same runnable_def)
  have "wake_timeout t s = Some s'"
    using wake_eq [OF p t nn here] u1 t1 nn add eq2 by simp
  moreover have "waiters_of s' obj (remove1 t xs)"
  proof -
    have "wptr s' obj = wptr ?s2 obj" by (rule wptr_cong) (simp_all add: ready_frame_sel [OF fr])
    then have "wptr s' obj = Some ht" using p by simp
    moreover have "wait_link (tcbs s') = wait_link T"
      using ready_frame_wait_link [OF fr] t1 by (simp add: timed_out_same)
    ultimately show ?thesis using wl by (simp add: waiters_of_def wait_list_def)
  qed
  ultimately show thesis using that inv' cf t1 fr by blast
qed

text \<open>The other wait lists do not notice.\<close>

lemma wake_timeout_others:
  assumes fr: "ready_frame (set_wptr obj ht (s\<lparr>tcbs := T(t \<mapsto> timed_out (u\<lparr>mutex_wait_next := r\<rparr>))\<rparr>)) s'"
    and cf: "chain_frame (set xs) (tcbs s) T" and t1: "T t = Some (u\<lparr>mutex_wait_next := r\<rparr>)"
    and w: "waiters_of s w ys" and ne: "w \<noteq> obj" and disj: "set ys \<inter> set xs = {}"
  shows "waiters_of s' w ys"
proof -
  let ?s2 = "set_wptr obj ht (s\<lparr>tcbs := T(t \<mapsto> timed_out (u\<lparr>mutex_wait_next := r\<rparr>))\<rparr>)"
  have "wptr s' w = wptr ?s2 w" by (rule wptr_cong) (simp_all add: ready_frame_sel [OF fr])
  then have "wptr s' w = wptr s w" using ne by simp
  moreover have "wait_link (tcbs s') = wait_link T"
    using ready_frame_wait_link [OF fr] t1 by (simp add: timed_out_same)
  ultimately show ?thesis
    using w wait_list_frame [OF cf disj] by (auto simp: waiters_of_def wait_list_def)
qed

lemma detach_waiter:
  assumes w: "waiters_of s obj xs" and t: "tcbs s t = Some u" "t \<noteq> NULL" and here: "blocked_here u"
    and mem: "t \<in> set xs"
  obtains ht T r where "detach t s = Some (set_wptr obj ht (s\<lparr>tcbs := T(t \<mapsto> detached (u\<lparr>mutex_wait_next := r\<rparr>))\<rparr>))"
    and "wait_list (T(t \<mapsto> detached (u\<lparr>mutex_wait_next := r\<rparr>))) ht (remove1 t xs)"
    and "chain_frame (set xs) (tcbs s) T" and "T t = Some (u\<lparr>mutex_wait_next := r\<rparr>)"
proof -
  have p: "wptr s obj \<noteq> None" using w by (auto simp: waiters_of_def)
  obtain ht T where u1: "unlink t s = Some (set_wptr obj ht (s\<lparr>tcbs := T\<rparr>))"
    and wl: "wait_list T ht (remove1 t xs)" and cf: "chain_frame (set xs) (tcbs s) T"
    using unlink_waiter [OF w t(2)] by blast
  have same: "same_but_wait (tcbs s) T" using cf by (simp add: chain_frame_def)
  obtain r where t1: "T t = Some (u\<lparr>mutex_wait_next := r\<rparr>)" using same t(1) by (rule same_but_wait_Some)
  let ?v = "detached (u\<lparr>mutex_wait_next := r\<rparr>)"
  have "t \<notin> set (remove1 t xs)" using waiters_of_distinct [OF w] by simp
  then have "wait_list (T(t \<mapsto> ?v)) ht (remove1 t xs)" using wl by (simp add: wait_list_def)
  moreover have "detach t s = Some (set_wptr obj ht (s\<lparr>tcbs := T(t \<mapsto> ?v)\<rparr>))"
    using detach_eq [OF p t here] u1 t1 t(2) by (simp add: set_wptr_def split: wait_obj.split)
  ultimately show thesis using that cf t1 by blast
qed

end

text \<open>
  Semaphores and message queues serve their waiters first come, first served: they also offer
  \<open>enqueue\<close>, which a blocking call uses just before \<open>rtos_block_current\<close>, and \<open>pop_head\<close>, the
  first half of a wake-up. \<open>woken\<close> is what the wake-up writes into the control block.
\<close>

definition woken :: "TCB_t \<Rightarrow> TCB_t" where
  "woken t = t\<lparr>block_reason := BLOCK_NONE, block_object := NULL, state := TASK_STATE_READY\<rparr>"

lemma woken_sel [simp]:
  "next_ready (woken t) = next_ready t" "mutex_wait_next (woken t) = mutex_wait_next t"
  "prio_bucket (woken t) = prio_bucket t" "priority (woken t) = priority t"
  "state (woken t) = TASK_STATE_READY" "block_reason (woken t) = BLOCK_NONE"
  "block_object (woken t) = NULL" "block_wake_status (woken t) = block_wake_status t"
  by (simp_all add: woken_def)

lemma waiters_of_frame:
  assumes "ready_frame s s'" and "waiters_of s w xs"
  shows "waiters_of s' w xs"
  using assms(2) by (rule waiters_of_cong)
    (use ready_frame_sel [OF assms(1)] ready_frame_wait_link [OF assms(1)] in \<open>auto intro: wptr_cong\<close>)

lemma waiters_of_more [simp]:
  "waiters_of (s\<lparr>icsr := i\<rparr>) w xs = waiters_of s w xs"
  "waiters_of (s\<lparr>primask := p\<rparr>) w xs = waiters_of s w xs"
  "waiters_of (s\<lparr>ram := r\<rparr>) w xs = waiters_of s w xs"
  by (simp_all add: waiters_of_def)

text \<open>The tasks of a wait list are not runnable; a wake-up sends the first one to its ring.\<close>

definition blocked_all :: "kernel \<Rightarrow> addr list \<Rightarrow> bool" where
  "blocked_all s xs \<longleftrightarrow> (\<forall>x \<in> set xs. \<exists>u. tcbs s x = Some u \<and> \<not> runnable u)"

definition wake_queues :: "kernel \<Rightarrow> addr list \<Rightarrow> ready_queues \<Rightarrow> ready_queues" where
  "wake_queues s xs Q = (case xs of
     [] \<Rightarrow> Q
   | x # _ \<Rightarrow> let b = unat (prio_bucket (the (tcbs s x))) in Q(b := Q b @ [x]))"

definition first_woken :: "kernel \<Rightarrow> addr list \<Rightarrow> (addr \<rightharpoonup> TCB_t) \<Rightarrow> bool" where
  "first_woken s xs T \<longleftrightarrow> (\<forall>a. a \<notin> set (take 1 xs) \<longrightarrow> T a = tcbs s a) \<and>
     (\<forall>a \<in> set (take 1 xs). \<exists>u r. tcbs s a = Some u \<and> T a = Some (woken (u\<lparr>mutex_wait_next := r\<rparr>)))"

locale fifo_wait_object = wait_object +
  fixes enqueue :: "addr \<Rightarrow> kernel \<Rightarrow> kernel option"
    and pop_head :: "kernel \<Rightarrow> (addr \<times> kernel) option"
  assumes enqueue_eq: "wptr s obj = Some ht \<Longrightarrow>
      enqueue t s = map_option (\<lambda>(ht', T). set_wptr obj ht' (s\<lparr>tcbs := T\<rparr>)) (tcb_enqueue_tail ht t (tcbs s))"
    and pop_eq: "wptr s obj = Some ht \<Longrightarrow>
      pop_head s = map_option (\<lambda>(w, ht', T). (w, set_wptr obj ht' (s\<lparr>tcbs := T\<rparr>))) (tcb_pop_head ht (tcbs s))"
begin

lemma enqueue_waiter:
  assumes w: "waiters_of s obj xs" and t: "tcbs s t = Some u" "t \<noteq> NULL" and new: "t \<notin> set xs"
  obtains ht T where "enqueue t s = Some (set_wptr obj ht (s\<lparr>tcbs := T\<rparr>))"
    and "wait_list T ht (xs @ [t])" and "chain_frame (insert t (set xs)) (tcbs s) T"
proof -
  obtain ht0 where p: "wptr s obj = Some ht0" and wl: "wait_list (tcbs s) ht0 xs"
    using w by (auto simp: waiters_of_def)
  show thesis
    by (rule enqueue_tail_refines [OF wl t new]) (simp add: that enqueue_eq [OF p])
qed

text \<open>The blocking branch of a wait: join the list, then leave the ready ring.\<close>

lemma block_waiter:
  assumes inv: "sched_inv s Q" and w: "waiters_of s obj xs" and cur: "current_tcb s = self"
    and t: "tcbs s self = Some t" and r: "runnable t" and new: "self \<notin> set xs"
  obtains ht T s' t' rw where "enqueue self (cpsid s) = Some (set_wptr obj ht (s\<lparr>tcbs := T, primask := True\<rparr>))"
    and "block_enter timeout reason x (set_wptr obj ht (s\<lparr>tcbs := T, primask := False\<rparr>)) = Some (None, s')"
    and "sched_inv s' (Q(unat (prio_bucket t) := remove1 self (Q (unat (prio_bucket t)))))"
    and "waiters_of s' obj (xs @ [self])"
    and "chain_frame (insert self (set xs)) (tcbs s) T"
    and "t' = blocked_tcb (s_rtos_tick_count s) timeout reason x (t\<lparr>mutex_wait_next := rw\<rparr>)"
    and "ready_frame (set_wptr obj ht (s\<lparr>tcbs := T(self \<mapsto> t'), icsr := 0x10000000, primask := False\<rparr>)) s'"
proof -
  have nn: "self \<noteq> NULL" using inv t by (rule sched_inv_nonnull)
  have w0: "waiters_of (cpsid s) obj xs" using w by (simp add: cpsid_def)
  obtain ht T where enq: "enqueue self (cpsid s) = Some (set_wptr obj ht (s\<lparr>tcbs := T, primask := True\<rparr>))"
    and wl: "wait_list T ht (xs @ [self])" and cf: "chain_frame (insert self (set xs)) (tcbs s) T"
    using enqueue_waiter [OF w0, of self t] t nn new by (auto simp: cpsid_def)
  let ?s1 = "set_wptr obj ht (s\<lparr>tcbs := T, primask := False\<rparr>)"
  have p: "wptr s obj \<noteq> None" using w by (auto simp: waiters_of_def)
  have same: "same_but_wait (tcbs s) T" using cf by (simp add: chain_frame_def)
  obtain rr where t1: "T self = Some (t\<lparr>mutex_wait_next := rr\<rparr>)" using same t by (rule same_but_wait_Some)
  have "sched_inv (s\<lparr>tcbs := T\<rparr>) Q" using sched_inv_wait [OF inv same] .
  then have inv1: "sched_inv ?s1 Q" by (simp add: sched_inv_def ready_rel_def)
  have w1: "waiters_of ?s1 obj (xs @ [self])" using wl p by (simp add: waiters_of_def)
  let ?t = "t\<lparr>mutex_wait_next := rr\<rparr>"
  let ?t' = "blocked_tcb (s_rtos_tick_count s) timeout reason x ?t"
  let ?s2 = "set_wptr obj ht (s\<lparr>tcbs := T(self \<mapsto> ?t'), icsr := 0x10000000, primask := False\<rparr>)"
  obtain s' where b: "block_enter timeout reason x ?s1 = Some (None, s')"
    and inv': "sched_inv s' (Q(unat (prio_bucket t) := remove1 self (Q (unat (prio_bucket t)))))"
    and fr: "ready_frame ?s2 s'"
    using block_enter_inv [OF inv1, of self ?t timeout reason x] t1 cur r by (auto simp: runnable_def)
  have "waiters_of ?s2 obj (xs @ [self])"
    using w1 p by (auto intro: waiters_of_cong simp: t1)
  then have "waiters_of s' obj (xs @ [self])" by (rule waiters_of_frame [OF fr])
  then show thesis using that [OF enq b inv' _ cf refl fr] by blast
qed

text \<open>Waking the first waiter: it leaves the list and joins its ready ring.\<close>

lemma wake_first:
  assumes inv: "sched_inv s Q" and w: "waiters_of s obj (x # xs)" and t: "tcbs s x = Some u"
    and blk: "\<not> runnable u"
  obtains ht T s' v rw where "pop_head s = Some (x, set_wptr obj ht (s\<lparr>tcbs := T\<rparr>))" and "x \<noteq> NULL"
    and "T x = Some (u\<lparr>mutex_wait_next := rw\<rparr>)" and "v = woken (u\<lparr>mutex_wait_next := rw\<rparr>)"
    and "scheduler_add_task x (set_wptr obj ht (s\<lparr>tcbs := T(x \<mapsto> v)\<rparr>)) = Some (RTOS_OK, s')"
    and "sched_inv s' (Q(unat (prio_bucket u) := Q (unat (prio_bucket u)) @ [x]))"
    and "waiters_of s' obj xs" and "chain_frame {x} (tcbs s) T"
    and "ready_frame (set_wptr obj ht (s\<lparr>tcbs := T(x \<mapsto> v)\<rparr>)) s'"
proof -
  have nn: "x \<noteq> NULL" using inv t by (rule sched_inv_nonnull)
  obtain ht0 where p: "wptr s obj = Some ht0" and wl: "wait_list (tcbs s) ht0 (x # xs)"
    using w by (auto simp: waiters_of_def)
  obtain ht T where pop: "tcb_pop_head ht0 (tcbs s) = Some (x, ht, T)"
    and wl': "wait_list T ht xs" and cf: "chain_frame {x} (tcbs s) T"
    using pop_head_refines [OF wl] by blast
  let ?s1 = "set_wptr obj ht (s\<lparr>tcbs := T\<rparr>)"
  have same: "same_but_wait (tcbs s) T" using cf by (simp add: chain_frame_def)
  obtain rw where t1: "T x = Some (u\<lparr>mutex_wait_next := rw\<rparr>)" using same t by (rule same_but_wait_Some)
  let ?v = "woken (u\<lparr>mutex_wait_next := rw\<rparr>)"
  let ?s2 = "set_wptr obj ht (s\<lparr>tcbs := T(x \<mapsto> ?v)\<rparr>)"
  have inv1: "sched_inv ?s1 Q" using sched_inv_wait [OF inv same] by (simp add: sched_inv_def ready_rel_def)
  obtain s' where add: "scheduler_add_task x ?s2 = Some (RTOS_OK, s')"
    and inv': "sched_inv s' (Q(unat (prio_bucket u) := Q (unat (prio_bucket u)) @ [x]))"
    and fr: "ready_frame ?s2 s'"
    using make_ready [OF inv1, of x "u\<lparr>mutex_wait_next := rw\<rparr>" ?v] t1 blk by (auto simp: runnable_def)
  have "waiters_of ?s1 obj xs" using wl' p by (simp add: waiters_of_def)
  then have "waiters_of ?s2 obj xs" by (rule waiters_of_cong) (use t1 p in simp_all)
  then have "waiters_of s' obj xs" by (rule waiters_of_frame [OF fr])
  moreover have "pop_head s = Some (x, ?s1)" using pop_eq [OF p] pop by simp
  ultimately show thesis using that nn t1 add inv' cf fr by blast
qed

text \<open>The whole wake-up, on an empty list too.\<close>

lemma wake_any:
  assumes inv: "sched_inv s Q" and w: "waiters_of s obj xs" and blk: "blocked_all s xs"
  obtains ht T i s' where "do {
      (t, s) \<leftarrow> pop_head s;
      if t \<noteq> NULL then do {
        s \<leftarrow> upd_tcb t woken s; (_, s) \<leftarrow> scheduler_add_task t s; Some (scheduler_mark_reschedule s)
      } else Some s } = Some s'"
    and "sched_inv s' (wake_queues s xs Q)" and "waiters_of s' obj (tl xs)"
    and "ready_frame (set_wptr obj ht (s\<lparr>tcbs := T, icsr := i\<rparr>)) s'" and "first_woken s xs T"
    and "i = (if xs = [] then icsr s else 0x10000000)"
proof (cases xs)
  case Nil
  obtain ht where p: "wptr s obj = Some ht" and wl: "wait_list (tcbs s) ht []"
    using w Nil by (auto simp: waiters_of_def)
  have id: "set_wptr obj ht s = s"
    using p by (auto simp: set_wptr_def wptr_def access_defs fetch_def map_upd_triv split: wait_obj.splits if_splits)
  show thesis
    using that [of s ht "icsr s" "tcbs s"] inv w Nil id pop_head_empty [OF wl]
    by (simp add: pop_eq [OF p] wake_queues_def first_woken_def)
next
  case (Cons x ys)
  obtain u where u: "tcbs s x = Some u" "\<not> runnable u" using blk Cons by (auto simp: blocked_all_def)
  obtain ht T s' v rw where pop: "pop_head s = Some (x, set_wptr obj ht (s\<lparr>tcbs := T\<rparr>))" and nn: "x \<noteq> NULL"
    and tx: "T x = Some (u\<lparr>mutex_wait_next := rw\<rparr>)" and v: "v = woken (u\<lparr>mutex_wait_next := rw\<rparr>)"
    and add: "scheduler_add_task x (set_wptr obj ht (s\<lparr>tcbs := T(x \<mapsto> v)\<rparr>)) = Some (RTOS_OK, s')"
    and s': "sched_inv s' (Q(unat (prio_bucket u) := Q (unat (prio_bucket u)) @ [x]))" "waiters_of s' obj ys"
    and cf: "chain_frame {x} (tcbs s) T"
    and fr: "ready_frame (set_wptr obj ht (s\<lparr>tcbs := T(x \<mapsto> v)\<rparr>)) s'"
    by (rule wake_first [OF inv w [unfolded Cons] u])
  have fr': "ready_frame (set_wptr obj ht (s\<lparr>tcbs := T(x \<mapsto> v), icsr := 0x10000000\<rparr>)) (s'\<lparr>icsr := 0x10000000\<rparr>)"
    using ready_frame_icsr [OF fr, of "0x10000000"] by simp
  show thesis
    using that [of "s'\<lparr>icsr := 0x10000000\<rparr>" ht "0x10000000" "T(x \<mapsto> v)"] s' fr' pop nn tx v add cf Cons u
    by (simp add: wake_queues_def first_woken_def chain_frame_def scheduler_mark_reschedule_def Let_def) blast
qed

end

end
