(* ===== verification/Rtos_Mutex.thy ===== *)
theory Rtos_Mutex
  imports Rtos_Block
begin

text \<open>
  The mutex of \<^verbatim>\<open>src/sync/mutex.c\<close>: ownership, a wait list in arrival order from which the
  most urgent waiter is served first, and priority inheritance with migration between ready
  rings.
\<close>

section \<open>Operations\<close>

text \<open>The loop of \<^verbatim>\<open>_min_wait_priority_value\<close>.\<close>

partial_function (option) min_wait_loop :: "(addr \<rightharpoonup> TCB_t) \<Rightarrow> u8 \<Rightarrow> addr \<Rightarrow> u8 option" where
  "min_wait_loop T min_pri w =
     (if w = NULL then Some min_pri
      else do {
        t \<leftarrow> fetch T w;
        min_wait_loop T (if priority t < min_pri then priority t else min_pri) (mutex_wait_next t)
      })"

definition min_wait_priority_value :: "(addr \<rightharpoonup> TCB_t) \<Rightarrow> mutex_t \<Rightarrow> u8 option" where
  "min_wait_priority_value T m =
     (if wait_head m = NULL then Some RTOS_PRIORITY_MAX
      else do {
        w \<leftarrow> fetch T (wait_head m);
        min_wait_loop T (priority w) (mutex_wait_next w)
      })"

definition apply_pi :: "addr \<Rightarrow> kernel \<Rightarrow> kernel option" where
  "apply_pi m s = do {
     mx \<leftarrow> get_mutex s m;
     if owner mx = NULL \<or> wait_head mx = NULL then Some s
     else do {
       hp \<leftarrow> min_wait_priority_value (tcbs s) mx;
       t \<leftarrow> get_tcb s (owner mx);
       if hp < priority t then do {
         let old_bucket = prio_bucket t;
         s \<leftarrow> upd_tcb (owner mx) (\<lambda>t. t\<lparr>priority := hp, prio_bucket := prio_bucket_of hp\<rparr>) s;
         scheduler_rebucket_task (owner mx) old_bucket (prio_bucket_of hp) s
       } else Some s
     }
   }"

definition restore_owner_priority :: "addr \<Rightarrow> kernel \<Rightarrow> kernel option" where
  "restore_owner_priority tcb s =
     (if tcb = NULL then Some s
      else do {
        t \<leftarrow> get_tcb s tcb;
        let old_bucket = prio_bucket t;
        let new_bucket = prio_bucket_of (base_priority t);
        s \<leftarrow> upd_tcb tcb (\<lambda>t. t\<lparr>priority := base_priority t, prio_bucket := new_bucket\<rparr>) s;
        scheduler_rebucket_task tcb old_bucket new_bucket s
      })"

definition mutex_wait_unlink :: "addr \<Rightarrow> addr \<Rightarrow> kernel \<Rightarrow> kernel option" where
  "mutex_wait_unlink m t s =
     (if m = NULL \<or> t = NULL then Some s
      else do {
        mx \<leftarrow> get_mutex s m;
        if wait_head mx = NULL then Some s
        else do {
          found \<leftarrow> wait_walk (tcbs s) t NULL (wait_head mx);
          case found of
            None \<Rightarrow> Some s
          | Some prev \<Rightarrow> do {
              u \<leftarrow> get_tcb s t;
              s \<leftarrow> (if prev = NULL then upd_mutex m (\<lambda>x. x\<lparr>wait_head := mutex_wait_next u\<rparr>) s
                   else upd_tcb prev (\<lambda>v. v\<lparr>mutex_wait_next := mutex_wait_next u\<rparr>) s);
              s \<leftarrow> (if t = wait_tail mx then upd_mutex m (\<lambda>x. x\<lparr>wait_tail := prev\<rparr>) s else Some s);
              mx \<leftarrow> get_mutex s m;
              s \<leftarrow> (if wait_head mx = NULL then upd_mutex m (\<lambda>x. x\<lparr>wait_tail := NULL\<rparr>) s else Some s);
              upd_tcb t (\<lambda>v. v\<lparr>mutex_wait_next := NULL\<rparr>) s
            }
        }
      })"

definition mutex_wait_enqueue_tail :: "addr \<Rightarrow> addr \<Rightarrow> kernel \<Rightarrow> kernel option" where
  "mutex_wait_enqueue_tail m t s = do {
     s \<leftarrow> upd_tcb t (\<lambda>u. u\<lparr>mutex_wait_next := NULL\<rparr>) s;
     mx \<leftarrow> get_mutex s m;
     if wait_head mx = NULL then upd_mutex m (\<lambda>x. x\<lparr>wait_head := t, wait_tail := t\<rparr>) s
     else do {
       s \<leftarrow> upd_tcb (wait_tail mx) (\<lambda>u. u\<lparr>mutex_wait_next := t\<rparr>) s;
       upd_mutex m (\<lambda>x. x\<lparr>wait_tail := t\<rparr>) s
     }
   }"

text \<open>The scan of \<^verbatim>\<open>_wait_pop_highest\<close>: the best waiter so far and its predecessor.\<close>

partial_function (option) best_loop ::
    "(addr \<rightharpoonup> TCB_t) \<Rightarrow> addr \<Rightarrow> addr \<Rightarrow> addr \<Rightarrow> addr \<Rightarrow> (addr \<times> addr) option" where
  "best_loop T best best_prev prev walk =
     (if walk = NULL then Some (best, best_prev)
      else do {
        w \<leftarrow> fetch T walk;
        b \<leftarrow> fetch T best;
        if priority w < priority b then best_loop T walk prev walk (mutex_wait_next w)
        else best_loop T best best_prev walk (mutex_wait_next w)
      })"

definition wait_pop_highest :: "addr \<Rightarrow> kernel \<Rightarrow> (addr \<times> kernel) option" where
  "wait_pop_highest m s = do {
     mx \<leftarrow> get_mutex s m;
     if wait_head mx = NULL then Some (NULL, s)
     else do {
       (best, best_prev) \<leftarrow> best_loop (tcbs s) (wait_head mx) NULL NULL (wait_head mx);
       b \<leftarrow> get_tcb s best;
       s \<leftarrow> (if best_prev = NULL then do {
               s \<leftarrow> upd_mutex m (\<lambda>x. x\<lparr>wait_head := mutex_wait_next b\<rparr>) s;
               mx \<leftarrow> get_mutex s m;
               if wait_head mx = NULL then upd_mutex m (\<lambda>x. x\<lparr>wait_tail := NULL\<rparr>) s else Some s
             } else do {
               s \<leftarrow> upd_tcb best_prev (\<lambda>u. u\<lparr>mutex_wait_next := mutex_wait_next b\<rparr>) s;
               if best = wait_tail mx then upd_mutex m (\<lambda>x. x\<lparr>wait_tail := best_prev\<rparr>) s else Some s
             });
       s \<leftarrow> upd_tcb best (\<lambda>u. u\<lparr>mutex_wait_next := NULL\<rparr>) s;
       Some (best, s)
     }
   }"

definition mutex_wake_timeout :: "addr \<Rightarrow> kernel \<Rightarrow> kernel option" where
  "mutex_wake_timeout t s =
     (if t = NULL then Some s
      else do {
        u \<leftarrow> get_tcb s t;
        s \<leftarrow> (if block_object u \<noteq> NULL then mutex_wait_unlink (block_object u) t s else Some s);
        s \<leftarrow> upd_tcb t (\<lambda>u. u\<lparr>blocked_on_mutex := NULL, block_reason := BLOCK_NONE,
               block_object := NULL, block_wake_status := RTOS_ERR_TIMEOUT,
               state := TASK_STATE_READY\<rparr>) s;
        (_, s) \<leftarrow> scheduler_add_task t s;
        Some s
      })"

definition mutex_detach_waiter :: "addr \<Rightarrow> addr \<Rightarrow> kernel \<Rightarrow> kernel option" where
  "mutex_detach_waiter m t s =
     (if m = NULL \<or> t = NULL then Some s
      else do {
        s \<leftarrow> mutex_wait_unlink m t s;
        upd_tcb t (\<lambda>u. u\<lparr>blocked_on_mutex := NULL, mutex_wait_next := NULL\<rparr>) s
      })"

text \<open>Initialisation clears the storage the caller provides at \<open>m\<close>.\<close>

definition mutex_init :: "addr \<Rightarrow> kernel \<Rightarrow> rtos_status_t \<times> kernel" where
  "mutex_init m s =
     (if m = NULL then (RTOS_ERR_PARAM, s)
      else (RTOS_OK, s\<lparr>mutexes := (mutexes s)(m \<mapsto>
              \<lparr>locked = False, owner = NULL, wait_head = NULL, wait_tail = NULL\<rparr>)\<rparr>))"

text \<open>
  One pass through the loop of \<^verbatim>\<open>mutex_lock\<close>, up to the call of \<open>rtos_block_current\<close>:
  \<open>Some st\<close> when the call returns, \<open>None\<close> when the task has to block.
\<close>

definition mutex_lock_attempt :: "addr \<Rightarrow> attempt" where
  "mutex_lock_attempt m s =
     (if m = NULL then Some (Some RTOS_ERR_PARAM, s)
      else let self = current_tcb s in
      if self = NULL then Some (Some RTOS_ERR_STATE, s)
      else do {
        let s = cpsid s;
        mx \<leftarrow> get_mutex s m;
        if locked mx \<and> owner mx = self then Some (Some RTOS_OK, cpsie s)
        else if \<not> locked mx then do {
          s \<leftarrow> upd_mutex m (\<lambda>x. x\<lparr>locked := True, owner := self\<rparr>) s;
          s \<leftarrow> upd_tcb self (\<lambda>t. t\<lparr>blocked_on_mutex := NULL\<rparr>) s;
          Some (Some RTOS_OK, cpsie s)
        } else do {
          s \<leftarrow> upd_tcb self (\<lambda>t. t\<lparr>blocked_on_mutex := m\<rparr>) s;
          s \<leftarrow> mutex_wait_enqueue_tail m self s;
          s \<leftarrow> apply_pi m s;
          Some (None, cpsie s)
        }
      })"

definition mutex_lock :: "addr \<Rightarrow> u32 \<Rightarrow> attempt" where
  "mutex_lock m timeout_ticks = blocking_call (mutex_lock_attempt m) timeout_ticks BLOCK_MUTEX m"

definition mutex_lock_resume :: "addr \<Rightarrow> u32 \<Rightarrow> attempt" where
  "mutex_lock_resume m timeout_ticks =
     blocking_resume (mutex_lock_attempt m) timeout_ticks BLOCK_MUTEX m"

definition mutex_unlock :: "addr \<Rightarrow> kernel \<Rightarrow> (rtos_status_t \<times> kernel) option" where
  "mutex_unlock m s =
     (if m = NULL then Some (RTOS_ERR_PARAM, s)
      else do {
        mx \<leftarrow> get_mutex s m;
        let self = current_tcb s;
        if self = NULL \<or> \<not> locked mx \<or> owner mx \<noteq> self then Some (RTOS_ERR_OWNER, s)
        else do {
          let s = cpsid s;
          s \<leftarrow> restore_owner_priority self s;
          (nxt, s) \<leftarrow> wait_pop_highest m s;
          s \<leftarrow> (if nxt = NULL then upd_mutex m (\<lambda>x. x\<lparr>locked := False, owner := NULL\<rparr>) s
               else do {
                 s \<leftarrow> upd_mutex m (\<lambda>x. x\<lparr>owner := nxt, locked := True\<rparr>) s;
                 s \<leftarrow> upd_tcb nxt (\<lambda>t. t\<lparr>blocked_on_mutex := NULL, block_reason := BLOCK_NONE,
                        block_object := NULL, state := TASK_STATE_READY\<rparr>) s;
                 (_, s) \<leftarrow> scheduler_add_task nxt s;
                 Some s
               });
          Some (RTOS_OK, scheduler_mark_reschedule (cpsie s))
        }
      })"

section \<open>The wait list of a mutex\<close>

definition mutex_waiters :: "kernel \<Rightarrow> addr \<Rightarrow> addr list \<Rightarrow> bool" where
  "mutex_waiters s m xs \<longleftrightarrow>
     m \<noteq> NULL \<and> (\<exists>mx. mutexes s m = Some mx \<and> wait_list (tcbs s) (wait_head mx, wait_tail mx) xs)"

definition set_waiters :: "addr \<times> addr \<Rightarrow> mutex_t \<Rightarrow> mutex_t" where
  "set_waiters ht mx = mx\<lparr>wait_head := fst ht, wait_tail := snd ht\<rparr>"

definition with_mutex_list ::
    "addr \<Rightarrow> kernel \<Rightarrow> mutex_t \<Rightarrow> (addr \<times> addr) \<times> (addr \<rightharpoonup> TCB_t) \<Rightarrow> kernel" where
  "with_mutex_list m s mx r =
     s\<lparr>tcbs := snd r, mutexes := (mutexes s)(m \<mapsto> set_waiters (fst r) mx)\<rparr>"

lemma set_waiters_same [simp]: "set_waiters (wait_head mx, wait_tail mx) mx = mx"
  by (simp add: set_waiters_def)

lemma set_waiters_sel [simp]:
  "locked (set_waiters ht mx) = locked mx" "owner (set_waiters ht mx) = owner mx"
  "wait_head (set_waiters ht mx) = fst ht" "wait_tail (set_waiters ht mx) = snd ht"
  by (simp_all add: set_waiters_def)

text \<open>The mutex's own list routines are the shared ones, applied to its head and tail.\<close>

lemma mutex_enqueue_eq:
  assumes "mutexes s m = Some mx" and "m \<noteq> NULL"
  shows "mutex_wait_enqueue_tail m t s =
    map_option (with_mutex_list m s mx) (tcb_enqueue_tail (wait_head mx, wait_tail mx) t (tcbs s))"
proof (cases "modify t (\<lambda>u. u\<lparr>mutex_wait_next := NULL\<rparr>) (tcbs s)")
  case None
  then show ?thesis by (simp add: mutex_wait_enqueue_tail_def tcb_enqueue_tail_def upd_tcb_def)
next
  case (Some T)
  then show ?thesis
    using assms
    by (cases "modify (wait_tail mx) (\<lambda>u. u\<lparr>mutex_wait_next := t\<rparr>) T")
       (simp_all add: mutex_wait_enqueue_tail_def tcb_enqueue_tail_def upd_tcb_def
         with_mutex_list_def set_waiters_def)
qed

lemma mutex_unlink_eq:
  assumes "mutexes s m = Some mx" and "m \<noteq> NULL" and "t \<noteq> NULL"
  shows "mutex_wait_unlink m t s =
    map_option (with_mutex_list m s mx) (tcb_unlink (wait_head mx, wait_tail mx) t (tcbs s))"
proof (cases "wait_walk (tcbs s) t NULL (wait_head mx)")
  case None
  with assms show ?thesis
    by (simp add: mutex_wait_unlink_def tcb_unlink_def with_mutex_list_def map_upd_triv)
next
  case (Some found)
  show ?thesis
  proof (cases found)
    case None
    with assms Some show ?thesis
      by (simp add: mutex_wait_unlink_def tcb_unlink_def with_mutex_list_def map_upd_triv)
  next
    case (Some prev)
    note walk = \<open>wait_walk (tcbs s) t NULL (wait_head mx) = Some found\<close> [unfolded Some]
    show ?thesis
    proof (cases "tcbs s t")
      case None
      with assms walk show ?thesis
        by (simp add: mutex_wait_unlink_def tcb_unlink_def get_tcb_def fetch_def map_upd_triv
            with_mutex_list_def)
    next
      case (Some u)
      let ?T = "modify prev (\<lambda>v. v\<lparr>mutex_wait_next := mutex_wait_next u\<rparr>) (tcbs s)"
      show ?thesis
        using assms walk Some
        by (cases "prev = NULL"; cases ?T; cases "t = wait_tail mx")
           (simp_all add: mutex_wait_unlink_def tcb_unlink_def with_mutex_list_def set_waiters_def
             upd_tcb_def Let_def map_upd_triv bind_to_map option.map_comp comp_def)
    qed
  qed
qed

lemma mutex_enqueue_refines:
  assumes w: "mutex_waiters s m xs" and mx: "mutexes s m = Some mx"
    and t: "tcbs s t = Some u" "t \<noteq> NULL" and new: "t \<notin> set xs"
  obtains ht T where "mutex_wait_enqueue_tail m t s = Some (with_mutex_list m s mx (ht, T))"
    and "wait_list T ht (xs @ [t])" and "chain_frame (insert t (set xs)) (tcbs s) T"
proof -
  have m: "m \<noteq> NULL" and wl: "wait_list (tcbs s) (wait_head mx, wait_tail mx) xs"
    using w mx by (auto simp: mutex_waiters_def)
  show thesis
    by (rule enqueue_tail_refines [OF wl t new]) (simp add: that mutex_enqueue_eq [OF mx m])
qed

lemma mutex_unlink_refines:
  assumes w: "mutex_waiters s m xs" and mx: "mutexes s m = Some mx" and t: "t \<noteq> NULL"
  obtains ht T where "mutex_wait_unlink m t s = Some (with_mutex_list m s mx (ht, T))"
    and "wait_list T ht (remove1 t xs)" and "chain_frame (set xs) (tcbs s) T"
proof -
  have m: "m \<noteq> NULL" and wl: "wait_list (tcbs s) (wait_head mx, wait_tail mx) xs"
    using w mx by (auto simp: mutex_waiters_def)
  show thesis
    by (rule unlink_refines [OF wl, of t]) (simp add: that mutex_unlink_eq [OF mx m t])
qed

section \<open>Choosing the most urgent waiter\<close>

definition prio_at :: "(addr \<rightharpoonup> TCB_t) \<Rightarrow> addr \<Rightarrow> u8" where
  "prio_at T a = priority (the (T a))"

lemma prio_at_Some [simp]: "T a = Some t \<Longrightarrow> prio_at T a = priority t"
  by (simp add: prio_at_def)

text \<open>The two scans, on the list of waiters instead of on the pointers.\<close>

fun best_list :: "(addr \<Rightarrow> u8) \<Rightarrow> addr \<Rightarrow> addr \<Rightarrow> addr \<Rightarrow> addr list \<Rightarrow> addr \<times> addr" where
  "best_list f best bprev prev [] = (best, bprev)"
| "best_list f best bprev prev (y # ys) =
     (if f y < f best then best_list f y prev y ys else best_list f best bprev y ys)"

lemma best_loop_list:
  "link_path (wait_link T) p ys NULL \<Longrightarrow> best \<noteq> NULL \<Longrightarrow> T best = Some b \<Longrightarrow>
   best_loop T best bprev prev p = Some (best_list (prio_at T) best bprev prev ys)"
proof (induction ys arbitrary: p best b bprev prev)
  case Nil
  then show ?case by (simp add: best_loop.simps [of T best bprev prev 0])
next
  case (Cons y ys)
  then obtain t where "p = y" "y \<noteq> NULL" "T y = Some t"
      "link_path (wait_link T) (mutex_wait_next t) ys NULL"
    by (auto simp: wait_link_Some_iff)
  with Cons.prems Cons.IH [of "mutex_wait_next t"] show ?case
    by (simp add: best_loop.simps [of T best bprev prev y])
qed

lemma best_list_min:
  assumes "zs = us @ best # vs" and "bprev = pred_ptr us" and "prev = last zs"
    and "best = arg_min_list f zs" and "best_list f best bprev prev ys = (b, bp)"
  shows "b = arg_min_list f (zs @ ys) \<and> (\<exists>us' vs'. zs @ ys = us' @ b # vs' \<and> bp = pred_ptr us')"
  using assms
proof (induction ys arbitrary: zs us vs best bprev prev)
  case Nil
  then show ?case by auto
next
  case (Cons y ys)
  have ne: "zs \<noteq> []" using Cons.prems(1) by simp
  have snoc: "(zs @ [y]) @ ys = zs @ y # ys" by simp
  show ?case
  proof (cases "f y < f best")
    case True
    then have "y = arg_min_list f (zs @ [y])" "best_list f y prev y ys = (b, bp)"
      using Cons.prems(4,5) arg_min_list_snoc [OF ne, of f y] by auto
    moreover have "prev = pred_ptr zs" using Cons.prems(3) ne by (simp add: pred_ptr_def)
    ultimately have "b = arg_min_list f ((zs @ [y]) @ ys) \<and>
        (\<exists>us' vs'. (zs @ [y]) @ ys = us' @ b # vs' \<and> bp = pred_ptr us')"
      by (intro Cons.IH [of "zs @ [y]" zs y "[]" prev y]) simp_all
    then show ?thesis unfolding snoc .
  next
    case False
    then have "best = arg_min_list f (zs @ [y])" "best_list f best bprev y ys = (b, bp)"
      using Cons.prems(4,5) arg_min_list_snoc [OF ne, of f y] by auto
    then have "b = arg_min_list f ((zs @ [y]) @ ys) \<and>
        (\<exists>us' vs'. (zs @ [y]) @ ys = us' @ b # vs' \<and> bp = pred_ptr us')"
      using Cons.prems(1,2) by (intro Cons.IH [of "zs @ [y]" us best "vs @ [y]" bprev y]) simp_all
    then show ?thesis unfolding snoc .
  qed
qed

lemma best_loop_waiters:
  assumes wl: "wait_list T ht xs" and ne: "xs \<noteq> []"
  obtains b us vs where "b = arg_min_list (prio_at T) xs"
    and "best_loop T (fst ht) NULL NULL (fst ht) = Some (b, pred_ptr us)" and "xs = us @ b # vs"
proof -
  obtain x ys where xs: "xs = x # ys" using ne by (cases xs) auto
  obtain b bp where bl: "best_list (prio_at T) x NULL x ys = (b, bp)" by (cases "best_list (prio_at T) x NULL x ys")
  obtain t where t: "T x = Some t" "x \<noteq> NULL" "fst ht = x" using wl xs
    by (auto simp: wait_list_def wait_link_Some_iff)
  have "best_loop T x NULL NULL x = Some (best_list (prio_at T) x NULL NULL (x # ys))"
    using wl xs t by (intro best_loop_list) (auto simp: wait_list_def)
  then have loop: "best_loop T (fst ht) NULL NULL (fst ht) = Some (b, bp)" using bl t by simp
  have "b = arg_min_list (prio_at T) ([x] @ ys) \<and> (\<exists>us vs. [x] @ ys = us @ b # vs \<and> bp = pred_ptr us)"
    using bl by (intro best_list_min [of "[x]" "[]" x "[]" NULL x]) (simp_all add: pred_ptr_def)
  then have "b = arg_min_list (prio_at T) xs \<and> (\<exists>us vs. xs = us @ b # vs \<and> bp = pred_ptr us)"
    unfolding xs append_Cons append_Nil .
  then show thesis using that loop by blast
qed

lemma min_wait_loop_list:
  "link_path (wait_link T) p ys NULL \<Longrightarrow>
   min_wait_loop T k p = Some (Min (insert k (prio_at T ` set ys)))"
proof (induction ys arbitrary: p k)
  case Nil
  then show ?case by (simp add: min_wait_loop.simps [of T k 0])
next
  case (Cons y ys)
  then obtain t where t: "p = y" "y \<noteq> NULL" "T y = Some t"
      "link_path (wait_link T) (mutex_wait_next t) ys NULL"
    by (auto simp: wait_link_Some_iff)
  have "(if priority t < k then priority t else k) = min (priority t) k" by (auto simp: min_def)
  with t Cons.IH [of "mutex_wait_next t" "min (priority t) k"] show ?case
    by (cases "ys = []") (simp_all add: min_wait_loop.simps [of T k y] min.commute min.left_commute min.assoc)
qed

lemma min_wait_priority_waiters:
  assumes "wait_list T (wait_head mx, wait_tail mx) xs" and "xs \<noteq> []"
  shows "min_wait_priority_value T mx = Some (Min (prio_at T ` set xs))"
proof -
  obtain x ys where xs: "xs = x # ys" using assms(2) by (cases xs) auto
  obtain t where "T x = Some t" "x \<noteq> NULL" "wait_head mx = x"
      "link_path (wait_link T) (mutex_wait_next t) ys NULL"
    using assms(1) xs by (auto simp: wait_list_def wait_link_Some_iff)
  then show ?thesis by (simp add: min_wait_priority_value_def min_wait_loop_list xs)
qed

text \<open>Popping the best waiter is choosing it and unlinking it.\<close>

lemma pop_highest_eq:
  assumes w: "mutex_waiters s m xs" and mx: "mutexes s m = Some mx" and ne: "xs \<noteq> []"
    and best: "b = arg_min_list (prio_at (tcbs s)) xs"
  shows "wait_pop_highest m s = map_option (Pair b) (mutex_wait_unlink m b s)"
proof -
  have m: "m \<noteq> NULL" and wl: "wait_list (tcbs s) (wait_head mx, wait_tail mx) xs"
    using w mx by (auto simp: mutex_waiters_def)
  obtain us vs where loop: "best_loop (tcbs s) (wait_head mx) NULL NULL (wait_head mx) = Some (b, pred_ptr us)"
    and xs: "xs = us @ b # vs"
    using best_loop_waiters [OF wl ne, folded best] unfolding fst_conv by blast
  have hd: "wait_head mx \<noteq> NULL" using wait_list_head_NULL [OF wl] ne by simp
  obtain t where t: "tcbs s b = Some t" "b \<noteq> NULL" using wait_list_live [OF wl, of b] xs by auto
  have ds: "b \<notin> set us" "b \<notin> set vs" using wait_list_distinct [OF wl] xs by auto
  have walk: "wait_walk (tcbs s) b NULL (wait_head mx) = Some (Some (pred_ptr us))"
    using wl xs ds(1) wait_walk_found [of "tcbs s" "wait_head mx" us b vs NULL]
    by (simp add: wait_list_def pred_ptr_def)
  have path: "link_path (wait_link (tcbs s)) (mutex_wait_next t) vs NULL"
    using wl xs t by (auto simp: wait_list_def wait_link_Some_iff)
  show ?thesis
  proof (cases "us = []")
    case True
    have "b = wait_tail mx \<longleftrightarrow> vs = []" using wl xs True ds
      by (cases vs rule: rev_cases) (auto simp: wait_list_def)
    moreover have "mutex_wait_next t = NULL \<longleftrightarrow> vs = []" using path by (cases vs) auto
    ultimately show ?thesis using m mx hd loop t walk True
      by (cases "vs = []") (simp_all add: wait_pop_highest_def mutex_wait_unlink_def pred_ptr_def)
  next
    case False
    obtain l where "tcbs s (last us) = Some l" "last us \<noteq> NULL" "last us \<noteq> b"
      using wait_list_live [OF wl, of "last us"] xs False ds by (metis UnCI last_in_set set_append)
    then show ?thesis using m mx hd loop t walk False
      by (simp add: wait_pop_highest_def mutex_wait_unlink_def pred_ptr_def bind_to_map)
  qed
qed

section \<open>Priority inheritance\<close>

definition boost :: "u8 \<Rightarrow> TCB_t \<Rightarrow> TCB_t" where
  "boost hp t = (if hp < priority t then t\<lparr>priority := hp, prio_bucket := prio_bucket_of hp\<rparr> else t)"

lemma boost_sel [simp]:
  "priority (boost hp t) = min hp (priority t)" "state (boost hp t) = state t"
  "mutex_wait_next (boost hp t) = mutex_wait_next t" "next_ready (boost hp t) = next_ready t"
  "base_priority (boost hp t) = base_priority t" "runnable (boost hp t) = runnable t"
  by (auto simp: boost_def min_def runnable_def)

text \<open>
  The effect of \<open>apply_pi\<close> on an owner that does not run: its priority becomes the least of
  its own and its waiters' values, and its ring follows.
\<close>

lemma apply_pi_refines:
  assumes inv: "sched_inv s Q" and w: "mutex_waiters s m xs" and ne: "xs \<noteq> []"
    and mx: "mutexes s m = Some mx" and ow: "tcbs s (owner mx) = Some t"
    and st: "state t \<noteq> TASK_STATE_RUNNING" and hp: "hp = Min (prio_at (tcbs s) ` set xs)"
  obtains s' Q' where "apply_pi m s = Some s'" and "sched_inv s' Q'"
    and "ready_frame (s\<lparr>tcbs := (tcbs s)(owner mx \<mapsto> boost hp t)\<rparr>) s'"
    and "\<And>b x. x \<noteq> owner mx \<Longrightarrow> x \<in> set (Q' b) \<longleftrightarrow> x \<in> set (Q b)"
proof -
  let ?o = "owner mx" and ?u = "boost hp t" and ?s1 = "s\<lparr>tcbs := (tcbs s)(owner mx \<mapsto> boost hp t)\<rparr>"
  have m: "m \<noteq> NULL" and wl: "wait_list (tcbs s) (wait_head mx, wait_tail mx) xs"
    using w mx by (auto simp: mutex_waiters_def)
  have hd: "wait_head mx \<noteq> NULL" using wait_list_head_NULL [OF wl] ne by simp
  have o: "?o \<noteq> NULL" using inv ow by (rule sched_inv_nonnull)
  note start = m mx hd o ow min_wait_priority_waiters [OF wl ne] hp
  have pl: "placed Q ?o t" using inv ow by (rule sched_inv_placed)
  show thesis
  proof (cases "hp < priority t")
    case False
    then have "?s1 = s" using ow by (simp add: boost_def map_upd_triv)
    with False start inv show thesis by (intro that [of s Q]) (simp_all add: apply_pi_def)
  next
    case True
    then have u: "?u = t\<lparr>priority := hp, prio_bucket := prio_bucket_of hp\<rparr>" by (simp add: boost_def)
    have eq: "apply_pi m s = scheduler_rebucket_task ?o (prio_bucket t) (prio_bucket_of hp) ?s1"
      using True start u by (simp add: apply_pi_def Let_def)
    show thesis
    proof (cases "state t = TASK_STATE_READY \<and> prio_bucket_of hp \<noteq> prio_bucket t")
      case ready: True
      obtain s' where s': "scheduler_rebucket_task ?o (prio_bucket t) (prio_bucket_of hp) ?s1 = Some s'"
        and inv': "sched_inv s' (Q(unat (prio_bucket t) := remove1 ?o (Q (unat (prio_bucket t))),
                     unat (prio_bucket_of hp) := Q (unat (prio_bucket_of hp)) @ [?o]))"
        and fr: "ready_frame ?s1 s'"
        using rebucket_ready [OF inv ow _ u] ready by blast
      show thesis by (rule that [OF _ inv' fr]) (use eq s' in \<open>auto simp: set_remove1_other\<close>)
    next
      case False
      have "runnable t \<Longrightarrow> prio_bucket_of hp = prio_bucket t" using False st by (auto simp: runnable_def)
      then have "placed Q ?o ?u" using pl u by (auto simp: placed_def runnable_def)
      then have inv1: "sched_inv ?s1 Q" using sched_inv_tcb_upd [OF inv ow] by simp
      have "scheduler_rebucket_task ?o (prio_bucket t) (prio_bucket_of hp) ?s1 = Some ?s1"
        using False o u by (auto simp: scheduler_rebucket_task_def)
      with eq inv1 show thesis by (intro that [of ?s1 Q]) simp_all
    qed
  qed
qed

text \<open>Restoring the priority of the running owner: the control block changes, the rings do not.\<close>

definition unboost :: "TCB_t \<Rightarrow> TCB_t" where
  "unboost t = t\<lparr>priority := base_priority t, prio_bucket := prio_bucket_of (base_priority t)\<rparr>"

lemma restore_running:
  assumes "tcbs s a = Some t" and "a \<noteq> NULL" and "state t = TASK_STATE_RUNNING"
  shows "restore_owner_priority a s = Some (s\<lparr>tcbs := (tcbs s)(a \<mapsto> unboost t)\<rparr>)"
  using assms by (auto simp: restore_owner_priority_def scheduler_rebucket_task_def unboost_def Let_def)

section \<open>Locking\<close>

lemma mutex_waiters_link:
  "mutex_waiters s m xs \<Longrightarrow> wait_link (tcbs s') = wait_link (tcbs s) \<Longrightarrow> mutexes s' = mutexes s \<Longrightarrow>
   mutex_waiters s' m xs"
  by (auto simp: mutex_waiters_def wait_list_def)

lemma prio_at_wait:
  assumes "same_but_wait T T'" and "T a = Some t"
  shows "prio_at T' a = prio_at T a"
  using same_but_wait_Some [OF assms] assms(2) by fastforce

lemma ready_frame_primask: "ready_frame s s' \<Longrightarrow> ready_frame (s\<lparr>primask := p\<rparr>) (s'\<lparr>primask := p\<rparr>)"
  unfolding ready_frame_def by auto

lemma prio_at_enqueued:
  assumes same: "same_but_wait ((tcbs s)(self \<mapsto> t\<lparr>blocked_on_mutex := m\<rparr>)) T" and t: "tcbs s self = Some t"
    and live: "\<And>x. x \<in> set xs \<Longrightarrow> tcbs s x \<noteq> None"
  shows "prio_at T ` set (xs @ [self]) = prio_at (tcbs s) ` set (xs @ [self])"
proof (rule image_cong [OF refl])
  fix x assume x: "x \<in> set (xs @ [self])"
  then obtain u where u: "tcbs s x = Some u" using t live [of x] by auto
  show "prio_at T x = prio_at (tcbs s) x"
    using prio_at_wait [OF same, of x "if x = self then t\<lparr>blocked_on_mutex := m\<rparr> else u"] u t by (auto simp: prio_at_def)
qed

text \<open>The critical section of a contended lock: the caller is queued and the owner inherits.\<close>

lemma mutex_lock_attempt_contended:
  assumes inv: "sched_inv s Q" and cur: "current_tcb s = self"
    and t: "tcbs s self = Some t" and mx: "mutexes s m = Some mx" and lk: "locked mx"
    and other: "owner mx \<noteq> self" and ow: "tcbs s (owner mx) = Some ot"
    and st: "state ot \<noteq> TASK_STATE_RUNNING" and w: "mutex_waiters s m xs" and new: "self \<notin> set xs"
    and hp: "hp = Min (prio_at (tcbs s) ` set (xs @ [self]))"
  obtains s' Q' ht T r where "mutex_lock_attempt m s = Some (None, s')" and "sched_inv s' Q'"
    and "mutex_waiters s' m (xs @ [self])"
    and "chain_frame (insert self (set xs)) ((tcbs s)(self \<mapsto> t\<lparr>blocked_on_mutex := m\<rparr>)) T"
    and "T (owner mx) = Some (ot\<lparr>mutex_wait_next := r\<rparr>)"
    and "ready_frame (s\<lparr>tcbs := T(owner mx \<mapsto> boost hp (ot\<lparr>mutex_wait_next := r\<rparr>)),
        mutexes := (mutexes s)(m \<mapsto> set_waiters ht mx), primask := False\<rparr>) s'"
    and "\<And>b x. x \<noteq> owner mx \<Longrightarrow> x \<in> set (Q' b) \<longleftrightarrow> x \<in> set (Q b)"
proof -
  have m: "m \<noteq> NULL" using w by (simp add: mutex_waiters_def)
  have self: "self \<noteq> NULL" using inv t by (rule sched_inv_nonnull)
  let ?t1 = "t\<lparr>blocked_on_mutex := m\<rparr>"
  let ?s1 = "s\<lparr>tcbs := (tcbs s)(self \<mapsto> ?t1), primask := True\<rparr>"
  have "placed Q self ?t1"
    by (rule placed_states [OF sched_inv_placed [OF inv t]]) (simp_all add: runnable_def)
  then have inv1: "sched_inv ?s1 Q" using sched_inv_tcb_upd [OF inv t, of ?t1] by simp
  have w1: "mutex_waiters ?s1 m xs" by (rule mutex_waiters_link [OF w]) (use t in simp_all)
  obtain ht T where enq: "mutex_wait_enqueue_tail m self ?s1 = Some (with_mutex_list m ?s1 mx (ht, T))"
    and wl: "wait_list T ht (xs @ [self])" and cf: "chain_frame (insert self (set xs)) (tcbs ?s1) T"
    using mutex_enqueue_refines [OF w1, of mx self ?t1] mx self new by auto
  let ?s2 = "with_mutex_list m ?s1 mx (ht, T)" and ?mx = "set_waiters ht mx"
  have same: "same_but_wait (tcbs ?s1) T" using cf by (simp add: chain_frame_def)
  have inv2: "sched_inv ?s2 Q" using sched_inv_wait [OF inv1 same] by (simp add: with_mutex_list_def)
  have w2: "mutex_waiters ?s2 m (xs @ [self])" using wl m by (simp add: mutex_waiters_def with_mutex_list_def)
  obtain r where ow2: "T (owner mx) = Some (ot\<lparr>mutex_wait_next := r\<rparr>)"
    using same_but_wait_Some [OF same, of "owner mx" ot] ow other by auto
  have "tcbs s x \<noteq> None" if "x \<in> set xs" for x using that wait_list_live w mx unfolding mutex_waiters_def by fastforce
  then have hp2: "hp = Min (prio_at (tcbs ?s2) ` set (xs @ [self]))"
    unfolding hp using prio_at_enqueued [where xs = xs, OF _ t] same by (simp add: with_mutex_list_def)
  let ?b = "boost hp (ot\<lparr>mutex_wait_next := r\<rparr>)"
  obtain s3 Q3 where pi: "apply_pi m ?s2 = Some s3" and inv3: "sched_inv s3 Q3"
    and fr3: "ready_frame (?s2\<lparr>tcbs := T(owner mx \<mapsto> ?b)\<rparr>) s3"
    and q3: "\<And>b x. x \<noteq> owner mx \<Longrightarrow> x \<in> set (Q3 b) \<longleftrightarrow> x \<in> set (Q b)"
    using apply_pi_refines [OF inv2 w2, of ?mx "ot\<lparr>mutex_wait_next := r\<rparr>" hp] hp2 ow2 st
    by (auto simp: with_mutex_list_def)
  let ?s4 = "s3\<lparr>primask := False\<rparr>"
  have "mutex_lock_attempt m s = Some (None, ?s4)"
    using m self cur mx lk other t enq pi by (simp add: mutex_lock_attempt_def cpsid_def cpsie_def Let_def)
  moreover have "mutex_waiters ?s4 m (xs @ [self])"
  proof (rule mutex_waiters_link [OF w2])
    show "wait_link (tcbs ?s4) = wait_link (tcbs ?s2)"
      using ready_frame_wait_link [OF fr3] ow2 by (simp add: with_mutex_list_def)
  qed (simp add: ready_frame_sel [OF fr3])
  moreover have "ready_frame (s\<lparr>tcbs := T(owner mx \<mapsto> ?b), mutexes := (mutexes s)(m \<mapsto> ?mx), primask := False\<rparr>) ?s4"
    using ready_frame_primask [OF fr3, of False] by (simp add: with_mutex_list_def)
  ultimately show thesis using that [of ?s4 Q3 T r ht] inv3 cf ow2 q3 by simp
qed

text \<open>
  C10. A contended lock. When the mutex is held by another task, \<open>mutex_lock\<close> queues the caller
  at the end of the wait list, raises the owner to the most urgent waiter's priority (moving
  it between ready rings if it is ready), and blocks the caller: it leaves its ready ring, is
  marked blocked on this mutex, and gets the wake-up tick of its timeout. The scheduler
  invariant is kept and the mutex stays with its owner.
\<close>

theorem mutex_lock_contended:
  assumes inv: "sched_inv s Q" and cur: "current_tcb s = self"
    and t: "tcbs s self = Some t" and run: "state t = TASK_STATE_RUNNING"
    and mx: "mutexes s m = Some mx" and lk: "locked mx"
    and other: "owner mx \<noteq> self" and ow: "tcbs s (owner mx) = Some ot"
    and st: "state ot \<noteq> TASK_STATE_RUNNING" and w: "mutex_waiters s m xs" and new: "self \<notin> set xs"
  shows "\<exists>s' Q' t' ot' mx'. mutex_lock m timeout s = Some (None, s') \<and> sched_inv s' Q'
    \<and> mutex_waiters s' m (xs @ [self]) \<and> self \<notin> queued Q'
    \<and> tcbs s' self = Some t' \<and> state t' = TASK_STATE_BLOCKED \<and> block_reason t' = BLOCK_MUTEX
    \<and> block_object t' = m \<and> wake_time t' = wake_tick (s_rtos_tick_count s) timeout
    \<and> tcbs s' (owner mx) = Some ot'
    \<and> priority ot' = Min (insert (priority ot) (prio_at (tcbs s) ` set (xs @ [self])))
    \<and> mutexes s' m = Some mx' \<and> owner mx' = owner mx \<and> locked mx'
    \<and> icsr s' = 0x10000000 \<and> \<not> primask s'"
proof -
  let ?hp = "Min (prio_at (tcbs s) ` set (xs @ [self]))"
  obtain s1 Q1 ht T rw where a: "mutex_lock_attempt m s = Some (None, s1)" and inv1: "sched_inv s1 Q1"
    and w1: "mutex_waiters s1 m (xs @ [self])"
    and cf: "chain_frame (insert self (set xs)) ((tcbs s)(self \<mapsto> t\<lparr>blocked_on_mutex := m\<rparr>)) T"
    and fr1: "ready_frame (s\<lparr>tcbs := T(owner mx \<mapsto> boost ?hp (ot\<lparr>mutex_wait_next := rw\<rparr>)),
        mutexes := (mutexes s)(m \<mapsto> set_waiters ht mx), primask := False\<rparr>) s1"
    by (rule mutex_lock_attempt_contended [OF inv cur t mx lk other ow st w new refl])
  note sel1 = ready_frame_sel [OF fr1]
  have mx1: "mutexes s1 = (mutexes s)(m \<mapsto> set_waiters ht mx)" and cur1: "current_tcb s1 = self" "s_rtos_tick_count s1 = s_rtos_tick_count s"
    using sel1 cur by simp_all
  obtain ot1 where o1: "tcbs s1 (owner mx) = Some ot1" "priority ot1 = min ?hp (priority ot)"
  proof -
    obtain r1 where "tcbs s1 (owner mx) = Some ((boost ?hp (ot\<lparr>mutex_wait_next := rw\<rparr>))\<lparr>next_ready := r1\<rparr>)"
      using ready_frame_tcb [OF fr1, of "owner mx"] by auto
    then show thesis using that by simp
  qed
  obtain t1 where t1: "tcbs s1 self = Some t1" "state t1 = state t"
  proof -
    obtain r1 where "T self = Some (t\<lparr>blocked_on_mutex := m, mutex_wait_next := r1\<rparr>)"
      using same_but_wait_Some [of "(tcbs s)(self \<mapsto> t\<lparr>blocked_on_mutex := m\<rparr>)" T self] cf by (auto simp: chain_frame_def)
    then obtain r2 where "tcbs s1 self = Some (t\<lparr>blocked_on_mutex := m, mutex_wait_next := r1, next_ready := r2\<rparr>)"
      using ready_frame_tcb [OF fr1, of self] other by auto
    then show thesis using that by simp
  qed
  have r: "runnable t1" using t1 run by (simp add: runnable_def)
  let ?t = "blocked_tcb (s_rtos_tick_count s) timeout BLOCK_MUTEX m t1"
  let ?Q = "Q1(unat (prio_bucket t1) := remove1 self (Q1 (unat (prio_bucket t1))))"
  obtain s' where b: "block_enter timeout BLOCK_MUTEX m s1 = Some (None, s')" and inv': "sched_inv s' ?Q"
    and fr: "ready_frame (s1\<lparr>tcbs := (tcbs s1)(self \<mapsto> ?t), icsr := 0x10000000, primask := False\<rparr>) s'"
    using block_enter_inv [OF inv1 t1(1) cur1(1) r] cur1(2) by metis
  obtain rr where t': "tcbs s' self = Some (?t\<lparr>next_ready := rr\<rparr>)"
    using ready_frame_tcb [OF fr, of self] by auto
  obtain ro where o': "tcbs s' (owner mx) = Some (ot1\<lparr>next_ready := ro\<rparr>)"
    using ready_frame_tcb [OF fr, of "owner mx"] o1 other by auto
  have "mutex_waiters s' m (xs @ [self])"
    by (rule mutex_waiters_link [OF w1]) (use ready_frame_wait_link [OF fr] ready_frame_sel [OF fr] t1 in simp_all)
  moreover have "self \<notin> queued ?Q"
    using placed_blocked [OF sched_inv_placed [OF inv' t']] by (simp add: runnable_def)
  ultimately show ?thesis
    using a b inv' t' o' o1 mx1 lk ready_frame_sel [OF fr]
    by (intro exI [of _ s'] exI [of _ ?Q] exI [of _ "?t\<lparr>next_ready := rr\<rparr>"]
          exI [of _ "ot1\<lparr>next_ready := ro\<rparr>"] exI [of _ "set_waiters ht mx"])
       (simp add: mutex_lock_def blocking_call_def min.commute)
qed

section \<open>Unlocking\<close>

definition handed_over :: "TCB_t \<Rightarrow> TCB_t" where
  "handed_over t = t\<lparr>blocked_on_mutex := NULL, block_reason := BLOCK_NONE, block_object := NULL,
                     state := TASK_STATE_READY\<rparr>"

text \<open>
  Unlocking without waiters. The owner gets its base priority back, the mutex becomes
  free, interrupts are enabled again and a reschedule is requested.
\<close>

theorem mutex_unlock_free:
  assumes cur: "current_tcb s = self" and t: "tcbs s self = Some t" "self \<noteq> NULL"
    and run: "state t = TASK_STATE_RUNNING"
    and mx: "mutexes s m = Some mx" and lk: "locked mx" "owner mx = self" and w: "mutex_waiters s m []"
  shows "mutex_unlock m s = Some (RTOS_OK,
      s\<lparr>tcbs := (tcbs s)(self \<mapsto> unboost t),
        mutexes := (mutexes s)(m \<mapsto> mx\<lparr>locked := False, owner := NULL\<rparr>),
        icsr := 0x10000000, primask := False\<rparr>)"
proof -
  have m: "m \<noteq> NULL" and hd: "wait_head mx = NULL" using w mx by (auto simp: mutex_waiters_def)
  then show ?thesis
    using assms restore_running [of "s\<lparr>primask := True\<rparr>" self t]
    by (simp add: mutex_unlock_def cpsid_def cpsie_def Let_def wait_pop_highest_def
        scheduler_mark_reschedule_def)
qed

lemma unlock_pop:
  assumes w: "mutex_waiters s m xs" and mx: "mutexes s m = Some mx" and ne: "xs \<noteq> []"
    and self: "tcbs s self = Some t" "self \<notin> set xs"
    and b: "b = arg_min_list (prio_at (tcbs s)) xs"
  obtains ht T where
    "wait_pop_highest m (s\<lparr>tcbs := (tcbs s)(self \<mapsto> unboost t), primask := True\<rparr>) =
       Some (b, with_mutex_list m (s\<lparr>tcbs := (tcbs s)(self \<mapsto> unboost t), primask := True\<rparr>) mx (ht, T))"
    and "wait_list T ht (remove1 b xs)" and "chain_frame (set xs) ((tcbs s)(self \<mapsto> unboost t)) T"
    and "b \<in> set xs" and "b \<noteq> NULL"
proof -
  let ?s1 = "s\<lparr>tcbs := (tcbs s)(self \<mapsto> unboost t), primask := True\<rparr>"
  have bx: "b \<in> set xs" unfolding b using ne by (rule arg_min_list_in)
  have nn: "b \<noteq> NULL" using w bx wait_list_live unfolding mutex_waiters_def by blast
  have w1: "mutex_waiters ?s1 m xs"
    by (rule mutex_waiters_link [OF w]) (use self in \<open>simp_all add: unboost_def\<close>)
  have b1: "b = arg_min_list (prio_at (tcbs ?s1)) xs"
    unfolding b by (rule arg_min_list_cong [OF _ ne]) (use self in \<open>auto simp: prio_at_def\<close>)
  have mx1: "mutexes ?s1 m = Some mx" using mx by simp
  obtain ht T where u: "mutex_wait_unlink m b ?s1 = Some (with_mutex_list m ?s1 mx (ht, T))"
    and wl: "wait_list T ht (remove1 b xs)" and cf: "chain_frame (set xs) (tcbs ?s1) T"
    using mutex_unlink_refines [OF w1 mx1 nn] by blast
  show thesis
    by (rule that [OF _ wl _ bx nn]) (use u cf pop_highest_eq [OF w1 mx1 ne b1] in simp_all)
qed

text \<open>The critical section of an unlock with waiters: the most urgent one leaves the list and gets the mutex.\<close>

lemma unlock_handoff_frame:
  assumes inv: "sched_inv s Q" and cur: "current_tcb s = self"
    and t: "tcbs s self = Some t" and run: "state t = TASK_STATE_RUNNING"
    and mx: "mutexes s m = Some mx" and lk: "locked mx" "owner mx = self"
    and w: "mutex_waiters s m xs" and ne: "xs \<noteq> []" and self: "self \<notin> set xs"
    and b: "b = arg_min_list (prio_at (tcbs s)) xs" and bt: "tcbs s b = Some u" and blk: "\<not> runnable u"
  obtains s' ht T r where "mutex_unlock m s = Some (RTOS_OK, s')"
    and "ready_rel s' (Q(unat (prio_bucket u) := Q (unat (prio_bucket u)) @ [b]))"
    and "prio_bucket_of (base_priority t) = prio_bucket t \<longrightarrow>
      sched_inv s' (Q(unat (prio_bucket u) := Q (unat (prio_bucket u)) @ [b]))"
    and "mutex_waiters s' m (remove1 b xs)" and "b \<in> set xs" and "chain_frame (set xs) ((tcbs s)(self \<mapsto> unboost t)) T"
    and "T b = Some (u\<lparr>mutex_wait_next := r\<rparr>)"
    and "ready_frame (s\<lparr>tcbs := T(b \<mapsto> handed_over (u\<lparr>mutex_wait_next := r\<rparr>)),
        mutexes := (mutexes s)(m \<mapsto> (set_waiters ht mx)\<lparr>owner := b, locked := True\<rparr>), icsr := 0x10000000, primask := False\<rparr>) s'"
proof -
  let ?T1 = "(tcbs s)(self \<mapsto> unboost t)"
  let ?s1 = "s\<lparr>tcbs := ?T1, primask := True\<rparr>" and ?Q = "Q(unat (prio_bucket u) := Q (unat (prio_bucket u)) @ [b])"
  have m: "m \<noteq> NULL" using w by (simp add: mutex_waiters_def)
  have nn: "self \<noteq> NULL" using inv t by (rule sched_inv_nonnull)
  obtain ht T where pop: "wait_pop_highest m ?s1 = Some (b, with_mutex_list m ?s1 mx (ht, T))"
    and wl: "wait_list T ht (remove1 b xs)" and cf: "chain_frame (set xs) ?T1 T" and bx: "b \<in> set xs" "b \<noteq> NULL"
    by (rule unlock_pop [OF w mx ne t self b])
  have bs: "b \<noteq> self" using bx self by auto
  have rel1: "ready_rel ?s1 Q" using ready_rel_tcb_upd [OF sched_inv_rel [OF inv] t, of "unboost t"] by (simp add: unboost_def)
  have same: "same_but_wait (tcbs ?s1) T" using cf by (simp add: chain_frame_def)
  obtain r where b2: "T b = Some (u\<lparr>mutex_wait_next := r\<rparr>)" using same_but_wait_Some [OF same, of b u] bt bs by auto
  let ?mx = "(set_waiters ht mx)\<lparr>owner := b, locked := True\<rparr>"
  let ?s2 = "?s1\<lparr>tcbs := T, mutexes := (mutexes s)(m \<mapsto> ?mx)\<rparr>"
  have rel2: "ready_rel ?s2 Q" using rel1 ready_rel_cong [of ?s2 ?s1 Q] same_but_wait_ready_link [OF same] by simp
  have bq: "unat (prio_bucket u) < RTOS_NUM_PRIORITIES" "b \<notin> queued Q"
    using inv bt placed_blocked [OF sched_inv_placed [OF inv bt] blk] by simp_all
  let ?v = "handed_over (u\<lparr>mutex_wait_next := r\<rparr>)"
  obtain s' where add: "scheduler_add_task b (?s2\<lparr>tcbs := (tcbs ?s2)(b \<mapsto> ?v)\<rparr>) = Some (RTOS_OK, s')"
    and rel': "ready_rel s' ?Q" and fr: "ready_frame (?s2\<lparr>tcbs := (tcbs ?s2)(b \<mapsto> ?v)\<rparr>) s'"
    using make_ready_rel [OF rel2, of b "u\<lparr>mutex_wait_next := r\<rparr>" ?v] b2 bx(2) bq by (auto simp: handed_over_def)
  have inv': "sched_inv s' ?Q" if base: "prio_bucket_of (base_priority t) = prio_bucket t"
  proof -
    have "placed Q self (unboost t)"
      using sched_inv_placed [OF inv t] run base by (auto simp: placed_def unboost_def runnable_def)
    then have "sched_inv ?s1 Q" using sched_inv_tcb_upd [OF inv t, of "unboost t"] by (simp add: unboost_def)
    then have "sched_inv ?s2 Q" using sched_inv_wait [OF _ same] by simp
    then show ?thesis
      using make_ready [of ?s2 Q b "u\<lparr>mutex_wait_next := r\<rparr>" ?v] b2 blk add by (auto simp: handed_over_def runnable_def)
  qed
  let ?s' = "s'\<lparr>icsr := 0x10000000, primask := False\<rparr>"
  have "mutex_unlock m s = Some (RTOS_OK, ?s')"
    using m mx nn cur lk t run pop bx b2 add restore_running [of "s\<lparr>primask := True\<rparr>" self t]
    by (simp add: mutex_unlock_def cpsid_def cpsie_def Let_def scheduler_mark_reschedule_def with_mutex_list_def handed_over_def)
  moreover have "mutex_waiters ?s' m (remove1 b xs)"
    using wl m ready_frame_sel [OF fr] ready_frame_wait_link [OF fr] b2
    by (simp add: mutex_waiters_def wait_list_def handed_over_def)
  moreover have "ready_frame (s\<lparr>tcbs := T(b \<mapsto> ?v), mutexes := (mutexes s)(m \<mapsto> ?mx), icsr := 0x10000000, primask := False\<rparr>) ?s'"
    using ready_frame_more [OF fr, where i = "0x10000000" and m = False] by simp
  ultimately show thesis using that [of ?s' T r ht] rel' inv' bx(1) cf b2 by simp
qed

lemma unlock_handoff:
  assumes inv: "sched_inv s Q" and cur: "current_tcb s = self"
    and t: "tcbs s self = Some t" and run: "state t = TASK_STATE_RUNNING"
    and mx: "mutexes s m = Some mx" and lk: "locked mx" "owner mx = self"
    and w: "mutex_waiters s m xs" and ne: "xs \<noteq> []" and self: "self \<notin> set xs"
    and b: "b = arg_min_list (prio_at (tcbs s)) xs" and bt: "tcbs s b = Some u" and blk: "\<not> runnable u"
  shows "\<exists>s' t' u' mx'. mutex_unlock m s = Some (RTOS_OK, s')
    \<and> ready_rel s' (Q(unat (prio_bucket u) := Q (unat (prio_bucket u)) @ [b]))
    \<and> (prio_bucket_of (base_priority t) = prio_bucket t \<longrightarrow>
         sched_inv s' (Q(unat (prio_bucket u) := Q (unat (prio_bucket u)) @ [b])))
    \<and> mutexes s' m = Some mx' \<and> locked mx' \<and> owner mx' = b \<and> mutex_waiters s' m (remove1 b xs)
    \<and> tcbs s' b = Some u' \<and> state u' = TASK_STATE_READY \<and> block_reason u' = BLOCK_NONE
    \<and> block_wake_status u' = block_wake_status u
    \<and> tcbs s' self = Some t' \<and> priority t' = base_priority t \<and> prio_bucket t' = prio_bucket_of (base_priority t)
    \<and> (\<forall>x \<in> set xs. prio_at (tcbs s) b \<le> prio_at (tcbs s) x)
    \<and> icsr s' = 0x10000000 \<and> \<not> primask s'"
proof -
  obtain s' ht T r where s': "mutex_unlock m s = Some (RTOS_OK, s')"
      "ready_rel s' (Q(unat (prio_bucket u) := Q (unat (prio_bucket u)) @ [b]))"
      "prio_bucket_of (base_priority t) = prio_bucket t \<longrightarrow>
        sched_inv s' (Q(unat (prio_bucket u) := Q (unat (prio_bucket u)) @ [b]))" "mutex_waiters s' m (remove1 b xs)"
    and bx: "b \<in> set xs" and cf: "chain_frame (set xs) ((tcbs s)(self \<mapsto> unboost t)) T" and b2: "T b = Some (u\<lparr>mutex_wait_next := r\<rparr>)"
    and fr: "ready_frame (s\<lparr>tcbs := T(b \<mapsto> handed_over (u\<lparr>mutex_wait_next := r\<rparr>)),
        mutexes := (mutexes s)(m \<mapsto> (set_waiters ht mx)\<lparr>owner := b, locked := True\<rparr>), icsr := 0x10000000, primask := False\<rparr>) s'"
    by (rule unlock_handoff_frame [OF inv cur t run mx lk w ne self b bt blk])
  obtain r1 where b': "tcbs s' b = Some ((handed_over (u\<lparr>mutex_wait_next := r\<rparr>))\<lparr>next_ready := r1\<rparr>)"
    using ready_frame_tcb [OF fr, of b] by auto
  have bs: "self \<noteq> b" using bx self by auto
  obtain rs where "T self = Some ((unboost t)\<lparr>mutex_wait_next := rs\<rparr>)"
    using same_but_wait_Some [of "(tcbs s)(self \<mapsto> unboost t)" T self] cf by (auto simp: chain_frame_def)
  then obtain r2 where t': "tcbs s' self = Some ((unboost t)\<lparr>mutex_wait_next := rs, next_ready := r2\<rparr>)"
    using ready_frame_tcb [OF fr, of self] bs by auto
  have "\<forall>x \<in> set xs. prio_at (tcbs s) b \<le> prio_at (tcbs s) x" unfolding b by (simp add: arg_min_list_least)
  then show ?thesis using s' b' t' ready_frame_sel [OF fr] by (simp add: handed_over_def unboost_def)
qed

text \<open>
  C11. Handing the mutex over. When tasks wait, \<open>mutex_unlock\<close> by the owner makes the most urgent of
  them (the longest waiting one among equals) the owner, takes it off the wait list, makes it
  ready at the end of its ring, and gives the caller its base priority back, whether or not the
  caller was boosted into another bucket. The ready rings stay well formed; the scheduler
  invariant is kept too if the caller's base priority is in the bucket whose ring the caller
  is in; theorem \<open>mutex_unlock_stale_ring\<close> shows what happens otherwise.
\<close>

theorem mutex_unlock_handoff:
  assumes inv: "sched_inv s Q" and cur: "current_tcb s = self"
    and t: "tcbs s self = Some t" and run: "state t = TASK_STATE_RUNNING"
    and mx: "mutexes s m = Some mx" and lk: "locked mx" "owner mx = self"
    and w: "mutex_waiters s m xs" and ne: "xs \<noteq> []" and self: "self \<notin> set xs"
    and b: "b = arg_min_list (prio_at (tcbs s)) xs" and bt: "tcbs s b = Some u" and blk: "\<not> runnable u"
  shows "\<exists>s' t' u' mx'. mutex_unlock m s = Some (RTOS_OK, s')
    \<and> ready_rel s' (Q(unat (prio_bucket u) := Q (unat (prio_bucket u)) @ [b]))
    \<and> (prio_bucket_of (base_priority t) = prio_bucket t \<longrightarrow>
         sched_inv s' (Q(unat (prio_bucket u) := Q (unat (prio_bucket u)) @ [b])))
    \<and> mutexes s' m = Some mx' \<and> locked mx' \<and> owner mx' = b \<and> mutex_waiters s' m (remove1 b xs)
    \<and> tcbs s' b = Some u' \<and> state u' = TASK_STATE_READY \<and> block_reason u' = BLOCK_NONE
    \<and> block_wake_status u' = block_wake_status u
    \<and> tcbs s' self = Some t' \<and> priority t' = base_priority t \<and> prio_bucket t' = prio_bucket_of (base_priority t)
    \<and> (\<forall>x \<in> set xs. prio_at (tcbs s) b \<le> prio_at (tcbs s) x)
    \<and> icsr s' = 0x10000000 \<and> \<not> primask s'"
  by (rule unlock_handoff [OF assms])

section \<open>Unlocking a boosted owner\<close>

text \<open>
  \<open>restore_owner_priority\<close> runs on the task that executes \<open>mutex_unlock\<close>, whose state is
  running, so that \<open>scheduler_rebucket_task\<close> takes its second branch: it stores the new bucket
  but leaves the task in the ring of the old one.
\<close>

lemma unlock_stale:
  assumes inv: "sched_inv s Q" and cur: "current_tcb s = self"
    and t: "tcbs s self = Some t" and run: "state t = TASK_STATE_RUNNING"
    and cross: "prio_bucket_of (base_priority t) \<noteq> prio_bucket t"
    and mx: "mutexes s m = Some mx" and lk: "locked mx" "owner mx = self" and w: "mutex_waiters s m []"
  obtains s' where "mutex_unlock m s = Some (RTOS_OK, s')" and "ready_rel s' Q"
    and "tcbs s' = (tcbs s)(self \<mapsto> unboost t)" and "current_tcb s' = self"
    and "self \<in> set (Q (unat (prio_bucket t)))" and "self \<notin> set (Q (unat (prio_bucket (unboost t))))"
proof -
  have nn: "self \<noteq> NULL" using inv t by (rule sched_inv_nonnull)
  have r: "runnable t" using run by (simp add: runnable_def)
  have mem: "self \<in> set (Q (unat (prio_bucket t)))"
    using placed_runnable [OF sched_inv_placed [OF inv t] r] .
  have "unat (prio_bucket (unboost t)) < RTOS_NUM_PRIORITIES" by (simp add: unboost_def)
  then have "self \<notin> set (Q (unat (prio_bucket (unboost t))))"
    using sched_inv_queued [OF inv t] cross by (auto simp: unboost_def word_unat_eq_iff)
  moreover have "ready_rel (s\<lparr>tcbs := (tcbs s)(self \<mapsto> unboost t)\<rparr>) Q"
    by (rule ready_rel_tcb_upd [OF sched_inv_rel [OF inv] t]) (simp add: unboost_def)
  ultimately show thesis
    using mutex_unlock_free [OF cur t nn run mx lk w] mem cur
    by (intro that [of "s\<lparr>tcbs := (tcbs s)(self \<mapsto> unboost t),
        mutexes := (mutexes s)(m \<mapsto> mx\<lparr>locked := False, owner := NULL\<rparr>),
        icsr := 0x10000000, primask := False\<rparr>"]) simp_all
qed

lemma stale_not_inv:
  assumes rel: "ready_rel s Q" and mem: "a \<in> set (Q b)" "b < RTOS_NUM_PRIORITIES"
    and t: "tcbs s a = Some t" "unat (prio_bucket t) \<noteq> b"
  shows "\<not> sched_inv s Q'"
proof
  assume inv: "sched_inv s Q'"
  have "a \<in> set (Q' b)" using mem ready_rel_unique [OF rel sched_inv_rel [OF inv] mem(2)] by simp
  then show False using sched_inv_queued [OF inv t(1) mem(2)] t(2) by blast
qed

text \<open>
  C35. A boosted owner leaves the scheduler inconsistent. If priority inheritance moved the
  owner to another bucket, \<open>mutex_unlock\<close>, whether tasks still wait or not, returns with the
  caller's \<open>prio_bucket\<close> set to the bucket of its base priority while the caller is still linked
  into the ring of the boosted bucket: the rings are intact, but no assignment of queues
  satisfies the scheduler invariant.
\<close>

theorem mutex_unlock_stale_ring:
  assumes inv: "sched_inv s Q" and cur: "current_tcb s = self"
    and t: "tcbs s self = Some t" and run: "state t = TASK_STATE_RUNNING"
    and cross: "prio_bucket_of (base_priority t) \<noteq> prio_bucket t"
    and mx: "mutexes s m = Some mx" and lk: "locked mx" "owner mx = self" and w: "mutex_waiters s m xs"
    and blk: "\<forall>x \<in> set xs. \<exists>u. tcbs s x = Some u \<and> \<not> runnable u"
  shows "\<exists>s' t' Q'. mutex_unlock m s = Some (RTOS_OK, s') \<and> ready_rel s' Q'
    \<and> tcbs s' self = Some t' \<and> prio_bucket t' = prio_bucket_of (base_priority t)
    \<and> self \<in> set (Q' (unat (prio_bucket t))) \<and> self \<notin> set (Q' (unat (prio_bucket t')))
    \<and> (\<forall>Q''. \<not> sched_inv s' Q'')"
proof -
  have r: "runnable t" using run by (simp add: runnable_def)
  have bt: "unat (prio_bucket t) < RTOS_NUM_PRIORITIES" using inv t by simp
  have mem: "self \<in> set (Q (unat (prio_bucket t)))" using placed_runnable [OF sched_inv_placed [OF inv t] r] .
  have new: "unat (prio_bucket_of (base_priority t)) \<noteq> unat (prio_bucket t)" using cross by (simp add: word_unat_eq_iff)
  have out: "self \<notin> set (Q (unat (prio_bucket_of (base_priority t))))" using sched_inv_queued [OF inv t] new by fastforce
  obtain s' t' Q' where s': "mutex_unlock m s = Some (RTOS_OK, s')" "ready_rel s' Q'" "tcbs s' self = Some t'"
    and t': "prio_bucket t' = prio_bucket_of (base_priority t)"
    and Q': "self \<in> set (Q' (unat (prio_bucket t)))" "self \<notin> set (Q' (unat (prio_bucket_of (base_priority t))))"
  proof (cases "xs = []")
    case True
    with w have "mutex_waiters s m []" by simp
    then obtain s' where "mutex_unlock m s = Some (RTOS_OK, s')" "ready_rel s' Q" "tcbs s' = (tcbs s)(self \<mapsto> unboost t)"
      using unlock_stale [OF inv cur t run cross mx lk] by metis
    then show thesis using that [of s' Q "unboost t"] mem out by (simp add: unboost_def)
  next
    case False
    let ?b = "arg_min_list (prio_at (tcbs s)) xs"
    obtain u where u: "tcbs s ?b = Some u" "\<not> runnable u" using blk arg_min_list_in [OF False, of "prio_at (tcbs s)"] by blast
    have "self \<notin> set xs" using blk t r by auto
    then obtain s' t' where "mutex_unlock m s = Some (RTOS_OK, s')"
        "ready_rel s' (Q(unat (prio_bucket u) := Q (unat (prio_bucket u)) @ [?b]))" "tcbs s' self = Some t'"
        "prio_bucket t' = prio_bucket_of (base_priority t)"
      using unlock_handoff [OF inv cur t run mx lk w False _ refl u] by blast
    moreover have "?b \<noteq> self" using u t r by auto
    then have "self \<in> set ((Q(unat (prio_bucket u) := Q (unat (prio_bucket u)) @ [?b])) x) \<longleftrightarrow> self \<in> set (Q x)" for x by auto
    ultimately show thesis using that mem out by blast
  qed
  have "\<not> sched_inv s' Q''" for Q'' by (rule stale_not_inv [OF s'(2) Q'(1) bt s'(3)]) (use t' new in simp)
  then show ?thesis using s' t' Q' by (intro exI [of _ s'] exI [of _ t'] exI [of _ Q']) simp
qed

text \<open>
  Consequence: the next delay of such a task has no effect. The task is marked blocked but
  is not found in the ring of its new bucket, so it stays in the boosted one; when that ring
  is the most urgent and holds only this task, the following dispatch selects the blocked
  task and marks it running, and its wait loop ends at once.
\<close>

theorem boosted_delay_returns_early:
  assumes inv: "sched_inv s Q" and cur: "current_tcb s = self"
    and t: "tcbs s self = Some t" and run: "state t = TASK_STATE_RUNNING"
    and cross: "prio_bucket_of (base_priority t) \<noteq> prio_bucket t"
    and mx: "mutexes s m = Some mx" "locked mx" "owner mx = self" and w: "mutex_waiters s m []"
    and alone: "Q (unat (prio_bucket t)) = [self]" and top: "\<forall>q < unat (prio_bucket t). Q q = []"
  shows "\<exists>s1 s2 s3 t2 t3. mutex_unlock m s = Some (RTOS_OK, s1)
    \<and> block_enter n BLOCK_DELAY NULL s1 = Some (None, s2)
    \<and> tcbs s2 self = Some t2 \<and> state t2 = TASK_STATE_BLOCKED
    \<and> scheduler_get_next s2 = Some (self, s3)
    \<and> tcbs s3 self = Some t3 \<and> state t3 = TASK_STATE_RUNNING
    \<and> block_spin self s3 = Some (Some RTOS_OK)"
proof -
  obtain s1 where s1: "mutex_unlock m s = Some (RTOS_OK, s1)" "ready_rel s1 Q" "current_tcb s1 = self"
    and tc: "tcbs s1 = (tcbs s)(self \<mapsto> unboost t)"
    and out: "self \<notin> set (Q (unat (prio_bucket (unboost t))))"
    using unlock_stale [OF inv cur t run cross mx w] by metis
  have nn: "self \<noteq> NULL" using inv t by (rule sched_inv_nonnull)
  have ub: "tcbs s1 self = Some (unboost t)" using tc by simp
  have bb: "unat (prio_bucket (unboost t)) < RTOS_NUM_PRIORITIES" by (simp add: unboost_def)
  let ?t2 = "blocked_tcb (s_rtos_tick_count s1) n BLOCK_DELAY NULL (unboost t)"
  obtain s2 where s2: "block_enter n BLOCK_DELAY NULL s1 = Some (None, s2)"
    and rel2: "ready_rel s2 (Q(unat (prio_bucket (unboost t)) := remove1 self (Q (unat (prio_bucket (unboost t))))))"
    and fr: "ready_frame (s1\<lparr>tcbs := (tcbs s1)(self \<mapsto> ?t2), icsr := 0x10000000, primask := False\<rparr>) s2"
    using block_enter_refines [OF s1(2) ub nn s1(3) bb] by metis
  have rel2': "ready_rel s2 Q" using rel2 out by (simp add: remove1_idem)
  obtain r where t2: "tcbs s2 self = Some (?t2\<lparr>next_ready := r\<rparr>)" using ready_frame_tcb [OF fr, of self] by auto
  have cur2: "current_tcb s2 = self" using ready_frame_sel [OF fr] s1(3) by simp
  then have ok: "current_ok s2" using t2 nn by (simp add: current_ok_def live_tcb_def)
  have b: "unat (prio_bucket t) < RTOS_NUM_PRIORITIES" using inv t by simp
  have ne: "Q (unat (prio_bucket t)) \<noteq> []" and hd: "hd (Q (unat (prio_bucket t))) = self"
    using alone by simp_all
  obtain t3 rh where
    s3: "scheduler_get_next s2 = Some (self, s2\<lparr>tcbs := (demoted s2)(self \<mapsto>
           t3\<lparr>state := TASK_STATE_RUNNING, time_slice_counter := 0\<rparr>), ready_head := rh, current_tcb := self\<rparr>)"
    and t3: "demoted s2 self = Some t3"
    using get_next_refines [OF rel2' ok b ne top] unfolding hd by blast
  have "block_wake_status t3 = RTOS_OK" using t3 t2 cur2 nn by (auto simp: demoted_def demote_def)
  then show ?thesis using s1(1) s2 t2 s3 nn by (auto simp: block_spin_def)
qed

section \<open>The mutex as a wait object\<close>

definition mutex_timed_out :: "TCB_t \<Rightarrow> TCB_t" where
  "mutex_timed_out u = u\<lparr>blocked_on_mutex := NULL, block_reason := BLOCK_NONE, block_object := NULL,
     block_wake_status := RTOS_ERR_TIMEOUT, state := TASK_STATE_READY\<rparr>"

definition mutex_detached :: "TCB_t \<Rightarrow> TCB_t" where
  "mutex_detached u = u\<lparr>blocked_on_mutex := NULL, mutex_wait_next := NULL\<rparr>"

lemma mutex_waiters_obj: "mutex_waiters s m xs = waiters_of s (MutexQ m) xs"
  by (auto simp: mutex_waiters_def waiters_of_def wptr_def get_mutex_def fetch_def)

lemma with_mutex_list_wptr:
  "mutexes s m = Some mx \<Longrightarrow> with_mutex_list m s mx (ht, T) = set_wptr (MutexQ m) ht (s\<lparr>tcbs := T\<rparr>)"
  by (simp add: with_mutex_list_def set_wptr_def set_waiters_def)

lemma mutex_unlink_wptr:
  assumes "wptr s (MutexQ m) = Some ht" and "t \<noteq> NULL"
  shows "mutex_wait_unlink m t s =
    map_option (\<lambda>(ht', T). set_wptr (MutexQ m) ht' (s\<lparr>tcbs := T\<rparr>)) (tcb_unlink ht t (tcbs s))"
proof -
  obtain mx where mx: "mutexes s m = Some mx" "m \<noteq> NULL" "ht = (wait_head mx, wait_tail mx)"
    using assms(1) by (auto simp: wptr_def get_mutex_def fetch_def split: if_splits)
  have "with_mutex_list m s mx = (\<lambda>(ht', T). set_wptr (MutexQ m) ht' (s\<lparr>tcbs := T\<rparr>))"
    using mx(1) by (auto simp: with_mutex_list_wptr)
  with mutex_unlink_eq [OF mx(1,2) assms(2)] mx(3) show ?thesis by simp
qed

interpretation mutex_q: wait_object "MutexQ m" "mutex_wait_unlink m" mutex_wake_timeout
    "mutex_detach_waiter m" mutex_timed_out mutex_detached "\<lambda>u. block_object u = m"
  for m
proof (unfold_locales, goal_cases)
  case (1 s ht t)
  then show ?case by (rule mutex_unlink_wptr)
next
  case (2 s t u)
  then have "m \<noteq> NULL" by (auto simp: wptr_def get_mutex_def fetch_def)
  with 2 show ?case by (simp add: mutex_wake_timeout_def mutex_timed_out_def [abs_def])
next
  case (3 s t u)
  then have "m \<noteq> NULL" by (auto simp: wptr_def get_mutex_def fetch_def)
  with 3 show ?case by (simp add: mutex_detach_waiter_def mutex_detached_def [abs_def])
qed (simp_all add: mutex_timed_out_def mutex_detached_def)

text \<open>
  C24. Timeout of a mutex wait. \<open>mutex_wake_timeout\<close> takes the task off the wait list of the
  mutex it is blocked on, wherever it stands in it, makes it ready at the end of its ring
  with the status \<open>RTOS_ERR_TIMEOUT\<close>, and leaves the owner of the mutex as it was.
\<close>

theorem mutex_timeout_unlinks:
  assumes "sched_inv s Q" and "mutex_waiters s m xs" and "tcbs s t = Some u"
    and "block_object u = m" and "\<not> runnable u" and "mutexes s m = Some mx"
  shows "\<exists>s' u' mx'. mutex_wake_timeout t s = Some s'
    \<and> sched_inv s' (Q(unat (prio_bucket u) := Q (unat (prio_bucket u)) @ [t]))
    \<and> mutex_waiters s' m (remove1 t xs)
    \<and> tcbs s' t = Some u' \<and> state u' = TASK_STATE_READY \<and> block_wake_status u' = RTOS_ERR_TIMEOUT
    \<and> mutexes s' m = Some mx' \<and> owner mx' = owner mx \<and> locked mx' = locked mx"
proof -
  obtain s' ht T r where s': "mutex_wake_timeout t s = Some s'"
      "sched_inv s' (Q(unat (prio_bucket u) := Q (unat (prio_bucket u)) @ [t]))"
      "waiters_of s' (MutexQ m) (remove1 t xs)"
    and fr: "ready_frame (set_wptr (MutexQ m) ht (s\<lparr>tcbs := T(t \<mapsto> mutex_timed_out (u\<lparr>mutex_wait_next := r\<rparr>))\<rparr>)) s'"
    using mutex_q.wake_timeout_waiter [OF assms(1) assms(2) [unfolded mutex_waiters_obj] assms(3,4,5)]
    by metis
  obtain r' where "tcbs s' t = Some ((mutex_timed_out (u\<lparr>mutex_wait_next := r\<rparr>))\<lparr>next_ready := r'\<rparr>)"
    using ready_frame_tcb [OF fr, of t] by auto
  with s' ready_frame_sel [OF fr] assms(6) show ?thesis
    by (auto simp: mutex_waiters_obj mutex_timed_out_def set_wptr_def)
qed

section \<open>Ownership\<close>

text \<open>Lock bit and owner of a mutex; the wait list is not part of it.\<close>

definition ownership :: "kernel \<Rightarrow> addr \<Rightarrow> (bool \<times> addr) option" where
  "ownership s m = map_option (\<lambda>x. (locked x, owner x)) (mutexes s m)"

lemma ownership_core: "sched_core s' = sched_core s \<Longrightarrow> ownership s' = ownership s"
  by (drule sched_core_sel(1)) (simp add: ownership_def fun_eq_iff)

lemma ownership_upd [simp]:
  "ownership (s\<lparr>primask := p\<rparr>) = ownership s" "ownership (s\<lparr>tcbs := T\<rparr>) = ownership s"
  by (simp_all add: ownership_def fun_eq_iff)

lemma upd_mutex_ownership:
  assumes "upd_mutex m f s = Some s'" and "\<And>x. locked (f x) = locked x" and "\<And>x. owner (f x) = owner x"
  shows "ownership s' = ownership s"
  using assms by (auto simp: upd_mutex_def modify_eq_Some_iff ownership_def fun_eq_iff)

lemma enqueue_ownership:
  "mutex_wait_enqueue_tail m t s = Some s' \<Longrightarrow> ownership s' = ownership s"
  by (auto simp: mutex_wait_enqueue_tail_def split: if_splits bind_splits
      dest!: upd_tcb_core [THEN ownership_core] upd_mutex_ownership)

lemma apply_pi_core: "apply_pi m s = Some s' \<Longrightarrow> sched_core s' = sched_core s"
  by (auto simp: apply_pi_def Let_def split: if_splits bind_splits dest!: upd_tcb_core rebucket_core)

lemma lock_attempt_ownership:
  assumes "mutex_lock_attempt m s = Some (r, s')"
  shows "(r = Some RTOS_OK \<longrightarrow>
            (ownership s m = Some (True, current_tcb s) \<or> (\<exists>o'. ownership s m = Some (False, o'))) \<and>
            ownership s' m = Some (True, current_tcb s))
    \<and> (r \<noteq> Some RTOS_OK \<longrightarrow> ownership s' m = ownership s m)
    \<and> (\<forall>m'. m' \<noteq> m \<longrightarrow> ownership s' m' = ownership s m')"
proof (cases "m = NULL \<or> current_tcb s = NULL")
  case True
  with assms show ?thesis by (auto simp: mutex_lock_attempt_def Let_def split: if_splits)
next
  case False
  then obtain mx where mx: "mutexes s m = Some mx"
    using assms by (auto simp: mutex_lock_attempt_def Let_def get_mutex_def fetch_def cpsid_def
        split: if_splits bind_splits)
  consider (own) "locked mx" "owner mx = current_tcb s" | (free) "\<not> locked mx"
    | (held) "locked mx" "owner mx \<noteq> current_tcb s" by blast
  then show ?thesis
  proof cases
    case own
    with assms mx False show ?thesis
      by (auto simp: mutex_lock_attempt_def Let_def cpsid_def cpsie_def ownership_def)
  next
    case free
    with assms mx False show ?thesis
      by (auto simp: mutex_lock_attempt_def Let_def cpsid_def cpsie_def ownership_def
          split: bind_splits dest!: upd_tcb_core [THEN sched_core_sel(1)])
  next
    case held
    with assms mx False have "r = None \<and> ownership s' = ownership s"
      by (auto simp: mutex_lock_attempt_def Let_def cpsid_def cpsie_def split: bind_splits
          dest!: upd_tcb_core [THEN ownership_core] enqueue_ownership apply_pi_core [THEN ownership_core])
    then show ?thesis by simp
  qed
qed

text \<open>
  Mutual exclusion. A lock attempt returns \<open>RTOS_OK\<close> only when the mutex was free or
  already the caller's, and then the caller owns it; an attempt that has to block, and an
  attempt that fails, leave lock bit and owner of this mutex unchanged; no attempt changes
  the ownership of another mutex.
\<close>

theorem mutex_lock_ownership:
  assumes "mutex_lock_attempt m s = Some (r, s')"
  shows "(r = Some RTOS_OK \<longrightarrow>
            (ownership s m = Some (True, current_tcb s) \<or> (\<exists>o'. ownership s m = Some (False, o'))) \<and>
            ownership s' m = Some (True, current_tcb s))
    \<and> (r \<noteq> Some RTOS_OK \<longrightarrow> ownership s' m = ownership s m)
    \<and> (\<forall>m'. m' \<noteq> m \<longrightarrow> ownership s' m' = ownership s m')"
  using assms by (rule lock_attempt_ownership)

section \<open>Sample states\<close>

text \<open>
  Task 32 (priority 70) runs, task 16 (priority 200) is ready and owns the mutex 256, task 48
  (priority 100) waits for it.
\<close>

definition lock_sample :: kernel where
  "lock_sample = blank_kernel\<lparr>
     tcbs := [16 \<mapsto> sample_task 200 TASK_STATE_READY 16,
              32 \<mapsto> sample_task 70 TASK_STATE_RUNNING 32,
              48 \<mapsto> (sample_task 100 TASK_STATE_BLOCKED 0)\<lparr>block_object := 256\<rparr>],
     mutexes := [256 \<mapsto> \<lparr>locked = True, owner = 16, wait_head = 48, wait_tail = 48\<rparr>],
     ready_head := [0, 0, 32, 0, 0, 0, 16, 0], current_tcb := 32\<rparr>"

definition lock_sample_queues :: ready_queues where
  "lock_sample_queues = (\<lambda>b. [])(2 := [32], 6 := [16])"

lemma lock_sample_inv: "sched_inv lock_sample lock_sample_queues"
  by (auto simp: sched_inv_def placed_def queued_def runnable_def ready_rel_def lock_sample_def
      lock_sample_queues_def sample_defs ring_def ready_link_def split: if_splits dest!: less_8_cases)

lemma lock_sample_waiters: "mutex_waiters lock_sample 256 [48]"
  by (simp add: mutex_waiters_def lock_sample_def wait_list_def wait_link_def)

lemma lock_sample_sel:
  "tcbs lock_sample 32 = Some (sample_task 70 TASK_STATE_RUNNING 32)"
  "tcbs lock_sample 16 = Some (sample_task 200 TASK_STATE_READY 16)"
  "tcbs lock_sample 48 = Some ((sample_task 100 TASK_STATE_BLOCKED 0)\<lparr>block_object := 256\<rparr>)"
  "mutexes lock_sample 256 = Some \<lparr>locked = True, owner = 16, wait_head = 48, wait_tail = 48\<rparr>"
  "current_tcb lock_sample = 32" "s_rtos_tick_count lock_sample = 0"
  by (simp_all add: lock_sample_def blank_kernel_def)

theorem mutex_lock_contended_witness:
  "\<exists>s' Q' t' ot'. mutex_lock 256 5 lock_sample = Some (None, s') \<and> sched_inv s' Q'
    \<and> mutex_waiters s' 256 [48, 32] \<and> tcbs s' 32 = Some t' \<and> wake_time t' = 5
    \<and> tcbs s' 16 = Some ot' \<and> priority ot' = 70"
proof -
  note inst = mutex_lock_contended [OF lock_sample_inv lock_sample_sel(5,1) _ lock_sample_sel(4) _ _ _ _
      lock_sample_waiters, of "sample_task 200 TASK_STATE_READY 16" 5]
  have "prio_at (tcbs lock_sample) 32 = 70" "prio_at (tcbs lock_sample) 48 = 100"
    by (simp_all add: lock_sample_sel)
  then show ?thesis using inst by (auto simp: wake_tick_def lock_sample_sel simp del: prio_at_Some)
qed

theorem mutex_timeout_unlinks_witness:
  "\<exists>s' u'. mutex_wake_timeout 48 lock_sample = Some s' \<and> mutex_waiters s' 256 []
    \<and> tcbs s' 48 = Some u' \<and> state u' = TASK_STATE_READY \<and> block_wake_status u' = RTOS_ERR_TIMEOUT"
  using mutex_timeout_unlinks [OF lock_sample_inv lock_sample_waiters lock_sample_sel(3) _ _ lock_sample_sel(4)]
  by (simp add: runnable_def) blast

text \<open>Task 16 (priority 200) runs and owns the mutex 256, tasks 48 and 32 wait for it.\<close>

definition unlock_sample :: kernel where
  "unlock_sample = blank_kernel\<lparr>
     tcbs := [16 \<mapsto> sample_task 200 TASK_STATE_RUNNING 16,
              32 \<mapsto> (sample_task 70 TASK_STATE_BLOCKED 0)\<lparr>block_object := 256\<rparr>,
              48 \<mapsto> (sample_task 100 TASK_STATE_BLOCKED 0)\<lparr>block_object := 256, mutex_wait_next := 32\<rparr>],
     mutexes := [256 \<mapsto> \<lparr>locked = True, owner = 16, wait_head = 48, wait_tail = 32\<rparr>],
     ready_head := [0, 0, 0, 0, 0, 0, 16, 0], current_tcb := 16\<rparr>"

definition unlock_sample_queues :: ready_queues where
  "unlock_sample_queues = (\<lambda>b. [])(6 := [16])"

lemma unlock_sample_inv: "sched_inv unlock_sample unlock_sample_queues"
  by (auto simp: sched_inv_def placed_def queued_def runnable_def ready_rel_def unlock_sample_def
      unlock_sample_queues_def sample_defs ring_def ready_link_def split: if_splits dest!: less_8_cases)

lemma unlock_sample_waiters: "mutex_waiters unlock_sample 256 [48, 32]"
  by (simp add: mutex_waiters_def unlock_sample_def wait_list_def wait_link_def)

lemma unlock_sample_sel:
  "tcbs unlock_sample 16 = Some (sample_task 200 TASK_STATE_RUNNING 16)"
  "tcbs unlock_sample 32 = Some ((sample_task 70 TASK_STATE_BLOCKED 0)\<lparr>block_object := 256\<rparr>)"
  "tcbs unlock_sample 48 = Some ((sample_task 100 TASK_STATE_BLOCKED 0)\<lparr>block_object := 256, mutex_wait_next := 32\<rparr>)"
  "mutexes unlock_sample 256 = Some \<lparr>locked = True, owner = 16, wait_head = 48, wait_tail = 32\<rparr>"
  "current_tcb unlock_sample = 16"
  by (simp_all add: unlock_sample_def blank_kernel_def)

theorem mutex_unlock_handoff_witness:
  "\<exists>s' mx'. mutex_unlock 256 unlock_sample = Some (RTOS_OK, s')
    \<and> sched_inv s' (unlock_sample_queues(2 := [32]))
    \<and> mutexes s' 256 = Some mx' \<and> owner mx' = 32 \<and> mutex_waiters s' 256 [48]"
proof -
  have best: "32 = arg_min_list (prio_at (tcbs unlock_sample)) [48, 32]"
    by (simp add: unlock_sample_sel)
  note inst = mutex_unlock_handoff [OF unlock_sample_inv unlock_sample_sel(5,1) _ unlock_sample_sel(4) _ _
      unlock_sample_waiters _ _ best unlock_sample_sel(2)]
  have "unlock_sample_queues 2 = []" by (simp add: unlock_sample_queues_def)
  then show ?thesis using inst by (simp add: runnable_def prio_bucket_of_eval) blast
qed

text \<open>Task 16 runs with the inherited priority 70 and owns the mutex 256, for which no task waits.\<close>

definition boosted_sample :: kernel where
  "boosted_sample = blank_kernel\<lparr>
     tcbs := [16 \<mapsto> (sample_task 70 TASK_STATE_RUNNING 16)\<lparr>base_priority := 200\<rparr>],
     mutexes := [256 \<mapsto> \<lparr>locked = True, owner = 16, wait_head = 0, wait_tail = 0\<rparr>],
     ready_head := [0, 0, 16, 0, 0, 0, 0, 0], current_tcb := 16\<rparr>"

definition boosted_sample_queues :: ready_queues where
  "boosted_sample_queues = (\<lambda>b. [])(2 := [16])"

lemma boosted_sample_inv: "sched_inv boosted_sample boosted_sample_queues"
  by (auto simp: sched_inv_def placed_def queued_def runnable_def ready_rel_def boosted_sample_def
      boosted_sample_queues_def sample_defs ring_def ready_link_def split: if_splits dest!: less_8_cases)

lemma boosted_sample_waiters: "mutex_waiters boosted_sample 256 []"
  by (simp add: mutex_waiters_def boosted_sample_def)

lemma boosted_sample_sel:
  "tcbs boosted_sample 16 = Some ((sample_task 70 TASK_STATE_RUNNING 16)\<lparr>base_priority := 200\<rparr>)"
  "mutexes boosted_sample 256 = Some \<lparr>locked = True, owner = 16, wait_head = 0, wait_tail = 0\<rparr>"
  "current_tcb boosted_sample = 16"
  by (simp_all add: boosted_sample_def blank_kernel_def)

theorem mutex_unlock_free_witness:
  "\<exists>s'. mutex_unlock 256 boosted_sample = Some (RTOS_OK, s')
    \<and> mutexes s' 256 = Some \<lparr>locked = False, owner = 0, wait_head = 0, wait_tail = 0\<rparr>"
  using mutex_unlock_free [OF boosted_sample_sel(3,1) _ _ boosted_sample_sel(2) _ _ boosted_sample_waiters]
  by simp

text \<open>The same with task 32, from which task 16 inherited its priority, waiting for the mutex.\<close>

definition stale_sample :: kernel where
  "stale_sample = boosted_sample\<lparr>
     tcbs := (tcbs boosted_sample)(32 \<mapsto> (sample_task 70 TASK_STATE_BLOCKED 0)\<lparr>block_object := 256\<rparr>),
     mutexes := [256 \<mapsto> \<lparr>locked = True, owner = 16, wait_head = 32, wait_tail = 32\<rparr>]\<rparr>"

lemma stale_sample_inv: "sched_inv stale_sample boosted_sample_queues"
  by (auto simp: sched_inv_def placed_def queued_def runnable_def ready_rel_def boosted_sample_def stale_sample_def
      boosted_sample_queues_def sample_defs ring_def ready_link_def split: if_splits dest!: less_8_cases)

lemma stale_sample_waiters: "mutex_waiters stale_sample 256 [32]"
  by (simp add: mutex_waiters_def stale_sample_def wait_list_def wait_link_def)

lemma stale_sample_sel:
  "tcbs stale_sample 16 = Some ((sample_task 70 TASK_STATE_RUNNING 16)\<lparr>base_priority := 200\<rparr>)"
  "mutexes stale_sample 256 = Some \<lparr>locked = True, owner = 16, wait_head = 32, wait_tail = 32\<rparr>"
  "current_tcb stale_sample = 16"
  "tcbs stale_sample 32 = Some ((sample_task 70 TASK_STATE_BLOCKED 0)\<lparr>block_object := 256\<rparr>)"
  by (simp_all add: stale_sample_def boosted_sample_def blank_kernel_def)

theorem mutex_unlock_stale_ring_witness:
  "\<exists>s' t'. mutex_unlock 256 stale_sample = Some (RTOS_OK, s') \<and> tcbs s' 16 = Some t'
    \<and> prio_bucket t' = 6 \<and> (\<forall>Q'. \<not> sched_inv s' Q')"
  using mutex_unlock_stale_ring [OF stale_sample_inv stale_sample_sel(3,1) _ _ stale_sample_sel(2) _ _
      stale_sample_waiters]
  by (simp add: prio_bucket_of_eval stale_sample_sel(4) runnable_def) blast

theorem boosted_delay_returns_early_witness:
  "\<exists>s1 s2 s3. mutex_unlock 256 boosted_sample = Some (RTOS_OK, s1)
    \<and> block_enter 1000 BLOCK_DELAY NULL s1 = Some (None, s2)
    \<and> scheduler_get_next s2 = Some (16, s3) \<and> block_spin 16 s3 = Some (Some RTOS_OK)"
  using boosted_delay_returns_early [OF boosted_sample_inv boosted_sample_sel(3,1) _ _ boosted_sample_sel(2) _ _
      boosted_sample_waiters, of 1000]
  by (simp add: prio_bucket_of_eval boosted_sample_queues_def) blast

theorem mutex_lock_ownership_witness:
  "\<exists>s'. mutex_lock_attempt 256 boosted_sample = Some (Some RTOS_OK, s') \<and> ownership s' 256 = Some (True, 16)"
proof -
  have eq: "mutex_lock_attempt 256 boosted_sample = Some (Some RTOS_OK, cpsie (cpsid boosted_sample))"
    by (simp add: mutex_lock_attempt_def boosted_sample_sel cpsid_def Let_def)
  from mutex_lock_ownership [OF this] eq show ?thesis by (simp add: boosted_sample_sel)
qed

end
