(* ===== verification/Rtos_Semaphore.thy ===== *)
theory Rtos_Semaphore
  imports Rtos_Block
begin

text \<open>
  The counting semaphore of \<^verbatim>\<open>src/sync/semaphore.c\<close>: a count bounded by \<open>max_count\<close> and a wait
  list in arrival order. A post increments the count and wakes the first waiter, which then
  retries the wait loop; the count is not handed over.
\<close>

section \<open>Operations\<close>

definition sem_wait_unlink :: "addr \<Rightarrow> addr \<Rightarrow> kernel \<Rightarrow> kernel option" where
  "sem_wait_unlink sem t s =
     (if sem = NULL \<or> t = NULL then Some s
      else do {
        x \<leftarrow> get_sem s sem;
        if sem_wait_head x = NULL then Some s
        else do {
          found \<leftarrow> wait_walk (tcbs s) t NULL (sem_wait_head x);
          case found of
            None \<Rightarrow> Some s
          | Some prev \<Rightarrow> do {
              u \<leftarrow> get_tcb s t;
              s \<leftarrow> (if prev = NULL then upd_sem sem (\<lambda>x. x\<lparr>sem_wait_head := mutex_wait_next u\<rparr>) s
                   else upd_tcb prev (\<lambda>v. v\<lparr>mutex_wait_next := mutex_wait_next u\<rparr>) s);
              s \<leftarrow> (if t = sem_wait_tail x then upd_sem sem (\<lambda>x. x\<lparr>sem_wait_tail := prev\<rparr>) s else Some s);
              x \<leftarrow> get_sem s sem;
              s \<leftarrow> (if sem_wait_head x = NULL then upd_sem sem (\<lambda>x. x\<lparr>sem_wait_tail := NULL\<rparr>) s else Some s);
              upd_tcb t (\<lambda>v. v\<lparr>mutex_wait_next := NULL\<rparr>) s
            }
        }
      })"

definition sem_wait_enqueue :: "addr \<Rightarrow> addr \<Rightarrow> kernel \<Rightarrow> kernel option" where
  "sem_wait_enqueue sem t s = do {
     s \<leftarrow> upd_tcb t (\<lambda>u. u\<lparr>mutex_wait_next := NULL\<rparr>) s;
     x \<leftarrow> get_sem s sem;
     if sem_wait_head x = NULL then upd_sem sem (\<lambda>x. x\<lparr>sem_wait_head := t, sem_wait_tail := t\<rparr>) s
     else do {
       s \<leftarrow> upd_tcb (sem_wait_tail x) (\<lambda>u. u\<lparr>mutex_wait_next := t\<rparr>) s;
       upd_sem sem (\<lambda>x. x\<lparr>sem_wait_tail := t\<rparr>) s
     }
   }"

definition sem_wait_pop_head :: "addr \<Rightarrow> kernel \<Rightarrow> (addr \<times> kernel) option" where
  "sem_wait_pop_head sem s = do {
     x \<leftarrow> get_sem s sem;
     let w = sem_wait_head x;
     if w = NULL then Some (NULL, s)
     else do {
       t \<leftarrow> get_tcb s w;
       s \<leftarrow> upd_sem sem (\<lambda>x. x\<lparr>sem_wait_head := mutex_wait_next t\<rparr>) s;
       x \<leftarrow> get_sem s sem;
       s \<leftarrow> (if sem_wait_head x = NULL then upd_sem sem (\<lambda>x. x\<lparr>sem_wait_tail := NULL\<rparr>) s else Some s);
       s \<leftarrow> upd_tcb w (\<lambda>u. u\<lparr>mutex_wait_next := NULL\<rparr>) s;
       Some (w, s)
     }
   }"

definition semaphore_wake_timeout :: "addr \<Rightarrow> kernel \<Rightarrow> kernel option" where
  "semaphore_wake_timeout t s =
     (if t = NULL then Some s
      else do {
        u \<leftarrow> get_tcb s t;
        s \<leftarrow> (if block_object u \<noteq> NULL then sem_wait_unlink (block_object u) t s else Some s);
        s \<leftarrow> upd_tcb t (\<lambda>u. u\<lparr>block_reason := BLOCK_NONE, block_object := NULL,
               block_wake_status := RTOS_ERR_TIMEOUT, state := TASK_STATE_READY\<rparr>) s;
        (_, s) \<leftarrow> scheduler_add_task t s;
        Some s
      })"

definition semaphore_detach_waiter :: "addr \<Rightarrow> addr \<Rightarrow> kernel \<Rightarrow> kernel option" where
  "semaphore_detach_waiter sem t s =
     (if sem = NULL \<or> t = NULL then Some s
      else do {
        s \<leftarrow> sem_wait_unlink sem t s;
        upd_tcb t (\<lambda>u. u\<lparr>mutex_wait_next := NULL\<rparr>) s
      })"

definition semaphore_init :: "addr \<Rightarrow> u32 \<Rightarrow> u32 \<Rightarrow> kernel \<Rightarrow> rtos_status_t \<times> kernel" where
  "semaphore_init sem initial maxc s =
     (if sem = NULL \<or> maxc = 0 \<or> initial > maxc then (RTOS_ERR_PARAM, s)
      else (RTOS_OK, s\<lparr>semaphores := (semaphores s)(sem \<mapsto>
              \<lparr>sem_count = initial, max_count = maxc, sem_wait_head = NULL, sem_wait_tail = NULL\<rparr>)\<rparr>))"

definition semaphore_init_binary :: "addr \<Rightarrow> bool \<Rightarrow> kernel \<Rightarrow> rtos_status_t \<times> kernel" where
  "semaphore_init_binary sem initially_available s =
     (let initial = (if initially_available then 1 else 0) in semaphore_init sem initial 1 s)"

text \<open>One pass through the loop of \<^verbatim>\<open>semaphore_wait\<close>, up to the call of \<open>rtos_block_current\<close>.\<close>

definition semaphore_wait_attempt :: "addr \<Rightarrow> attempt" where
  "semaphore_wait_attempt sem s =
     (if sem = NULL then Some (Some RTOS_ERR_PARAM, s)
      else let self = current_tcb s in
      if self = NULL then Some (Some RTOS_ERR_STATE, s)
      else do {
        let s = cpsid s;
        x \<leftarrow> get_sem s sem;
        if sem_count x > 0 then do {
          s \<leftarrow> upd_sem sem (\<lambda>x. x\<lparr>sem_count := sem_count x - 1\<rparr>) s;
          Some (Some RTOS_OK, cpsie s)
        } else do {
          s \<leftarrow> sem_wait_enqueue sem self s;
          Some (None, cpsie s)
        }
      })"

definition semaphore_wait :: "addr \<Rightarrow> u32 \<Rightarrow> attempt" where
  "semaphore_wait sem timeout_ticks =
     blocking_call (semaphore_wait_attempt sem) timeout_ticks BLOCK_SEMAPHORE sem"

definition semaphore_wait_resume :: "addr \<Rightarrow> u32 \<Rightarrow> attempt" where
  "semaphore_wait_resume sem timeout_ticks =
     blocking_resume (semaphore_wait_attempt sem) timeout_ticks BLOCK_SEMAPHORE sem"

definition semaphore_post :: "addr \<Rightarrow> kernel \<Rightarrow> (rtos_status_t \<times> kernel) option" where
  "semaphore_post sem s =
     (if sem = NULL then Some (RTOS_ERR_PARAM, s)
      else do {
        let s = cpsid s;
        x \<leftarrow> get_sem s sem;
        if sem_count x \<ge> max_count x then Some (RTOS_ERR_FULL, cpsie s)
        else do {
          s \<leftarrow> upd_sem sem (\<lambda>x. x\<lparr>sem_count := sem_count x + 1\<rparr>) s;
          (wake, s) \<leftarrow> sem_wait_pop_head sem s;
          s \<leftarrow> (if wake \<noteq> NULL then do {
                 s \<leftarrow> upd_tcb wake (\<lambda>t. t\<lparr>block_reason := BLOCK_NONE, block_object := NULL,
                        state := TASK_STATE_READY\<rparr>) s;
                 (_, s) \<leftarrow> scheduler_add_task wake s;
                 Some s
               } else Some s);
          Some (RTOS_OK, scheduler_mark_reschedule (cpsie s))
        }
      })"

section \<open>The semaphore as a wait object\<close>

definition sem_timed_out :: "TCB_t \<Rightarrow> TCB_t" where
  "sem_timed_out u = u\<lparr>block_reason := BLOCK_NONE, block_object := NULL,
     block_wake_status := RTOS_ERR_TIMEOUT, state := TASK_STATE_READY\<rparr>"

definition sem_detached :: "TCB_t \<Rightarrow> TCB_t" where
  "sem_detached u = u\<lparr>mutex_wait_next := NULL\<rparr>"

lemma wptr_SemQ:
  assumes "wptr s (SemQ m) = Some ht"
  obtains x where "semaphores s m = Some x" and "m \<noteq> NULL" and "ht = (sem_wait_head x, sem_wait_tail x)"
  using assms by (auto simp: wptr_def get_sem_def fetch_def split: if_splits)

lemma set_wptr_SemQ:
  "semaphores s m = Some x \<Longrightarrow> set_wptr (SemQ m) ht s =
     s\<lparr>semaphores := (semaphores s)(m \<mapsto> x\<lparr>sem_wait_head := fst ht, sem_wait_tail := snd ht\<rparr>)\<rparr>"
  by (simp add: set_wptr_def)

lemma sem_enqueue_wptr:
  assumes "wptr s (SemQ m) = Some ht"
  shows "sem_wait_enqueue m t s =
    map_option (\<lambda>(ht', T). set_wptr (SemQ m) ht' (s\<lparr>tcbs := T\<rparr>)) (tcb_enqueue_tail ht t (tcbs s))"
proof (rule wptr_SemQ [OF assms])
  fix x assume x: "semaphores s m = Some x" "m \<noteq> NULL" "ht = (sem_wait_head x, sem_wait_tail x)"
  show ?thesis
  proof (cases "modify t (\<lambda>u. u\<lparr>mutex_wait_next := NULL\<rparr>) (tcbs s)")
    case None
    then show ?thesis by (simp add: sem_wait_enqueue_def tcb_enqueue_tail_def upd_tcb_def)
  next
    case (Some T)
    then show ?thesis
      using x
      by (cases "modify (sem_wait_tail x) (\<lambda>u. u\<lparr>mutex_wait_next := t\<rparr>) T")
         (simp_all add: sem_wait_enqueue_def tcb_enqueue_tail_def upd_tcb_def set_wptr_SemQ)
  qed
qed

lemma sem_pop_wptr:
  assumes "wptr s (SemQ m) = Some ht"
  shows "sem_wait_pop_head m s =
    map_option (\<lambda>(w, ht', T). (w, set_wptr (SemQ m) ht' (s\<lparr>tcbs := T\<rparr>))) (tcb_pop_head ht (tcbs s))"
proof (rule wptr_SemQ [OF assms])
  fix x assume x: "semaphores s m = Some x" "m \<noteq> NULL" "ht = (sem_wait_head x, sem_wait_tail x)"
  show ?thesis
    using x
    by (cases "tcbs s (sem_wait_head x)")
       (auto simp: sem_wait_pop_head_def tcb_pop_head_def set_wptr_SemQ get_tcb_def fetch_def Let_def
         map_upd_triv)
qed

lemma sem_unlink_wptr:
  assumes "wptr s (SemQ m) = Some ht" and "t \<noteq> NULL"
  shows "sem_wait_unlink m t s =
    map_option (\<lambda>(ht', T). set_wptr (SemQ m) ht' (s\<lparr>tcbs := T\<rparr>)) (tcb_unlink ht t (tcbs s))"
proof (rule wptr_SemQ [OF assms(1)])
  fix x assume x: "semaphores s m = Some x" "m \<noteq> NULL" "ht = (sem_wait_head x, sem_wait_tail x)"
  show ?thesis
  proof (cases "wait_walk (tcbs s) t NULL (sem_wait_head x)")
    case None
    with x assms(2) show ?thesis
      by (simp add: sem_wait_unlink_def tcb_unlink_def set_wptr_SemQ map_upd_triv)
  next
    case walk: (Some found)
    show ?thesis
    proof (cases "found = None \<or> tcbs s t = None")
      case True
      with walk x assms(2) show ?thesis
        by (cases found) (simp_all add: sem_wait_unlink_def tcb_unlink_def set_wptr_SemQ map_upd_triv
            get_tcb_def fetch_def)
    next
      case False
      then obtain prev u where f: "found = Some prev" "tcbs s t = Some u" by auto
      show ?thesis
        using x assms(2) walk f
        by (cases "prev = NULL"; cases "modify prev (\<lambda>v. v\<lparr>mutex_wait_next := mutex_wait_next u\<rparr>) (tcbs s)";
            cases "t = sem_wait_tail x")
           (simp_all add: sem_wait_unlink_def tcb_unlink_def set_wptr_SemQ
             upd_tcb_def Let_def map_upd_triv bind_to_map option.map_comp comp_def)
    qed
  qed
qed

interpretation sem_q: fifo_wait_object "SemQ m" "sem_wait_unlink m" semaphore_wake_timeout
    "semaphore_detach_waiter m" sem_timed_out sem_detached "\<lambda>u. block_object u = m"
    "sem_wait_enqueue m" "sem_wait_pop_head m"
  for m
proof (unfold_locales, goal_cases)
  case (1 s ht t)
  then show ?case by (rule sem_unlink_wptr)
next
  case (2 s t u)
  then have "m \<noteq> NULL" by (auto elim: wptr_SemQ)
  with 2 show ?case by (simp add: semaphore_wake_timeout_def sem_timed_out_def [abs_def])
next
  case (3 s t u)
  then have "m \<noteq> NULL" by (auto elim: wptr_SemQ)
  with 3 show ?case by (simp add: semaphore_detach_waiter_def sem_detached_def [abs_def])
qed (simp_all add: sem_timed_out_def sem_detached_def sem_enqueue_wptr sem_pop_wptr)

section \<open>Waiting\<close>

text \<open>
  Taking a unit. With a positive count \<open>semaphore_wait\<close> decrements it and returns \<open>RTOS_OK\<close>
  with interrupts enabled; nothing else in the kernel changes, in particular no waiter and no
  ready ring.
\<close>

theorem semaphore_wait_takes:
  assumes "semaphores s sem = Some x" and "sem \<noteq> NULL" and "current_tcb s \<noteq> NULL" and "sem_count x > 0"
  shows "\<exists>n. semaphore_wait sem timeout s = Some (Some RTOS_OK,
      s\<lparr>semaphores := (semaphores s)(sem \<mapsto> x\<lparr>sem_count := n\<rparr>), primask := False\<rparr>)
    \<and> unat n + 1 = unat (sem_count x)"
proof (intro exI conjI)
  show "semaphore_wait sem timeout s = Some (Some RTOS_OK,
      s\<lparr>semaphores := (semaphores s)(sem \<mapsto> x\<lparr>sem_count := sem_count x - 1\<rparr>), primask := False\<rparr>)"
    using assms by (simp add: semaphore_wait_def blocking_call_def semaphore_wait_attempt_def Let_def cpsid_def cpsie_def)
  have "sem_count x \<noteq> 0" using assms(4) by auto
  then have "unat (sem_count x) \<noteq> 0" by (simp add: unat_eq_zero)
  then show "unat (sem_count x - 1) + 1 = unat (sem_count x)"
    by (simp add: unat_minus_one [OF \<open>sem_count x \<noteq> 0\<close>])
qed

lemma sem_wait_refines:
  assumes inv: "sched_inv s Q" and cur: "current_tcb s = self"
    and t: "tcbs s self = Some t" and run: "runnable t"
    and x: "semaphores s sem = Some x" and zero: "sem_count x = 0"
    and w: "waiters_of s (SemQ sem) xs" and new: "self \<notin> set xs"
  obtains s' t' ht T rw where "semaphore_wait sem timeout s = Some (None, s')"
    and "sched_inv s' (Q(unat (prio_bucket t) := remove1 self (Q (unat (prio_bucket t)))))"
    and "waiters_of s' (SemQ sem) (xs @ [self])"
    and "t' = blocked_tcb (s_rtos_tick_count s) timeout BLOCK_SEMAPHORE sem (t\<lparr>mutex_wait_next := rw\<rparr>)"
    and "chain_frame (insert self (set xs)) (tcbs s) T"
    and "ready_frame (set_wptr (SemQ sem) ht
           (s\<lparr>tcbs := T(self \<mapsto> t'), icsr := 0x10000000, primask := False\<rparr>)) s'"
proof -
  have sem: "sem \<noteq> NULL" using w by (auto simp: waiters_of_def elim: wptr_SemQ)
  have nn: "self \<noteq> NULL" using inv t by (rule sched_inv_nonnull)
  obtain ht T s' t' rw where enq: "sem_wait_enqueue sem self (cpsid s) =
        Some (set_wptr (SemQ sem) ht (s\<lparr>tcbs := T, primask := True\<rparr>))"
    and b: "block_enter timeout BLOCK_SEMAPHORE sem
        (set_wptr (SemQ sem) ht (s\<lparr>tcbs := T, primask := False\<rparr>)) = Some (None, s')"
    and s': "sched_inv s' (Q(unat (prio_bucket t) := remove1 self (Q (unat (prio_bucket t)))))"
      "waiters_of s' (SemQ sem) (xs @ [self])" "chain_frame (insert self (set xs)) (tcbs s) T"
    and t': "t' = blocked_tcb (s_rtos_tick_count s) timeout BLOCK_SEMAPHORE sem (t\<lparr>mutex_wait_next := rw\<rparr>)"
    and fr: "ready_frame (set_wptr (SemQ sem) ht
        (s\<lparr>tcbs := T(self \<mapsto> t'), icsr := 0x10000000, primask := False\<rparr>)) s'"
    by (rule sem_q.block_waiter [OF inv w cur t run new])
  have "semaphore_wait sem timeout s = Some (None, s')"
    using sem nn cur x zero enq b
    by (simp add: semaphore_wait_def blocking_call_def semaphore_wait_attempt_def Let_def cpsid_def cpsie_def)
  then show thesis using that s' t' fr by blast
qed

text \<open>
  Waiting for a unit. With count zero the caller joins the end of the wait list, leaves
  its ready ring and is blocked on this semaphore with the wake-up tick of its timeout; the
  count stays zero.
\<close>

theorem semaphore_wait_blocks:
  assumes inv: "sched_inv s Q" and cur: "current_tcb s = self"
    and t: "tcbs s self = Some t" and run: "state t = TASK_STATE_RUNNING"
    and x: "semaphores s sem = Some x" and zero: "sem_count x = 0"
    and w: "waiters_of s (SemQ sem) xs" and new: "self \<notin> set xs"
  shows "\<exists>s' t' x'. semaphore_wait sem timeout s = Some (None, s')
    \<and> sched_inv s' (Q(unat (prio_bucket t) := remove1 self (Q (unat (prio_bucket t)))))
    \<and> waiters_of s' (SemQ sem) (xs @ [self])
    \<and> tcbs s' self = Some t' \<and> state t' = TASK_STATE_BLOCKED \<and> block_reason t' = BLOCK_SEMAPHORE
    \<and> block_object t' = sem \<and> wake_time t' = wake_tick (s_rtos_tick_count s) timeout
    \<and> semaphores s' sem = Some x' \<and> sem_count x' = 0 \<and> max_count x' = max_count x
    \<and> icsr s' = 0x10000000 \<and> \<not> primask s'"
proof -
  have r: "runnable t" using run by (simp add: runnable_def)
  obtain s' t' ht T rw where s': "semaphore_wait sem timeout s = Some (None, s')"
      "sched_inv s' (Q(unat (prio_bucket t) := remove1 self (Q (unat (prio_bucket t)))))"
      "waiters_of s' (SemQ sem) (xs @ [self])"
    and t': "t' = blocked_tcb (s_rtos_tick_count s) timeout BLOCK_SEMAPHORE sem (t\<lparr>mutex_wait_next := rw\<rparr>)"
    and fr: "ready_frame (set_wptr (SemQ sem) ht
        (s\<lparr>tcbs := T(self \<mapsto> t'), icsr := 0x10000000, primask := False\<rparr>)) s'"
    by (rule sem_wait_refines [OF inv cur t r x zero w new])
  obtain r' where "tcbs s' self = Some (t'\<lparr>next_ready := r'\<rparr>)"
    using ready_frame_tcb [OF fr, of self] by auto
  then show ?thesis using s' t' x zero ready_frame_sel [OF fr] by (simp add: set_wptr_SemQ)
qed

section \<open>Posting\<close>

lemma inc_below:
  assumes "a < (b :: u32)"
  shows "unat (a + 1) = unat a + 1" and "a + 1 \<le> b"
proof -
  have "unat a < unat b" using assms by (simp add: word_less_nat_alt)
  moreover have "unat b < 2 ^ 32" using unsigned_less [of b, where 'a = nat] by simp
  ultimately show u: "unat (a + 1) = unat a + 1" by (simp add: unat_word_ariths)
  then show "a + 1 \<le> b" using \<open>unat a < unat b\<close> by (simp add: word_le_nat_alt)
qed

lemma sem_post_refines:
  assumes inv: "sched_inv s Q" and x: "semaphores s sem = Some x" and room: "sem_count x < max_count x"
    and w: "waiters_of s (SemQ sem) (a # xs)" and t: "tcbs s a = Some u" and blk: "\<not> runnable u"
  obtains s' v ht T rw where "semaphore_post sem s = Some (RTOS_OK, s'\<lparr>icsr := 0x10000000, primask := False\<rparr>)"
    and "sched_inv s' (Q(unat (prio_bucket u) := Q (unat (prio_bucket u)) @ [a]))"
    and "waiters_of s' (SemQ sem) xs" and "v = woken (u\<lparr>mutex_wait_next := rw\<rparr>)"
    and "chain_frame {a} (tcbs s) T"
    and "ready_frame (set_wptr (SemQ sem) ht (s\<lparr>tcbs := T(a \<mapsto> v),
           semaphores := (semaphores s)(sem \<mapsto> x\<lparr>sem_count := sem_count x + 1\<rparr>), primask := True\<rparr>)) s'"
proof -
  have sem: "sem \<noteq> NULL" using w by (auto simp: waiters_of_def elim: wptr_SemQ)
  let ?x = "x\<lparr>sem_count := sem_count x + 1\<rparr>"
  let ?s = "s\<lparr>semaphores := (semaphores s)(sem \<mapsto> ?x), primask := True\<rparr>"
  have inv1: "sched_inv ?s Q" using inv by simp
  have w1: "waiters_of ?s (SemQ sem) (a # xs)"
    using w x sem by (auto simp: waiters_of_def wptr_def get_sem_def fetch_def)
  have t1: "tcbs ?s a = Some u" using t by simp
  obtain ht T s' v rw where pop: "sem_wait_pop_head sem ?s = Some (a, set_wptr (SemQ sem) ht (?s\<lparr>tcbs := T\<rparr>))"
    and nn: "a \<noteq> NULL" and ta: "T a = Some (u\<lparr>mutex_wait_next := rw\<rparr>)" and v: "v = woken (u\<lparr>mutex_wait_next := rw\<rparr>)"
    and add: "scheduler_add_task a (set_wptr (SemQ sem) ht (?s\<lparr>tcbs := T(a \<mapsto> v)\<rparr>)) = Some (RTOS_OK, s')"
    and s': "sched_inv s' (Q(unat (prio_bucket u) := Q (unat (prio_bucket u)) @ [a]))" "waiters_of s' (SemQ sem) xs"
    and cf: "chain_frame {a} (tcbs ?s) T"
    and fr: "ready_frame (set_wptr (SemQ sem) ht (?s\<lparr>tcbs := T(a \<mapsto> v)\<rparr>)) s'"
    by (rule sem_q.wake_first [OF inv1 w1 t1 blk])
  have "semaphore_post sem s = Some (RTOS_OK, s'\<lparr>icsr := 0x10000000, primask := False\<rparr>)"
    using sem x room pop nn ta add v
    by (simp add: semaphore_post_def Let_def cpsid_def cpsie_def woken_def scheduler_mark_reschedule_def not_le)
  then show thesis using that [OF _ s' v, of T ht] cf fr by simp
qed

text \<open>
  C25. Posting to waiters. If the count is below its maximum, it grows by one and the task that has
  waited longest leaves the wait list and becomes ready at the end of its ring; it keeps its
  wake-up status, so that its wait loop tries again. If the count has reached its maximum, which
  happens while a task that was woken has not yet run, the post is refused with \<open>RTOS_ERR_FULL\<close>:
  no count, list or task changes and nobody is woken, although tasks wait.
\<close>

theorem semaphore_post_wakes:
  assumes inv: "sched_inv s Q" and x: "semaphores s sem = Some x"
    and w: "waiters_of s (SemQ sem) (a # xs)" and t: "tcbs s a = Some u" and blk: "\<not> runnable u"
  shows "if sem_count x < max_count x
    then \<exists>s' u' x'. semaphore_post sem s = Some (RTOS_OK, s')
      \<and> sched_inv s' (Q(unat (prio_bucket u) := Q (unat (prio_bucket u)) @ [a]))
      \<and> waiters_of s' (SemQ sem) xs
      \<and> tcbs s' a = Some u' \<and> state u' = TASK_STATE_READY \<and> block_reason u' = BLOCK_NONE
      \<and> block_wake_status u' = block_wake_status u
      \<and> semaphores s' sem = Some x' \<and> unat (sem_count x') = unat (sem_count x) + 1
      \<and> max_count x' = max_count x \<and> sem_count x' \<le> max_count x'
      \<and> icsr s' = 0x10000000 \<and> \<not> primask s'
    else semaphore_post sem s = Some (RTOS_ERR_FULL, s\<lparr>primask := False\<rparr>)"
proof (cases "sem_count x < max_count x")
  case room: True
  obtain s' v ht T rw where s': "semaphore_post sem s = Some (RTOS_OK, s'\<lparr>icsr := 0x10000000, primask := False\<rparr>)"
      "sched_inv s' (Q(unat (prio_bucket u) := Q (unat (prio_bucket u)) @ [a]))"
      "waiters_of s' (SemQ sem) xs" and v: "v = woken (u\<lparr>mutex_wait_next := rw\<rparr>)"
    and fr: "ready_frame (set_wptr (SemQ sem) ht (s\<lparr>tcbs := T(a \<mapsto> v),
           semaphores := (semaphores s)(sem \<mapsto> x\<lparr>sem_count := sem_count x + 1\<rparr>), primask := True\<rparr>)) s'"
    by (rule sem_post_refines [OF inv x room w t blk])
  obtain r where "tcbs s' a = Some (v\<lparr>next_ready := r\<rparr>)" using ready_frame_tcb [OF fr, of a] by auto
  then show ?thesis
    using s' v x room ready_frame_sel [OF fr] inc_below [OF room] by (simp add: set_wptr_SemQ)
next
  case False
  have "sem \<noteq> NULL" using w by (auto simp: waiters_of_def elim: wptr_SemQ)
  moreover have "sem_count x \<ge> max_count x" using False by simp
  ultimately have "semaphore_post sem s = Some (RTOS_ERR_FULL, s\<lparr>primask := False\<rparr>)"
    using x by (simp add: semaphore_post_def Let_def cpsid_def cpsie_def)
  then show ?thesis using False by simp
qed

text \<open>
  Posting without waiters or beyond the maximum. Without waiters a post only counts; at
  the maximum it returns \<open>RTOS_ERR_FULL\<close>. Both leave every task and ready ring as they are.
\<close>

theorem semaphore_post_counts:
  assumes "semaphores s sem = Some x" and "sem \<noteq> NULL" and "sem_wait_head x = NULL"
  shows "semaphore_post sem s =
    (if sem_count x < max_count x
     then Some (RTOS_OK, s\<lparr>semaphores := (semaphores s)(sem \<mapsto> x\<lparr>sem_count := sem_count x + 1\<rparr>),
                           icsr := 0x10000000, primask := False\<rparr>)
     else Some (RTOS_ERR_FULL, s\<lparr>primask := False\<rparr>))"
  using assms
  by (simp add: semaphore_post_def Let_def cpsid_def cpsie_def sem_wait_pop_head_def
      scheduler_mark_reschedule_def not_le not_less)

lemma waiters_of_current [simp]: "waiters_of (s\<lparr>current_tcb := c\<rparr>) w xs = waiters_of s w xs"
  by (simp add: waiters_of_def wptr_def access_defs split: wait_obj.split)

text \<open>
  C36. The woken waiter can lose its unit. The post does not hand the unit over: when the
  posting task waits again before the woken task is dispatched, it takes the unit itself,
  and the woken task, whose retry finds the count zero again, goes to the end of the wait
  list, behind tasks that arrived after it.
\<close>

theorem semaphore_woken_waiter_overtaken:
  assumes inv: "sched_inv s Q" and x: "semaphores s sem = Some x" and zero: "sem_count x = 0"
    and max: "max_count x \<noteq> 0" and w: "waiters_of s (SemQ sem) (a # xs)" and t: "tcbs s a = Some u"
    and blk: "\<not> runnable u" and ok: "block_wake_status u \<noteq> RTOS_ERR_TIMEOUT"
    and cur: "current_tcb s \<noteq> NULL"
  shows "\<exists>s1 s2 s3. semaphore_post sem s = Some (RTOS_OK, s1)
    \<and> semaphore_wait sem n s1 = Some (Some RTOS_OK, s2) \<and> waiters_of s2 (SemQ sem) xs
    \<and> semaphore_wait_resume sem n (s2\<lparr>current_tcb := a\<rparr>) = Some (None, s3)
    \<and> waiters_of s3 (SemQ sem) (xs @ [a])"
proof -
  have room: "sem_count x < max_count x" using zero max by (simp add: word_gt_0)
  have sem: "sem \<noteq> NULL" using w by (auto simp: waiters_of_def elim: wptr_SemQ)
  have a: "a \<noteq> NULL" "a \<notin> set xs" using sched_inv_nonnull [OF inv t] waiters_of_distinct [OF w] by auto
  obtain s' v ht T rw where post: "semaphore_post sem s = Some (RTOS_OK, s'\<lparr>icsr := 0x10000000, primask := False\<rparr>)"
    and inv': "sched_inv s' (Q(unat (prio_bucket u) := Q (unat (prio_bucket u)) @ [a]))"
    and w': "waiters_of s' (SemQ sem) xs" and v: "v = woken (u\<lparr>mutex_wait_next := rw\<rparr>)"
    and fr: "ready_frame (set_wptr (SemQ sem) ht (s\<lparr>tcbs := T(a \<mapsto> v),
           semaphores := (semaphores s)(sem \<mapsto> x\<lparr>sem_count := sem_count x + 1\<rparr>), primask := True\<rparr>)) s'"
    by (rule sem_post_refines [OF inv x room w t blk])
  obtain r where va: "tcbs s' a = Some (v\<lparr>next_ready := r\<rparr>)" using ready_frame_tcb [OF fr, of a] by auto
  let ?y = "x\<lparr>sem_count := 1, sem_wait_head := fst ht, sem_wait_tail := snd ht\<rparr>"
  have y: "semaphores s' sem = Some ?y" using ready_frame_sel [OF fr] zero by (simp add: set_wptr_SemQ)
  let ?s2 = "s'\<lparr>semaphores := (semaphores s')(sem \<mapsto> ?y\<lparr>sem_count := 0\<rparr>), icsr := 0x10000000, primask := False\<rparr>"
  have wait: "semaphore_wait sem n (s'\<lparr>icsr := 0x10000000, primask := False\<rparr>) = Some (Some RTOS_OK, ?s2)"
    using y sem cur ready_frame_sel [OF fr]
    by (simp add: semaphore_wait_def blocking_call_def semaphore_wait_attempt_def Let_def cpsid_def cpsie_def)
  have w2: "waiters_of ?s2 (SemQ sem) xs"
    using w' y sem by (auto simp: waiters_of_def wptr_def get_sem_def fetch_def)
  let ?s = "?s2\<lparr>current_tcb := a\<rparr>"
  have pre: "sched_inv ?s (Q(unat (prio_bucket u) := Q (unat (prio_bucket u)) @ [a]))" "current_tcb ?s = a"
    "tcbs ?s a = Some (v\<lparr>next_ready := r\<rparr>)" "runnable (v\<lparr>next_ready := r\<rparr>)"
    "semaphores ?s sem = Some (?y\<lparr>sem_count := 0\<rparr>)" "sem_count (?y\<lparr>sem_count := 0\<rparr>) = 0"
    "waiters_of ?s (SemQ sem) xs"
    using inv' va v w2 by (simp_all add: runnable_def)
  obtain s3 where "semaphore_wait sem n ?s = Some (None, s3)" and w3: "waiters_of s3 (SemQ sem) (xs @ [a])"
    using sem_wait_refines [OF pre a(2), of n] by metis
  then have "semaphore_wait_resume sem n ?s = Some (None, s3)"
    using va v ok a(1) by (simp add: semaphore_wait_resume_def semaphore_wait_def blocking_resume_def block_spin_def)
  with post wait w2 w3 show ?thesis by blast
qed

section \<open>The count stays in range\<close>

definition sem_bounded :: "kernel \<Rightarrow> bool" where
  "sem_bounded s \<longleftrightarrow> (\<forall>m x. semaphores s m = Some x \<longrightarrow> sem_count x \<le> max_count x \<and> max_count x \<noteq> 0)"

lemma sem_bounded_core: "sched_core s' = sched_core s \<Longrightarrow> sem_bounded s' = sem_bounded s"
  by (drule sched_core_sel(2)) (simp add: sem_bounded_def)

lemma sem_bounded_upd [simp]:
  "sem_bounded (s\<lparr>icsr := i\<rparr>) = sem_bounded s" "sem_bounded (s\<lparr>primask := p\<rparr>) = sem_bounded s"
  by (simp_all add: sem_bounded_def)

lemma upd_sem_bounded:
  assumes "upd_sem m f s = Some s'" and "sem_bounded s"
    and "\<And>x. semaphores s m = Some x \<Longrightarrow> sem_count (f x) \<le> max_count (f x) \<and> max_count (f x) \<noteq> 0"
  shows "sem_bounded s'"
  using assms by (auto simp: upd_sem_def modify_eq_Some_iff sem_bounded_def split: if_splits)

lemma upd_sem_links_bounded:
  "upd_sem m f s = Some s' \<Longrightarrow> sem_bounded s \<Longrightarrow> (\<And>x. sem_count (f x) = sem_count x) \<Longrightarrow>
   (\<And>x. max_count (f x) = max_count x) \<Longrightarrow> sem_bounded s'"
  by (erule upd_sem_bounded) (auto simp: sem_bounded_def)

lemma sem_list_bounded:
  "sem_wait_enqueue m t s = Some s' \<Longrightarrow> sem_bounded s \<Longrightarrow> sem_bounded s'"
  "sem_wait_pop_head m s = Some (w, s') \<Longrightarrow> sem_bounded s \<Longrightarrow> sem_bounded s'"
  "sem_wait_unlink m t s = Some s' \<Longrightarrow> sem_bounded s \<Longrightarrow> sem_bounded s'"
  subgoal
    by (auto simp: sem_wait_enqueue_def split: if_splits bind_splits
        dest!: upd_tcb_core [THEN sem_bounded_core] upd_sem_links_bounded)
  subgoal
    by (auto simp: sem_wait_pop_head_def Let_def split: if_splits bind_splits
        dest!: upd_tcb_core [THEN sem_bounded_core] upd_sem_links_bounded)
  subgoal
    by (auto simp: sem_wait_unlink_def split: if_splits bind_splits option.splits
        dest!: upd_tcb_core [THEN sem_bounded_core] upd_sem_links_bounded)
  done

lemma sem_bounded_map:
  "sem_bounded s \<Longrightarrow> sem_count y \<le> max_count y \<Longrightarrow> max_count y \<noteq> 0 \<Longrightarrow>
   sem_bounded (s\<lparr>semaphores := (semaphores s)(m \<mapsto> y)\<rparr>)"
  by (auto simp: sem_bounded_def)

lemma dec_below:
  assumes "0 < (a :: u32)"
  shows "unat (a - 1) + 1 = unat a" and "a - 1 \<le> a"
proof -
  have "a \<noteq> 0" using assms by auto
  then show u: "unat (a - 1) + 1 = unat a" using unat_minus_one [of a] by (simp add: unat_eq_zero Suc_pred unat_gt_0)
  then show "a - 1 \<le> a" by (simp add: word_le_nat_alt)
qed

lemma sem_attempt_bounded:
  assumes "semaphore_wait_attempt m s = Some (r, s')" and b: "sem_bounded s"
  shows "sem_bounded s'"
proof -
  have dec: "sem_bounded (s\<lparr>semaphores := (semaphores s)(m \<mapsto> x\<lparr>sem_count := sem_count x - 1\<rparr>)\<rparr>)"
    if "semaphores s m = Some x" "0 < sem_count x" for x
    using that b order_trans [OF dec_below(2) [OF that(2)]] by (intro sem_bounded_map) (auto simp: sem_bounded_def)
  show ?thesis
    using assms
    by (auto simp: semaphore_wait_attempt_def Let_def cpsid_def cpsie_def get_sem_def fetch_eq_Some_iff
        split: if_splits bind_splits dest: sem_list_bounded(1) intro: dec)
qed

lemma sem_post_bounded:
  assumes "semaphore_post m s = Some (r, s')" and b: "sem_bounded s"
  shows "sem_bounded s'"
proof -
  have inc: "sem_bounded (s\<lparr>semaphores := (semaphores s)(m \<mapsto> x\<lparr>sem_count := sem_count x + 1\<rparr>), primask := True\<rparr>)"
    if "semaphores s m = Some x" "sem_count x < max_count x" for x
    using that b inc_below(2) [OF that(2)] sem_bounded_map [OF b, of "x\<lparr>sem_count := sem_count x + 1\<rparr>" m]
    by (auto simp: sem_bounded_def)
  note pop = sem_list_bounded(2) [OF _ inc]
  show ?thesis
    using assms
    by (auto simp: semaphore_post_def Let_def cpsid_def cpsie_def get_sem_def fetch_eq_Some_iff not_le
        scheduler_mark_reschedule_def split: if_splits bind_splits
        dest!: upd_tcb_core [THEN sem_bounded_core] add_core [THEN sem_bounded_core]
        dest!: pop)
qed

lemma sem_timeout_bounded: "semaphore_wake_timeout t s = Some s' \<Longrightarrow> sem_bounded s \<Longrightarrow> sem_bounded s'"
  by (auto simp: semaphore_wake_timeout_def split: if_splits bind_splits dest: sem_list_bounded(3)
      dest!: upd_tcb_core [THEN sem_bounded_core] add_core [THEN sem_bounded_core])

lemma sem_detach_bounded: "semaphore_detach_waiter m t s = Some s' \<Longrightarrow> sem_bounded s \<Longrightarrow> sem_bounded s'"
  by (auto simp: semaphore_detach_waiter_def split: if_splits bind_splits dest: sem_list_bounded(3)
      dest!: upd_tcb_core [THEN sem_bounded_core])

text \<open>Everything that happens to a semaphore, as steps of a transition relation.\<close>

inductive sem_step :: "kernel \<Rightarrow> kernel \<Rightarrow> bool" where
  init: "semaphore_init m i k s = (r, s') \<Longrightarrow> sem_step s s'"
| init_binary: "semaphore_init_binary m b s = (r, s') \<Longrightarrow> sem_step s s'"
| wait: "semaphore_wait m n s = Some (r, s') \<Longrightarrow> sem_step s s'"
| resume: "semaphore_wait_resume m n s = Some (r, s') \<Longrightarrow> sem_step s s'"
| post: "semaphore_post m s = Some (r, s') \<Longrightarrow> sem_step s s'"
| timeout: "semaphore_wake_timeout t s = Some s' \<Longrightarrow> sem_step s s'"
| detach: "semaphore_detach_waiter m t s = Some s' \<Longrightarrow> sem_step s s'"

lemma block_enter_bounded: "block_enter n k x s = Some (r, s') \<Longrightarrow> sem_bounded s \<Longrightarrow> sem_bounded s'"
  by (auto simp: block_enter_def block_prepare_def block_commit_def Let_def cpsid_def cpsie_def
      scheduler_mark_reschedule_def split: if_splits bind_splits
      dest!: upd_tcb_core [THEN sem_bounded_core] remove_core [THEN sem_bounded_core])

lemma sem_wait_bounded: "semaphore_wait m n s = Some (r, s') \<Longrightarrow> sem_bounded s \<Longrightarrow> sem_bounded s'"
proof -
  assume w: "semaphore_wait m n s = Some (r, s')" and b: "sem_bounded s"
  obtain q s1 where a: "semaphore_wait_attempt m s = Some (q, s1)"
    and k: "(case q of Some st \<Rightarrow> Some (Some st, s1) | None \<Rightarrow> block_enter n BLOCK_SEMAPHORE m s1) = Some (r, s')"
    using w by (auto simp: semaphore_wait_def blocking_call_def split: bind_splits)
  have "sem_bounded s1" using a b by (rule sem_attempt_bounded)
  with k show ?thesis by (cases q) (auto intro: block_enter_bounded)
qed

lemma sem_step_bounded: "sem_step s s' \<Longrightarrow> sem_bounded s \<Longrightarrow> sem_bounded s'"
proof (induction rule: sem_step.induct)
  case (init m i k s r s')
  then show ?case by (auto simp: semaphore_init_def not_less split: if_splits intro!: sem_bounded_map)
next
  case (init_binary m b s r s')
  then show ?case
    by (auto simp: semaphore_init_binary_def semaphore_init_def split: if_splits intro!: sem_bounded_map)
next
  case (resume m n s r s')
  then have "s' = s \<or> semaphore_wait m n s = Some (r, s')"
    by (auto simp: semaphore_wait_resume_def semaphore_wait_def blocking_resume_def
        split: bind_splits option.splits if_splits)
  with resume.prems show ?case by (auto dest: sem_wait_bounded)
qed (auto dest: sem_wait_bounded sem_post_bounded sem_timeout_bounded sem_detach_bounded)

text \<open>
  C16. The count of a semaphore stays between zero and its maximum. Starting from a state where
  this holds of every semaphore, no sequence of initialisations, waits, retries after
  blocking, posts, timeouts and detachments leads to a count above the maximum or to a
  semaphore with maximum zero.
\<close>

theorem semaphore_count_bounded:
  assumes "sem_step\<^sup>*\<^sup>* s s'" and "sem_bounded s"
  shows "sem_bounded s'"
  using assms by (induction rule: rtranclp_induct) (auto dest: sem_step_bounded)

section \<open>Timeouts\<close>

text \<open>
  Timeout of a semaphore wait. \<open>semaphore_wake_timeout\<close> takes the task off the wait list,
  wherever it stands in it, and makes it ready at the end of its ring; when it runs, its wait
  returns \<open>RTOS_ERR_TIMEOUT\<close>. The count does not change.
\<close>

theorem semaphore_timeout_unlinks:
  assumes "sched_inv s Q" and "waiters_of s (SemQ sem) xs" and "tcbs s t = Some u"
    and "block_object u = sem" and "\<not> runnable u" and "semaphores s sem = Some x"
  shows "\<exists>s' x'. semaphore_wake_timeout t s = Some s'
    \<and> sched_inv s' (Q(unat (prio_bucket u) := Q (unat (prio_bucket u)) @ [t]))
    \<and> waiters_of s' (SemQ sem) (remove1 t xs)
    \<and> semaphores s' sem = Some x' \<and> sem_count x' = sem_count x
    \<and> semaphore_wait_resume sem timeout (s'\<lparr>current_tcb := t\<rparr>)
        = Some (Some RTOS_ERR_TIMEOUT, s'\<lparr>current_tcb := t\<rparr>)"
proof -
  obtain s' ht T r where s': "semaphore_wake_timeout t s = Some s'"
      "sched_inv s' (Q(unat (prio_bucket u) := Q (unat (prio_bucket u)) @ [t]))"
      "waiters_of s' (SemQ sem) (remove1 t xs)"
    and fr: "ready_frame (set_wptr (SemQ sem) ht (s\<lparr>tcbs := T(t \<mapsto> sem_timed_out (u\<lparr>mutex_wait_next := r\<rparr>))\<rparr>)) s'"
    using sem_q.wake_timeout_waiter [OF assms(1-5)] by metis
  have nn: "t \<noteq> NULL" using assms(1,3) by (rule sched_inv_nonnull)
  obtain r' where "tcbs s' t = Some ((sem_timed_out (u\<lparr>mutex_wait_next := r\<rparr>))\<lparr>next_ready := r'\<rparr>)"
    using ready_frame_tcb [OF fr, of t] by auto
  with s' ready_frame_sel [OF fr] assms(6) nn show ?thesis
    by (simp add: sem_timed_out_def set_wptr_def semaphore_wait_resume_def blocking_resume_def block_spin_def)
qed

section \<open>Sample states\<close>

text \<open>
  Task 16 (priority 200) runs, tasks 48 and 32 wait for the binary semaphore 256; the
  semaphore 512 has two units.
\<close>

definition sem_sample :: kernel where
  "sem_sample = blank_kernel\<lparr>
     tcbs := [16 \<mapsto> sample_task 200 TASK_STATE_RUNNING 16,
              32 \<mapsto> (sample_task 70 TASK_STATE_BLOCKED 0)\<lparr>block_object := 256\<rparr>,
              48 \<mapsto> (sample_task 100 TASK_STATE_BLOCKED 0)\<lparr>block_object := 256, mutex_wait_next := 32\<rparr>],
     semaphores := [256 \<mapsto> \<lparr>sem_count = 0, max_count = 1, sem_wait_head = 48, sem_wait_tail = 32\<rparr>,
                    512 \<mapsto> \<lparr>sem_count = 2, max_count = 5, sem_wait_head = 0, sem_wait_tail = 0\<rparr>],
     ready_head := [0, 0, 0, 0, 0, 0, 16, 0], current_tcb := 16\<rparr>"

definition sem_sample_queues :: ready_queues where
  "sem_sample_queues = (\<lambda>b. [])(6 := [16])"

lemma sem_sample_inv: "sched_inv sem_sample sem_sample_queues"
  by (auto simp: sched_inv_def placed_def queued_def runnable_def ready_rel_def sem_sample_def
      sem_sample_queues_def sample_defs ring_def ready_link_def split: if_splits dest!: less_8_cases)

lemma sem_sample_waiters: "waiters_of sem_sample (SemQ 256) [48, 32]"
  by (simp add: waiters_of_def wptr_def sem_sample_def wait_list_def wait_link_def)

lemma sem_sample_sel:
  "tcbs sem_sample 16 = Some (sample_task 200 TASK_STATE_RUNNING 16)"
  "tcbs sem_sample 32 = Some ((sample_task 70 TASK_STATE_BLOCKED 0)\<lparr>block_object := 256\<rparr>)"
  "tcbs sem_sample 48 = Some ((sample_task 100 TASK_STATE_BLOCKED 0)\<lparr>block_object := 256, mutex_wait_next := 32\<rparr>)"
  "semaphores sem_sample 256 = Some \<lparr>sem_count = 0, max_count = 1, sem_wait_head = 48, sem_wait_tail = 32\<rparr>"
  "semaphores sem_sample 512 = Some \<lparr>sem_count = 2, max_count = 5, sem_wait_head = 0, sem_wait_tail = 0\<rparr>"
  "current_tcb sem_sample = 16" "s_rtos_tick_count sem_sample = 0"
  by (simp_all add: sem_sample_def blank_kernel_def)

theorem semaphore_wait_takes_witness:
  "\<exists>s'. semaphore_wait 512 0 sem_sample = Some (Some RTOS_OK, s')
     \<and> semaphores s' 512 = Some \<lparr>sem_count = 1, max_count = 5, sem_wait_head = 0, sem_wait_tail = 0\<rparr>"
  using semaphore_wait_takes [OF sem_sample_sel(5), of 0]
  by (auto simp: sem_sample_sel word_unat_eq_iff)

theorem semaphore_wait_blocks_witness:
  "\<exists>s' t'. semaphore_wait 256 7 sem_sample = Some (None, s')
     \<and> waiters_of s' (SemQ 256) [48, 32, 16] \<and> tcbs s' 16 = Some t' \<and> wake_time t' = 7"
  using semaphore_wait_blocks [OF sem_sample_inv sem_sample_sel(6,1) _ sem_sample_sel(4) _ sem_sample_waiters, of 7]
  by (auto simp: wake_tick_def sem_sample_sel)

theorem semaphore_post_wakes_witness:
  "\<exists>s' x'. semaphore_post 256 sem_sample = Some (RTOS_OK, s')
     \<and> sched_inv s' (sem_sample_queues(3 := [48])) \<and> waiters_of s' (SemQ 256) [32]
     \<and> semaphores s' 256 = Some x' \<and> unat (sem_count x') = 1"
proof -
  have q: "sem_sample_queues 3 = []" by (simp add: sem_sample_queues_def)
  show ?thesis
    using semaphore_post_wakes [OF sem_sample_inv sem_sample_sel(4) sem_sample_waiters sem_sample_sel(3)]
    by (auto simp: runnable_def prio_bucket_of_eval q)
qed

theorem semaphore_post_counts_witness:
  "\<exists>s'. semaphore_post 512 sem_sample = Some (RTOS_OK, s')
     \<and> semaphores s' 512 = Some \<lparr>sem_count = 3, max_count = 5, sem_wait_head = 0, sem_wait_tail = 0\<rparr>"
  using semaphore_post_counts [OF sem_sample_sel(5)] by simp

theorem semaphore_woken_waiter_overtaken_witness:
  "\<exists>s1 s2 s3. semaphore_post 256 sem_sample = Some (RTOS_OK, s1)
    \<and> semaphore_wait 256 0 s1 = Some (Some RTOS_OK, s2)
    \<and> semaphore_wait_resume 256 0 (s2\<lparr>current_tcb := 48\<rparr>) = Some (None, s3)
    \<and> waiters_of s3 (SemQ 256) [32, 48]"
  using semaphore_woken_waiter_overtaken [OF sem_sample_inv sem_sample_sel(4) _ _ sem_sample_waiters
      sem_sample_sel(3), of 0]
  by (auto simp: runnable_def sem_sample_sel)

theorem semaphore_count_bounded_witness:
  "sem_bounded (snd (semaphore_init 1024 2 3 blank_kernel))"
proof (rule semaphore_count_bounded)
  show "sem_step\<^sup>*\<^sup>* blank_kernel (snd (semaphore_init 1024 2 3 blank_kernel))"
    by (rule r_into_rtranclp, rule sem_step.init [of 1024 2 3 _ RTOS_OK]) (simp add: semaphore_init_def)
  show "sem_bounded blank_kernel" by (simp add: sem_bounded_def blank_kernel_def)
qed

theorem semaphore_timeout_unlinks_witness:
  "\<exists>s'. semaphore_wake_timeout 32 sem_sample = Some s' \<and> waiters_of s' (SemQ 256) [48]
     \<and> semaphore_wait_resume 256 0 (s'\<lparr>current_tcb := 32\<rparr>)
         = Some (Some RTOS_ERR_TIMEOUT, s'\<lparr>current_tcb := 32\<rparr>)"
  using semaphore_timeout_unlinks [OF sem_sample_inv sem_sample_waiters sem_sample_sel(2) _ _ sem_sample_sel(4), of 0]
  by (auto simp: runnable_def)

end
