(* ===== verification/Rtos_Msgqueue.thy ===== *)
theory Rtos_Msgqueue
  imports Rtos_Block
begin

text \<open>
  The message queue of \<^verbatim>\<open>src/ipc/msgqueue.c\<close>: a ring buffer of fixed-size messages in byte
  memory, with one wait list for senders and one for receivers. The abstraction \<open>queue_rep\<close>
  reads the buffer as a list of messages, each a list of bytes; a send appends, a receive
  takes the first.
\<close>

section \<open>Operations\<close>

text \<open>
  The routines of \<^verbatim>\<open>msgqueue.c\<close> receive a wait list as pointers to its head and tail fields;
  here it is named by its \<open>wait_obj\<close>.
\<close>

definition queue_enqueue :: "wait_obj \<Rightarrow> addr \<Rightarrow> kernel \<Rightarrow> kernel option" where
  "queue_enqueue w t s = do {
     ht \<leftarrow> wptr s w;
     (ht, T) \<leftarrow> tcb_enqueue_tail ht t (tcbs s);
     Some (set_wptr w ht (s\<lparr>tcbs := T\<rparr>))
   }"

definition queue_unlink :: "wait_obj \<Rightarrow> addr \<Rightarrow> kernel \<Rightarrow> kernel option" where
  "queue_unlink w t s = do {
     ht \<leftarrow> wptr s w;
     (ht, T) \<leftarrow> tcb_unlink ht t (tcbs s);
     Some (set_wptr w ht (s\<lparr>tcbs := T\<rparr>))
   }"

definition queue_pop_head :: "wait_obj \<Rightarrow> kernel \<Rightarrow> (addr \<times> kernel) option" where
  "queue_pop_head w s = do {
     ht \<leftarrow> wptr s w;
     (t, ht, T) \<leftarrow> tcb_pop_head ht (tcbs s);
     Some (t, set_wptr w ht (s\<lparr>tcbs := T\<rparr>))
   }"

definition wake_head :: "wait_obj \<Rightarrow> kernel \<Rightarrow> kernel option" where
  "wake_head w s = do {
     (t, s) \<leftarrow> queue_pop_head w s;
     if t \<noteq> NULL then do {
       s \<leftarrow> upd_tcb t (\<lambda>t. t\<lparr>block_reason := BLOCK_NONE, block_object := NULL,
              state := TASK_STATE_READY\<rparr>) s;
       (_, s) \<leftarrow> scheduler_add_task t s;
       Some (scheduler_mark_reschedule s)
     } else Some s
   }"

definition msgqueue_wake_timeout :: "addr \<Rightarrow> kernel \<Rightarrow> kernel option" where
  "msgqueue_wake_timeout t s =
     (if t = NULL then Some s
      else do {
        u \<leftarrow> get_tcb s t;
        let q = block_object u;
        s \<leftarrow> (if q \<noteq> NULL then
               if block_reason u = BLOCK_MSG_SEND then queue_unlink (SendQ q) t s
               else if block_reason u = BLOCK_MSG_RECV then queue_unlink (RecvQ q) t s
               else Some s
             else Some s);
        s \<leftarrow> upd_tcb t (\<lambda>u. u\<lparr>block_reason := BLOCK_NONE, block_object := NULL,
               block_wake_status := RTOS_ERR_TIMEOUT, state := TASK_STATE_READY\<rparr>) s;
        (_, s) \<leftarrow> scheduler_add_task t s;
        Some s
      })"

definition msgqueue_detach_waiter :: "addr \<Rightarrow> addr \<Rightarrow> kernel \<Rightarrow> kernel option" where
  "msgqueue_detach_waiter q t s =
     (if q = NULL \<or> t = NULL then Some s
      else do {
        u \<leftarrow> get_tcb s t;
        s \<leftarrow> (if block_reason u = BLOCK_MSG_SEND then queue_unlink (SendQ q) t s
             else if block_reason u = BLOCK_MSG_RECV then queue_unlink (RecvQ q) t s
             else Some s);
        upd_tcb t (\<lambda>u. u\<lparr>mutex_wait_next := NULL\<rparr>) s
      })"

definition msg_queue_init :: "addr \<Rightarrow> addr \<Rightarrow> u32 \<Rightarrow> u32 \<Rightarrow> kernel \<Rightarrow> rtos_status_t \<times> kernel" where
  "msg_queue_init q storage sz dep s =
     (if q = NULL \<or> storage = NULL \<or> sz = 0 \<or> dep = 0 then (RTOS_ERR_PARAM, s)
      else (RTOS_OK, s\<lparr>msg_queues := (msg_queues s)(q \<mapsto>
              \<lparr>buffer = storage, msg_size = sz, depth = dep, q_head = 0, q_tail = 0, q_count = 0,
               send_wait_head = NULL, send_wait_tail = NULL,
               recv_wait_head = NULL, recv_wait_tail = NULL\<rparr>)\<rparr>))"

text \<open>
  \<^verbatim>\<open>memcpy\<close> is undefined on overlapping regions: \<open>None\<close>. The byte at \<open>a\<close> lies in the region of
  \<open>n\<close> bytes at \<open>p\<close> when \<open>a - p < n\<close> in 32-bit arithmetic.
\<close>

definition regions_overlap :: "addr \<Rightarrow> addr \<Rightarrow> u32 \<Rightarrow> bool" where
  "regions_overlap p q n \<longleftrightarrow> n \<noteq> 0 \<and> (q - p < n \<or> p - q < n)"

definition memcpy :: "addr \<Rightarrow> addr \<Rightarrow> u32 \<Rightarrow> (addr \<Rightarrow> u8) \<Rightarrow> (addr \<Rightarrow> u8) option" where
  "memcpy dst src n R =
     (if regions_overlap dst src n then None
      else Some (\<lambda>a. if a - dst < n then R (src + (a - dst)) else R a))"

text \<open>One pass through the loop of \<^verbatim>\<open>msg_queue_send\<close>, up to the call of \<open>rtos_block_current\<close>.\<close>

definition msg_queue_send_attempt :: "addr \<Rightarrow> addr \<Rightarrow> attempt" where
  "msg_queue_send_attempt q msg s =
     (if q = NULL \<or> msg = NULL then Some (Some RTOS_ERR_PARAM, s)
      else let self = current_tcb s in
      if self = NULL then Some (Some RTOS_ERR_STATE, s)
      else do {
        let s = cpsid s;
        x \<leftarrow> get_queue s q;
        if q_count x < depth x then do {
          let slot = buffer x + q_tail x * msg_size x;
          R \<leftarrow> memcpy slot msg (msg_size x) (ram s);
          let s = s\<lparr>ram := R\<rparr>;
          s \<leftarrow> upd_queue q (\<lambda>x. x\<lparr>q_tail := (q_tail x + 1) mod depth x, q_count := q_count x + 1\<rparr>) s;
          s \<leftarrow> wake_head (RecvQ q) s;
          Some (Some RTOS_OK, cpsie s)
        } else do {
          s \<leftarrow> queue_enqueue (SendQ q) self s;
          Some (None, cpsie s)
        }
      })"

definition msg_queue_send :: "addr \<Rightarrow> addr \<Rightarrow> u32 \<Rightarrow> attempt" where
  "msg_queue_send q msg timeout_ticks =
     blocking_call (msg_queue_send_attempt q msg) timeout_ticks BLOCK_MSG_SEND q"

definition msg_queue_send_resume :: "addr \<Rightarrow> addr \<Rightarrow> u32 \<Rightarrow> attempt" where
  "msg_queue_send_resume q msg timeout_ticks =
     blocking_resume (msg_queue_send_attempt q msg) timeout_ticks BLOCK_MSG_SEND q"

definition msg_queue_recv_attempt :: "addr \<Rightarrow> addr \<Rightarrow> attempt" where
  "msg_queue_recv_attempt q out s =
     (if q = NULL \<or> out = NULL then Some (Some RTOS_ERR_PARAM, s)
      else let self = current_tcb s in
      if self = NULL then Some (Some RTOS_ERR_STATE, s)
      else do {
        let s = cpsid s;
        x \<leftarrow> get_queue s q;
        if q_count x > 0 then do {
          let slot = buffer x + q_head x * msg_size x;
          R \<leftarrow> memcpy out slot (msg_size x) (ram s);
          let s = s\<lparr>ram := R\<rparr>;
          s \<leftarrow> upd_queue q (\<lambda>x. x\<lparr>q_head := (q_head x + 1) mod depth x, q_count := q_count x - 1\<rparr>) s;
          s \<leftarrow> wake_head (SendQ q) s;
          Some (Some RTOS_OK, cpsie s)
        } else do {
          s \<leftarrow> queue_enqueue (RecvQ q) self s;
          Some (None, cpsie s)
        }
      })"

definition msg_queue_recv :: "addr \<Rightarrow> addr \<Rightarrow> u32 \<Rightarrow> attempt" where
  "msg_queue_recv q out timeout_ticks =
     blocking_call (msg_queue_recv_attempt q out) timeout_ticks BLOCK_MSG_RECV q"

definition msg_queue_recv_resume :: "addr \<Rightarrow> addr \<Rightarrow> u32 \<Rightarrow> attempt" where
  "msg_queue_recv_resume q out timeout_ticks =
     blocking_resume (msg_queue_recv_attempt q out) timeout_ticks BLOCK_MSG_RECV q"

section \<open>The two wait lists of a queue\<close>

definition queue_timed_out :: "TCB_t \<Rightarrow> TCB_t" where
  "queue_timed_out u = u\<lparr>block_reason := BLOCK_NONE, block_object := NULL,
     block_wake_status := RTOS_ERR_TIMEOUT, state := TASK_STATE_READY\<rparr>"

definition queue_detached :: "TCB_t \<Rightarrow> TCB_t" where
  "queue_detached u = u\<lparr>mutex_wait_next := NULL\<rparr>"

lemma queue_unlink_eq:
  "wptr s w = Some ht \<Longrightarrow> queue_unlink w t s =
     map_option (\<lambda>(ht', T). set_wptr w ht' (s\<lparr>tcbs := T\<rparr>)) (tcb_unlink ht t (tcbs s))"
  by (cases "tcb_unlink ht t (tcbs s)") (simp_all add: queue_unlink_def case_prod_unfold)

lemma queue_enqueue_eq:
  "wptr s w = Some ht \<Longrightarrow> queue_enqueue w t s =
     map_option (\<lambda>(ht', T). set_wptr w ht' (s\<lparr>tcbs := T\<rparr>)) (tcb_enqueue_tail ht t (tcbs s))"
  by (cases "tcb_enqueue_tail ht t (tcbs s)") (simp_all add: queue_enqueue_def case_prod_unfold)

lemma queue_pop_eq:
  "wptr s w = Some ht \<Longrightarrow> queue_pop_head w s =
     map_option (\<lambda>(t, ht', T). (t, set_wptr w ht' (s\<lparr>tcbs := T\<rparr>))) (tcb_pop_head ht (tcbs s))"
  by (cases "tcb_pop_head ht (tcbs s)") (simp_all add: queue_pop_head_def case_prod_unfold)

lemma wptr_queue_nonnull:
  "wptr s (SendQ q) = Some ht \<Longrightarrow> q \<noteq> NULL" "wptr s (RecvQ q) = Some ht \<Longrightarrow> q \<noteq> NULL"
  by (auto simp: wptr_def get_queue_def fetch_def split: if_splits)

interpretation send_q: fifo_wait_object "SendQ q" "queue_unlink (SendQ q)" msgqueue_wake_timeout
    "msgqueue_detach_waiter q" queue_timed_out queue_detached
    "\<lambda>u. block_object u = q \<and> block_reason u = BLOCK_MSG_SEND"
    "queue_enqueue (SendQ q)" "queue_pop_head (SendQ q)"
  for q
proof (unfold_locales, goal_cases)
  case (2 s t u)
  then show ?case
    by (auto simp: msgqueue_wake_timeout_def queue_timed_out_def [abs_def] Let_def dest: wptr_queue_nonnull)
next
  case (3 s t u)
  then show ?case
    by (auto simp: msgqueue_detach_waiter_def queue_detached_def [abs_def] dest: wptr_queue_nonnull)
qed (simp_all add: queue_timed_out_def queue_detached_def queue_unlink_eq queue_enqueue_eq queue_pop_eq)

interpretation recv_q: fifo_wait_object "RecvQ q" "queue_unlink (RecvQ q)" msgqueue_wake_timeout
    "msgqueue_detach_waiter q" queue_timed_out queue_detached
    "\<lambda>u. block_object u = q \<and> block_reason u = BLOCK_MSG_RECV"
    "queue_enqueue (RecvQ q)" "queue_pop_head (RecvQ q)"
  for q
proof (unfold_locales, goal_cases)
  case (2 s t u)
  then show ?case
    by (auto simp: msgqueue_wake_timeout_def queue_timed_out_def [abs_def] Let_def dest: wptr_queue_nonnull)
next
  case (3 s t u)
  then show ?case
    by (auto simp: msgqueue_detach_waiter_def queue_detached_def [abs_def] dest: wptr_queue_nonnull)
qed (simp_all add: queue_timed_out_def queue_detached_def queue_unlink_eq queue_enqueue_eq queue_pop_eq)

section \<open>Bytes and regions\<close>

definition read_bytes :: "(addr \<Rightarrow> u8) \<Rightarrow> addr \<Rightarrow> nat \<Rightarrow> u8 list" where
  "read_bytes R a n = map (\<lambda>i. R (a + of_nat i)) [0..<n]"

lemma unat_of_nat_u32: "n < 2 ^ 32 \<Longrightarrow> unat (of_nat n :: u32) = n"
  by (simp add: unat_of_nat)

lemma unat_less_2p32: "unat (a :: u32) < 2 ^ 32"
  using unsigned_less [of a, where 'a = nat] by simp

lemma memcpy_dst:
  assumes "memcpy d p n R = Some R'"
  shows "read_bytes R' d (unat n) = read_bytes R p (unat n)"
proof -
  have "of_nat i < n" if "i < unat n" for i
    using that unat_less_2p32 [of n] by (simp add: word_less_nat_alt unat_of_nat_u32)
  then show ?thesis using assms by (auto simp: memcpy_def read_bytes_def split: if_splits)
qed

lemma overlap_sym: "regions_overlap p q n = regions_overlap q p n"
  by (auto simp: regions_overlap_def)

lemma disjoint_outside:
  assumes "\<not> regions_overlap d p n" and "i < unat n"
  shows "\<not> (p + of_nat i) - d < n"
proof -
  have n0: "n \<noteq> 0" using assms(2) by auto
  then have e: "unat n \<le> unat (p - d)" and f: "unat n \<le> unat (d - p)"
    using assms(1) by (auto simp: regions_overlap_def word_less_nat_alt not_less)
  have "unat (p - d) + unat (d - p) = 2 ^ 32 \<or> unat (p - d) = 0"
    using unat_less_2p32 [of p] unat_less_2p32 [of d] by (auto simp: unat_sub_if_size word_size)
  then have "unat (p - d) + i < 2 ^ 32" using e f assms(2) by auto
  moreover have "unat (of_nat i :: u32) = i" using assms(2) unat_less_2p32 [of n] by (simp add: unat_of_nat_u32)
  ultimately have "unat ((p - d) + of_nat i) = unat (p - d) + i"
    unfolding unat_word_ariths by (simp add: mod_less)
  moreover have "(p - d) + of_nat i = p + of_nat i - d" by simp
  ultimately have "unat (p + of_nat i - d) = unat (p - d) + i" by metis
  then show ?thesis using e by (simp add: word_less_nat_alt)
qed

lemma memcpy_frame:
  assumes "memcpy d q n R = Some R'" and "\<not> regions_overlap d p n"
  shows "read_bytes R' p (unat n) = read_bytes R p (unat n)"
  using assms disjoint_outside [OF assms(2)]
  by (auto simp: memcpy_def read_bytes_def split: if_splits)

section \<open>The ring buffer as a list of messages\<close>

definition slot_addr :: "msg_queue_t \<Rightarrow> nat \<Rightarrow> addr" where
  "slot_addr x i = buffer x + of_nat i * msg_size x"

definition slot_bytes :: "(addr \<Rightarrow> u8) \<Rightarrow> msg_queue_t \<Rightarrow> nat \<Rightarrow> u8 list" where
  "slot_bytes R x i = read_bytes R (slot_addr x i) (unat (msg_size x))"

text \<open>The storage a caller must provide: \<open>depth\<close> slots that fit into the address space.\<close>

definition queue_geom :: "msg_queue_t \<Rightarrow> bool" where
  "queue_geom x \<longleftrightarrow> msg_size x \<noteq> 0 \<and> depth x \<noteq> 0 \<and> unat (depth x) * unat (msg_size x) \<le> 2 ^ 32"

definition queue_holds :: "(addr \<Rightarrow> u8) \<Rightarrow> msg_queue_t \<Rightarrow> u8 list list \<Rightarrow> bool" where
  "queue_holds R x msgs \<longleftrightarrow> queue_geom x \<and> unat (q_count x) = length msgs
     \<and> length msgs \<le> unat (depth x) \<and> unat (q_head x) < unat (depth x)
     \<and> unat (q_tail x) = (unat (q_head x) + length msgs) mod unat (depth x)
     \<and> (\<forall>i < length msgs. msgs ! i = slot_bytes R x ((unat (q_head x) + i) mod unat (depth x)))"

definition queue_rep :: "kernel \<Rightarrow> addr \<Rightarrow> u8 list list \<Rightarrow> bool" where
  "queue_rep s q msgs \<longleftrightarrow> q \<noteq> NULL \<and> (\<exists>x. msg_queues s q = Some x \<and> queue_holds (ram s) x msgs)"

text \<open>A user buffer that touches no slot of the queue.\<close>

definition clear_of :: "msg_queue_t \<Rightarrow> addr \<Rightarrow> bool" where
  "clear_of x a \<longleftrightarrow> (\<forall>i < unat (depth x). \<not> regions_overlap (slot_addr x i) a (msg_size x))"

lemma unat_slot_offset:
  assumes "queue_geom x" and "i < unat (depth x)"
  shows "unat (of_nat i * msg_size x) = i * unat (msg_size x)"
proof -
  have "i * unat (msg_size x) + unat (msg_size x) \<le> unat (depth x) * unat (msg_size x)"
    using assms(2) by (metis Suc_leI add.commute mult_Suc mult_le_mono1)
  moreover have "0 < unat (msg_size x)" using assms(1) by (simp add: queue_geom_def unat_gt_0)
  ultimately have "i * unat (msg_size x) < 2 ^ 32" using assms(1) by (simp add: queue_geom_def)
  moreover have "unat (of_nat i :: u32) = i"
    using assms(2) unat_less_2p32 [of "depth x"] by (simp add: unat_of_nat_u32)
  ultimately show ?thesis by (simp add: unat_word_ariths)
qed

lemma slots_disjoint_less:
  assumes g: "queue_geom x" and "i < j" and "j < unat (depth x)"
  shows "\<not> regions_overlap (slot_addr x i) (slot_addr x j) (msg_size x)"
proof -
  let ?m = "unat (msg_size x)" and ?a = "of_nat i * msg_size x" and ?b = "of_nat j * msg_size x"
  have a: "unat ?a = i * ?m" and b: "unat ?b = j * ?m"
    using assms unat_slot_offset [OF g] by auto
  have le: "i * ?m + ?m \<le> j * ?m" using assms(2) by (metis Suc_leI add.commute mult_Suc mult_le_mono1)
  have top: "j * ?m + ?m \<le> 2 ^ 32"
    using assms by (metis (no_types, lifting) Suc_leI add.commute le_trans mult_Suc mult_le_mono1 queue_geom_def)
  have m: "0 < ?m" using g by (simp add: queue_geom_def unat_gt_0)
  have ba: "unat (?b - ?a) = j * ?m - i * ?m" and ab: "unat (?a - ?b) = 2 ^ 32 + i * ?m - j * ?m"
    using le m assms(2) unfolding unat_sub_if_size a b by (auto simp: word_size)
  have "\<not> unat (?b - ?a) < ?m" "\<not> unat (?a - ?b) < ?m" using ba ab le top by linarith+
  then show ?thesis by (simp add: regions_overlap_def slot_addr_def word_less_nat_alt)
qed

lemma slots_disjoint:
  "queue_geom x \<Longrightarrow> i \<noteq> j \<Longrightarrow> i < unat (depth x) \<Longrightarrow> j < unat (depth x) \<Longrightarrow>
   \<not> regions_overlap (slot_addr x i) (slot_addr x j) (msg_size x)"
  using slots_disjoint_less [of x i j] slots_disjoint_less [of x j i] by (metis linorder_neqE_nat overlap_sym)

text \<open>The index arithmetic of the ring, in 32-bit words.\<close>

lemma inc_mod:
  assumes "unat i < unat (d :: u32)"
  shows "unat ((i + 1) mod d) = Suc (unat i) mod unat d"
proof -
  have "unat (i + 1) = Suc (unat i)" using assms unat_less_2p32 [of d] by (simp add: unat_word_ariths)
  then show ?thesis by (simp add: unat_mod)
qed

lemma mod_add_cancel:
  assumes eq: "(h + i) mod d = (h + j) mod (d :: nat)" and "i < d" and "j < d"
  shows "i = j"
proof -
  have "\<not> a < b" if "(h + a) mod d = (h + b) mod d" "b < d" for a b
  proof
    assume "a < b"
    then have "d dvd (h + b) - (h + a)" using that(1) by (metis add_le_cancel_left less_imp_le mod_eq_dvd_iff_nat)
    then show False using \<open>a < b\<close> that(2) by (auto dest: dvd_imp_le)
  qed
  from this [OF eq assms(3)] this [OF eq [symmetric] assms(2)] show ?thesis by simp
qed

text \<open>Storing a message behind the last one.\<close>

lemma queue_holds_push:
  assumes h: "queue_holds R x msgs" and room: "length msgs < unat (depth x)"
    and cp: "memcpy (buffer x + q_tail x * msg_size x) msg (msg_size x) R = Some R'"
  shows "queue_holds R' (x\<lparr>q_tail := (q_tail x + 1) mod depth x, q_count := q_count x + 1\<rparr>)
           (msgs @ [read_bytes R msg (unat (msg_size x))])"
proof -
  let ?d = "unat (depth x)" and ?h = "unat (q_head x)" and ?n = "length msgs"
  have g: "queue_geom x" and c: "unat (q_count x) = ?n" and hd: "?h < ?d" and t: "unat (q_tail x) = (?h + ?n) mod ?d"
    and ms: "\<And>i. i < ?n \<Longrightarrow> msgs ! i = slot_bytes R x ((?h + i) mod ?d)"
    using h by (auto simp: queue_holds_def)
  have slot: "buffer x + q_tail x * msg_size x = slot_addr x ((?h + ?n) mod ?d)"
    unfolding slot_addr_def t [symmetric] by simp
  have td: "unat (q_tail x) < ?d" using t hd by simp
  have "slot_bytes R' x ((?h + i) mod ?d) = slot_bytes R x ((?h + i) mod ?d)" if i: "i < ?n" for i
  proof -
    have "(?h + ?n) mod ?d \<noteq> (?h + i) mod ?d" using mod_add_cancel [of ?h ?n ?d i] i room by auto
    then have "\<not> regions_overlap (slot_addr x ((?h + ?n) mod ?d)) (slot_addr x ((?h + i) mod ?d)) (msg_size x)"
      using slots_disjoint [OF g] hd by simp
    then show ?thesis using memcpy_frame [OF cp] unfolding slot slot_bytes_def by blast
  qed
  moreover have "slot_bytes R' x ((?h + ?n) mod ?d) = read_bytes R msg (unat (msg_size x))"
    using memcpy_dst [OF cp] unfolding slot slot_bytes_def .
  ultimately have "\<forall>i < Suc ?n. (msgs @ [read_bytes R msg (unat (msg_size x))]) ! i = slot_bytes R' x ((?h + i) mod ?d)"
    using ms by (auto simp: nth_append less_Suc_eq)
  moreover have "unat (q_count x + 1) = Suc ?n"
    using c room unat_less_2p32 [of "depth x"] by (simp add: unat_word_ariths)
  moreover have "unat ((q_tail x + 1) mod depth x) = (?h + Suc ?n) mod ?d"
    using inc_mod [OF td] t by (simp add: mod_Suc_eq)
  ultimately show ?thesis
    using g hd room by (simp add: queue_holds_def queue_geom_def slot_bytes_def slot_addr_def)
qed

text \<open>Copying the first message out.\<close>

lemma queue_holds_pop:
  assumes h: "queue_holds R x (m # msgs)" and cl: "clear_of x out"
    and cp: "memcpy out (buffer x + q_head x * msg_size x) (msg_size x) R = Some R'"
  shows "queue_holds R' (x\<lparr>q_head := (q_head x + 1) mod depth x, q_count := q_count x - 1\<rparr>) msgs"
    and "read_bytes R' out (unat (msg_size x)) = m"
proof -
  let ?d = "unat (depth x)" and ?h = "unat (q_head x)" and ?n = "length msgs"
  have g: "queue_geom x" and c: "unat (q_count x) = Suc ?n" and hd: "?h < ?d" and len: "Suc ?n \<le> ?d"
    and t: "unat (q_tail x) = (?h + Suc ?n) mod ?d"
    and ms: "\<And>i. i < Suc ?n \<Longrightarrow> (m # msgs) ! i = slot_bytes R x ((?h + i) mod ?d)"
    using h by (auto simp: queue_holds_def)
  have slot: "buffer x + q_head x * msg_size x = slot_addr x ?h" by (simp add: slot_addr_def)
  show "read_bytes R' out (unat (msg_size x)) = m"
    using memcpy_dst [OF cp] ms [of 0] hd unfolding slot slot_bytes_def by simp
  have same: "slot_bytes R' x i = slot_bytes R x i" if "i < ?d" for i
    using memcpy_frame [OF cp] cl that unfolding clear_of_def slot_bytes_def by (metis overlap_sym)
  have h': "unat ((q_head x + 1) mod depth x) = Suc ?h mod ?d" using inc_mod [OF hd] .
  have "msgs ! i = slot_bytes R' x ((Suc ?h mod ?d + i) mod ?d)" if "i < ?n" for i
    using ms [of "Suc i"] that same [of "(?h + Suc i) mod ?d"] hd by (simp add: mod_add_left_eq)
  moreover have "unat (q_count x - 1) = ?n"
  proof -
    have "q_count x \<noteq> 0" using c by auto
    then show ?thesis using c unat_minus_one [of "q_count x"] by simp
  qed
  moreover have "unat (q_tail x) = (Suc ?h mod ?d + ?n) mod ?d" using t by (simp add: mod_add_left_eq)
  moreover have "Suc ?h mod ?d < ?d" using hd by simp
  ultimately show "queue_holds R' (x\<lparr>q_head := (q_head x + 1) mod depth x, q_count := q_count x - 1\<rparr>) msgs"
    using g len by (simp add: queue_holds_def h' queue_geom_def slot_bytes_def slot_addr_def)
qed

section \<open>Waking the other side\<close>

lemma wake_head_woken:
  "wake_head w s = do {
     (t, s) \<leftarrow> queue_pop_head w s;
     if t \<noteq> NULL then do {
       s \<leftarrow> upd_tcb t woken s; (_, s) \<leftarrow> scheduler_add_task t s; Some (scheduler_mark_reschedule s)
     } else Some s }"
  unfolding wake_head_def woken_def [abs_def] ..

lemma queue_holds_wptr:
  assumes "queue_holds R x msgs" and "msg_queues s q = Some x" and "q \<noteq> NULL" and "ram s' = R"
    and "w = SendQ q \<or> w = RecvQ q" and "msg_queues s' = msg_queues (set_wptr w ht s)"
  shows "queue_rep s' q msgs"
  using assms
  by (auto simp: queue_rep_def queue_holds_def queue_geom_def slot_bytes_def slot_addr_def set_wptr_def)

lemma waiters_of_queue_upd:
  assumes "waiters_of s w xs" and "msg_queues s q = Some x"
    and "send_wait_head y = send_wait_head x" "send_wait_tail y = send_wait_tail x"
    and "recv_wait_head y = recv_wait_head x" "recv_wait_tail y = recv_wait_tail x"
  shows "waiters_of (s\<lparr>msg_queues := (msg_queues s)(q \<mapsto> y)\<rparr>) w xs"
  using assms by (auto simp: waiters_of_def wptr_def access_defs fetch_def split: wait_obj.splits if_splits)

section \<open>Sending and receiving\<close>

text \<open>What a call must keep of a queue: the storage and the sizes it was initialised with.\<close>

definition same_geom :: "msg_queue_t \<Rightarrow> msg_queue_t \<Rightarrow> bool" where
  "same_geom x y \<longleftrightarrow> buffer y = buffer x \<and> msg_size y = msg_size x \<and> depth y = depth x"

lemma same_geom_clear: "same_geom x y \<Longrightarrow> clear_of y a = clear_of x a"
  by (simp add: same_geom_def clear_of_def slot_addr_def)

lemma send_refines:
  assumes inv: "sched_inv s Q" and rep: "queue_rep s q msgs" and x: "msg_queues s q = Some x"
    and room: "length msgs < unat (depth x)" and cur: "current_tcb s \<noteq> NULL" and msg: "msg \<noteq> NULL"
    and cl: "clear_of x msg" and w: "waiters_of s (RecvQ q) xs" and blk: "blocked_all s xs"
  obtains s' x' ht T i R' where "msg_queue_send q msg timeout s = Some (Some RTOS_OK, s'\<lparr>primask := False\<rparr>)"
    and "queue_rep s' q (msgs @ [read_bytes (ram s) msg (unat (msg_size x))])"
    and "sched_inv s' (wake_queues s xs Q)" and "waiters_of s' (RecvQ q) (tl xs)"
    and "memcpy (slot_addr x (unat (q_tail x))) msg (msg_size x) (ram s) = Some R'"
    and "x' = x\<lparr>q_tail := (q_tail x + 1) mod depth x, q_count := q_count x + 1\<rparr>"
    and "ready_frame (set_wptr (RecvQ q) ht (s\<lparr>tcbs := T, msg_queues := (msg_queues s)(q \<mapsto> x'),
           ram := R', icsr := i, primask := True\<rparr>)) s'"
    and "first_woken s xs T"
proof -
  have q: "q \<noteq> NULL" and h: "queue_holds (ram s) x msgs" using rep x by (auto simp: queue_rep_def)
  have t: "unat (q_tail x) < unat (depth x)" using h by (auto simp: queue_holds_def)
  have slot: "buffer x + q_tail x * msg_size x = slot_addr x (unat (q_tail x))" by (simp add: slot_addr_def)
  obtain R' where cp: "memcpy (slot_addr x (unat (q_tail x))) msg (msg_size x) (ram s) = Some R'"
    using cl t by (auto simp: clear_of_def memcpy_def)
  let ?x = "x\<lparr>q_tail := (q_tail x + 1) mod depth x, q_count := q_count x + 1\<rparr>"
  let ?s = "s\<lparr>msg_queues := (msg_queues s)(q \<mapsto> ?x), ram := R', primask := True\<rparr>"
  have h': "queue_holds R' ?x (msgs @ [read_bytes (ram s) msg (unat (msg_size x))])"
    by (rule queue_holds_push [OF h room]) (simp add: slot cp)
  have inv1: "sched_inv ?s Q" using inv by simp
  have w1: "waiters_of ?s (RecvQ q) xs" using waiters_of_queue_upd [OF w x, of ?x] by simp
  have blk1: "blocked_all ?s xs" using blk by (simp add: blocked_all_def)
  obtain ht T i s' where wake: "wake_head (RecvQ q) ?s = Some s'"
    and s': "sched_inv s' (wake_queues ?s xs Q)" "waiters_of s' (RecvQ q) (tl xs)"
    and fr: "ready_frame (set_wptr (RecvQ q) ht (?s\<lparr>tcbs := T, icsr := i\<rparr>)) s'" and fw: "first_woken ?s xs T"
    unfolding wake_head_woken by (rule recv_q.wake_any [OF inv1 w1 blk1])
  have "q_count x < depth x" using room h by (simp add: queue_holds_def word_less_nat_alt)
  then have send: "msg_queue_send q msg timeout s = Some (Some RTOS_OK, s'\<lparr>primask := False\<rparr>)"
    using q msg cur x cp wake slot
    by (simp add: msg_queue_send_def blocking_call_def msg_queue_send_attempt_def Let_def cpsid_def cpsie_def)
  have rep': "queue_rep s' q (msgs @ [read_bytes (ram s) msg (unat (msg_size x))])"
    by (rule queue_holds_wptr [OF h' _ q, of "?s\<lparr>tcbs := T, icsr := i\<rparr>" _ "RecvQ q" ht])
       (simp_all add: ready_frame_sel [OF fr])
  have wq: "wake_queues ?s xs Q = wake_queues s xs Q" by (simp add: wake_queues_def split: list.split)
  have fw': "first_woken s xs T" using fw by (simp add: first_woken_def)
  show thesis
    by (rule that [OF send rep' _ _ cp refl _ fw']) (use s' wq fr in simp_all)
qed

text \<open>
  C26. Sending. When the queue is not full, \<open>msg_queue_send\<close> returns \<open>RTOS_OK\<close> and appends the
  bytes at \<open>msg\<close> to the queue; the receiver that has waited longest, if any, leaves the wait
  list and becomes ready.
\<close>

theorem msg_queue_send_appends:
  assumes "sched_inv s Q" and "queue_rep s q msgs" and "msg_queues s q = Some x"
    and "length msgs < unat (depth x)" and "current_tcb s \<noteq> NULL" and "msg \<noteq> NULL"
    and "clear_of x msg" and "waiters_of s (RecvQ q) xs" and "blocked_all s xs"
  shows "\<exists>s'. msg_queue_send q msg timeout s = Some (Some RTOS_OK, s')
    \<and> queue_rep s' q (msgs @ [read_bytes (ram s) msg (unat (msg_size x))])
    \<and> sched_inv s' (wake_queues s xs Q) \<and> waiters_of s' (RecvQ q) (tl xs) \<and> \<not> primask s'"
proof (rule send_refines [OF assms])
  fix s' R'
  assume "msg_queue_send q msg timeout s = Some (Some RTOS_OK, s'\<lparr>primask := False\<rparr>)"
    "queue_rep s' q (msgs @ [read_bytes (ram s) msg (unat (msg_size x))])"
    "sched_inv s' (wake_queues s xs Q)" "waiters_of s' (RecvQ q) (tl xs)"
  then show ?thesis by (intro exI [of _ "s'\<lparr>primask := False\<rparr>"]) (simp add: queue_rep_def)
qed

lemma recv_refines:
  assumes inv: "sched_inv s Q" and rep: "queue_rep s q (m # msgs)" and x: "msg_queues s q = Some x"
    and cur: "current_tcb s \<noteq> NULL" and out: "out \<noteq> NULL"
    and cl: "clear_of x out" and w: "waiters_of s (SendQ q) xs" and blk: "blocked_all s xs"
  obtains s' x' ht T i R' where "msg_queue_recv q out timeout s = Some (Some RTOS_OK, s'\<lparr>primask := False\<rparr>)"
    and "queue_rep s' q msgs" and "read_bytes (ram s') out (unat (msg_size x)) = m"
    and "sched_inv s' (wake_queues s xs Q)" and "waiters_of s' (SendQ q) (tl xs)"
    and "memcpy out (slot_addr x (unat (q_head x))) (msg_size x) (ram s) = Some R'"
    and "x' = x\<lparr>q_head := (q_head x + 1) mod depth x, q_count := q_count x - 1\<rparr>"
    and "ready_frame (set_wptr (SendQ q) ht (s\<lparr>tcbs := T, msg_queues := (msg_queues s)(q \<mapsto> x'),
           ram := R', icsr := i, primask := True\<rparr>)) s'"
    and "first_woken s xs T"
proof -
  have q: "q \<noteq> NULL" and h: "queue_holds (ram s) x (m # msgs)" using rep x by (auto simp: queue_rep_def)
  have t: "unat (q_head x) < unat (depth x)" using h by (auto simp: queue_holds_def)
  have slot: "buffer x + q_head x * msg_size x = slot_addr x (unat (q_head x))" by (simp add: slot_addr_def)
  obtain R' where cp: "memcpy out (slot_addr x (unat (q_head x))) (msg_size x) (ram s) = Some R'"
    using cl t overlap_sym by (auto simp: clear_of_def memcpy_def)
  let ?x = "x\<lparr>q_head := (q_head x + 1) mod depth x, q_count := q_count x - 1\<rparr>"
  let ?s = "s\<lparr>msg_queues := (msg_queues s)(q \<mapsto> ?x), ram := R', primask := True\<rparr>"
  have h': "queue_holds R' ?x msgs" and m: "read_bytes R' out (unat (msg_size x)) = m"
    using queue_holds_pop [OF h cl, of R'] cp by (simp_all add: slot)
  have inv1: "sched_inv ?s Q" using inv by simp
  have w1: "waiters_of ?s (SendQ q) xs" using waiters_of_queue_upd [OF w x, of ?x] by simp
  have blk1: "blocked_all ?s xs" using blk by (simp add: blocked_all_def)
  obtain ht T i s' where wake: "wake_head (SendQ q) ?s = Some s'"
    and s': "sched_inv s' (wake_queues ?s xs Q)" "waiters_of s' (SendQ q) (tl xs)"
    and fr: "ready_frame (set_wptr (SendQ q) ht (?s\<lparr>tcbs := T, icsr := i\<rparr>)) s'" and fw: "first_woken ?s xs T"
    unfolding wake_head_woken by (rule send_q.wake_any [OF inv1 w1 blk1])
  have "q_count x \<noteq> 0" using h by (auto simp: queue_holds_def)
  then have recv: "msg_queue_recv q out timeout s = Some (Some RTOS_OK, s'\<lparr>primask := False\<rparr>)"
    using q out cur x cp wake slot
    by (simp add: msg_queue_recv_def blocking_call_def msg_queue_recv_attempt_def Let_def cpsid_def cpsie_def
        word_gt_0)
  have rep': "queue_rep s' q msgs"
    by (rule queue_holds_wptr [OF h' _ q, of "?s\<lparr>tcbs := T, icsr := i\<rparr>" _ "SendQ q" ht])
       (simp_all add: ready_frame_sel [OF fr])
  have wq: "wake_queues ?s xs Q = wake_queues s xs Q" by (simp add: wake_queues_def split: list.split)
  have fw': "first_woken s xs T" using fw by (simp add: first_woken_def)
  show thesis
    by (rule that [OF recv rep' _ _ _ cp refl _ fw']) (use s' wq fr m ready_frame_sel [OF fr] in simp_all)
qed

text \<open>
  C27. Receiving. When the queue holds a message, \<open>msg_queue_recv\<close> returns \<open>RTOS_OK\<close>, copies the
  oldest message to \<open>out\<close> and removes it; the sender that has waited longest, if any, leaves
  the wait list and becomes ready.
\<close>

theorem msg_queue_recv_takes_oldest:
  assumes "sched_inv s Q" and "queue_rep s q (m # msgs)" and "msg_queues s q = Some x"
    and "current_tcb s \<noteq> NULL" and "out \<noteq> NULL" and "clear_of x out"
    and "waiters_of s (SendQ q) xs" and "blocked_all s xs"
  shows "\<exists>s'. msg_queue_recv q out timeout s = Some (Some RTOS_OK, s')
    \<and> queue_rep s' q msgs \<and> read_bytes (ram s') out (unat (msg_size x)) = m
    \<and> sched_inv s' (wake_queues s xs Q) \<and> waiters_of s' (SendQ q) (tl xs) \<and> \<not> primask s'"
proof (rule recv_refines [OF assms])
  fix s' R'
  assume "msg_queue_recv q out timeout s = Some (Some RTOS_OK, s'\<lparr>primask := False\<rparr>)"
    "queue_rep s' q msgs" "read_bytes (ram s') out (unat (msg_size x)) = m"
    "sched_inv s' (wake_queues s xs Q)" "waiters_of s' (SendQ q) (tl xs)"
  then show ?thesis by (intro exI [of _ "s'\<lparr>primask := False\<rparr>"]) (simp add: queue_rep_def)
qed

section \<open>First in, first out\<close>

text \<open>Several sends, and several receives that collect what each one delivers.\<close>

fun send_all :: "addr \<Rightarrow> addr list \<Rightarrow> kernel \<Rightarrow> kernel option" where
  "send_all q [] s = Some s"
| "send_all q (m # ms) s = do {
     (r, s) \<leftarrow> msg_queue_send q m 0 s;
     if r = Some RTOS_OK then send_all q ms s else None
   }"

fun recv_all :: "addr \<Rightarrow> nat \<Rightarrow> addr list \<Rightarrow> kernel \<Rightarrow> (u8 list list \<times> kernel) option" where
  "recv_all q n [] s = Some ([], s)"
| "recv_all q n (a # as) s = do {
     (r, s) \<leftarrow> msg_queue_recv q a 0 s;
     if r = Some RTOS_OK then do {
       (bs, s') \<leftarrow> recv_all q n as s;
       Some (read_bytes (ram s) a n # bs, s')
     } else None
   }"

definition queue_quiet :: "kernel \<Rightarrow> ready_queues \<Rightarrow> addr \<Rightarrow> msg_queue_t \<Rightarrow> bool" where
  "queue_quiet s Q q x \<longleftrightarrow> sched_inv s Q \<and> current_tcb s \<noteq> NULL \<and> q \<noteq> NULL \<and>
     (\<exists>y. msg_queues s q = Some y \<and> same_geom x y \<and> send_wait_head y = NULL \<and> send_wait_tail y = NULL
        \<and> recv_wait_head y = NULL \<and> recv_wait_tail y = NULL)"

lemma quiet_waiters:
  assumes "queue_quiet s Q q x"
  obtains y where "msg_queues s q = Some y" and "same_geom x y" and "sched_inv s Q" and "current_tcb s \<noteq> NULL"
    and "waiters_of s (RecvQ q) []" and "waiters_of s (SendQ q) []" and "blocked_all s []"
  using assms by (auto simp: queue_quiet_def waiters_of_def wptr_def blocked_all_def)

lemma quietI:
  assumes fr: "ready_frame (set_wptr w ht (s\<lparr>tcbs := T, msg_queues := (msg_queues s)(q \<mapsto> y'),
      ram := R', icsr := i, primask := True\<rparr>)) s'"
    and w: "w = RecvQ q \<or> w = SendQ q" "waiters_of s' w []" and inv: "sched_inv s' Q" and old: "queue_quiet s Q q x"
    and y: "msg_queues s q = Some y" "same_geom y y'" "send_wait_head y' = send_wait_head y"
      "send_wait_tail y' = send_wait_tail y" "recv_wait_head y' = recv_wait_head y" "recv_wait_tail y' = recv_wait_tail y"
  shows "queue_quiet (s'\<lparr>primask := False\<rparr>) Q q x"
  using w old y ready_frame_sel [OF fr] inv
  by (auto simp: queue_quiet_def waiters_of_def wptr_def set_wptr_def same_geom_def)

lemma send_quiet:
  assumes quiet: "queue_quiet s Q q x" and rep: "queue_rep s q msgs"
    and room: "length msgs < unat (depth x)" and m: "m \<noteq> NULL" "clear_of x m"
  obtains s' where "msg_queue_send q m 0 s = Some (Some RTOS_OK, s')" and "queue_quiet s' Q q x"
    and "queue_rep s' q (msgs @ [read_bytes (ram s) m (unat (msg_size x))])"
    and "\<And>a. clear_of x a \<Longrightarrow> read_bytes (ram s') a (unat (msg_size x)) = read_bytes (ram s) a (unat (msg_size x))"
proof -
  obtain y where y: "msg_queues s q = Some y" and g: "same_geom x y" and inv: "sched_inv s Q"
    and cur: "current_tcb s \<noteq> NULL" and w: "waiters_of s (RecvQ q) []" and b: "blocked_all s []"
    using quiet by (rule quiet_waiters)
  have sz: "msg_size y = msg_size x" "depth y = depth x" using g by (auto simp: same_geom_def)
  have cl: "clear_of y m" using m(2) same_geom_clear [OF g] by simp
  have room': "length msgs < unat (depth y)" using room sz by simp
  show thesis
  proof (rule send_refines [OF inv rep y room' cur m(1) cl w b, of 0])
    fix s' :: kernel and y' ht T i R'
    let ?s = "s'\<lparr>primask := False\<rparr>"
    assume send: "msg_queue_send q m 0 s = Some (Some RTOS_OK, ?s)"
      and rep': "queue_rep s' q (msgs @ [read_bytes (ram s) m (unat (msg_size y))])"
      and inv': "sched_inv s' (wake_queues s [] Q)" and w': "waiters_of s' (RecvQ q) (tl [])"
      and cp: "memcpy (slot_addr y (unat (q_tail y))) m (msg_size y) (ram s) = Some R'"
      and y': "y' = y\<lparr>q_tail := (q_tail y + 1) mod depth y, q_count := q_count y + 1\<rparr>"
      and fr: "ready_frame (set_wptr (RecvQ q) ht (s\<lparr>tcbs := T, msg_queues := (msg_queues s)(q \<mapsto> y'),
           ram := R', icsr := i, primask := True\<rparr>)) s'"
    have "queue_quiet ?s Q q x"
      by (rule quietI [OF fr _ _ _ quiet y]) (use w' inv' y' in \<open>simp_all add: wake_queues_def same_geom_def\<close>)
    moreover have "read_bytes (ram ?s) a (unat (msg_size x)) = read_bytes (ram s) a (unat (msg_size x))"
      if a: "clear_of x a" for a
    proof -
      have "unat (q_tail y) < unat (depth y)" using rep y by (auto simp: queue_rep_def queue_holds_def)
      then have "\<not> regions_overlap (slot_addr y (unat (q_tail y))) a (msg_size y)"
        using a [folded same_geom_clear [OF g]] by (simp add: clear_of_def)
      then show ?thesis using memcpy_frame [OF cp] ready_frame_sel [OF fr] sz by simp
    qed
    ultimately show thesis using that [OF send] rep' sz by (simp add: queue_rep_def)
  qed
qed

lemma recv_quiet:
  assumes quiet: "queue_quiet s Q q x" and rep: "queue_rep s q (m # msgs)" and a: "a \<noteq> NULL" "clear_of x a"
  obtains s' where "msg_queue_recv q a 0 s = Some (Some RTOS_OK, s')" and "queue_quiet s' Q q x"
    and "queue_rep s' q msgs" and "read_bytes (ram s') a (unat (msg_size x)) = m"
proof -
  obtain y where y: "msg_queues s q = Some y" and g: "same_geom x y" and inv: "sched_inv s Q"
    and cur: "current_tcb s \<noteq> NULL" and w: "waiters_of s (SendQ q) []" and b: "blocked_all s []"
    using quiet by (rule quiet_waiters)
  have sz: "msg_size y = msg_size x" using g by (auto simp: same_geom_def)
  have cl: "clear_of y a" using a(2) same_geom_clear [OF g] by simp
  show thesis
  proof (rule recv_refines [OF inv rep y cur a(1) cl w b, of 0])
    fix s' :: kernel and y' ht T i R'
    let ?s = "s'\<lparr>primask := False\<rparr>"
    assume recv: "msg_queue_recv q a 0 s = Some (Some RTOS_OK, ?s)" and rep': "queue_rep s' q msgs"
      and m: "read_bytes (ram s') a (unat (msg_size y)) = m"
      and inv': "sched_inv s' (wake_queues s [] Q)" and w': "waiters_of s' (SendQ q) (tl [])"
      and y': "y' = y\<lparr>q_head := (q_head y + 1) mod depth y, q_count := q_count y - 1\<rparr>"
      and fr: "ready_frame (set_wptr (SendQ q) ht (s\<lparr>tcbs := T, msg_queues := (msg_queues s)(q \<mapsto> y'),
           ram := R', icsr := i, primask := True\<rparr>)) s'"
    have "queue_quiet ?s Q q x"
      by (rule quietI [OF fr _ _ _ quiet y]) (use w' inv' y' in \<open>simp_all add: wake_queues_def same_geom_def\<close>)
    then show thesis using that [OF recv] rep' m sz by (simp add: queue_rep_def)
  qed
qed

lemma send_all_appends:
  assumes "queue_quiet s Q q x" and "queue_rep s q msgs" and "length msgs + length ms \<le> unat (depth x)"
    and "\<forall>m \<in> set ms. m \<noteq> NULL \<and> clear_of x m"
  shows "\<exists>s'. send_all q ms s = Some s' \<and> queue_quiet s' Q q x
    \<and> queue_rep s' q (msgs @ map (\<lambda>m. read_bytes (ram s) m (unat (msg_size x))) ms)"
  using assms
proof (induction ms arbitrary: s msgs)
  case Nil
  then show ?case by simp
next
  case (Cons m ms)
  obtain s1 where s1: "msg_queue_send q m 0 s = Some (Some RTOS_OK, s1)" "queue_quiet s1 Q q x"
    and rep1: "queue_rep s1 q (msgs @ [read_bytes (ram s) m (unat (msg_size x))])"
    and same: "\<And>a. clear_of x a \<Longrightarrow> read_bytes (ram s1) a (unat (msg_size x)) = read_bytes (ram s) a (unat (msg_size x))"
    using send_quiet [OF Cons.prems(1,2), of m] Cons.prems(3,4) by auto
  have eq: "map (\<lambda>m. read_bytes (ram s1) m (unat (msg_size x))) ms = map (\<lambda>m. read_bytes (ram s) m (unat (msg_size x))) ms"
    using Cons.prems(4) same by auto
  show ?case using Cons.IH [OF s1(2) rep1, unfolded eq] Cons.prems(3,4) s1(1) by auto
qed

lemma recv_all_takes:
  assumes "queue_quiet s Q q x" and "queue_rep s q msgs" and "length outs = length msgs"
    and "\<forall>a \<in> set outs. a \<noteq> NULL \<and> clear_of x a"
  shows "\<exists>s'. recv_all q (unat (msg_size x)) outs s = Some (msgs, s') \<and> queue_quiet s' Q q x \<and> queue_rep s' q []"
  using assms
proof (induction outs arbitrary: s msgs)
  case Nil
  then show ?case by simp
next
  case (Cons a outs)
  then obtain m ms where msgs: "msgs = m # ms" by (cases msgs) auto
  obtain s1 where s1: "msg_queue_recv q a 0 s = Some (Some RTOS_OK, s1)" "queue_quiet s1 Q q x" "queue_rep s1 q ms"
    "read_bytes (ram s1) a (unat (msg_size x)) = m"
    using recv_quiet [OF Cons.prems(1) Cons.prems(2) [unfolded msgs], of a] Cons.prems(4) by auto
  then show ?case using Cons.IH [OF s1(2,3)] Cons.prems(3,4) msgs by auto
qed

text \<open>
  C15. First in, first out. Up to \<open>depth\<close> messages sent to an empty queue are delivered by the
  same number of receives, unchanged and in the order in which they were sent, wherever the
  ring currently starts; afterwards the queue is empty again.
\<close>

theorem msg_queue_fifo_roundtrip:
  assumes "queue_quiet s Q q x" and "queue_rep s q []" and "length ms \<le> unat (depth x)"
    and "\<forall>m \<in> set ms. m \<noteq> NULL \<and> clear_of x m"
    and "length outs = length ms" and "\<forall>a \<in> set outs. a \<noteq> NULL \<and> clear_of x a"
  shows "\<exists>s1 s2. send_all q ms s = Some s1
    \<and> recv_all q (unat (msg_size x)) outs s1
        = Some (map (\<lambda>m. read_bytes (ram s) m (unat (msg_size x))) ms, s2)
    \<and> queue_rep s2 q [] \<and> sched_inv s2 Q"
proof -
  obtain s1 where s1: "send_all q ms s = Some s1" "queue_quiet s1 Q q x"
    "queue_rep s1 q (map (\<lambda>m. read_bytes (ram s) m (unat (msg_size x))) ms)"
    using send_all_appends [OF assms(1,2) _ assms(4)] assms(3) by auto
  show ?thesis using recv_all_takes [OF s1(2,3) _ assms(6)] s1(1) assms(5)
    by (auto simp: queue_quiet_def)
qed

section \<open>Full and empty queues\<close>

text \<open>
  Sending to a full queue. The caller joins the end of the senders' wait list, leaves its
  ready ring and is blocked on the queue with the wake-up tick of its timeout; the messages
  stay as they are.
\<close>

theorem msg_queue_send_blocks:
  assumes inv: "sched_inv s Q" and cur: "current_tcb s = self"
    and t: "tcbs s self = Some t" and run: "state t = TASK_STATE_RUNNING"
    and rep: "queue_rep s q msgs" and x: "msg_queues s q = Some x" and full: "length msgs = unat (depth x)"
    and msg: "msg \<noteq> NULL" and w: "waiters_of s (SendQ q) xs" and new: "self \<notin> set xs"
  shows "\<exists>s' t'. msg_queue_send q msg timeout s = Some (None, s')
    \<and> sched_inv s' (Q(unat (prio_bucket t) := remove1 self (Q (unat (prio_bucket t)))))
    \<and> waiters_of s' (SendQ q) (xs @ [self]) \<and> queue_rep s' q msgs
    \<and> tcbs s' self = Some t' \<and> state t' = TASK_STATE_BLOCKED \<and> block_reason t' = BLOCK_MSG_SEND
    \<and> block_object t' = q \<and> wake_time t' = wake_tick (s_rtos_tick_count s) timeout"
proof -
  have q: "q \<noteq> NULL" and h: "queue_holds (ram s) x msgs" using rep x by (auto simp: queue_rep_def)
  have nn: "self \<noteq> NULL" using inv t by (rule sched_inv_nonnull)
  have r: "runnable t" using run by (simp add: runnable_def)
  have nf: "\<not> q_count x < depth x" using h full by (simp add: queue_holds_def word_less_nat_alt)
  obtain ht T s' t' rw where enq: "queue_enqueue (SendQ q) self (cpsid s) =
        Some (set_wptr (SendQ q) ht (s\<lparr>tcbs := T, primask := True\<rparr>))"
    and b: "block_enter timeout BLOCK_MSG_SEND q
        (set_wptr (SendQ q) ht (s\<lparr>tcbs := T, primask := False\<rparr>)) = Some (None, s')"
    and s': "sched_inv s' (Q(unat (prio_bucket t) := remove1 self (Q (unat (prio_bucket t)))))"
      "waiters_of s' (SendQ q) (xs @ [self])"
    and t': "t' = blocked_tcb (s_rtos_tick_count s) timeout BLOCK_MSG_SEND q (t\<lparr>mutex_wait_next := rw\<rparr>)"
    and fr: "ready_frame (set_wptr (SendQ q) ht
        (s\<lparr>tcbs := T(self \<mapsto> t'), icsr := 0x10000000, primask := False\<rparr>)) s'"
    by (rule send_q.block_waiter [OF inv w cur t r new])
  obtain r' where "tcbs s' self = Some (t'\<lparr>next_ready := r'\<rparr>)"
    using ready_frame_tcb [OF fr, of self] by auto
  moreover have "msg_queue_send q msg timeout s = Some (None, s')"
    using q msg nn cur x nf enq b
    by (simp add: msg_queue_send_def blocking_call_def msg_queue_send_attempt_def Let_def cpsid_def cpsie_def)
  moreover have "queue_rep s' q msgs"
    by (rule queue_holds_wptr [OF h, of
          "s\<lparr>tcbs := T(self \<mapsto> t'), icsr := 0x10000000, primask := False\<rparr>" q _ "SendQ q" ht])
       (use x q ready_frame_sel [OF fr] in simp_all)
  ultimately show ?thesis using s' t' by simp
qed

text \<open>
  Receiving from an empty queue: the mirror image, on the receivers' wait list.
\<close>

theorem msg_queue_recv_blocks:
  assumes inv: "sched_inv s Q" and cur: "current_tcb s = self"
    and t: "tcbs s self = Some t" and run: "state t = TASK_STATE_RUNNING"
    and rep: "queue_rep s q []" and x: "msg_queues s q = Some x"
    and out: "out \<noteq> NULL" and w: "waiters_of s (RecvQ q) xs" and new: "self \<notin> set xs"
  shows "\<exists>s' t'. msg_queue_recv q out timeout s = Some (None, s')
    \<and> sched_inv s' (Q(unat (prio_bucket t) := remove1 self (Q (unat (prio_bucket t)))))
    \<and> waiters_of s' (RecvQ q) (xs @ [self]) \<and> queue_rep s' q []
    \<and> tcbs s' self = Some t' \<and> state t' = TASK_STATE_BLOCKED \<and> block_reason t' = BLOCK_MSG_RECV
    \<and> block_object t' = q \<and> wake_time t' = wake_tick (s_rtos_tick_count s) timeout"
proof -
  have q: "q \<noteq> NULL" and h: "queue_holds (ram s) x []" using rep x by (auto simp: queue_rep_def)
  have nn: "self \<noteq> NULL" using inv t by (rule sched_inv_nonnull)
  have r: "runnable t" using run by (simp add: runnable_def)
  have ne: "\<not> q_count x > 0" using h by (simp add: queue_holds_def word_less_nat_alt)
  obtain ht T s' t' rw where enq: "queue_enqueue (RecvQ q) self (cpsid s) =
        Some (set_wptr (RecvQ q) ht (s\<lparr>tcbs := T, primask := True\<rparr>))"
    and b: "block_enter timeout BLOCK_MSG_RECV q
        (set_wptr (RecvQ q) ht (s\<lparr>tcbs := T, primask := False\<rparr>)) = Some (None, s')"
    and s': "sched_inv s' (Q(unat (prio_bucket t) := remove1 self (Q (unat (prio_bucket t)))))"
      "waiters_of s' (RecvQ q) (xs @ [self])"
    and t': "t' = blocked_tcb (s_rtos_tick_count s) timeout BLOCK_MSG_RECV q (t\<lparr>mutex_wait_next := rw\<rparr>)"
    and fr: "ready_frame (set_wptr (RecvQ q) ht
        (s\<lparr>tcbs := T(self \<mapsto> t'), icsr := 0x10000000, primask := False\<rparr>)) s'"
    by (rule recv_q.block_waiter [OF inv w cur t r new])
  obtain r' where "tcbs s' self = Some (t'\<lparr>next_ready := r'\<rparr>)"
    using ready_frame_tcb [OF fr, of self] by auto
  moreover have "msg_queue_recv q out timeout s = Some (None, s')"
    using q out nn cur x ne enq b
    by (simp add: msg_queue_recv_def blocking_call_def msg_queue_recv_attempt_def Let_def cpsid_def cpsie_def)
  moreover have "queue_rep s' q []"
    by (rule queue_holds_wptr [OF h, of
          "s\<lparr>tcbs := T(self \<mapsto> t'), icsr := 0x10000000, primask := False\<rparr>" q _ "RecvQ q" ht])
       (use x q ready_frame_sel [OF fr] in simp_all)
  ultimately show ?thesis using s' t' by simp
qed

text \<open>
  Initialisation. \<open>msg_queue_init\<close> rejects null pointers and zero sizes; otherwise the new
  queue is empty, with empty wait lists, provided its storage fits the address space.
\<close>

theorem msg_queue_init_empty:
  assumes "q \<noteq> NULL" and "storage \<noteq> NULL" and "sz \<noteq> 0" and "dep \<noteq> 0" and "unat dep * unat sz \<le> 2 ^ 32"
  shows "\<exists>s'. msg_queue_init q storage sz dep s = (RTOS_OK, s') \<and> queue_rep s' q []
    \<and> waiters_of s' (SendQ q) [] \<and> waiters_of s' (RecvQ q) []"
  using assms
  by (simp add: msg_queue_init_def queue_rep_def queue_holds_def queue_geom_def waiters_of_def wptr_def unat_gt_0)

section \<open>Sample states\<close>

text \<open>
  Task 16 (priority 200) runs, task 32 (priority 70) waits to receive from queue 256, which is
  empty; queue 512 is full with one message of two bytes, and task 48 waits to send to it.
\<close>

definition queue_sample :: kernel where
  "queue_sample = blank_kernel\<lparr>
     tcbs := [16 \<mapsto> sample_task 200 TASK_STATE_RUNNING 16,
              32 \<mapsto> (sample_task 70 TASK_STATE_BLOCKED 0)\<lparr>block_object := 256, block_reason := BLOCK_MSG_RECV\<rparr>,
              48 \<mapsto> (sample_task 100 TASK_STATE_BLOCKED 0)\<lparr>block_object := 512, block_reason := BLOCK_MSG_SEND\<rparr>],
     msg_queues := [
       256 \<mapsto> \<lparr>buffer = 1024, msg_size = 2, depth = 3, q_head = 2, q_tail = 2, q_count = 0,
              send_wait_head = 0, send_wait_tail = 0, recv_wait_head = 32, recv_wait_tail = 32\<rparr>,
       512 \<mapsto> \<lparr>buffer = 2048, msg_size = 2, depth = 1, q_head = 0, q_tail = 0, q_count = 1,
              send_wait_head = 48, send_wait_tail = 48, recv_wait_head = 0, recv_wait_tail = 0\<rparr>,
       768 \<mapsto> \<lparr>buffer = 1024, msg_size = 2, depth = 3, q_head = 2, q_tail = 2, q_count = 0,
              send_wait_head = 0, send_wait_tail = 0, recv_wait_head = 0, recv_wait_tail = 0\<rparr>],
     ram := (\<lambda>_. 0)(2048 := 5, 2049 := 6, 3000 := 11, 3001 := 12, 3002 := 13),
     ready_head := [0, 0, 0, 0, 0, 0, 16, 0], current_tcb := 16\<rparr>"

definition queue_sample_queues :: ready_queues where
  "queue_sample_queues = (\<lambda>b. [])(6 := [16])"

lemma queue_sample_inv: "sched_inv queue_sample queue_sample_queues"
  by (auto simp: sched_inv_def placed_def queued_def runnable_def ready_rel_def queue_sample_def
      queue_sample_queues_def sample_defs ring_def ready_link_def split: if_splits dest!: less_8_cases)

lemma queue_sample_waiters:
  "waiters_of queue_sample (RecvQ 256) [32]" "waiters_of queue_sample (SendQ 512) [48]"
  "waiters_of queue_sample (SendQ 256) []" "waiters_of queue_sample (RecvQ 512) []"
  by (simp_all add: waiters_of_def wptr_def queue_sample_def wait_list_def wait_link_def)

lemma queue_sample_blocked: "blocked_all queue_sample [32]" "blocked_all queue_sample [48]"
  by (simp_all add: blocked_all_def queue_sample_def runnable_def)

lemma queue_sample_sel:
  "tcbs queue_sample 16 = Some (sample_task 200 TASK_STATE_RUNNING 16)"
  "msg_queues queue_sample 256 = Some \<lparr>buffer = 1024, msg_size = 2, depth = 3, q_head = 2, q_tail = 2, q_count = 0,
     send_wait_head = 0, send_wait_tail = 0, recv_wait_head = 32, recv_wait_tail = 32\<rparr>"
  "msg_queues queue_sample 512 = Some \<lparr>buffer = 2048, msg_size = 2, depth = 1, q_head = 0, q_tail = 0, q_count = 1,
     send_wait_head = 48, send_wait_tail = 48, recv_wait_head = 0, recv_wait_tail = 0\<rparr>"
  "msg_queues queue_sample 768 = Some \<lparr>buffer = 1024, msg_size = 2, depth = 3, q_head = 2, q_tail = 2, q_count = 0,
     send_wait_head = 0, send_wait_tail = 0, recv_wait_head = 0, recv_wait_tail = 0\<rparr>"
  "current_tcb queue_sample = 16" "s_rtos_tick_count queue_sample = 0"
  by (simp_all add: queue_sample_def blank_kernel_def)

lemma queue_sample_ram:
  "ram queue_sample = (\<lambda>_. 0)(2048 := 5, 2049 := 6, 3000 := 11, 3001 := 12, 3002 := 13)"
  by (simp add: queue_sample_def)

lemma read_two: "read_bytes R a 2 = [R a, R (a + 1)]"
  by (simp add: read_bytes_def numeral_2_eq_2)

lemma queue_sample_rep:
  "queue_rep queue_sample 256 []" "queue_rep queue_sample 768 []"
  "queue_rep queue_sample 512 [[5, 6]]"
  by (simp_all add: queue_rep_def queue_sample_sel queue_holds_def queue_geom_def slot_bytes_def slot_addr_def
      read_two queue_sample_ram)

lemma less_3_cases: "i < 3 \<Longrightarrow> i = 0 \<or> i = 1 \<or> i = (2 :: nat)"
  by linarith

lemma queue_sample_clear:
  "msg_queues queue_sample 256 = Some x \<Longrightarrow> clear_of x 3000" "msg_queues queue_sample 512 = Some x \<Longrightarrow> clear_of x 3000"
  by (auto simp: queue_sample_sel clear_of_def slot_addr_def regions_overlap_def dest!: less_3_cases)

theorem msg_queue_send_appends_witness:
  "\<exists>s'. msg_queue_send 256 3000 0 queue_sample = Some (Some RTOS_OK, s') \<and> queue_rep s' 256 [[11, 12]]
     \<and> sched_inv s' (queue_sample_queues(2 := [32])) \<and> waiters_of s' (RecvQ 256) []"
proof -
  have "wake_queues queue_sample [32] queue_sample_queues = queue_sample_queues(2 := [32])"
    by (simp add: wake_queues_def queue_sample_def queue_sample_queues_def prio_bucket_of_eval Let_def)
  then show ?thesis
    using msg_queue_send_appends [OF queue_sample_inv queue_sample_rep(1) queue_sample_sel(2) _ _ _
        queue_sample_clear(1) [OF queue_sample_sel(2)] queue_sample_waiters(1) queue_sample_blocked(1), of 0]
    by (auto simp: queue_sample_sel read_two queue_sample_ram)
qed

theorem msg_queue_recv_takes_oldest_witness:
  "\<exists>s'. msg_queue_recv 512 3000 0 queue_sample = Some (Some RTOS_OK, s') \<and> queue_rep s' 512 []
     \<and> read_bytes (ram s') 3000 2 = [5, 6] \<and> waiters_of s' (SendQ 512) []"
  using msg_queue_recv_takes_oldest [OF queue_sample_inv queue_sample_rep(3) queue_sample_sel(3) _ _
        queue_sample_clear(2) [OF queue_sample_sel(3)] queue_sample_waiters(2) queue_sample_blocked(2), of 0]
  by (auto simp: queue_sample_sel)

theorem msg_queue_fifo_roundtrip_witness:
  "\<exists>s1 s2. send_all 768 [3000, 3001] queue_sample = Some s1
    \<and> recv_all 768 2 [4000, 4000] s1 = Some ([[11, 12], [12, 13]], s2) \<and> queue_rep s2 768 []"
proof -
  have quiet: "queue_quiet queue_sample queue_sample_queues 768 (the (msg_queues queue_sample 768))"
    using queue_sample_inv by (simp add: queue_quiet_def queue_sample_sel same_geom_def)
  have clear: "clear_of (the (msg_queues queue_sample 768)) a" if "a = 3000 \<or> a = 3001 \<or> a = 4000" for a
    using that by (auto simp: queue_sample_sel clear_of_def slot_addr_def regions_overlap_def dest!: less_3_cases)
  show ?thesis
    using msg_queue_fifo_roundtrip [OF quiet queue_sample_rep(2), of "[3000, 3001]" "[4000, 4000]"] clear
    by (auto simp: queue_sample_sel read_two queue_sample_ram)
qed

theorem msg_queue_send_blocks_witness:
  "\<exists>s' t'. msg_queue_send 512 3000 9 queue_sample = Some (None, s') \<and> waiters_of s' (SendQ 512) [48, 16]
     \<and> queue_rep s' 512 [[5, 6]] \<and> tcbs s' 16 = Some t' \<and> wake_time t' = 9"
  using msg_queue_send_blocks [OF queue_sample_inv queue_sample_sel(5,1) _ queue_sample_rep(3) queue_sample_sel(3)
      _ _ queue_sample_waiters(2), of 3000 9]
  by (auto simp: queue_sample_sel wake_tick_def)

theorem msg_queue_recv_blocks_witness:
  "\<exists>s' t'. msg_queue_recv 256 3000 9 queue_sample = Some (None, s') \<and> waiters_of s' (RecvQ 256) [32, 16]
     \<and> tcbs s' 16 = Some t' \<and> wake_time t' = 9"
  using msg_queue_recv_blocks [OF queue_sample_inv queue_sample_sel(5,1) _ queue_sample_rep(1) queue_sample_sel(2)
      _ queue_sample_waiters(1), of 3000 9]
  by (auto simp: queue_sample_sel wake_tick_def)

theorem msg_queue_init_empty_witness:
  "\<exists>s'. msg_queue_init 256 1024 8 16 blank_kernel = (RTOS_OK, s') \<and> queue_rep s' 256 []"
  using msg_queue_init_empty [of 256 1024 8 16 blank_kernel] by auto

end
