(* ===== verification/Rtos_Waits.thy ===== *)
theory Rtos_Waits
  imports Rtos_Mutex Rtos_Semaphore Rtos_Msgqueue
begin

text \<open>
  The wait lists of all objects together. \<open>waits_inv s W\<close> says that every mutex, semaphore and
  queue has the wait list \<open>W\<close> ascribes to it, and that a task is on a list exactly if its
  control block says it is blocked there; so no task waits at two places. The section on wait
  objects lifts the contract of one object to this invariant.
\<close>

section \<open>Stores that differ in links only\<close>

definition erase_links :: "TCB_t \<Rightarrow> TCB_t" where
  "erase_links t = t\<lparr>next_ready := NULL, mutex_wait_next := NULL\<rparr>"

definition same_but_links :: "(addr \<rightharpoonup> TCB_t) \<Rightarrow> (addr \<rightharpoonup> TCB_t) \<Rightarrow> bool" where
  "same_but_links T T' \<longleftrightarrow> (\<forall>a. map_option erase_links (T a) = map_option erase_links (T' a))"

lemma erase_links_alt:
  "erase_links t = erase_ready (erase_wait t)" "erase_links t = erase_wait (erase_ready t)"
  by (simp_all add: erase_links_def erase_ready_def erase_wait_def)

lemma erase_links_upd [simp]:
  "erase_links (t\<lparr>next_ready := r\<rparr>) = erase_links t" "erase_links (t\<lparr>mutex_wait_next := r\<rparr>) = erase_links t"
  by (simp_all add: erase_links_def)

lemma same_but_links_refl [simp]: "same_but_links T T"
  by (simp add: same_but_links_def)

lemma same_but_links_trans: "same_but_links T U \<Longrightarrow> same_but_links U V \<Longrightarrow> same_but_links T V"
  by (simp add: same_but_links_def)

lemma same_but_links_ready: "same_but_ready T T' \<Longrightarrow> same_but_links T T'"
  unfolding same_but_links_def same_but_ready_def erase_links_alt(2) [abs_def]
  by (metis option.map_comp [unfolded comp_def])

lemma same_but_links_wait: "same_but_wait T T' \<Longrightarrow> same_but_links T T'"
  unfolding same_but_links_def same_but_wait_def erase_links_alt(1) [abs_def]
  by (metis option.map_comp [unfolded comp_def])

lemma same_but_links_upd:
  "same_but_links T T' \<Longrightarrow> erase_links t = erase_links t' \<Longrightarrow> same_but_links (T(a \<mapsto> t)) (T'(a \<mapsto> t'))"
  by (simp add: same_but_links_def)

lemma erase_links_eqD: "erase_links t = erase_links t' \<Longrightarrow> \<exists>r w. t' = t\<lparr>next_ready := r, mutex_wait_next := w\<rparr>"
  by (rule exI [of _ "next_ready t'"], rule exI [of _ "mutex_wait_next t'"], cases t, cases t')
     (simp add: erase_links_def)

lemma same_but_links_Some:
  assumes "same_but_links T T'" and "T a = Some t"
  obtains r w where "T' a = Some (t\<lparr>next_ready := r, mutex_wait_next := w\<rparr>)"
proof -
  have "map_option erase_links (T' a) = Some (erase_links t)" using assms by (metis same_but_links_def option.simps(9))
  then obtain t' where "T' a = Some t'" "erase_links t = erase_links t'" by auto
  then show thesis using that erase_links_eqD by metis
qed

lemma same_but_links_sym: "same_but_links T T' \<Longrightarrow> same_but_links T' T"
  by (simp add: same_but_links_def)

lemma same_but_links_None: "same_but_links T T' \<Longrightarrow> T' a = None \<longleftrightarrow> T a = None"
  unfolding same_but_links_def by (metis option.map_disc_iff)

section \<open>What scheduling and waiting leave alone\<close>

text \<open>The state without control blocks, ring heads and the end pointers of wait lists.\<close>

definition calm :: "kernel \<Rightarrow> kernel" where
  "calm s = s\<lparr>tcbs := Map.empty, ready_head := [],
     mutexes := (\<lambda>m. map_option (\<lambda>x. x\<lparr>wait_head := NULL, wait_tail := NULL\<rparr>) (mutexes s m)),
     semaphores := (\<lambda>m. map_option (\<lambda>x. x\<lparr>sem_wait_head := NULL, sem_wait_tail := NULL\<rparr>) (semaphores s m)),
     msg_queues := (\<lambda>q. map_option (\<lambda>x. x\<lparr>send_wait_head := NULL, send_wait_tail := NULL,
       recv_wait_head := NULL, recv_wait_tail := NULL\<rparr>) (msg_queues s q))\<rparr>"

lemma erased_upd:
  "(\<And>x. g (f x) = g x) \<Longrightarrow>
   (\<lambda>a. map_option g ((M(m := map_option f (M m))) a)) = (\<lambda>a. map_option g (M a))"
  by (auto simp: fun_eq_iff option.map_comp comp_def)

lemma calm_set_wptr [simp]: "calm (set_wptr w ht s) = calm s"
  by (cases w) (simp_all add: calm_def set_wptr_def erased_upd del: fun_upd_apply)

lemma calm_tcbs [simp]: "calm (s\<lparr>tcbs := T\<rparr>) = calm s" "calm (s\<lparr>ready_head := rh\<rparr>) = calm s"
  by (simp_all add: calm_def)

lemma ready_frame_calm: "ready_frame s s' \<Longrightarrow> calm s' = calm s"
  by (auto simp: ready_frame_def)

lemma calm_sel:
  assumes "calm s' = calm s"
  shows "idle_tcb s' = idle_tcb s" "current_tcb s' = current_tcb s" "task_registry s' = task_registry s"
    "task_registry_count s' = task_registry_count s" "s_rtos_tick_count s' = s_rtos_tick_count s"
    "ram s' = ram s" "stack_mem s' = stack_mem s" "sw_timers s' = sw_timers s" "timer_list s' = timer_list s"
    "heap_blocks s' = heap_blocks s" "free_list s' = free_list s" "heap_ready s' = heap_ready s"
    "icsr s' = icsr s" "primask s' = primask s"
  using assms [THEN arg_cong, of idle_tcb] assms [THEN arg_cong, of current_tcb]
    assms [THEN arg_cong, of task_registry] assms [THEN arg_cong, of task_registry_count]
    assms [THEN arg_cong, of s_rtos_tick_count] assms [THEN arg_cong, of ram]
    assms [THEN arg_cong, of stack_mem] assms [THEN arg_cong, of sw_timers]
    assms [THEN arg_cong, of timer_list] assms [THEN arg_cong, of heap_blocks]
    assms [THEN arg_cong, of free_list] assms [THEN arg_cong, of heap_ready]
    assms [THEN arg_cong, of icsr] assms [THEN arg_cong, of primask]
  by (simp_all add: calm_def)

lemma calm_objects:
  assumes "calm s' = calm s"
  shows "map_option (\<lambda>x. (locked x, owner x)) (mutexes s' m) = map_option (\<lambda>x. (locked x, owner x)) (mutexes s m)"
    and "map_option (\<lambda>x. (sem_count x, max_count x)) (semaphores s' m)
       = map_option (\<lambda>x. (sem_count x, max_count x)) (semaphores s m)"
proof -
  have "map_option (\<lambda>x. x\<lparr>wait_head := NULL, wait_tail := NULL\<rparr>) (mutexes s' m)
      = map_option (\<lambda>x. x\<lparr>wait_head := NULL, wait_tail := NULL\<rparr>) (mutexes s m)"
    using assms [THEN arg_cong, of mutexes, THEN fun_cong, of m] by (simp add: calm_def)
  from arg_cong [OF this, of "map_option (\<lambda>x. (locked x, owner x))"]
  show "map_option (\<lambda>x. (locked x, owner x)) (mutexes s' m) = map_option (\<lambda>x. (locked x, owner x)) (mutexes s m)"
    by (simp add: option.map_comp comp_def)
  have "map_option (\<lambda>x. x\<lparr>sem_wait_head := NULL, sem_wait_tail := NULL\<rparr>) (semaphores s' m)
      = map_option (\<lambda>x. x\<lparr>sem_wait_head := NULL, sem_wait_tail := NULL\<rparr>) (semaphores s m)"
    using assms [THEN arg_cong, of semaphores, THEN fun_cong, of m] by (simp add: calm_def)
  from arg_cong [OF this, of "map_option (\<lambda>x. (sem_count x, max_count x))"]
  show "map_option (\<lambda>x. (sem_count x, max_count x)) (semaphores s' m)
      = map_option (\<lambda>x. (sem_count x, max_count x)) (semaphores s m)"
    by (simp add: option.map_comp comp_def)
qed

section \<open>The invariant of all wait lists\<close>

type_synonym wait_queues = "wait_obj \<Rightarrow> addr list"

definition wait_obj_of :: "TCB_t \<Rightarrow> wait_obj option" where
  "wait_obj_of t = (case block_reason t of
     BLOCK_MUTEX \<Rightarrow> Some (MutexQ (block_object t))
   | BLOCK_SEMAPHORE \<Rightarrow> Some (SemQ (block_object t))
   | BLOCK_MSG_SEND \<Rightarrow> Some (SendQ (block_object t))
   | BLOCK_MSG_RECV \<Rightarrow> Some (RecvQ (block_object t))
   | _ \<Rightarrow> None)"

definition blocked_on :: "TCB_t \<Rightarrow> wait_obj option" where
  "blocked_on t = (if state t = TASK_STATE_BLOCKED then wait_obj_of t else None)"

definition waits_inv :: "kernel \<Rightarrow> wait_queues \<Rightarrow> bool" where
  "waits_inv s W \<longleftrightarrow> (\<forall>w. wptr s w \<noteq> None \<longrightarrow> waiters_of s w (W w)) \<and>
     (\<forall>w a. wptr s w \<noteq> None \<and> a \<in> set (W w) \<longleftrightarrow> (\<exists>t. tcbs s a = Some t \<and> blocked_on t = Some w))"

lemma blocked_on_links [simp]:
  "blocked_on (t\<lparr>next_ready := r\<rparr>) = blocked_on t" "blocked_on (t\<lparr>mutex_wait_next := r\<rparr>) = blocked_on t"
  by (simp_all add: blocked_on_def wait_obj_of_def split: block_reason_t.split)

lemma blocked_on_ready [simp]: "state t \<noteq> TASK_STATE_BLOCKED \<Longrightarrow> blocked_on t = None"
  by (simp add: blocked_on_def)

lemma waits_inv_list: "waits_inv s W \<Longrightarrow> wptr s w \<noteq> None \<Longrightarrow> waiters_of s w (W w)"
  by (simp add: waits_inv_def)

lemma waits_inv_mem:
  "waits_inv s W \<Longrightarrow> tcbs s a = Some t \<Longrightarrow> blocked_on t = Some w \<Longrightarrow> wptr s w \<noteq> None \<and> a \<in> set (W w)"
  unfolding waits_inv_def by blast

lemma waits_inv_blocked:
  "waits_inv s W \<Longrightarrow> wptr s w \<noteq> None \<Longrightarrow> a \<in> set (W w) \<Longrightarrow> \<exists>t. tcbs s a = Some t \<and> blocked_on t = Some w"
  unfolding waits_inv_def by blast

lemma waits_inv_disjoint:
  assumes "waits_inv s W" and "wptr s w \<noteq> None" and "wptr s v \<noteq> None" and "w \<noteq> v"
  shows "set (W w) \<inter> set (W v) = {}"
  using waits_inv_blocked [OF assms(1,2)] waits_inv_blocked [OF assms(1,3)] assms(4) by fastforce

lemma waits_inv_cong:
  assumes "waits_inv s W" and "\<And>w. wptr s' w = wptr s w" and "tcbs s' = tcbs s"
  shows "waits_inv s' W"
  using assms by (simp add: waits_inv_def waiters_of_def)

lemma waits_inv_tcb:
  assumes win: "waits_inv s W" and t: "tcbs s a = Some t" and v: "mutex_wait_next v = mutex_wait_next t" "blocked_on v = blocked_on t"
    and ptr: "\<And>w. wptr s' w = wptr s w" and T: "tcbs s' = (tcbs s)(a \<mapsto> v)"
  shows "waits_inv s' W"
proof -
  have wl: "wait_link (tcbs s') = wait_link (tcbs s)" using t v(1) by (auto simp: T wait_link_def)
  have bl: "(\<exists>u. tcbs s' b = Some u \<and> blocked_on u = Some w) \<longleftrightarrow> (\<exists>u. tcbs s b = Some u \<and> blocked_on u = Some w)" for b w
    using t v(2) by (auto simp: T)
  show ?thesis using win waiters_of_cong [OF _ ptr wl] unfolding waits_inv_def ptr bl by blast
qed

lemma waits_inv_lists:
  assumes inv: "waits_inv s W" and eq: "\<And>w. wptr s w \<noteq> None \<Longrightarrow> W' w = W w"
  shows "waits_inv s W'"
proof -
  have "wptr s w \<noteq> None \<and> a \<in> set (W' w) \<longleftrightarrow> wptr s w \<noteq> None \<and> a \<in> set (W w)" for w a using eq [of w] by metis
  then show ?thesis using inv eq unfolding waits_inv_def by metis
qed

lemma blocked_on_same:
  assumes "same_but_links T T'"
  shows "(\<exists>t. T' a = Some t \<and> blocked_on t = Some w) \<longleftrightarrow> (\<exists>t. T a = Some t \<and> blocked_on t = Some w)"
proof (cases "T a")
  case None
  then show ?thesis using same_but_links_None [OF assms, of a] by simp
next
  case (Some t)
  then obtain r v where "T' a = Some (t\<lparr>next_ready := r, mutex_wait_next := v\<rparr>)"
    by (rule same_but_links_Some [OF assms])
  then show ?thesis using Some by simp
qed

text \<open>A task that waits for no object changes its control block, or is new: no list changes.\<close>

lemma waits_inv_new:
  assumes inv: "waits_inv s W" and links: "same_but_ready ((tcbs s)(p \<mapsto> u)) (tcbs s')"
    and u: "blocked_on u = None" and old: "\<And>t. tcbs s p = Some t \<Longrightarrow> blocked_on t = None"
    and ptr: "\<And>w. wptr s' w = wptr s w"
  shows "waits_inv s' W"
proof -
  have l: "same_but_links ((tcbs s)(p \<mapsto> u)) (tcbs s')" using links by (rule same_but_links_ready)
  have out: "p \<notin> set (W w)" if "wptr s w \<noteq> None" for w using waits_inv_blocked [OF inv that] old by fastforce
  have "waiters_of s' w (W w)" if w: "wptr s w \<noteq> None" for w
  proof -
    have "wait_link (tcbs s') x = wait_link (tcbs s) x" if "x \<in> set (W w)" for x
      using same_but_ready_wait_link [OF links] out [OF w] that by (metis fun_upd_other wait_link_upd)
    then show ?thesis using waits_inv_list [OF inv w] wait_list_cong [of "W w" "tcbs s'" "tcbs s"] ptr
      by (auto simp: waiters_of_def)
  qed
  moreover have "wptr s w \<noteq> None \<and> a \<in> set (W w) \<longleftrightarrow> (\<exists>t. tcbs s' a = Some t \<and> blocked_on t = Some w)" for w a
  proof -
    have "wptr s w \<noteq> None \<and> a \<in> set (W w) \<longleftrightarrow> (\<exists>t. tcbs s a = Some t \<and> blocked_on t = Some w)"
      using inv unfolding waits_inv_def by blast
    then show ?thesis unfolding blocked_on_same [OF l] using u old by (cases "a = p") auto
  qed
  ultimately show ?thesis using ptr by (simp add: waits_inv_def)
qed

text \<open>One task changes its control block: it leaves its list, or joins one.\<close>

lemma waits_inv_drop:
  assumes inv: "waits_inv s W" and same: "same_but_links ((tcbs s)(a \<mapsto> u)) (tcbs s')"
    and u: "blocked_on u = None" and ptr: "\<And>w. wptr s' w = None \<longleftrightarrow> wptr s w = None"
    and lists: "\<And>w. wptr s w \<noteq> None \<Longrightarrow> waiters_of s' w (remove1 a (W w))"
  shows "waits_inv s' (\<lambda>w. removeAll a (W w))"
proof -
  have "wptr s' w \<noteq> None \<and> x \<in> set (removeAll a (W w)) \<longleftrightarrow> (\<exists>t. tcbs s' x = Some t \<and> blocked_on t = Some w)" for w x
  proof (cases "wptr s w = None")
    case True
    then have "\<nexists>t. tcbs s x = Some t \<and> blocked_on t = Some w" using inv unfolding waits_inv_def by blast
    then show ?thesis using True ptr u unfolding blocked_on_same [OF same] by auto
  next
    case False
    have "x \<in> set (W w) \<longleftrightarrow> (\<exists>t. tcbs s x = Some t \<and> blocked_on t = Some w)"
      using inv False unfolding waits_inv_def by blast
    then show ?thesis using False ptr u unfolding blocked_on_same [OF same] by auto
  qed
  moreover have "waiters_of s' w (removeAll a (W w))" if "wptr s w \<noteq> None" for w
    using lists [OF that] distinct_remove1_removeAll [OF waiters_of_distinct [OF waits_inv_list [OF inv that]]]
    by simp
  ultimately show ?thesis using ptr by (simp add: waits_inv_def)
qed

lemma waits_inv_join:
  assumes inv: "waits_inv s W" and same: "same_but_links ((tcbs s)(a \<mapsto> u)) (tcbs s')"
    and t: "tcbs s a = Some t" "blocked_on t = None"
    and u: "blocked_on u = Some v" "wptr s v \<noteq> None" and ptr: "\<And>w. wptr s' w = None \<longleftrightarrow> wptr s w = None"
    and lists: "\<And>w. wptr s w \<noteq> None \<Longrightarrow> waiters_of s' w ((W(v := W v @ [a])) w)"
  shows "waits_inv s' (W(v := W v @ [a]))"
proof -
  have "wptr s' w \<noteq> None \<and> x \<in> set ((W(v := W v @ [a])) w) \<longleftrightarrow>
      (\<exists>t. tcbs s' x = Some t \<and> blocked_on t = Some w)" for w x
  proof -
    have "wptr s w \<noteq> None \<and> x \<in> set (W w) \<longleftrightarrow> (\<exists>t. tcbs s x = Some t \<and> blocked_on t = Some w)"
      using inv unfolding waits_inv_def by blast
    then show ?thesis using t u ptr unfolding blocked_on_same [OF same] by (cases "x = a") auto
  qed
  then show ?thesis using lists ptr by (simp add: waits_inv_def)
qed

section \<open>Wait objects and the invariant\<close>

context wait_object
begin

lemma blocked_waiter:
  assumes "waits_inv s W" and "tcbs s a = Some u" and "blocked_on u = Some obj"
  shows "waiters_of s obj (W obj)" and "a \<in> set (W obj)" and "\<not> runnable u"
proof -
  have "wptr s obj \<noteq> None" "a \<in> set (W obj)" using waits_inv_mem [OF assms] by auto
  then show "waiters_of s obj (W obj)" "a \<in> set (W obj)" using waits_inv_list [OF assms(1)] by auto
  show "\<not> runnable u" using assms(3) by (auto simp: blocked_on_def runnable_def split: if_splits)
qed

text \<open>The lists of the other objects keep their tasks, and \<open>a\<close> is on none of them.\<close>

lemma other_lists:
  assumes inv: "waits_inv s W" and a: "a \<in> set (W obj)" "wptr s obj \<noteq> None"
    and T: "chain_frame (set (W obj)) (tcbs s) T" "same_but_ready (T(a \<mapsto> v)) (tcbs s')"
    and ptr: "\<And>w. w \<noteq> obj \<Longrightarrow> wptr s' w = wptr s w"
    and w: "wptr s w \<noteq> None" "w \<noteq> obj"
  shows "waiters_of s' w (remove1 a (W w))"
proof -
  have dj: "set (W w) \<inter> set (W obj) = {}" using waits_inv_disjoint [OF inv w(1) a(2) w(2)] .
  then have "a \<notin> set (W w)" using a(1) by blast
  then have "remove1 a (W w) = W w" by (rule remove1_idem)
  moreover have "wait_link (tcbs s') x = wait_link (tcbs s) x" if "x \<in> set (W w)" for x
  proof -
    have "x \<noteq> a" "x \<notin> set (W obj)" using that dj a(1) by auto
    then have "wait_link (T(a \<mapsto> v)) x = wait_link (tcbs s) x" using T(1) by (simp add: chain_frame_def wait_link_def)
    then show ?thesis using same_but_ready_wait_link [OF T(2)] by metis
  qed
  then have "wait_list (tcbs s') ht (W w) = wait_list (tcbs s) ht (W w)" for ht by (rule wait_list_cong)
  moreover have "waiters_of s w (W w)" using waits_inv_list [OF inv w(1)] .
  ultimately show ?thesis using ptr [OF w(2)] by (simp add: waiters_of_def)
qed

lemma wake_timeout_waits:
  assumes inv: "sched_inv s Q" and win: "waits_inv s W" and u: "tcbs s a = Some u"
    and on: "blocked_on u = Some obj" and here: "blocked_here u"
  obtains s' where "wake_timeout a s = Some s'"
    and "sched_inv s' (Q(unat (prio_bucket u) := Q (unat (prio_bucket u)) @ [a]))"
    and "waits_inv s' (\<lambda>w. removeAll a (W w))"
    and "same_but_links ((tcbs s)(a \<mapsto> timed_out u)) (tcbs s')" and "calm s' = calm s"
proof -
  note b = blocked_waiter [OF win u on]
  have p: "wptr s obj \<noteq> None" using b(1) by (auto simp: waiters_of_def)
  obtain s' ht T r where s': "wake_timeout a s = Some s'"
      "sched_inv s' (Q(unat (prio_bucket u) := Q (unat (prio_bucket u)) @ [a]))" "waiters_of s' obj (remove1 a (W obj))"
    and cf: "chain_frame (set (W obj)) (tcbs s) T" and t1: "T a = Some (u\<lparr>mutex_wait_next := r\<rparr>)"
    and fr: "ready_frame (set_wptr obj ht (s\<lparr>tcbs := T(a \<mapsto> timed_out (u\<lparr>mutex_wait_next := r\<rparr>))\<rparr>)) s'"
    by (rule wake_timeout_waiter [OF inv b(1) u here b(3)])
  let ?v = "timed_out (u\<lparr>mutex_wait_next := r\<rparr>)"
  have sr: "same_but_ready (T(a \<mapsto> ?v)) (tcbs s')" using fr by (auto simp: ready_frame_def)
  have ptr: "wptr s' w = wptr (set_wptr obj ht s) w" for w
  proof -
    have "wptr s' w = wptr (set_wptr obj ht (s\<lparr>tcbs := T(a \<mapsto> ?v)\<rparr>)) w"
      by (rule wptr_cong) (simp_all add: ready_frame_sel [OF fr])
    then show ?thesis by (metis set_wptr_more(1) wptr_tcbs)
  qed
  have links: "same_but_links ((tcbs s)(a \<mapsto> timed_out u)) (tcbs s')"
  proof (rule same_but_links_trans [OF same_but_links_upd same_but_links_ready [OF sr]])
    show "same_but_links (tcbs s) T" using cf by (simp add: chain_frame_def same_but_links_wait)
  qed (simp add: timed_out_wait)
  have "waits_inv s' (\<lambda>w. removeAll a (W w))"
  proof (rule waits_inv_drop [OF win links])
    show "blocked_on (timed_out u) = None" by (simp add: timed_out_state)
    show "wptr s' w = None \<longleftrightarrow> wptr s w = None" for w unfolding ptr using p by (cases "w = obj") simp_all
    show "waiters_of s' w (remove1 a (W w))" if "wptr s w \<noteq> None" for w
    proof (cases "w = obj")
      case False
      then show ?thesis using other_lists [OF win b(2) p cf sr _ that False] ptr by simp
    qed (use s' in simp)
  qed
  moreover have "calm s' = calm s" using ready_frame_calm [OF fr] by simp
  ultimately show thesis using that s' links by blast
qed

lemma detach_waits:
  assumes win: "waits_inv s W" and u: "tcbs s a = Some u" and a: "a \<noteq> NULL"
    and on: "blocked_on u = Some obj" and here: "blocked_here u"
  obtains ht T where "detach a s = Some (set_wptr obj ht (s\<lparr>tcbs := T\<rparr>))"
    and "same_but_wait ((tcbs s)(a \<mapsto> detached u)) T" and "T a = Some (detached u)"
    and "\<And>w v. wptr s w \<noteq> None \<Longrightarrow>
      waiters_of (set_wptr obj ht (s\<lparr>tcbs := T(a \<mapsto> v)\<rparr>)) w (remove1 a (W w))"
proof -
  note b = blocked_waiter [OF win u on]
  have p: "wptr s obj \<noteq> None" using b(1) by (auto simp: waiters_of_def)
  obtain ht T r where d: "detach a s = Some (set_wptr obj ht (s\<lparr>tcbs := T(a \<mapsto> detached u)\<rparr>))"
    and wl: "wait_list (T(a \<mapsto> detached u)) ht (remove1 a (W obj))"
    and cf: "chain_frame (set (W obj)) (tcbs s) T" and t1: "T a = Some (u\<lparr>mutex_wait_next := r\<rparr>)"
    using detach_waiter [OF b(1) u a here b(2)] by (metis detached_wait)
  have same: "same_but_wait ((tcbs s)(a \<mapsto> detached u)) (T(a \<mapsto> detached u))"
    using cf by (simp add: chain_frame_def same_but_wait_def)
  have "waiters_of (set_wptr obj ht (s\<lparr>tcbs := T(a \<mapsto> v)\<rparr>)) w (remove1 a (W w))" if "wptr s w \<noteq> None" for w v
  proof (cases "w = obj")
    case True
    have "a \<notin> set (remove1 a (W obj))" using waiters_of_distinct [OF b(1)] by simp
    then have "wait_list (T(a \<mapsto> v)) ht (remove1 a (W obj))"
      using wl wait_list_cong [of "remove1 a (W obj)" "T(a \<mapsto> detached u)" "T(a \<mapsto> v)" ht] by force
    then show ?thesis using True p by (simp add: waiters_of_def)
  next
    case False
    have "same_but_ready (T(a \<mapsto> v)) (tcbs (set_wptr obj ht (s\<lparr>tcbs := T(a \<mapsto> v)\<rparr>)))" by simp
    from other_lists [OF win b(2) p cf this _ that False] show ?thesis by simp
  qed
  then show thesis using that [OF d same] by simp
qed

text \<open>Detaching a task and clearing its block fields, as the deletion of a task does.\<close>

lemma detach_clears:
  assumes inv: "sched_inv s Q" and win: "waits_inv s W" and u: "tcbs s a = Some u"
    and on: "blocked_on u = Some obj" and here: "blocked_here u"
    and g: "\<And>x. blocked_on (g x) = None" "\<And>x. next_ready (g x) = next_ready x" "\<And>x. priority (g x) = priority x"
      "\<And>x. prio_bucket (g x) = prio_bucket x" "\<And>x. state (g x) = state x"
  obtains s' where "do { s \<leftarrow> detach a s; upd_tcb a g s } = Some s'" and "sched_inv s' Q"
    and "waits_inv s' (\<lambda>w. removeAll a (W w))" and "same_but_links ((tcbs s)(a \<mapsto> g (detached u))) (tcbs s')"
    and "calm s' = calm s"
proof -
  have nn: "a \<noteq> NULL" using inv u by (rule sched_inv_nonnull)
  have p: "wptr s obj \<noteq> None" using waits_inv_mem [OF win u on] by simp
  obtain ht T where d: "detach a s = Some (set_wptr obj ht (s\<lparr>tcbs := T\<rparr>))"
    and same: "same_but_wait ((tcbs s)(a \<mapsto> detached u)) T" and ta: "T a = Some (detached u)"
    and lists: "\<And>w v. wptr s w \<noteq> None \<Longrightarrow>
      waiters_of (set_wptr obj ht (s\<lparr>tcbs := T(a \<mapsto> v)\<rparr>)) w (remove1 a (W w))"
    using detach_waits [OF win u nn on here] by blast
  let ?v = "g (detached u)"
  let ?s' = "set_wptr obj ht (s\<lparr>tcbs := T(a \<mapsto> ?v)\<rparr>)"
  have eq: "do { s \<leftarrow> detach a s; upd_tcb a g s } = Some ?s'" using d ta nn by simp
  have sw: "same_but_wait ((tcbs s)(a \<mapsto> ?v)) (T(a \<mapsto> ?v))"
    using same unfolding same_but_wait_def by (metis fun_upd_apply)
  have "placed Q a ?v" using sched_inv_placed [OF inv u] by (rule placed_states) (simp_all add: g detached_same runnable_def)
  then have "sched_inv (s\<lparr>tcbs := (tcbs s)(a \<mapsto> ?v)\<rparr>) Q"
    using sched_inv_tcb_upd [OF inv u, of ?v] by (simp add: g detached_same)
  then have "sched_inv (s\<lparr>tcbs := T(a \<mapsto> ?v)\<rparr>) Q" using sched_inv_wait [of "s\<lparr>tcbs := (tcbs s)(a \<mapsto> ?v)\<rparr>" Q] sw by simp
  then have inv': "sched_inv ?s' Q" by (simp add: sched_inv_def ready_rel_def)
  have links: "same_but_links ((tcbs s)(a \<mapsto> ?v)) (tcbs ?s')" using same_but_links_wait [OF sw] by simp
  have "waits_inv ?s' (\<lambda>w. removeAll a (W w))"
  proof (rule waits_inv_drop [OF win links])
    show "wptr ?s' w = None \<longleftrightarrow> wptr s w = None" for w using p by (cases "w = obj") simp_all
  qed (simp_all add: g lists)
  with eq inv' links show thesis by (intro that [of ?s']) simp_all
qed

end

section \<open>Three copies of the list code\<close>

lemma mutex_enqueue_wptr:
  assumes "wptr s (MutexQ m) = Some ht"
  shows "mutex_wait_enqueue_tail m t s =
    map_option (\<lambda>(ht', T). set_wptr (MutexQ m) ht' (s\<lparr>tcbs := T\<rparr>)) (tcb_enqueue_tail ht t (tcbs s))"
proof -
  obtain mx where mx: "mutexes s m = Some mx" "m \<noteq> NULL" "ht = (wait_head mx, wait_tail mx)"
    using assms by (auto simp: wptr_def get_mutex_def fetch_def split: if_splits)
  have "with_mutex_list m s mx = (\<lambda>(ht', T). set_wptr (MutexQ m) ht' (s\<lparr>tcbs := T\<rparr>))"
    by (auto simp: fun_eq_iff with_mutex_list_wptr [OF mx(1)])
  with mutex_enqueue_eq [OF mx(1,2)] mx(3) show ?thesis by simp
qed

text \<open>
  C31. One list, three implementations. The mutex and the semaphore have their own copies of the code
  that links a task into a wait list and takes it out; the message queue has a version that
  is given pointers to the head and tail fields. On every state in which the object exists
  the copies compute the same result, faults and endless walks included, as the
  version of the message queue applied to the same list.
\<close>

theorem wait_list_code_equivalent:
  assumes "wptr s (MutexQ m) \<noteq> None" and "wptr s (SemQ sem) \<noteq> None" and "t \<noteq> NULL"
  shows "mutex_wait_unlink m t s = queue_unlink (MutexQ m) t s
    \<and> mutex_wait_enqueue_tail m t s = queue_enqueue (MutexQ m) t s
    \<and> sem_wait_unlink sem t s = queue_unlink (SemQ sem) t s
    \<and> sem_wait_enqueue sem t s = queue_enqueue (SemQ sem) t s
    \<and> sem_wait_pop_head sem s = queue_pop_head (SemQ sem) s"
proof -
  obtain ht ht' where p: "wptr s (MutexQ m) = Some ht" "wptr s (SemQ sem) = Some ht'" using assms by auto
  show ?thesis
    by (simp only: mutex_unlink_wptr [OF p(1) assms(3)] mutex_enqueue_wptr [OF p(1)] sem_unlink_wptr [OF p(2) assms(3)]
        sem_enqueue_wptr [OF p(2)] sem_pop_wptr [OF p(2)] queue_unlink_eq [OF p(1)] queue_unlink_eq [OF p(2)]
        queue_enqueue_eq [OF p(1)] queue_enqueue_eq [OF p(2)] queue_pop_eq [OF p(2)])
qed

theorem wait_list_code_equivalent_witness:
  "\<exists>s. mutexes s 256 \<noteq> None \<and> semaphores s 512 \<noteq> None \<and> mutex_wait_unlink 256 16 s = queue_unlink (MutexQ 256) 16 s
     \<and> sem_wait_pop_head 512 s = queue_pop_head (SemQ 512) s"
proof -
  let ?s = "blank_kernel\<lparr>tcbs := [16 \<mapsto> sample_task 70 TASK_STATE_BLOCKED 0],
      mutexes := [256 \<mapsto> \<lparr>locked = True, owner = 32, wait_head = 16, wait_tail = 16\<rparr>],
      semaphores := [512 \<mapsto> \<lparr>sem_count = 0, max_count = 1, sem_wait_head = 0, sem_wait_tail = 0\<rparr>]\<rparr>"
  have "wptr ?s (MutexQ 256) \<noteq> None" "wptr ?s (SemQ 512) \<noteq> None" by (simp_all add: wptr_def get_mutex_def get_sem_def fetch_def)
  from wait_list_code_equivalent [OF this, of 16] show ?thesis by (intro exI [of _ ?s]) simp
qed

end
