(* ===== verification/Rtos_Timer.thy ===== *)
theory Rtos_Timer
  imports Rtos_Block
begin

text \<open>
  The software timers of \<^verbatim>\<open>src/timer/sw_timer.c\<close>: a singly linked list sorted by expiry tick,
  processed from the tick interrupt. The callbacks are code of the application: the
  parameter \<open>cb\<close> of \<open>sw_timer_tick_process\<close> says what calling the function at an address
  with an argument does to the kernel state.
\<close>

section \<open>Operations\<close>

definition get_timer :: "kernel \<Rightarrow> addr \<Rightarrow> sw_timer_t option" where
  "get_timer s p = fetch (sw_timers s) p"

definition upd_timer :: "addr \<Rightarrow> (sw_timer_t \<Rightarrow> sw_timer_t) \<Rightarrow> kernel \<Rightarrow> kernel option" where
  "upd_timer p f s = map_option (\<lambda>st. s\<lparr>sw_timers := st\<rparr>) (modify p f (sw_timers s))"

lemma get_timer_Some [simp, store_simps]:
  "sw_timers s p = Some t \<Longrightarrow> p \<noteq> NULL \<Longrightarrow> get_timer s p = Some t"
  by (simp add: get_timer_def)

lemma upd_timer_Some [simp, store_simps]:
  "sw_timers s p = Some t \<Longrightarrow> p \<noteq> NULL \<Longrightarrow>
   upd_timer p f s = Some (s\<lparr>sw_timers := (sw_timers s)(p \<mapsto> f t)\<rparr>)"
  by (simp add: upd_timer_def)

definition sw_timer_init :: "kernel \<Rightarrow> kernel" where
  "sw_timer_init s = s\<lparr>timer_list := NULL\<rparr>"

text \<open>The walk of \<^verbatim>\<open>_insert_sorted\<close>: the last timer not after \<open>e\<close>, and the one behind it.\<close>

partial_function (option) insert_walk ::
    "(addr \<rightharpoonup> sw_timer_t) \<Rightarrow> u32 \<Rightarrow> addr \<Rightarrow> addr \<Rightarrow> (addr \<times> addr) option" where
  "insert_walk S e prev cur =
     (if cur = NULL then Some (prev, cur)
      else do {
        c \<leftarrow> fetch S cur;
        if expiry_tick c \<le> e then insert_walk S e cur (next_timer c) else Some (prev, cur)
      })"

definition insert_sorted :: "addr \<Rightarrow> kernel \<Rightarrow> kernel option" where
  "insert_sorted t s = do {
     x \<leftarrow> get_timer s t;
     (prev, cur) \<leftarrow> insert_walk (sw_timers s) (expiry_tick x) NULL (timer_list s);
     if prev = NULL then do {
       s \<leftarrow> upd_timer t (\<lambda>x. x\<lparr>next_timer := timer_list s\<rparr>) s;
       Some (s\<lparr>timer_list := t\<rparr>)
     } else do {
       s \<leftarrow> upd_timer t (\<lambda>x. x\<lparr>next_timer := cur\<rparr>) s;
       upd_timer prev (\<lambda>x. x\<lparr>next_timer := t\<rparr>) s
     }
   }"

text \<open>
  Starting a timer clears and fills the storage the caller provides at \<open>t\<close>; the storage need
  not hold a timer before.
\<close>

definition sw_timer_start_once ::
    "addr \<Rightarrow> u32 \<Rightarrow> addr \<Rightarrow> addr \<Rightarrow> kernel \<Rightarrow> (rtos_status_t \<times> kernel) option" where
  "sw_timer_start_once t delay_ticks cb arg s =
     (if t = NULL \<or> cb = NULL \<or> delay_ticks = 0 then Some (RTOS_ERR_PARAM, s)
      else do {
        let x = \<lparr>expiry_tick = rtos_get_tick s + delay_ticks, period_ticks = 0, callback = cb,
                 callback_arg = arg, periodic = False, active = True, next_timer = NULL\<rparr>;
        s \<leftarrow> insert_sorted t (s\<lparr>sw_timers := (sw_timers s)(t \<mapsto> x)\<rparr>);
        Some (RTOS_OK, s)
      })"

definition sw_timer_start_periodic ::
    "addr \<Rightarrow> u32 \<Rightarrow> addr \<Rightarrow> addr \<Rightarrow> kernel \<Rightarrow> (rtos_status_t \<times> kernel) option" where
  "sw_timer_start_periodic t period cb arg s =
     (if t = NULL \<or> cb = NULL \<or> period = 0 then Some (RTOS_ERR_PARAM, s)
      else do {
        let x = \<lparr>expiry_tick = rtos_get_tick s + period, period_ticks = period, callback = cb,
                 callback_arg = arg, periodic = True, active = True, next_timer = NULL\<rparr>;
        s \<leftarrow> insert_sorted t (s\<lparr>sw_timers := (sw_timers s)(t \<mapsto> x)\<rparr>);
        Some (RTOS_OK, s)
      })"

text \<open>The search of \<^verbatim>\<open>sw_timer_stop\<close>: \<open>Some (Some prev)\<close> when \<open>t\<close> is in the list.\<close>

partial_function (option) stop_walk ::
    "(addr \<rightharpoonup> sw_timer_t) \<Rightarrow> addr \<Rightarrow> addr \<Rightarrow> addr \<Rightarrow> addr option option" where
  "stop_walk S t prev cur =
     (if cur = NULL then Some None
      else if cur = t then Some (Some prev)
      else do {
        c \<leftarrow> fetch S cur;
        stop_walk S t cur (next_timer c)
      })"

definition sw_timer_stop :: "addr \<Rightarrow> kernel \<Rightarrow> kernel option" where
  "sw_timer_stop t s =
     (if t = NULL then Some s
      else do {
        found \<leftarrow> stop_walk (sw_timers s) t NULL (timer_list s);
        case found of
          None \<Rightarrow> Some s
        | Some prev \<Rightarrow> do {
            x \<leftarrow> get_timer s t;
            s \<leftarrow> (if prev = NULL then Some (s\<lparr>timer_list := next_timer x\<rparr>)
                 else upd_timer prev (\<lambda>p. p\<lparr>next_timer := next_timer x\<rparr>) s);
            upd_timer t (\<lambda>x. x\<lparr>next_timer := NULL, active := False\<rparr>) s
          }
      })"

type_synonym callbacks = "addr \<Rightarrow> addr \<Rightarrow> kernel \<Rightarrow> kernel option"

text \<open>The guard and the body of the loop of \<^verbatim>\<open>sw_timer_tick_process\<close>.\<close>

definition timer_due :: "u32 \<Rightarrow> kernel \<Rightarrow> bool option" where
  "timer_due now s =
     (if timer_list s = NULL then Some False
      else do {
        x \<leftarrow> get_timer s (timer_list s);
        Some (active x \<and> expiry_tick x \<le> now)
      })"

definition fire_timer :: "callbacks \<Rightarrow> u32 \<Rightarrow> kernel \<Rightarrow> kernel option" where
  "fire_timer cb now s = do {
     let due = timer_list s;
     x \<leftarrow> get_timer s due;
     let s = s\<lparr>timer_list := next_timer x\<rparr>;
     s \<leftarrow> upd_timer due (\<lambda>x. x\<lparr>next_timer := NULL\<rparr>) s;
     x \<leftarrow> get_timer s due;
     s \<leftarrow> (if callback x \<noteq> NULL then cb (callback x) (callback_arg x) s else Some s);
     x \<leftarrow> get_timer s due;
     if periodic x then do {
       s \<leftarrow> upd_timer due (\<lambda>x. x\<lparr>expiry_tick := now + period_ticks x, next_timer := NULL\<rparr>) s;
       insert_sorted due s
     } else upd_timer due (\<lambda>x. x\<lparr>active := False\<rparr>) s
   }"

partial_function (option) tick_loop :: "callbacks \<Rightarrow> u32 \<Rightarrow> kernel \<Rightarrow> kernel option" where
  "tick_loop cb now s = do {
     due \<leftarrow> timer_due now s;
     if due then do {
       s \<leftarrow> fire_timer cb now s;
       tick_loop cb now s
     } else Some s
   }"

definition sw_timer_tick_process :: "callbacks \<Rightarrow> kernel \<Rightarrow> kernel option" where
  "sw_timer_tick_process cb s = tick_loop cb (rtos_get_tick s) s"

section \<open>The sorted list of timers\<close>

definition timer_link :: "(addr \<rightharpoonup> sw_timer_t) \<Rightarrow> addr \<rightharpoonup> addr" where
  "timer_link S = (\<lambda>a. map_option next_timer (S a))"

definition expiry_at :: "(addr \<rightharpoonup> sw_timer_t) \<Rightarrow> addr \<Rightarrow> u32" where
  "expiry_at S a = expiry_tick (the (S a))"

definition timer_chain :: "(addr \<rightharpoonup> sw_timer_t) \<Rightarrow> addr \<Rightarrow> addr list \<Rightarrow> bool" where
  "timer_chain S p xs \<longleftrightarrow> distinct xs \<and> link_path (timer_link S) p xs NULL \<and>
     sorted (map (expiry_at S) xs) \<and> (\<forall>a \<in> set xs. \<exists>x. S a = Some x \<and> active x)"

definition timers :: "kernel \<Rightarrow> addr list \<Rightarrow> bool" where
  "timers s xs \<longleftrightarrow> timer_chain (sw_timers s) (timer_list s) xs"

definition insert_timer :: "(addr \<Rightarrow> u32) \<Rightarrow> addr \<Rightarrow> addr list \<Rightarrow> addr list" where
  "insert_timer f t xs = takeWhile (\<lambda>a. f a \<le> f t) xs @ t # dropWhile (\<lambda>a. f a \<le> f t) xs"

lemma timer_link_upd [simp]: "timer_link (S(a \<mapsto> x)) = (timer_link S)(a \<mapsto> next_timer x)"
  by (auto simp: timer_link_def)

lemma timer_self [simp]: "\<exists>r. y = y\<lparr>next_timer := r\<rparr>" for y :: sw_timer_t
  by (intro exI [of _ "next_timer y"]) simp

lemma timer_link_Some_iff: "timer_link S a = Some r \<longleftrightarrow> (\<exists>x. S a = Some x \<and> next_timer x = r)"
  by (auto simp: timer_link_def)

lemma insert_timer_set [simp]: "set (insert_timer f t xs) = insert t (set xs)"
proof -
  have "set xs = set (takeWhile (\<lambda>a. f a \<le> f t) xs) \<union> set (dropWhile (\<lambda>a. f a \<le> f t) xs)"
    by (metis set_append takeWhile_dropWhile_id)
  then show ?thesis by (auto simp: insert_timer_def)
qed

lemma insert_timer_distinct: "distinct xs \<Longrightarrow> t \<notin> set xs \<Longrightarrow> distinct (insert_timer f t xs)"
proof -
  assume d: "distinct xs" and t: "t \<notin> set xs"
  have "distinct (takeWhile (\<lambda>a. f a \<le> f t) xs @ dropWhile (\<lambda>a. f a \<le> f t) xs)" using d by simp
  moreover have "t \<notin> set (takeWhile (\<lambda>a. f a \<le> f t) xs)" "t \<notin> set (dropWhile (\<lambda>a. f a \<le> f t) xs)"
    using t by (auto dest: set_takeWhileD set_dropWhileD)
  ultimately show ?thesis by (auto simp: insert_timer_def simp del: takeWhile_dropWhile_id)
qed

lemma sorted_dropWhile_greater:
  "sorted (map f xs) \<Longrightarrow> x \<in> set (dropWhile (\<lambda>a. f a \<le> k) xs) \<Longrightarrow> k < (f x :: u32)"
  by (induction xs) (auto split: if_splits)

lemma sorted_insert_mid:
  "sorted (map f (as @ bs)) \<Longrightarrow> \<forall>a \<in> set as. f a \<le> f t \<Longrightarrow> \<forall>b \<in> set bs. f t \<le> f b \<Longrightarrow>
   sorted (map f (as @ t # bs))" for f :: "addr \<Rightarrow> u32"
  by (auto simp: sorted_append)

lemma insert_timer_sorted:
  assumes "sorted (map f xs)"
  shows "sorted (map f (insert_timer f t xs))"
  unfolding insert_timer_def
proof (rule sorted_insert_mid)
  show "sorted (map f (takeWhile (\<lambda>a. f a \<le> f t) xs @ dropWhile (\<lambda>a. f a \<le> f t) xs))" using assms by simp
  show "\<forall>a \<in> set (takeWhile (\<lambda>a. f a \<le> f t) xs). f a \<le> f t" by (blast dest: set_takeWhileD)
  show "\<forall>b \<in> set (dropWhile (\<lambda>a. f a \<le> f t) xs). f t \<le> f b"
    using sorted_dropWhile_greater [OF assms] by (meson less_imp_le)
qed

lemma link_path_start: "link_path h r ys NULL \<Longrightarrow> r = (case ys of [] \<Rightarrow> NULL | y # _ \<Rightarrow> y)"
  by (cases ys) auto

lemma insert_walk_chain:
  "link_path (timer_link S) p xs NULL \<Longrightarrow>
   insert_walk S e prev p =
     Some (if takeWhile (\<lambda>a. expiry_at S a \<le> e) xs = [] then prev
           else last (takeWhile (\<lambda>a. expiry_at S a \<le> e) xs),
           case dropWhile (\<lambda>a. expiry_at S a \<le> e) xs of [] \<Rightarrow> NULL | y # _ \<Rightarrow> y)"
proof (induction xs arbitrary: p prev)
  case Nil
  then show ?case by (simp add: insert_walk.simps [of S e prev 0])
next
  case (Cons x xs)
  then obtain t where t: "S x = Some t" "p = x" "x \<noteq> NULL" "link_path (timer_link S) (next_timer t) xs NULL"
    by (auto simp: timer_link_Some_iff)
  then show ?case
    using Cons.IH [OF t(4), of x]
    by (simp add: insert_walk.simps [of S e prev x] expiry_at_def)
qed

text \<open>Inserting an unlinked timer puts it behind all timers that do not expire later.\<close>

lemma insert_timer_chain:
  assumes tm: "timers s xs" and t: "sw_timers s t = Some x" "active x" and new: "t \<notin> set xs"
    and l: "link_path (timer_link S) p (insert_timer (expiry_at (sw_timers s)) t xs) NULL"
    and k: "\<And>a y. sw_timers s a = Some y \<Longrightarrow> \<exists>r. S a = Some (y\<lparr>next_timer := r\<rparr>)"
  shows "timer_chain S p (insert_timer (expiry_at (sw_timers s)) t xs)"
proof -
  let ?f = "expiry_at (sw_timers s)"
  have ds: "distinct xs" and srt: "sorted (map ?f xs)" and act: "\<forall>a \<in> set xs. \<exists>x. sw_timers s a = Some x \<and> active x"
    using tm by (auto simp: timers_def timer_chain_def)
  have live: "\<exists>y. sw_timers s a = Some y \<and> active y" if "a \<in> insert t (set xs)" for a using act t that by auto
  have "expiry_at S a = ?f a \<and> (\<exists>x. S a = Some x \<and> active x)" if "a \<in> insert t (set xs)" for a
    using live [OF that] k by (fastforce simp: expiry_at_def)
  then have eq: "map (expiry_at S) (insert_timer ?f t xs) = map ?f (insert_timer ?f t xs)"
    and "\<forall>a \<in> set (insert_timer ?f t xs). \<exists>x. S a = Some x \<and> active x" by simp_all
  then show ?thesis using l insert_timer_sorted [OF srt, of t] insert_timer_distinct [OF ds new, of ?f]
    unfolding timer_chain_def eq by simp
qed

lemma insert_sorted_refines:
  assumes tm: "timers s xs" and t: "sw_timers s t = Some x" "t \<noteq> NULL" "active x" and new: "t \<notin> set xs"
  obtains S p where "insert_sorted t s = Some (s\<lparr>sw_timers := S, timer_list := p\<rparr>)"
    and "timer_chain S p (insert_timer (expiry_at (sw_timers s)) t xs)"
    and "\<And>a y. sw_timers s a = Some y \<Longrightarrow> \<exists>r. S a = Some (y\<lparr>next_timer := r\<rparr>)"
    and "\<And>a. a \<notin> insert t (set xs) \<Longrightarrow> S a = sw_timers s a"
proof -
  let ?S = "sw_timers s" and ?e = "expiry_tick x"
  let ?P = "\<lambda>a. expiry_at ?S a \<le> ?e"
  let ?pre = "takeWhile ?P xs" and ?post = "dropWhile ?P xs"
  let ?cur = "case ?post of [] \<Rightarrow> NULL | y # _ \<Rightarrow> y"
  have ds: "distinct xs" and path: "link_path (timer_link ?S) (timer_list s) xs NULL"
    and act: "\<forall>a \<in> set xs. \<exists>x. ?S a = Some x \<and> active x"
    using tm by (auto simp: timers_def timer_chain_def)
  have et: "expiry_at ?S t = ?e" using t by (simp add: expiry_at_def)
  have ins: "insert_timer (expiry_at ?S) t xs = ?pre @ t # ?post" by (simp add: insert_timer_def et)
  have walk: "insert_walk ?S ?e NULL (timer_list s) = Some (if ?pre = [] then NULL else last ?pre, ?cur)"
    using insert_walk_chain [OF path] .
  have xs: "?pre @ ?post = xs" by simp
  obtain r where p1: "link_path (timer_link ?S) (timer_list s) ?pre r" and p2: "link_path (timer_link ?S) r ?post NULL"
    using path by (subst (asm) xs [symmetric]) (unfold link_path_append, blast)
  have r: "r = ?cur" using p2 by (rule link_path_start)
  have dpp: "set ?pre \<inter> set ?post = {}" and dpre: "distinct ?pre" using ds xs by (metis distinct_append)+
  have tn: "t \<notin> set ?pre" "t \<notin> set ?post" using new by (auto dest: set_takeWhileD set_dropWhileD)
  have chain: "timer_chain S p (?pre @ t # ?post)"
    if "link_path (timer_link S) p (?pre @ t # ?post) NULL"
      and "\<And>a y. ?S a = Some y \<Longrightarrow> \<exists>r. S a = Some (y\<lparr>next_timer := r\<rparr>)" for S p
    using insert_timer_chain [OF tm t(1,3) new, of S p] that unfolding ins by blast
  show thesis
  proof (cases "?pre = []")
    case True
    let ?S' = "?S(t \<mapsto> x\<lparr>next_timer := timer_list s\<rparr>)"
    have eq: "insert_sorted t s = Some (s\<lparr>sw_timers := ?S', timer_list := t\<rparr>)"
      using True walk t by (simp add: insert_sorted_def)
    have "link_path (timer_link ?S') t (?pre @ t # ?post) NULL"
      using True p1 p2 tn t by simp
    then have "timer_chain ?S' t (?pre @ t # ?post)" by (rule chain) (use t in auto)
    then show thesis by (intro that [OF eq]) (use t ins in auto)
  next
    case False
    let ?l = "last ?pre"
    have lin: "?l \<in> set ?pre" using False by simp
    then have "?l \<in> set xs" by (auto dest: set_takeWhileD)
    then obtain y where y: "?S ?l = Some y" "?l \<noteq> NULL" using act link_path_live [OF path] by auto
    have lt: "?l \<noteq> t" using lin tn by auto
    let ?S' = "?S(t \<mapsto> x\<lparr>next_timer := ?cur\<rparr>, ?l \<mapsto> y\<lparr>next_timer := t\<rparr>)"
    have eq: "insert_sorted t s = Some (s\<lparr>sw_timers := ?S', timer_list := timer_list s\<rparr>)"
      using False walk t y lt by (simp add: insert_sorted_def)
    have "link_path ((timer_link ?S)(?l \<mapsto> t)) (timer_list s) ?pre t"
      using p1 False dpre by (rule link_path_last_upd)
    moreover have "?l \<notin> set ?post" using lin dpp by auto
    ultimately have "link_path (timer_link ?S') (timer_list s) (?pre @ t # ?post) NULL"
      using tn lt p2 r t by (auto simp: fun_upd_twist)
    then have "timer_chain ?S' (timer_list s) (?pre @ t # ?post)" by (rule chain) (use t y lt in auto)
    then show thesis by (intro that [OF eq]) (use t y ins lin lt in \<open>auto dest: set_takeWhileD\<close>)
  qed
qed

text \<open>The timer objects outside the list and the settings of the listed ones are not touched.\<close>

definition timer_frame :: "addr set \<Rightarrow> (addr \<rightharpoonup> sw_timer_t) \<Rightarrow> (addr \<rightharpoonup> sw_timer_t) \<Rightarrow> bool" where
  "timer_frame A S S' \<longleftrightarrow> (\<forall>a. a \<notin> A \<longrightarrow> S' a = S a) \<and>
     (\<forall>a y. S a = Some y \<longrightarrow> (\<exists>r. S' a = Some (y\<lparr>next_timer := r\<rparr>)))"

lemma timer_frame_Some:
  "timer_frame A S S' \<Longrightarrow> S a = Some y \<Longrightarrow> \<exists>r. S' a = Some (y\<lparr>next_timer := r\<rparr>)"
  by (simp add: timer_frame_def)

lemma timer_chain_unlisted:
  assumes "timer_chain S p xs" and "t \<notin> set xs"
  shows "timer_chain (S(t \<mapsto> x)) p xs"
proof -
  have eq: "map (expiry_at (S(t \<mapsto> x))) xs = map (expiry_at S) xs" using assms(2) by (auto simp: expiry_at_def)
  show ?thesis using assms unfolding timer_chain_def eq by auto
qed

lemma start_refines:
  assumes tm: "timers s xs" and t: "t \<noteq> NULL" "t \<notin> set xs" and x: "active x"
  obtains S p where
    "insert_sorted t (s\<lparr>sw_timers := (sw_timers s)(t \<mapsto> x)\<rparr>) = Some (s\<lparr>sw_timers := S, timer_list := p\<rparr>)"
    and "timer_chain S p (insert_timer ((expiry_at (sw_timers s))(t := expiry_tick x)) t xs)"
    and "timer_frame (insert t (set xs)) ((sw_timers s)(t \<mapsto> x)) S"
proof -
  let ?s = "s\<lparr>sw_timers := (sw_timers s)(t \<mapsto> x)\<rparr>"
  have tm1: "timers ?s xs" using tm t timer_chain_unlisted by (simp add: timers_def)
  have ex: "expiry_at (sw_timers ?s) = (expiry_at (sw_timers s))(t := expiry_tick x)"
    by (auto simp: expiry_at_def)
  obtain S p where ins: "insert_sorted t ?s = Some (?s\<lparr>sw_timers := S, timer_list := p\<rparr>)"
    and ch: "timer_chain S p (insert_timer (expiry_at (sw_timers ?s)) t xs)"
    and keep: "\<And>a y. sw_timers ?s a = Some y \<Longrightarrow> \<exists>r. S a = Some (y\<lparr>next_timer := r\<rparr>)"
    and out: "\<And>a. a \<notin> insert t (set xs) \<Longrightarrow> S a = sw_timers ?s a"
    by (rule insert_sorted_refines [OF tm1, of t x]) (use t x in simp_all)
  have "timer_frame (insert t (set xs)) ((sw_timers s)(t \<mapsto> x)) S"
    using keep out by (simp add: timer_frame_def)
  then show thesis using that [OF _ ch [unfolded ex]] ins by simp
qed

text \<open>
  C28. Starting a timer. \<open>sw_timer_start_once\<close> and \<open>sw_timer_start_periodic\<close> on a timer that is
  not running put it into the list behind all timers that expire no later, with the expiry
  tick \<open>now + delay\<close>; the list stays sorted and every listed timer stays active.
\<close>

theorem sw_timer_start_sorted:
  assumes "timers s xs" and "t \<noteq> NULL" and "t \<notin> set xs" and "cb \<noteq> NULL" and "n \<noteq> 0"
  shows "\<exists>s' x. (if per then sw_timer_start_periodic t n cb arg s else sw_timer_start_once t n cb arg s)
      = Some (RTOS_OK, s')
    \<and> timers s' (insert_timer ((expiry_at (sw_timers s))(t := s_rtos_tick_count s + n)) t xs)
    \<and> sw_timers s' t = Some x \<and> expiry_tick x = s_rtos_tick_count s + n \<and> active x
    \<and> callback x = cb \<and> callback_arg x = arg \<and> periodic x = per \<and> period_ticks x = (if per then n else 0)"
proof -
  define x where "x = \<lparr>expiry_tick = s_rtos_tick_count s + n, period_ticks = (if per then n else 0),
      callback = cb, callback_arg = arg, periodic = per, active = True, next_timer = NULL\<rparr>"
  have x: "expiry_tick x = s_rtos_tick_count s + n" "active x" by (simp_all add: x_def)
  obtain S p where ins: "insert_sorted t (s\<lparr>sw_timers := (sw_timers s)(t \<mapsto> x)\<rparr>)
      = Some (s\<lparr>sw_timers := S, timer_list := p\<rparr>)"
    and ch: "timer_chain S p (insert_timer ((expiry_at (sw_timers s))(t := expiry_tick x)) t xs)"
    and fr: "timer_frame (insert t (set xs)) ((sw_timers s)(t \<mapsto> x)) S"
    by (rule start_refines [OF assms(1-3) x(2)])
  obtain r where "S t = Some (x\<lparr>next_timer := r\<rparr>)" using timer_frame_Some [OF fr, of t x] by auto
  with ins ch [unfolded x(1)] assms show ?thesis
    by (cases per)
       (simp_all add: sw_timer_start_periodic_def sw_timer_start_once_def timers_def rtos_get_tick_def x_def)
qed

section \<open>Stopping\<close>

lemma stop_walk_absent:
  "link_path (timer_link S) p xs NULL \<Longrightarrow> t \<notin> set xs \<Longrightarrow> stop_walk S t prev p = Some None"
proof (induction xs arbitrary: p prev)
  case Nil
  then show ?case by (simp add: stop_walk.simps [of S t prev 0])
next
  case (Cons x xs)
  then show ?case by (auto simp: stop_walk.simps [of S t prev x] timer_link_Some_iff)
qed

lemma stop_walk_found:
  "link_path (timer_link S) p (xs @ t # ys) NULL \<Longrightarrow> t \<notin> set xs \<Longrightarrow>
   stop_walk S t prev p = Some (Some (if xs = [] then prev else last xs))"
proof (induction xs arbitrary: p prev)
  case Nil
  then show ?case by (auto simp: stop_walk.simps [of S t prev t])
next
  case (Cons x xs)
  then obtain u where "S x = Some u" "p = x" "x \<noteq> NULL"
      "link_path (timer_link S) (next_timer u) (xs @ t # ys) NULL" "x \<noteq> t"
    by (auto simp: timer_link_Some_iff)
  then show ?case
    using Cons.IH [of "next_timer u" x] Cons.prems(2) by (simp add: stop_walk.simps [of S t prev x])
qed

lemma timer_chain_remove:
  assumes ch: "timer_chain S p (us @ t # vs)" and path: "link_path (timer_link S') q (us @ vs) NULL"
    and keep: "\<And>a y. a \<in> set (us @ vs) \<Longrightarrow> S a = Some y \<Longrightarrow> \<exists>r. S' a = Some (y\<lparr>next_timer := r\<rparr>)"
  shows "timer_chain S' q (us @ vs)"
proof -
  have act: "\<forall>a \<in> set (us @ vs). \<exists>x. S a = Some x \<and> active x" using ch by (auto simp: timer_chain_def)
  have "expiry_at S' a = expiry_at S a" if "a \<in> set (us @ vs)" for a
    using keep [OF that] act that by (fastforce simp: expiry_at_def)
  then have eq: "map (expiry_at S') (us @ vs) = map (expiry_at S) (us @ vs)" by simp
  have "\<exists>x. S' a = Some x \<and> active x" if "a \<in> set (us @ vs)" for a
    using keep [OF that] act that by fastforce
  moreover have "sorted (map (expiry_at S) (us @ vs))" "distinct (us @ vs)"
    using ch by (auto simp: timer_chain_def sorted_append)
  ultimately show ?thesis using path unfolding timer_chain_def eq by auto
qed

text \<open>
  Stopping a timer. \<open>sw_timer_stop\<close> takes a listed timer out of the list, wherever it
  stands, marks it inactive and leaves the order of the others; an unlisted timer is left
  alone.
\<close>

theorem sw_timer_stop_removes:
  assumes tm: "timers s xs" and t: "t \<noteq> NULL"
  shows "\<exists>s'. sw_timer_stop t s = Some s' \<and> timers s' (remove1 t xs)
    \<and> (t \<in> set xs \<longrightarrow> (\<exists>x. sw_timers s' t = Some x \<and> \<not> active x)) \<and> (t \<notin> set xs \<longrightarrow> s' = s)"
proof (cases "t \<in> set xs")
  case False
  then show ?thesis
    using tm t stop_walk_absent [of "sw_timers s" "timer_list s" xs t NULL]
    by (auto simp: sw_timer_stop_def timers_def timer_chain_def remove1_idem)
next
  case True
  then obtain us vs where xs: "xs = us @ t # vs" and us: "t \<notin> set us" by (metis split_list_first)
  let ?S = "sw_timers s"
  have ch: "timer_chain ?S (timer_list s) (us @ t # vs)" using tm xs by (simp add: timers_def)
  then have path: "link_path (timer_link ?S) (timer_list s) (us @ t # vs) NULL" and ds: "distinct (us @ t # vs)"
    by (auto simp: timer_chain_def)
  obtain x where x: "?S t = Some x" using ch by (auto simp: timer_chain_def)
  have px: "link_path (timer_link ?S) (timer_list s) us t"
    and pv: "link_path (timer_link ?S) (next_timer x) vs NULL" using path x by (auto simp: timer_link_Some_iff)
  have walk: "stop_walk ?S t NULL (timer_list s) = Some (Some (if us = [] then NULL else last us))"
    using stop_walk_found [OF path us] .
  let ?x = "x\<lparr>next_timer := NULL, active := False\<rparr>"
  have rm: "remove1 t xs = us @ vs" using xs us by (simp add: remove1_append)
  show ?thesis
  proof (cases "us = []")
    case True
    let ?S' = "?S(t \<mapsto> ?x)"
    have "timer_chain ?S' (next_timer x) (us @ vs)"
      by (rule timer_chain_remove [OF ch]) (use True pv ds in auto)
    moreover have "sw_timer_stop t s = Some (s\<lparr>sw_timers := ?S', timer_list := next_timer x\<rparr>)"
      using t x walk True by (simp add: sw_timer_stop_def)
    ultimately show ?thesis using rm xs by (simp add: timers_def)
  next
    case False
    let ?l = "last us"
    have lin: "?l \<in> set us" using False by simp
    obtain y where y: "?S ?l = Some y" using ch lin by (auto simp: timer_chain_def)
    have l: "?l \<noteq> NULL" "?l \<noteq> t" "?l \<notin> set vs" using lin ds us link_path_nonnull [OF px] by auto
    let ?S' = "?S(?l \<mapsto> y\<lparr>next_timer := next_timer x\<rparr>, t \<mapsto> ?x)"
    have "link_path ((timer_link ?S)(?l \<mapsto> next_timer x)) (timer_list s) us (next_timer x)"
      using px False ds by (auto intro: link_path_last_upd)
    then have "link_path (timer_link ?S') (timer_list s) (us @ vs) NULL" using us ds pv l by auto
    then have "timer_chain ?S' (timer_list s) (us @ vs)"
      by (rule timer_chain_remove [OF ch]) (use ds us y in auto)
    moreover have "sw_timer_stop t s = Some (s\<lparr>sw_timers := ?S'\<rparr>)"
      using t x walk False y l by (simp add: sw_timer_stop_def)
    ultimately show ?thesis using rm xs by (simp add: timers_def)
  qed
qed

section \<open>Processing a tick\<close>

text \<open>
  Callbacks are kept minimal, the header asks: a quiet callback returns and leaves the timers
  alone.
\<close>

definition quiet_callbacks :: "callbacks \<Rightarrow> bool" where
  "quiet_callbacks cb \<longleftrightarrow>
     (\<forall>f arg s. \<exists>s'. cb f arg s = Some s' \<and> sw_timers s' = sw_timers s \<and> timer_list s' = timer_list s)"

definition rearmed :: "u32 \<Rightarrow> sw_timer_t \<Rightarrow> sw_timer_t" where
  "rearmed now x = (if periodic x then x\<lparr>expiry_tick := now + period_ticks x\<rparr> else x\<lparr>active := False\<rparr>)"

definition rearm_ok :: "u32 \<Rightarrow> sw_timer_t \<Rightarrow> bool" where
  "rearm_ok now x \<longleftrightarrow> (periodic x \<longrightarrow> period_ticks x \<noteq> 0 \<and> unat now + unat (period_ticks x) < 2 ^ 32)"

lemma rearm_later:
  assumes "rearm_ok now x" and "periodic x"
  shows "now < now + period_ticks x"
proof -
  have "unat (now + period_ticks x) = unat now + unat (period_ticks x)"
    using assms by (simp add: rearm_ok_def unat_word_ariths)
  moreover have "0 < unat (period_ticks x)" using assms by (simp add: rearm_ok_def unat_gt_0)
  ultimately show ?thesis by (simp add: word_less_nat_alt)
qed

lemma timer_due_head:
  "timers s (a # xs) \<Longrightarrow> sw_timers s a = Some x \<Longrightarrow> timer_due now s = Some (expiry_tick x \<le> now)"
  by (auto simp: timers_def timer_chain_def timer_due_def)

lemma timers_live: "timers s xs \<Longrightarrow> a \<in> set xs \<Longrightarrow> \<exists>x. sw_timers s a = Some x \<and> active x"
  by (simp add: timers_def timer_chain_def)

lemma timer_due_empty: "timers s [] \<Longrightarrow> timer_due now s = Some False"
  by (simp add: timers_def timer_chain_def timer_due_def)

lemma timers_tail:
  assumes tm: "timers s (a # xs)" and x: "sw_timers s a = Some x"
  shows "timer_chain ((sw_timers s)(a \<mapsto> y)) (next_timer x) xs" and "a \<notin> set xs" and "timer_list s = a" and "a \<noteq> NULL"
proof -
  have ch: "timer_chain (sw_timers s) a (a # xs)" "timer_list s = a"
    using tm by (auto simp: timers_def timer_chain_def)
  then have "timer_chain (sw_timers s) (next_timer x) xs" "a \<notin> set xs" "a \<noteq> NULL"
    using x by (auto simp: timer_chain_def timer_link_Some_iff)
  then show "timer_chain ((sw_timers s)(a \<mapsto> y)) (next_timer x) xs" "a \<notin> set xs" "a \<noteq> NULL" "timer_list s = a"
    using timer_chain_unlisted ch(2) by auto
qed

text \<open>One pass through the loop: the head of the list fires and is re-armed or retired.\<close>

lemma quiet_call:
  assumes "quiet_callbacks cb"
  obtains s' where "(if callback x \<noteq> NULL then cb (callback x) (callback_arg x) s else Some s) = Some s'"
    and "sw_timers s' = sw_timers s" and "timer_list s' = timer_list s"
proof (cases "callback x \<noteq> NULL")
  case True
  obtain s' where "cb (callback x) (callback_arg x) s = Some s'" "sw_timers s' = sw_timers s" "timer_list s' = timer_list s"
    using assms unfolding quiet_callbacks_def by blast
  with True that show thesis by simp
qed (use that in simp)

lemma fire_refines:
  assumes cb: "quiet_callbacks cb" and tm: "timers s (a # xs)" and x: "sw_timers s a = Some x"
  obtains s' where "fire_timer cb now s = Some s'"
    and "timers s' (if periodic x then insert_timer ((expiry_at (sw_timers s))(a := now + period_ticks x)) a xs else xs)"
    and "\<And>b y. sw_timers s b = Some y \<Longrightarrow>
           \<exists>r. sw_timers s' b = Some ((if b = a then rearmed now y else y)\<lparr>next_timer := r\<rparr>)"
proof -
  note tl = timers_tail [OF tm x]
  let ?x0 = "x\<lparr>next_timer := NULL\<rparr>"
  let ?s0 = "s\<lparr>sw_timers := (sw_timers s)(a \<mapsto> ?x0), timer_list := next_timer x\<rparr>"
  obtain s1 where s1: "(if callback ?x0 \<noteq> NULL then cb (callback ?x0) (callback_arg ?x0) ?s0 else Some ?s0) = Some s1"
    and same: "sw_timers s1 = (sw_timers s)(a \<mapsto> ?x0)" "timer_list s1 = next_timer x"
    using quiet_call [OF cb, of ?x0 ?s0] by auto
  have act: "active x" using tm x by (auto simp: timers_def timer_chain_def)
  show thesis
  proof (cases "periodic x")
    case False
    let ?s' = "s1\<lparr>sw_timers := (sw_timers s)(a \<mapsto> ?x0\<lparr>active := False\<rparr>)\<rparr>"
    have "fire_timer cb now s = Some ?s'"
      using tl(3,4) x s1 same False by (simp add: fire_timer_def Let_def)
    moreover have "timers ?s' xs" using tl(1) same by (simp add: timers_def)
    ultimately show thesis
      using False x by (intro that) (auto simp: rearmed_def intro: exI [of _ NULL])
  next
    case True
    let ?y = "x\<lparr>expiry_tick := now + period_ticks x, next_timer := NULL\<rparr>"
    have tm1: "timers s1 xs" using tl(1) same by (simp add: timers_def)
    have y: "active ?y" using act by simp
    obtain S p where ins: "insert_sorted a (s1\<lparr>sw_timers := (sw_timers s1)(a \<mapsto> ?y)\<rparr>) = Some (s1\<lparr>sw_timers := S, timer_list := p\<rparr>)"
      and ch: "timer_chain S p (insert_timer ((expiry_at (sw_timers s1))(a := expiry_tick ?y)) a xs)"
      and fr: "timer_frame (insert a (set xs)) ((sw_timers s1)(a \<mapsto> ?y)) S"
      by (rule start_refines [OF tm1 tl(4,2) y])
    have "(expiry_at (sw_timers s1))(a := expiry_tick ?y) = (expiry_at (sw_timers s))(a := now + period_ticks x)"
      using same by (auto simp: expiry_at_def)
    with ch have tm': "timers (s1\<lparr>sw_timers := S, timer_list := p\<rparr>)
        (insert_timer ((expiry_at (sw_timers s))(a := now + period_ticks x)) a xs)" by (simp add: timers_def)
    have fire: "fire_timer cb now s = Some (s1\<lparr>sw_timers := S, timer_list := p\<rparr>)"
      using tl(3,4) x s1 same True ins by (simp add: fire_timer_def Let_def)
    have keep: "\<exists>r. S b = Some ((if b = a then rearmed now y else y)\<lparr>next_timer := r\<rparr>)" if b: "sw_timers s b = Some y" for b y
    proof (cases "b = a")
      case eq: True
      obtain r where "S a = Some (?y\<lparr>next_timer := r\<rparr>)" using timer_frame_Some [OF fr, of a ?y] by auto
      then show ?thesis using eq b x True by (auto simp: rearmed_def intro: exI [of _ r])
    next
      case False
      then show ?thesis using timer_frame_Some [OF fr, of b y] b same by auto
    qed
    show thesis by (rule that [OF fire]) (use tm' True keep in simp_all)
  qed
qed

lemma takeWhile_insert_due:
  assumes "\<forall>d \<in> set ds. f d \<le> f a"
  shows "insert_timer f a (ds @ ys) = ds @ insert_timer f a ys"
  using assms by (simp add: insert_timer_def takeWhile_append2 dropWhile_append2)

text \<open>Firing the first of several due timers: the others stay due, and the re-armed one is behind them.\<close>

lemma fire_head:
  assumes cb: "quiet_callbacks cb" and tm: "timers s (a # ds @ ys)" and x: "sw_timers s a = Some x"
    and due: "\<forall>b \<in> set (a # ds). \<exists>y. sw_timers s b = Some y \<and> expiry_tick y \<le> now \<and> rearm_ok now y"
    and late: "\<forall>b \<in> set ys. now < expiry_at (sw_timers s) b"
  obtains s1 vs where "timer_due now s = Some True" and "fire_timer cb now s = Some s1" and "a \<notin> set (ds @ ys)"
    and "timers s1 (ds @ vs)" and "set vs = (if periodic x then insert a (set ys) else set ys)"
    and "\<And>b y. sw_timers s b = Some y \<Longrightarrow>
           \<exists>r. sw_timers s1 b = Some ((if b = a then rearmed now y else y)\<lparr>next_timer := r\<rparr>)"
    and "\<forall>b \<in> set ds. \<exists>y. sw_timers s1 b = Some y \<and> expiry_tick y \<le> now \<and> rearm_ok now y"
    and "\<forall>b \<in> set vs. now < expiry_at (sw_timers s1) b"
proof -
  have xd: "expiry_tick x \<le> now" "rearm_ok now x" using due x by auto
  let ?f = "(expiry_at (sw_timers s))(a := now + period_ticks x)"
  let ?ys = "if periodic x then insert_timer ?f a ys else ys"
  obtain s1 where fire: "fire_timer cb now s = Some s1"
    and tm1: "timers s1 (if periodic x then insert_timer ?f a (ds @ ys) else ds @ ys)"
    and keep: "\<And>b y. sw_timers s b = Some y \<Longrightarrow>
           \<exists>r. sw_timers s1 b = Some ((if b = a then rearmed now y else y)\<lparr>next_timer := r\<rparr>)"
    using fire_refines [OF cb tm x, of now] by blast
  have notin: "a \<notin> set (ds @ ys)" using timers_tail(2) [OF tm x] .
  have other: "\<exists>r. sw_timers s1 b = Some (y\<lparr>next_timer := r\<rparr>)" if "sw_timers s b = Some y" "b \<noteq> a" for b y
    using keep [OF that(1)] that(2) by auto
  have "\<forall>d \<in> set ds. ?f d \<le> ?f a" if "periodic x"
    using due notin rearm_later [OF xd(2) that] by (fastforce simp: expiry_at_def)
  then have tm1': "timers s1 (ds @ ?ys)" using tm1 takeWhile_insert_due [of ds ?f a ys] by auto
  have "\<exists>y. sw_timers s1 b = Some y \<and> expiry_tick y \<le> now \<and> rearm_ok now y" if b: "b \<in> set ds" for b
  proof -
    obtain y where y: "sw_timers s b = Some y" "expiry_tick y \<le> now" "rearm_ok now y" "b \<noteq> a" using due notin b by auto
    then show ?thesis using other [OF y(1,4)] by (auto simp: rearm_ok_def)
  qed
  moreover have "now < expiry_at (sw_timers s1) b" if b: "b \<in> set ?ys" for b
  proof (cases "b = a")
    case True
    then have per: "periodic x" using b notin by (auto split: if_splits)
    then show ?thesis using keep [OF x] rearm_later [OF xd(2) per] True by (auto simp: expiry_at_def rearmed_def)
  next
    case False
    then have mem: "b \<in> set ys" using b by (auto split: if_splits)
    then obtain y where "sw_timers s b = Some y" using timers_live [OF tm, of b] by auto
    then show ?thesis using other [OF _ False] bspec [OF late mem] by (fastforce simp: expiry_at_def)
  qed
  moreover have "timer_due now s = Some True" using timer_due_head [OF tm x] xd(1) by simp
  ultimately show thesis using that [of s1 ?ys] fire notin tm1' keep by simp
qed

lemma late_stops:
  assumes "timers s ys" and "\<forall>a \<in> set ys. now < expiry_at (sw_timers s) a"
  shows "tick_loop cb now s = Some s"
proof -
  have "timer_due now s = Some False"
  proof (cases ys)
    case Nil
    then show ?thesis using assms timer_due_empty by simp
  next
    case (Cons y zs)
    then obtain x where "sw_timers s y = Some x" using assms(1) by (auto simp: timers_def timer_chain_def)
    then show ?thesis using timer_due_head [of s y zs x now] assms Cons by (simp add: expiry_at_def not_le)
  qed
  then show ?thesis by (simp add: tick_loop.simps [of cb now s])
qed

lemma tick_loop_due:
  assumes "quiet_callbacks cb" and "timers s (ds @ ys)"
    and "\<forall>a \<in> set ds. \<exists>x. sw_timers s a = Some x \<and> expiry_tick x \<le> now \<and> rearm_ok now x"
    and "\<forall>a \<in> set ys. now < expiry_at (sw_timers s) a"
  shows "\<exists>s' zs. tick_loop cb now s = Some s' \<and> timers s' zs
    \<and> (\<forall>a \<in> set zs. now < expiry_at (sw_timers s') a)
    \<and> set zs = set ys \<union> {a \<in> set ds. \<exists>x. sw_timers s a = Some x \<and> periodic x}
    \<and> (\<forall>b y. sw_timers s b = Some y \<longrightarrow>
         (\<exists>r. sw_timers s' b = Some ((if b \<in> set ds then rearmed now y else y)\<lparr>next_timer := r\<rparr>)))"
  using assms
proof (induction ds arbitrary: s ys)
  case Nil
  then show ?case using late_stops [of s ys now cb] by (intro exI [of _ s] exI [of _ ys]) simp
next
  case (Cons a ds)
  from Cons.prems(3) obtain x where x: "sw_timers s a = Some x" by auto
  obtain s1 vs where due: "timer_due now s = Some True" and fire: "fire_timer cb now s = Some s1"
    and notin: "a \<notin> set (ds @ ys)" and tm1: "timers s1 (ds @ vs)"
    and vs: "set vs = (if periodic x then insert a (set ys) else set ys)"
    and keep: "\<And>b y. sw_timers s b = Some y \<Longrightarrow>
           \<exists>r. sw_timers s1 b = Some ((if b = a then rearmed now y else y)\<lparr>next_timer := r\<rparr>)"
    and due1: "\<forall>b \<in> set ds. \<exists>y. sw_timers s1 b = Some y \<and> expiry_tick y \<le> now \<and> rearm_ok now y"
    and late1: "\<forall>b \<in> set vs. now < expiry_at (sw_timers s1) b"
    using fire_head [OF Cons.prems(1) Cons.prems(2) [unfolded append_Cons] x Cons.prems(3,4)] by blast
  obtain s' zs where loop: "tick_loop cb now s1 = Some s'" and tm': "timers s' zs"
    and late: "\<forall>a \<in> set zs. now < expiry_at (sw_timers s') a"
    and set: "set zs = set vs \<union> {a \<in> set ds. \<exists>x. sw_timers s1 a = Some x \<and> periodic x}"
    and keep': "\<And>b y. sw_timers s1 b = Some y \<Longrightarrow>
         \<exists>r. sw_timers s' b = Some ((if b \<in> set ds then rearmed now y else y)\<lparr>next_timer := r\<rparr>)"
    using Cons.IH [OF Cons.prems(1) tm1 due1 late1] by blast
  have "tick_loop cb now s = Some s'"
    using due fire loop by (simp add: tick_loop.simps [of cb now s])
  moreover have "set zs = set ys \<union> {b \<in> set (a # ds). \<exists>x. sw_timers s b = Some x \<and> periodic x}"
  proof -
    have "(\<exists>x. sw_timers s1 b = Some x \<and> periodic x) = (\<exists>x. sw_timers s b = Some x \<and> periodic x)"
      if b: "b \<in> set ds" for b
    proof -
      obtain y where y: "sw_timers s b = Some y" using Cons.prems(3) b by auto
      have "b \<noteq> a" using b notin by auto
      then obtain r where "sw_timers s1 b = Some (y\<lparr>next_timer := r\<rparr>)" using keep [OF y] by auto
      then show ?thesis using y by simp
    qed
    then show ?thesis using x unfolding set vs by auto
  qed
  moreover have "\<exists>r. sw_timers s' b = Some ((if b \<in> set (a # ds) then rearmed now y else y)\<lparr>next_timer := r\<rparr>)"
    if y: "sw_timers s b = Some y" for b y
  proof -
    obtain r where r: "sw_timers s1 b = Some ((if b = a then rearmed now y else y)\<lparr>next_timer := r\<rparr>)"
      using keep [OF y] by blast
    show ?thesis using keep' [OF r] notin by (auto simp: rearmed_def split: if_splits)
  qed
  ultimately show ?case using tm' late by blast
qed

lemma due_split:
  assumes "timers s xs"
  shows "a \<in> set (takeWhile (\<lambda>a. expiry_at (sw_timers s) a \<le> now) xs) \<longleftrightarrow> a \<in> set xs \<and> expiry_at (sw_timers s) a \<le> now"
    and "a \<in> set (dropWhile (\<lambda>a. expiry_at (sw_timers s) a \<le> now) xs) \<longleftrightarrow> a \<in> set xs \<and> now < expiry_at (sw_timers s) a"
    and "takeWhile (\<lambda>a. expiry_at (sw_timers s) a \<le> now) xs = filter (\<lambda>a. expiry_at (sw_timers s) a \<le> now) xs"
proof -
  let ?P = "\<lambda>a. expiry_at (sw_timers s) a \<le> now"
  have xs: "takeWhile ?P xs @ dropWhile ?P xs = xs" by simp
  have srt: "sorted (map (expiry_at (sw_timers s)) xs)" using assms by (simp add: timers_def timer_chain_def)
  have due: "a \<in> set (takeWhile ?P xs) \<longleftrightarrow> a \<in> set xs \<and> ?P a" for a
    using xs sorted_dropWhile_greater [OF srt, of a now] by (metis Un_iff leD set_append set_takeWhileD)
  have late: "a \<in> set (dropWhile ?P xs) \<longleftrightarrow> a \<in> set xs \<and> now < expiry_at (sw_timers s) a" for a
    using xs sorted_dropWhile_greater [OF srt, of a now] due by (metis Un_iff not_le set_append set_dropWhileD)
  have "filter ?P (dropWhile ?P xs) = []" using late by (auto simp: filter_empty_conv not_le)
  moreover have "filter ?P (takeWhile ?P xs) = takeWhile ?P xs" using due by (auto simp: filter_id_conv)
  ultimately show "takeWhile ?P xs = filter ?P xs" using filter_append [of ?P "takeWhile ?P xs" "dropWhile ?P xs"] by simp
  show "a \<in> set (takeWhile ?P xs) \<longleftrightarrow> a \<in> set xs \<and> ?P a" by (rule due)
  show "a \<in> set (dropWhile ?P xs) \<longleftrightarrow> a \<in> set xs \<and> now < expiry_at (sw_timers s) a" by (rule late)
qed

lemma tick_fires:
  assumes "quiet_callbacks cb" and "timers s xs" and "now = s_rtos_tick_count s"
    and "\<forall>a \<in> set xs. \<forall>x. sw_timers s a = Some x \<longrightarrow> rearm_ok now x"
  shows "\<exists>s' zs. sw_timer_tick_process cb s = Some s'
    \<and> timers s' zs \<and> (\<forall>a \<in> set zs. now < expiry_at (sw_timers s') a)
    \<and> set zs = {a \<in> set xs. now < expiry_at (sw_timers s) a \<or> (\<exists>x. sw_timers s a = Some x \<and> periodic x)}
    \<and> (\<forall>b \<in> set xs. \<forall>y. sw_timers s b = Some y \<longrightarrow>
         (\<exists>r. sw_timers s' b = Some ((if expiry_at (sw_timers s) b \<le> now then rearmed now y else y)\<lparr>next_timer := r\<rparr>)))"
proof -
  let ?P = "\<lambda>a. expiry_at (sw_timers s) a \<le> now"
  let ?ds = "takeWhile ?P xs" and ?ys = "dropWhile ?P xs"
  have xs: "?ds @ ?ys = xs" by simp
  note due = due_split(1) [OF assms(2)] and late = due_split(2) [OF assms(2)]
  have "\<forall>a \<in> set ?ds. \<exists>x. sw_timers s a = Some x \<and> expiry_tick x \<le> now \<and> rearm_ok now x"
    using due timers_live [OF assms(2)] assms(4) by (fastforce simp: expiry_at_def)
  moreover have "\<forall>a \<in> set ?ys. now < expiry_at (sw_timers s) a" using late by blast
  moreover have "timers s (?ds @ ?ys)" using assms(2) unfolding xs .
  ultimately obtain s' zs where loop: "tick_loop cb now s = Some s'" and tm: "timers s' zs"
    and later: "\<forall>a \<in> set zs. now < expiry_at (sw_timers s') a"
    and zs: "set zs = set ?ys \<union> {a \<in> set ?ds. \<exists>x. sw_timers s a = Some x \<and> periodic x}"
    and keep: "\<forall>b y. sw_timers s b = Some y \<longrightarrow>
         (\<exists>r. sw_timers s' b = Some ((if b \<in> set ?ds then rearmed now y else y)\<lparr>next_timer := r\<rparr>))"
    using tick_loop_due [OF assms(1), of s ?ds ?ys now] by blast
  have "set zs = {a \<in> set xs. now < expiry_at (sw_timers s) a \<or> (\<exists>x. sw_timers s a = Some x \<and> periodic x)}"
    unfolding zs using due late by (auto simp: not_less)
  moreover have "sw_timer_tick_process cb s = Some s'"
    using loop assms(3) by (simp add: sw_timer_tick_process_def rtos_get_tick_def)
  moreover have "\<exists>r. sw_timers s' b = Some ((if ?P b then rearmed now y else y)\<lparr>next_timer := r\<rparr>)"
    if "b \<in> set xs" "sw_timers s b = Some y" for b y
    using keep that due [of b] by presburger
  ultimately show ?thesis using tm later by blast
qed

text \<open>
  The calls a tick makes. \<open>but_timers\<close> hides the timers, \<open>call_all\<close> calls functions one after the
  other, and \<open>call_of\<close> is the function of a timer with its argument. The effect of a
  \<open>timer_free\<close> callback on the rest of the memory does not depend on the timers.
\<close>

definition but_timers :: "kernel \<Rightarrow> kernel" where
  "but_timers s = s\<lparr>sw_timers := Map.empty, timer_list := NULL\<rparr>"

definition timer_free :: "callbacks \<Rightarrow> bool" where
  "timer_free cb \<longleftrightarrow> quiet_callbacks cb \<and>
     (\<forall>f arg s t. but_timers s = but_timers t \<longrightarrow> map_option but_timers (cb f arg s) = map_option but_timers (cb f arg t))"

definition call_of :: "(addr \<rightharpoonup> sw_timer_t) \<Rightarrow> addr \<Rightarrow> addr \<times> addr" where
  "call_of S a = (case S a of None \<Rightarrow> (NULL, NULL) | Some x \<Rightarrow> (callback x, callback_arg x))"

fun call_all :: "callbacks \<Rightarrow> (addr \<times> addr) list \<Rightarrow> kernel \<Rightarrow> kernel option" where
  "call_all cb [] s = Some s"
| "call_all cb ((f, arg) # cs) s = do { s \<leftarrow> (if f \<noteq> NULL then cb f arg s else Some s); call_all cb cs s }"

lemma but_timers_upd [simp]:
  "but_timers (s\<lparr>sw_timers := S\<rparr>) = but_timers s" "but_timers (s\<lparr>timer_list := p\<rparr>) = but_timers s"
  by (simp_all add: but_timers_def)

lemma upd_timer_but: "upd_timer a f s = Some s' \<Longrightarrow> but_timers s' = but_timers s"
  by (auto simp: upd_timer_def)

lemma insert_sorted_but: "insert_sorted a s = Some s' \<Longrightarrow> but_timers s' = but_timers s"
  by (auto simp: insert_sorted_def bind_eq_Some_conv split: if_splits dest!: upd_timer_but)

lemma timer_freeD:
  "timer_free cb \<Longrightarrow> but_timers s = but_timers t \<Longrightarrow> map_option but_timers (cb f arg s) = map_option but_timers (cb f arg t)"
  unfolding timer_free_def by blast

lemma call_all_cong:
  "timer_free cb \<Longrightarrow> but_timers s = but_timers t \<Longrightarrow>
   map_option but_timers (call_all cb cs s) = map_option but_timers (call_all cb cs t)"
proof (induction cs arbitrary: s t)
  case (Cons c cs)
  obtain f arg where c: "c = (f, arg)" by (cases c)
  define call where "call = (\<lambda>s. if f \<noteq> NULL then cb f arg s else Some s)"
  have step: "call_all cb (c # cs) u = do { s \<leftarrow> call u; call_all cb cs s }" for u by (simp add: c call_def)
  have eq: "map_option but_timers (call s) = map_option but_timers (call t)"
    using timer_freeD [OF Cons.prems] Cons.prems(2) by (simp add: call_def)
  show ?case
  proof (cases "call s")
    case None
    then have "call t = None" using eq by simp
    then show ?thesis using None by (simp only: step bind.simps)
  next
    case (Some s1)
    then obtain t1 where t1: "call t = Some t1" "but_timers s1 = but_timers t1" using eq by (cases "call t") simp_all
    show ?thesis using Cons.IH [OF Cons.prems(1) t1(2)] by (simp only: step Some t1(1) bind.simps)
  qed
qed simp

lemma call_all_Cons: "call_all cb (c # cs) s = do { s \<leftarrow> call_all cb [c] s; call_all cb cs s }"
  by (cases c) simp

lemma fire_calls:
  assumes fire: "fire_timer cb now s = Some s1" and cb: "timer_free cb"
  obtains t where "call_all cb [call_of (sw_timers s) (timer_list s)] s = Some t" and "but_timers s1 = but_timers t"
proof -
  let ?a = "timer_list s"
  obtain x s0 y u z where x: "get_timer s ?a = Some x"
    and s0: "upd_timer ?a (\<lambda>x. x\<lparr>next_timer := NULL\<rparr>) (s\<lparr>timer_list := next_timer x\<rparr>) = Some s0" and y: "get_timer s0 ?a = Some y"
    and u: "(if callback y \<noteq> NULL then cb (callback y) (callback_arg y) s0 else Some s0) = Some u"
    and "get_timer u ?a = Some z" and rest: "(if periodic z then do {
        s \<leftarrow> upd_timer ?a (\<lambda>x. x\<lparr>expiry_tick := now + period_ticks x, next_timer := NULL\<rparr>) u; insert_sorted ?a s }
      else upd_timer ?a (\<lambda>x. x\<lparr>active := False\<rparr>) u) = Some s1"
    using fire unfolding fire_timer_def Let_def bind_eq_Some_conv by blast
  have xs: "sw_timers s ?a = Some x" "?a \<noteq> NULL" using x by (auto simp: get_timer_def fetch_def split: if_splits)
  then have "y = x\<lparr>next_timer := NULL\<rparr>" using s0 y by (auto simp: upd_timer_def get_timer_def)
  then have c: "callback y = callback x" "callback_arg y = callback_arg x" by simp_all
  let ?call = "\<lambda>s. if callback x \<noteq> NULL then cb (callback x) (callback_arg x) s else Some s"
  have s1: "but_timers s1 = but_timers u"
    using rest by (auto simp: bind_eq_Some_conv split: if_splits dest!: upd_timer_but insert_sorted_but)
  have "?call s0 = Some u" using u unfolding c .
  moreover have "map_option but_timers (?call s) = map_option but_timers (?call s0)"
    using timer_freeD [OF cb, of s s0] upd_timer_but [OF s0] by simp
  ultimately obtain t where "?call s = Some t" "but_timers t = but_timers u" by (cases "?call s") simp_all
  then show thesis using that s1 xs by (simp add: call_of_def split: if_splits)
qed

lemma tick_loop_calls:
  assumes cb: "timer_free cb" and "timers s (ds @ ys)"
    and "\<forall>a \<in> set ds. \<exists>x. sw_timers s a = Some x \<and> expiry_tick x \<le> now \<and> rearm_ok now x"
    and "\<forall>a \<in> set ys. now < expiry_at (sw_timers s) a" and "tick_loop cb now s = Some s'"
  shows "\<exists>t. call_all cb (map (call_of (sw_timers s)) ds) s = Some t \<and> but_timers s' = but_timers t"
  using assms(2-)
proof (induction ds arbitrary: s ys)
  case Nil
  then have "tick_loop cb now s = Some s" using late_stops [of s ys now cb] by simp
  then show ?case using Nil.prems by simp
next
  case (Cons a ds)
  have q: "quiet_callbacks cb" using cb by (simp add: timer_free_def)
  from Cons.prems(2) obtain x where x: "sw_timers s a = Some x" by auto
  obtain s1 vs where due: "timer_due now s = Some True" and fire: "fire_timer cb now s = Some s1"
    and notin: "a \<notin> set (ds @ ys)" and tm1: "timers s1 (ds @ vs)"
    and "set vs = (if periodic x then insert a (set ys) else set ys)"
    and keep: "\<And>b y. sw_timers s b = Some y \<Longrightarrow>
           \<exists>r. sw_timers s1 b = Some ((if b = a then rearmed now y else y)\<lparr>next_timer := r\<rparr>)"
    and due1: "\<forall>b \<in> set ds. \<exists>y. sw_timers s1 b = Some y \<and> expiry_tick y \<le> now \<and> rearm_ok now y"
    and late1: "\<forall>b \<in> set vs. now < expiry_at (sw_timers s1) b"
    using fire_head [OF q Cons.prems(1) [unfolded append_Cons] x Cons.prems(2,3)] by blast
  have "tick_loop cb now s1 = Some s'" using Cons.prems(4) due fire by (simp add: tick_loop.simps [of cb now s])
  then obtain t1 where t1: "call_all cb (map (call_of (sw_timers s1)) ds) s1 = Some t1" "but_timers s' = but_timers t1"
    using Cons.IH [OF tm1 due1 late1] by blast
  have "call_of (sw_timers s1) b = call_of (sw_timers s) b" if b: "b \<in> set ds" for b
  proof -
    obtain y where y: "sw_timers s b = Some y" "b \<noteq> a" using Cons.prems(2) b notin by auto
    then show ?thesis using keep [OF y(1)] by (auto simp: call_of_def)
  qed
  then have cs: "map (call_of (sw_timers s1)) ds = map (call_of (sw_timers s)) ds" by simp
  have "timer_list s = a" using timers_tail(3) [OF Cons.prems(1) [unfolded append_Cons] x] .
  with fire_calls [OF fire cb] obtain t0 where t0: "call_all cb [call_of (sw_timers s) a] s = Some t0" "but_timers s1 = but_timers t0"
    by metis
  have "map_option but_timers (call_all cb (map (call_of (sw_timers s)) ds) t0) = Some (but_timers t1)"
    using call_all_cong [OF cb t0(2), of "map (call_of (sw_timers s)) ds"] t1(1) unfolding cs by (simp only: option.map)
  then obtain t where "call_all cb (map (call_of (sw_timers s)) ds) t0 = Some t" "but_timers t = but_timers t1"
    unfolding map_option_eq_Some by blast
  moreover have "call_all cb (map (call_of (sw_timers s)) (a # ds)) s = call_all cb (map (call_of (sw_timers s)) ds) t0"
    using call_all_Cons [of cb "call_of (sw_timers s) a" "map (call_of (sw_timers s)) ds" s] t0(1) by (simp only: list.map bind.simps)
  ultimately show ?case using t1(2) by auto
qed

text \<open>
  C17. Expiry. Let the callbacks return without touching the timers or depending on them, and let no
  re-armed period pass the end of the 32-bit tick counter. Then processing a tick terminates, and
  what it does to the rest of the memory is what calling the functions of exactly the timers whose
  expiry tick has come does, each once, with its argument and in the order of the list. Periodic
  timers are re-armed one period after the current tick, one-shot timers become inactive, the
  others are untouched, and every timer left in the list expires later.
\<close>

theorem tick_process_fires_due:
  assumes cb: "timer_free cb" and tm: "timers s xs" and now: "now = s_rtos_tick_count s"
    and re: "\<forall>a \<in> set xs. \<forall>x. sw_timers s a = Some x \<longrightarrow> rearm_ok now x"
  shows "\<exists>s' t zs. sw_timer_tick_process cb s = Some s'
    \<and> call_all cb (map (call_of (sw_timers s)) (filter (\<lambda>a. expiry_at (sw_timers s) a \<le> now) xs)) s = Some t
    \<and> but_timers s' = but_timers t
    \<and> timers s' zs \<and> (\<forall>a \<in> set zs. now < expiry_at (sw_timers s') a)
    \<and> set zs = {a \<in> set xs. now < expiry_at (sw_timers s) a \<or> (\<exists>x. sw_timers s a = Some x \<and> periodic x)}
    \<and> (\<forall>b \<in> set xs. \<forall>y. sw_timers s b = Some y \<longrightarrow>
         (\<exists>r. sw_timers s' b = Some ((if expiry_at (sw_timers s) b \<le> now then rearmed now y else y)\<lparr>next_timer := r\<rparr>)))"
proof -
  let ?P = "\<lambda>a. expiry_at (sw_timers s) a \<le> now"
  have q: "quiet_callbacks cb" using cb by (simp add: timer_free_def)
  obtain s' zs where s': "sw_timer_tick_process cb s = Some s'" and zs: "timers s' zs" "\<forall>a \<in> set zs. now < expiry_at (sw_timers s') a"
      "set zs = {a \<in> set xs. now < expiry_at (sw_timers s) a \<or> (\<exists>x. sw_timers s a = Some x \<and> periodic x)}"
      "\<forall>b \<in> set xs. \<forall>y. sw_timers s b = Some y \<longrightarrow>
         (\<exists>r. sw_timers s' b = Some ((if expiry_at (sw_timers s) b \<le> now then rearmed now y else y)\<lparr>next_timer := r\<rparr>))"
    using tick_fires [OF q tm now re] by blast
  note split = due_split [OF tm, where now = now]
  have "tick_loop cb now s = Some s'" using s' now by (simp add: sw_timer_tick_process_def rtos_get_tick_def)
  moreover have "timers s (takeWhile ?P xs @ dropWhile ?P xs)" using tm by simp
  moreover have "\<forall>a \<in> set (takeWhile ?P xs). \<exists>x. sw_timers s a = Some x \<and> expiry_tick x \<le> now \<and> rearm_ok now x"
    using split(1) timers_live [OF tm] re by (fastforce simp: expiry_at_def)
  moreover have "\<forall>a \<in> set (dropWhile ?P xs). now < expiry_at (sw_timers s) a" using split(2) by blast
  ultimately obtain t where "call_all cb (map (call_of (sw_timers s)) (filter ?P xs)) s = Some t" "but_timers s' = but_timers t"
    using tick_loop_calls [OF cb] unfolding split(3) by blast
  with s' zs show ?thesis by blast
qed

text \<open>\<open>n\<close> passes through the loop.\<close>

fun tick_passes :: "callbacks \<Rightarrow> u32 \<Rightarrow> nat \<Rightarrow> kernel \<Rightarrow> kernel option" where
  "tick_passes cb now 0 s = Some s"
| "tick_passes cb now (Suc n) s = do { s \<leftarrow> fire_timer cb now s; tick_passes cb now n s }"

text \<open>A single periodic timer whose next expiry wraps around is due again at once.\<close>

definition wrapping :: "u32 \<Rightarrow> addr \<Rightarrow> kernel \<Rightarrow> bool" where
  "wrapping now a s \<longleftrightarrow> timers s [a] \<and> (\<exists>x. sw_timers s a = Some x \<and> periodic x \<and> expiry_tick x \<le> now
     \<and> 2 ^ 32 \<le> unat now + unat (period_ticks x))"

lemma wrapped_due:
  assumes "2 ^ 32 \<le> unat now + unat (p :: u32)"
  shows "now + p \<le> now"
proof -
  have "unat now + unat p < 2 ^ 32 + 2 ^ 32" using unsigned_less [of now, where 'a = nat] unsigned_less [of p, where 'a = nat] by simp
  then have "unat (now + p) = unat now + unat p - 2 ^ 32" using assms by (simp add: unat_plus_if_size word_size)
  then show ?thesis using unsigned_less [of p, where 'a = nat] by (simp add: word_le_nat_alt)
qed

lemma wrapping_step:
  assumes "quiet_callbacks cb" and "wrapping now a s"
  shows "timer_due now s = Some True \<and> (\<exists>s'. fire_timer cb now s = Some s' \<and> wrapping now a s')"
proof -
  obtain x where tm: "timers s [a]" and x: "sw_timers s a = Some x" "periodic x" "expiry_tick x \<le> now"
      "2 ^ 32 \<le> unat now + unat (period_ticks x)"
    using assms(2) by (auto simp: wrapping_def)
  obtain s' where s': "fire_timer cb now s = Some s'"
    and tm': "timers s' (if periodic x then insert_timer ((expiry_at (sw_timers s))(a := now + period_ticks x)) a [] else [])"
    and keep: "\<And>b y. sw_timers s b = Some y \<Longrightarrow>
           \<exists>r. sw_timers s' b = Some ((if b = a then rearmed now y else y)\<lparr>next_timer := r\<rparr>)"
    using fire_refines [OF assms(1) tm x(1), of now] by blast
  obtain r where "sw_timers s' a = Some ((rearmed now x)\<lparr>next_timer := r\<rparr>)" using keep [OF x(1)] by auto
  moreover have "timers s' [a]" using tm' x(2) by (simp add: insert_timer_def)
  ultimately have "wrapping now a s'" using x wrapped_due [OF x(4)] by (simp add: wrapping_def rearmed_def)
  then show ?thesis using s' timer_due_head [OF tm x(1), of now] x(3) by auto
qed

lemma tick_loop_diverges:
  assumes cb: "quiet_callbacks cb" and w: "wrapping now a s"
  shows "tick_loop cb now s = None"
proof (rule ccontr)
  assume "tick_loop cb now s \<noteq> None"
  then obtain s' where run: "tick_loop cb now s = Some s'" by auto
  have "cb = cb \<longrightarrow> now = now \<longrightarrow> wrapping now a s \<longrightarrow> False"
  proof (rule tick_loop.raw_induct [OF _ run, of "\<lambda>cb' now' s r. cb' = cb \<longrightarrow> now' = now \<longrightarrow> wrapping now a s \<longrightarrow> False"])
    fix tl cb' now' s r
    assume IH: "\<And>cb' now' s r. tl cb' now' s = Some r \<Longrightarrow> cb' = cb \<longrightarrow> now' = now \<longrightarrow> wrapping now a s \<longrightarrow> False"
      and eq: "do { due \<leftarrow> timer_due now' s; if due then do { s \<leftarrow> fire_timer cb' now' s; tl cb' now' s } else Some s } = Some r"
    show "cb' = cb \<longrightarrow> now' = now \<longrightarrow> wrapping now a s \<longrightarrow> False"
      using wrapping_step [OF cb, of now a s] eq IH by (auto simp: bind_eq_Some_conv)
  qed
  with w show False by simp
qed

text \<open>
  C38. The tick handler can hang. When a periodic timer is the only one, is due, and its period
  reaches past the end of the tick counter, then the re-armed expiry tick is at or before
  the current tick: after any number of passes the loop condition holds again, and
  \<open>sw_timer_tick_process\<close>, which runs in the SysTick handler, does not return.
\<close>

theorem tick_process_wrap_hangs:
  assumes "quiet_callbacks cb" and "timers s [a]" and "sw_timers s a = Some x" and "periodic x"
    and "now = s_rtos_tick_count s" and "expiry_tick x \<le> now" and "2 ^ 32 \<le> unat now + unat (period_ticks x)"
  shows "(\<forall>n. \<exists>s'. tick_passes cb now n s = Some s' \<and> timer_due now s' = Some True)
    \<and> sw_timer_tick_process cb s = None"
proof -
  have w: "wrapping now a s" using assms by (simp add: wrapping_def)
  have "\<exists>s'. tick_passes cb now n s = Some s' \<and> timer_due now s' = Some True" for n
    using w
  proof (induction n arbitrary: s)
    case 0
    then show ?case using wrapping_step [OF assms(1)] by simp
  next
    case (Suc n)
    obtain s1 where "fire_timer cb now s = Some s1" and w1: "wrapping now a s1"
      using wrapping_step [OF assms(1) Suc.prems] by blast
    then show ?case using Suc.IH [OF w1] by simp
  qed
  then show ?thesis
    using tick_loop_diverges [OF assms(1) w] assms(5) by (simp add: sw_timer_tick_process_def rtos_get_tick_def)
qed

section \<open>Starting a running timer\<close>

text \<open>On a self-linked timer the insertion walk does not end for any later expiry tick.\<close>

lemma insert_walk_self_loop:
  assumes x: "S a = Some x" "a \<noteq> NULL" "next_timer x = a" "expiry_tick x \<le> e"
  shows "insert_walk S e prev a = None"
proof -
  have step: "S' = S \<longrightarrow> e' = e \<longrightarrow> cur \<noteq> a" if "insert_walk S' e' prev cur = Some r" for S' e' prev cur r
    using that
    by (rule insert_walk.raw_induct [where P = "\<lambda>S' e' prev cur r. S' = S \<longrightarrow> e' = e \<longrightarrow> cur \<noteq> a", rotated])
       (use x in \<open>auto split: if_splits bind_splits; blast\<close>)
  show ?thesis
  proof (cases "insert_walk S e prev a")
    case (Some r)
    then show ?thesis using step by blast
  qed
qed

lemma restart_head:
  assumes tl: "timer_list s = a" "a \<noteq> NULL" and "next_timer x = NULL"
  shows "insert_sorted a (s\<lparr>sw_timers := (sw_timers s)(a \<mapsto> x)\<rparr>) =
    Some (s\<lparr>sw_timers := (sw_timers s)(a \<mapsto> x\<lparr>next_timer := a\<rparr>)\<rparr>)"
proof -
  let ?S = "(sw_timers s)(a \<mapsto> x)"
  have "insert_walk ?S (expiry_tick x) NULL a = insert_walk ?S (expiry_tick x) a NULL"
    using assms by (simp add: insert_walk.simps [of ?S "expiry_tick x" 0 a])
  then have "insert_walk ?S (expiry_tick x) NULL a = Some (a, NULL)"
    by (simp add: insert_walk.simps [of ?S "expiry_tick x" a 0])
  then show ?thesis using assms by (simp add: insert_sorted_def)
qed

text \<open>
  C39. Restarting a running timer corrupts the list. \<open>sw_timer_start_once\<close> does not look whether
  the timer is already listed: on the first timer of the list it clears the link and then
  inserts the timer behind itself. The list is a loop of this one timer, the timers behind
  it are lost, and starting any other timer that expires no earlier does not return.
\<close>

theorem restart_corrupts_list:
  assumes "timer_list s = a" and "a \<noteq> NULL" and "cb \<noteq> NULL" and "n \<noteq> 0" and "b \<noteq> a" and "b \<noteq> NULL"
    and "s_rtos_tick_count s + n \<le> s_rtos_tick_count s + k" and "k \<noteq> 0"
  shows "\<exists>s' x. sw_timer_start_once a n cb arg s = Some (RTOS_OK, s') \<and> timer_list s' = a
    \<and> sw_timers s' a = Some x \<and> next_timer x = a
    \<and> sw_timer_start_once b k cb arg s' = None"
proof -
  define x where "x = \<lparr>expiry_tick = s_rtos_tick_count s + n, period_ticks = 0, callback = cb,
     callback_arg = arg, periodic = False, active = True, next_timer = NULL\<rparr>"
  define y where "y = \<lparr>expiry_tick = s_rtos_tick_count s + k, period_ticks = 0, callback = cb,
     callback_arg = arg, periodic = False, active = True, next_timer = NULL\<rparr>"
  let ?s = "s\<lparr>sw_timers := (sw_timers s)(a \<mapsto> x\<lparr>next_timer := a\<rparr>)\<rparr>"
  have "sw_timer_start_once a n cb arg s = Some (RTOS_OK, ?s)"
    using assms(2-4) restart_head [OF assms(1,2), of x]
    by (simp add: sw_timer_start_once_def rtos_get_tick_def x_def)
  moreover have "sw_timer_start_once b k cb arg ?s = None"
  proof -
    let ?S = "(sw_timers ?s)(b \<mapsto> y)"
    have "insert_walk ?S (expiry_tick y) NULL a = None"
      by (rule insert_walk_self_loop [of _ _ "x\<lparr>next_timer := a\<rparr>"]) (use assms in \<open>simp_all add: x_def y_def\<close>)
    then have "insert_sorted b (?s\<lparr>sw_timers := ?S\<rparr>) = None"
      using assms(1,6) by (simp add: insert_sorted_def)
    then show ?thesis using assms(3,6,8) by (simp add: sw_timer_start_once_def rtos_get_tick_def y_def)
  qed
  ultimately show ?thesis using assms(1) by simp
qed

section \<open>Sample states\<close>

text \<open>Timer 16 is periodic and due, timer 32 is a one-shot timer that is due, timer 48 is not due.\<close>

definition timer_sample :: kernel where
  "timer_sample = blank_kernel\<lparr>
     sw_timers := [
       16 \<mapsto> \<lparr>expiry_tick = 90, period_ticks = 50, callback = 4096, callback_arg = 0, periodic = True,
             active = True, next_timer = 32\<rparr>,
       32 \<mapsto> \<lparr>expiry_tick = 100, period_ticks = 0, callback = 4096, callback_arg = 1, periodic = False,
             active = True, next_timer = 48\<rparr>,
       48 \<mapsto> \<lparr>expiry_tick = 120, period_ticks = 0, callback = 4096, callback_arg = 2, periodic = False,
             active = True, next_timer = 0\<rparr>],
     timer_list := 16, s_rtos_tick_count := 100\<rparr>"

lemma timer_sample_timers: "timers timer_sample [16, 32, 48]"
  by (simp add: timers_def timer_chain_def timer_sample_def timer_link_def expiry_at_def)

definition idle_callbacks :: callbacks where
  "idle_callbacks f arg s = Some s"

lemma idle_callbacks_quiet: "quiet_callbacks idle_callbacks"
  by (simp add: quiet_callbacks_def idle_callbacks_def)

theorem sw_timer_start_sorted_witness:
  "\<exists>s'. sw_timer_start_once 64 10 4096 7 timer_sample = Some (RTOS_OK, s') \<and> timers s' [16, 32, 64, 48]"
  using sw_timer_start_sorted [OF timer_sample_timers, of 64 4096 10 False 7]
  by (auto simp: insert_timer_def expiry_at_def timer_sample_def)

theorem sw_timer_stop_removes_witness:
  "\<exists>s'. sw_timer_stop 32 timer_sample = Some s' \<and> timers s' [16, 48]"
  using sw_timer_stop_removes [OF timer_sample_timers, of 32] by auto

text \<open>A callback that marks the byte at the address it gets.\<close>

definition marking_callbacks :: callbacks where
  "marking_callbacks f arg s = Some (s\<lparr>ram := (ram s)(arg := 1)\<rparr>)"

lemma marking_callbacks_free: "timer_free marking_callbacks"
  unfolding timer_free_def
proof (intro conjI allI impI)
  show "quiet_callbacks marking_callbacks" by (simp add: quiet_callbacks_def marking_callbacks_def)
  fix f arg s t
  assume "but_timers s = but_timers t"
  moreover from this have "ram s = ram t" by (drule_tac arg_cong [of _ _ ram]) (simp add: but_timers_def)
  moreover have "but_timers (u\<lparr>ram := M\<rparr>) = (but_timers u)\<lparr>ram := M\<rparr>" for u M by (simp add: but_timers_def)
  ultimately show "map_option but_timers (marking_callbacks f arg s) = map_option but_timers (marking_callbacks f arg t)"
    by (simp add: marking_callbacks_def)
qed

theorem tick_process_fires_due_witness:
  "\<exists>s' zs. sw_timer_tick_process marking_callbacks timer_sample = Some s'
     \<and> ram s' 0 = 1 \<and> ram s' 1 = 1 \<and> ram s' 2 = ram timer_sample 2 \<and> timers s' zs \<and> set zs = {16, 48}"
proof -
  have ok: "\<forall>a \<in> set [16, 32, 48]. \<forall>x. sw_timers timer_sample a = Some x \<longrightarrow> rearm_ok 100 x"
    by (auto simp: timer_sample_def rearm_ok_def)
  have due: "map (call_of (sw_timers timer_sample)) (filter (\<lambda>a. expiry_at (sw_timers timer_sample) a \<le> 100) [16, 32, 48])
      = [(4096, 0), (4096, 1)]"
    by (simp add: expiry_at_def timer_sample_def call_of_def)
  have left: "{a \<in> set [16, 32, 48]. 100 < expiry_at (sw_timers timer_sample) a
      \<or> (\<exists>x. sw_timers timer_sample a = Some x \<and> periodic x)} = {16, 48}"
    by (auto simp: expiry_at_def timer_sample_def)
  have now: "100 = s_rtos_tick_count timer_sample" by (simp add: timer_sample_def)
  obtain s' t zs where s': "sw_timer_tick_process marking_callbacks timer_sample = Some s'" "timers s' zs" "set zs = {16, 48}"
    and t: "call_all marking_callbacks [(4096, 0), (4096, 1)] timer_sample = Some t" "but_timers s' = but_timers t"
    using tick_process_fires_due [OF marking_callbacks_free timer_sample_timers now ok, unfolded due left] by blast
  have "ram s' = ram t" using arg_cong [OF t(2), of ram] by (simp add: but_timers_def)
  moreover have "t = timer_sample\<lparr>ram := (ram timer_sample)(0 := 1, 1 := 1)\<rparr>" using t(1) by (simp add: marking_callbacks_def)
  ultimately show ?thesis using s' by (intro exI [of _ s'] exI [of _ zs]) simp
qed

definition wrap_sample :: kernel where
  "wrap_sample = blank_kernel\<lparr>
     sw_timers := [16 \<mapsto> \<lparr>expiry_tick = 0xFFFFFFF0, period_ticks = 100, callback = 4096, callback_arg = 0,
       periodic = True, active = True, next_timer = 0\<rparr>],
     timer_list := 16, s_rtos_tick_count := 0xFFFFFFF0\<rparr>"

theorem tick_process_wrap_hangs_witness:
  "sw_timer_tick_process idle_callbacks wrap_sample = None"
proof (rule conjunct2 [OF tick_process_wrap_hangs [OF idle_callbacks_quiet]])
  show "timers wrap_sample [16]"
    by (simp add: timers_def timer_chain_def wrap_sample_def timer_link_def)
  show "sw_timers wrap_sample 16 = Some \<lparr>expiry_tick = 0xFFFFFFF0, period_ticks = 100, callback = 4096,
      callback_arg = 0, periodic = True, active = True, next_timer = 0\<rparr>"
    by (simp add: wrap_sample_def)
  show "0xFFFFFFF0 = s_rtos_tick_count wrap_sample" by (simp add: wrap_sample_def)
qed simp_all

theorem restart_corrupts_list_witness:
  "\<exists>s'. sw_timer_start_once 16 5 4096 0 timer_sample = Some (RTOS_OK, s')
     \<and> sw_timer_start_once 64 9 4096 0 s' = None"
  using restart_corrupts_list [of timer_sample 16 4096 5 64 9 0]
  by (auto simp: timer_sample_def)

end
