(* ===== verification/Rtos_Heap.thy ===== *)
theory Rtos_Heap
  imports Rtos_Scheduler "HOL-Library.Multiset"
begin

unbundle bit_operations_syntax

text \<open>
  The allocator of \<^verbatim>\<open>src/memory/heap.c\<close>: first fit over a singly linked free list whose headers
  lie inside a static pool of 32768 bytes. \<open>heap_blocks\<close> holds the headers by address; where
  the linker puts the pool is the parameter \<open>pool\<close>. The abstraction is a list of free blocks
  and a list of allocated blocks, each with address and size, which together tile the pool.
\<close>

section \<open>Operations\<close>

definition get_blk :: "kernel \<Rightarrow> addr \<Rightarrow> heap_block_t option" where
  "get_blk s p = fetch (heap_blocks s) p"

definition upd_blk :: "addr \<Rightarrow> (heap_block_t \<Rightarrow> heap_block_t) \<Rightarrow> kernel \<Rightarrow> kernel option" where
  "upd_blk p f s = map_option (\<lambda>st. s\<lparr>heap_blocks := st\<rparr>) (modify p f (heap_blocks s))"

lemma get_blk_Some [simp, store_simps]:
  "heap_blocks s p = Some t \<Longrightarrow> p \<noteq> NULL \<Longrightarrow> get_blk s p = Some t"
  by (simp add: get_blk_def)

lemma upd_blk_Some [simp, store_simps]:
  "heap_blocks s p = Some t \<Longrightarrow> p \<noteq> NULL \<Longrightarrow>
   upd_blk p f s = Some (s\<lparr>heap_blocks := (heap_blocks s)(p \<mapsto> f t)\<rparr>)"
  by (simp add: upd_blk_def)

text \<open>\<^verbatim>\<open>sizeof(heap_block_t)\<close> on the 32-bit target.\<close>

definition HDR :: u32 where "HDR = 8"

definition remove_from_list :: "addr \<Rightarrow> addr \<Rightarrow> kernel \<Rightarrow> kernel option" where
  "remove_from_list blk prev s = do {
     b \<leftarrow> get_blk s blk;
     s \<leftarrow> (if prev = NULL then Some (s\<lparr>free_list := blk_next b\<rparr>)
          else upd_blk prev (\<lambda>p. p\<lparr>blk_next := blk_next b\<rparr>) s);
     upd_blk blk (\<lambda>b. b\<lparr>blk_next := NULL\<rparr>) s
   }"

definition prepend_free :: "addr \<Rightarrow> kernel \<Rightarrow> kernel option" where
  "prepend_free blk s = do {
     s \<leftarrow> upd_blk blk (\<lambda>b. b\<lparr>blk_next := free_list s\<rparr>) s;
     Some (s\<lparr>free_list := blk\<rparr>)
   }"

partial_function (option) coalesce_loop ::
    "(addr \<rightharpoonup> heap_block_t) \<Rightarrow> addr \<Rightarrow> (addr \<rightharpoonup> heap_block_t) option" where
  "coalesce_loop H walk =
     (if walk = NULL then Some H
      else do {
        w \<leftarrow> fetch H walk;
        if blk_next w = NULL then Some H
        else if walk + blk_size w = blk_next w then do {
          n \<leftarrow> fetch H (blk_next w);
          H \<leftarrow> modify walk (\<lambda>w. w\<lparr>blk_size := blk_size w + blk_size n, blk_next := blk_next n\<rparr>) H;
          coalesce_loop H walk
        } else coalesce_loop H (blk_next w)
      })"

definition coalesce_forward :: "kernel \<Rightarrow> kernel option" where
  "coalesce_forward s = map_option (\<lambda>H. s\<lparr>heap_blocks := H\<rparr>) (coalesce_loop (heap_blocks s) (free_list s))"

text \<open>
  \<^verbatim>\<open>memset\<close> leaves a zero header at every aligned address of the pool; then the first block is
  given the whole pool.
\<close>

definition in_pool :: "addr \<Rightarrow> addr \<Rightarrow> bool" where
  "in_pool pool a \<longleftrightarrow> a - pool < RTOS_HEAP_POOL_SIZE \<and> (a - pool) mod 8 = 0"

definition heap_init :: "addr \<Rightarrow> kernel \<Rightarrow> kernel" where
  "heap_init pool s =
     s\<lparr>heap_blocks := (\<lambda>a. if in_pool pool a then Some \<lparr>blk_size = 0, blk_next = NULL\<rparr> else heap_blocks s a)
                       (pool \<mapsto> \<lparr>blk_size = RTOS_HEAP_POOL_SIZE, blk_next = NULL\<rparr>),
       free_list := pool, heap_ready := True\<rparr>"

text \<open>The search for the first block that is large enough, with its predecessor.\<close>

partial_function (option) first_fit ::
    "(addr \<rightharpoonup> heap_block_t) \<Rightarrow> u32 \<Rightarrow> addr \<Rightarrow> addr \<Rightarrow> (addr \<times> addr) option option" where
  "first_fit H tot prev cur =
     (if cur = NULL then Some None
      else do {
        c \<leftarrow> fetch H cur;
        if blk_size c \<ge> tot then Some (Some (prev, cur))
        else first_fit H tot cur (blk_next c)
      })"

definition alloc_total :: "u32 \<Rightarrow> u32" where
  "alloc_total sz = ((sz + 7) AND NOT 7) + HDR"

definition heap_alloc :: "u32 \<Rightarrow> kernel \<Rightarrow> (addr \<times> kernel) option" where
  "heap_alloc sz s =
     (if \<not> heap_ready s \<or> sz = 0 then Some (NULL, s)
      else do {
        let tot = alloc_total sz;
        found \<leftarrow> first_fit (heap_blocks s) tot NULL (free_list s);
        case found of
          None \<Rightarrow> Some (NULL, s)
        | Some (prev, cur) \<Rightarrow> do {
            c \<leftarrow> get_blk s cur;
            let leftover = blk_size c - tot;
            s \<leftarrow> remove_from_list cur prev s;
            s \<leftarrow> (if leftover \<ge> HDR + 8 then do {
                   let frag = cur + tot;
                   s \<leftarrow> upd_blk frag (\<lambda>f. f\<lparr>blk_size := leftover, blk_next := NULL\<rparr>) s;
                   s \<leftarrow> upd_blk cur (\<lambda>c. c\<lparr>blk_size := tot\<rparr>) s;
                   s \<leftarrow> prepend_free frag s;
                   coalesce_forward s
                 } else Some s);
            Some (cur + HDR, s)
          }
      })"

definition heap_free :: "addr \<Rightarrow> kernel \<Rightarrow> kernel option" where
  "heap_free ptr s =
     (if ptr = NULL \<or> \<not> heap_ready s then Some s
      else do {
        let blk = ptr - HDR;
        s \<leftarrow> prepend_free blk s;
        coalesce_forward s
      })"

section \<open>The free list\<close>

type_synonym block = "addr \<times> u32"

definition blk_link :: "(addr \<rightharpoonup> heap_block_t) \<Rightarrow> addr \<rightharpoonup> addr" where
  "blk_link H = (\<lambda>a. map_option blk_next (H a))"

definition has_size :: "(addr \<rightharpoonup> heap_block_t) \<Rightarrow> block \<Rightarrow> bool" where
  "has_size H b \<longleftrightarrow> map_option blk_size (H (fst b)) = Some (snd b)"

definition free_chain :: "(addr \<rightharpoonup> heap_block_t) \<Rightarrow> addr \<Rightarrow> block list \<Rightarrow> bool" where
  "free_chain H p xs \<longleftrightarrow> distinct (map fst xs) \<and> link_path (blk_link H) p (map fst xs) NULL \<and>
     (\<forall>b \<in> set xs. has_size H b)"

text \<open>The effect of \<^verbatim>\<open>_coalesce_forward\<close> on the list of free blocks.\<close>

fun coalesce :: "block list \<Rightarrow> block list" where
  "coalesce ((a, n) # (b, m) # xs) =
     (if a + n = b then coalesce ((a, n + m) # xs) else (a, n) # coalesce ((b, m) # xs))"
| "coalesce [b] = [b]"
| "coalesce [] = []"

lemma blk_link_upd [simp]: "blk_link (H(a \<mapsto> b)) = (blk_link H)(a \<mapsto> blk_next b)"
  by (auto simp: blk_link_def)

lemma blk_link_Some_iff: "blk_link H a = Some r \<longleftrightarrow> (\<exists>b. H a = Some b \<and> blk_next b = r)"
  by (auto simp: blk_link_def)

lemma has_size_upd [simp]:
  "has_size (H(a \<mapsto> b)) (c, n) \<longleftrightarrow> (if c = a then blk_size b = n else has_size H (c, n))"
  by (simp add: has_size_def)

lemma free_chain_Nil [simp]: "free_chain H p [] \<longleftrightarrow> p = NULL"
  by (simp add: free_chain_def)

lemma free_chain_Cons:
  "free_chain H p ((a, n) # xs) \<longleftrightarrow>
     p = a \<and> a \<noteq> NULL \<and> a \<notin> fst ` set xs \<and> (\<exists>h. H a = Some h \<and> blk_size h = n \<and> free_chain H (blk_next h) xs)"
  by (auto simp: free_chain_def blk_link_Some_iff has_size_def)

lemma free_chain_upd:
  "a \<notin> fst ` set xs \<Longrightarrow> free_chain (H(a \<mapsto> b)) p xs = free_chain H p xs"
  by (auto simp: free_chain_def has_size_def image_iff)

lemma coalesce_length: "length (coalesce xs) \<le> length xs"
  by (induction xs rule: coalesce.induct) auto

lemma coalesce_fst: "fst ` set (coalesce xs) \<subseteq> fst ` set xs"
  by (induction xs rule: coalesce.induct) auto

lemma coalesce_hd: "xs \<noteq> [] \<Longrightarrow> coalesce xs \<noteq> [] \<and> fst (hd (coalesce xs)) = fst (hd xs)"
  by (induction xs rule: coalesce.induct) auto

lemma coalesce_loop_refines:
  assumes "free_chain H p xs"
  shows "\<exists>H'. coalesce_loop H p = Some H' \<and> free_chain H' p (coalesce xs)
    \<and> (\<forall>a. a \<notin> fst ` set xs \<longrightarrow> H' a = H a) \<and> dom H' = dom H"
  using assms
proof (induction xs arbitrary: H p rule: coalesce.induct)
  case (1 a n b m xs)
  obtain h k where h: "p = a" "a \<noteq> NULL" "a \<notin> fst ` set ((b, m) # xs)" "H a = Some h" "blk_size h = n"
      "blk_next h = b" "b \<noteq> NULL"
    and k: "b \<notin> fst ` set xs" "H b = Some k" "blk_size k = m" "free_chain H (blk_next k) xs"
    using "1.prems" by (auto simp: free_chain_Cons)
  show ?case
  proof (cases "a + n = b")
    case True
    let ?H = "H(a \<mapsto> h\<lparr>blk_size := n + m, blk_next := blk_next k\<rparr>)"
    have step: "coalesce_loop H p = coalesce_loop ?H a"
      using h k True by (simp add: coalesce_loop.simps [of H a])
    have "free_chain ?H a ((a, n + m) # xs)"
      using h k by (auto simp: free_chain_Cons free_chain_upd)
    from "1.IH"(1) [OF True this] obtain H' where "coalesce_loop ?H a = Some H'" "free_chain H' a (coalesce ((a, n + m) # xs))"
      "\<forall>c. c \<notin> fst ` set ((a, n + m) # xs) \<longrightarrow> H' c = ?H c" "dom H' = dom ?H" by blast
    moreover have "dom ?H = dom H" using h by auto
    ultimately show ?thesis using step True h by auto
  next
    case False
    have step: "coalesce_loop H p = coalesce_loop H b"
      using h k False by (simp add: coalesce_loop.simps [of H a])
    have "free_chain H b ((b, m) # xs)" using h k by (auto simp: free_chain_Cons)
    from "1.IH"(2) [OF False this] obtain H' where H': "coalesce_loop H b = Some H'" "free_chain H' b (coalesce ((b, m) # xs))"
      "\<forall>c. c \<notin> fst ` set ((b, m) # xs) \<longrightarrow> H' c = H c" "dom H' = dom H" by blast
    have "a \<notin> fst ` set (coalesce ((b, m) # xs))" using coalesce_fst [of "(b, m) # xs"] h(3) by blast
    moreover have "H' a = Some h" using H'(3) h by simp
    ultimately have "free_chain H' p (coalesce ((a, n) # (b, m) # xs))"
      using H'(2) h False by (auto simp: free_chain_Cons)
    then show ?thesis using H' step by auto
  qed
next
  case (2 v)
  obtain a n where v: "v = (a, n)" by (cases v)
  with 2 obtain h where "p = a" "a \<noteq> NULL" "H a = Some h" "blk_next h = NULL"
    by (auto simp: free_chain_Cons)
  then show ?case using 2 v by (simp add: coalesce_loop.simps [of H a])
next
  case 3
  then show ?case by (simp add: coalesce_loop.simps [of H 0])
qed

section \<open>Request sizes\<close>

lemma clear_low_bits: "x AND NOT 7 = x - x mod 8" for x :: u32
proof -
  have m: "(7 :: u32) = mask 3" by (simp add: mask_eq_exp_minus_1)
  have "x AND NOT 7 = push_bit 3 (drop_bit 3 x)"
    unfolding m by (rule bit_eqI) (auto simp: bit_simps)
  moreover have "push_bit 3 (drop_bit 3 x) + take_bit 3 x = x" by (rule bits_ident)
  moreover have "take_bit 3 x = x mod 8" by (simp add: take_bit_eq_mod)
  ultimately show ?thesis by (metis add_diff_cancel_right')
qed

lemma aligned8_id:
  assumes "8 dvd unat x"
  shows "x AND NOT 7 = (x :: u32)"
proof -
  have "unat (x mod 8) = 0" using assms by (simp add: unat_mod)
  then have "x mod 8 = 0" by (simp add: unat_0_iff)
  then show ?thesis unfolding clear_low_bits by simp
qed

text \<open>Away from the end of the number range a request is rounded up to 8 bytes plus the header.\<close>

lemma unat_align8:
  assumes "unat sz + 7 < 2 ^ 32"
  shows "unat ((sz + 7) AND NOT 7 :: u32) = (unat sz + 7) div 8 * 8"
proof -
  have s7: "unat (sz + 7) = unat sz + 7" using assms by (simp add: unat_word_ariths)
  have "unat ((sz + 7) mod 8) = (unat sz + 7) mod 8" using s7 by (simp add: unat_mod)
  moreover then have "unat ((sz + 7) - (sz + 7) mod 8) = (unat sz + 7) - (unat sz + 7) mod 8"
    using s7 by (simp add: unat_sub_if_size)
  ultimately show ?thesis unfolding clear_low_bits by (simp add: minus_mod_eq_div_mult)
qed

lemma unat_alloc_total:
  assumes "unat sz + 15 < 2 ^ 32"
  shows "unat (alloc_total sz) = (unat sz + 7) div 8 * 8 + 8"
proof -
  have "unat ((sz + 7) AND NOT 7) = (unat sz + 7) div 8 * 8" using assms by (intro unat_align8) simp
  then show ?thesis using assms by (simp add: alloc_total_def HDR_def unat_word_ariths)
qed

lemma alloc_total_bounds:
  assumes "unat sz + 15 < 2 ^ 32" and "sz \<noteq> 0"
  shows "unat sz + 8 \<le> unat (alloc_total sz)" and "unat (alloc_total sz) \<le> unat sz + 15"
    and "16 \<le> unat (alloc_total sz)" and "8 dvd unat (alloc_total sz)"
proof -
  have "0 < unat sz" using assms(2) by (simp add: unat_gt_0)
  then show "unat sz + 8 \<le> unat (alloc_total sz)" "unat (alloc_total sz) \<le> unat sz + 15"
    "16 \<le> unat (alloc_total sz)" "8 dvd unat (alloc_total sz)"
    unfolding unat_alloc_total [OF assms(1)] by (simp_all add: dvd_add)
qed

section \<open>Tilings of the pool\<close>

definition pool_ok :: "addr \<Rightarrow> bool" where
  "pool_ok pool \<longleftrightarrow> pool \<noteq> NULL \<and> 8 dvd unat pool \<and> unat pool + 32768 < 2 ^ 32"

definition tile_ok :: "addr \<Rightarrow> block \<Rightarrow> bool" where
  "tile_ok pool b \<longleftrightarrow> unat pool \<le> unat (fst b) \<and> unat (fst b) + unat (snd b) \<le> unat pool + 32768
     \<and> 8 dvd unat (fst b) \<and> 8 dvd unat (snd b) \<and> 16 \<le> unat (snd b)"

definition apart :: "block \<Rightarrow> block \<Rightarrow> bool" where
  "apart x y \<longleftrightarrow> unat (fst x) + unat (snd x) \<le> unat (fst y) \<or> unat (fst y) + unat (snd y) \<le> unat (fst x)"

definition tiles :: "addr \<Rightarrow> block list \<Rightarrow> bool" where
  "tiles pool bs \<longleftrightarrow> pool_ok pool \<and> (\<forall>b \<in> set bs. tile_ok pool b) \<and> pairwise apart (set bs) \<and> distinct bs
     \<and> (\<Sum>b \<leftarrow> bs. unat (snd b)) = 32768"

lemma tiles_perm: "mset bs = mset cs \<Longrightarrow> tiles pool bs = tiles pool cs"
proof -
  assume eq: "mset bs = mset cs"
  have "set bs = set cs" "distinct bs = distinct cs" using eq mset_eq_setD mset_eq_imp_distinct_iff by blast+
  moreover have "mset (map (\<lambda>b. unat (snd b)) bs) = mset (map (\<lambda>b. unat (snd b)) cs)" using eq by simp
  then have "(\<Sum>b \<leftarrow> bs. unat (snd b)) = (\<Sum>b \<leftarrow> cs. unat (snd b))" by (metis sum_mset_sum_list)
  ultimately show ?thesis by (simp add: tiles_def)
qed

lemma apart_sym: "apart x y = apart y x"
  by (auto simp: apart_def)

lemma pairwise_apart_insert:
  "x \<notin> B \<Longrightarrow> pairwise apart (insert x B) \<longleftrightarrow> (\<forall>b \<in> B. apart x b) \<and> pairwise apart B"
  unfolding pairwise_insert using apart_sym by blast

lemma tiles_Cons:
  "tiles pool (x # bs) \<longleftrightarrow> pool_ok pool \<and> tile_ok pool x \<and> x \<notin> set bs \<and> (\<forall>b \<in> set bs. apart x b) \<and>
     (\<forall>b \<in> set bs. tile_ok pool b) \<and> pairwise apart (set bs) \<and> distinct bs
     \<and> unat (snd x) + (\<Sum>b \<leftarrow> bs. unat (snd b)) = 32768"
  unfolding tiles_def using pairwise_apart_insert [of x "set bs"] by auto

text \<open>Blocks of a tiling are determined by their addresses.\<close>

lemma tiles_fst:
  assumes "tiles pool bs" and "x \<in> set bs" and "y \<in> set bs" and "fst x = fst y"
  shows "x = y"
proof (rule ccontr)
  assume "x \<noteq> y"
  then have "apart x y" using assms by (auto simp: tiles_def pairwise_def)
  moreover have "16 \<le> unat (snd x)" "16 \<le> unat (snd y)" using assms by (auto simp: tiles_def tile_ok_def)
  ultimately show False using assms(4) by (simp add: apart_def)
qed

lemma tiles_distinct_fst: "tiles pool bs \<Longrightarrow> distinct (map fst bs)"
  using tiles_fst by (auto simp: distinct_map inj_on_def tiles_def)

lemma block_end:
  assumes "pool_ok pool" and "tile_ok pool (a, n)" and "unat k \<le> unat n"
  shows "unat (a + k) = unat a + unat k"
proof -
  have "unat a + unat k < 2 ^ 32" using assms by (auto simp: pool_ok_def tile_ok_def)
  then show ?thesis by (simp add: unat_word_ariths)
qed

lemma apart_merge:
  assumes "unat b = unat a + unat n" and "unat (n + m) = unat n + unat m"
    and "0 < unat n" "0 < unat m" "0 < unat (snd c)"
  shows "apart (a, n + m) c \<longleftrightarrow> apart (a, n) c \<and> apart (b, m) c"
  using assms by (auto simp: apart_def)

text \<open>Joining two neighbours, and cutting a block in two.\<close>

lemma tiles_split_iff:
  assumes p: "pool_ok pool" and nm: "unat (n + m) = unat n + unat m" and sz: "16 \<le> unat n" "16 \<le> unat m"
    "8 dvd unat n" "8 dvd unat m" and b: "b = a + n" "unat b = unat a + unat n"
  shows "tiles pool ((a, n) # (b, m) # bs) \<longleftrightarrow> tiles pool ((a, n + m) # bs)"
proof -
  have ok: "tile_ok pool (a, n) \<and> tile_ok pool (b, m) \<longleftrightarrow> tile_ok pool (a, n + m)"
    using nm sz b(2) by (auto simp: tile_ok_def dvd_add)
  have ab: "apart (a, n) (b, m)" using b by (simp add: apart_def)
  have ne: "(a, n) \<noteq> (b, m)" using b sz by auto
  have ap: "(\<forall>c \<in> set bs. apart (a, n) c) \<and> (\<forall>c \<in> set bs. apart (b, m) c) \<longleftrightarrow> (\<forall>c \<in> set bs. apart (a, n + m) c)"
    if "\<forall>c \<in> set bs. tile_ok pool c"
  proof -
    have "apart (a, n + m) c \<longleftrightarrow> apart (a, n) c \<and> apart (b, m) c" if "c \<in> set bs" for c
    proof (rule apart_merge [OF b(2) nm])
      show "0 < unat (snd c)" using \<open>\<forall>c \<in> set bs. tile_ok pool c\<close> that by (auto simp: tile_ok_def)
    qed (use sz in auto)
    then show ?thesis by blast
  qed
  have out: "c \<notin> set bs" if "\<forall>d \<in> set bs. apart c d" "0 < unat (snd c)" for c
    using that by (auto simp: apart_def)
  show ?thesis
    unfolding tiles_Cons using ok ab ne ap out [of "(a, n)"] out [of "(b, m)"] out [of "(a, n + m)"] nm sz
    by (auto simp: tiles_Cons pairwise_apart_insert)
qed

lemma tiles_merge:
  assumes t: "tiles pool ((a, n) # (b, m) # bs)" and adj: "a + n = b"
  shows "tiles pool ((a, n + m) # bs)"
proof -
  have p: "pool_ok pool" and ta: "tile_ok pool (a, n)" and tb: "tile_ok pool (b, m)"
    and sum: "unat n + (unat m + (\<Sum>b \<leftarrow> bs. unat (snd b))) = 32768"
    using t by (auto simp: tiles_Cons)
  have nm: "unat (n + m) = unat n + unat m" using sum by (simp add: unat_word_ariths)
  have "unat b = unat a + unat n" using block_end [OF p ta, of n] adj by simp
  with t adj show ?thesis
    using tiles_split_iff [OF p nm, of b a bs] ta tb by (simp add: tile_ok_def)
qed

lemma tiles_coalesce: "tiles pool (xs @ ys) \<Longrightarrow> tiles pool (coalesce xs @ ys)"
proof (induction xs arbitrary: ys rule: coalesce.induct)
  case (1 a n b m xs)
  show ?case
  proof (cases "a + n = b")
    case True
    have "tiles pool ((a, n + m) # xs @ ys)" using tiles_merge [OF _ True, of pool m "xs @ ys"] "1.prems" by simp
    then show ?thesis using "1.IH"(1) [OF True, of ys] True by simp
  next
    case False
    have "tiles pool (((b, m) # xs) @ (a, n) # ys)"
      using "1.prems" tiles_perm [of "((b, m) # xs) @ (a, n) # ys" "((a, n) # (b, m) # xs) @ ys" pool] by simp
    then have "tiles pool (coalesce ((b, m) # xs) @ (a, n) # ys)" by (rule "1.IH"(2) [OF False])
    then show ?thesis
      using False tiles_perm [of "coalesce ((b, m) # xs) @ (a, n) # ys" "(a, n) # coalesce ((b, m) # xs) @ ys" pool]
      by simp
  qed
qed simp_all

section \<open>Taking a block off the free list\<close>

lemma first_fit_chain:
  "free_chain H p xs \<Longrightarrow>
   first_fit H t prev p = Some (case dropWhile (\<lambda>b. snd b < t) xs of
       [] \<Rightarrow> None
     | b # _ \<Rightarrow> Some (if takeWhile (\<lambda>b. snd b < t) xs = [] then prev
                     else fst (last (takeWhile (\<lambda>b. snd b < t) xs)), fst b))"
proof (induction xs arbitrary: p prev)
  case Nil
  then show ?case by (simp add: first_fit.simps [of H t prev 0])
next
  case (Cons x xs)
  obtain a n where x: "x = (a, n)" by (cases x)
  then obtain h where h: "p = a" "a \<noteq> NULL" "H a = Some h" "blk_size h = n" "free_chain H (blk_next h) xs"
    using Cons.prems by (auto simp: free_chain_Cons)
  show ?case
  proof (cases "n < t")
    case True
    then have step: "first_fit H t prev p = first_fit H t a (blk_next h)"
      using h by (auto simp: first_fit.simps [of H t prev a] dest: leD)
    have tw: "takeWhile (\<lambda>b. snd b < t) (x # xs) = x # takeWhile (\<lambda>b. snd b < t) xs"
      and dw: "dropWhile (\<lambda>b. snd b < t) (x # xs) = dropWhile (\<lambda>b. snd b < t) xs" using True x by simp_all
    have lst: "(if ys = [] then a else fst (last ys)) = (if x # ys = [] then prev else fst (last (x # ys)))"
      for ys using x by simp
    show ?thesis unfolding tw dw step Cons.IH [OF h(5), of a] lst ..
  next
    case False
    then have "t \<le> n" by simp
    then have "first_fit H t prev p = Some (Some (prev, a))" using h by (simp add: first_fit.simps [of H t prev a])
    moreover have "takeWhile (\<lambda>b. snd b < t) (x # xs) = []" "dropWhile (\<lambda>b. snd b < t) (x # xs) = x # xs"
      using False x by simp_all
    ultimately show ?thesis using x by simp
  qed
qed

lemma free_chain_append:
  "free_chain H p (us @ vs) \<longleftrightarrow> distinct (map fst (us @ vs)) \<and>
     (\<exists>r. link_path (blk_link H) p (map fst us) r \<and> link_path (blk_link H) r (map fst vs) NULL) \<and>
     (\<forall>b \<in> set (us @ vs). has_size H b)"
  by (simp add: free_chain_def)

lemma remove_from_list_refines:
  assumes ch: "free_chain (heap_blocks s) (free_list s) (us @ (a, n) # vs)"
  obtains H p h where "remove_from_list a (if us = [] then NULL else fst (last us)) s
      = Some (s\<lparr>heap_blocks := H, free_list := p\<rparr>)"
    and "free_chain H p (us @ vs)" and "heap_blocks s a = Some h" and "H a = Some (h\<lparr>blk_next := NULL\<rparr>)"
    and "\<And>b. map_option blk_size (H b) = map_option blk_size (heap_blocks s b)"
proof -
  let ?H = "heap_blocks s"
  have ds: "distinct (map fst us @ a # map fst vs)"
    and path: "link_path (blk_link ?H) (free_list s) (map fst us @ a # map fst vs) NULL"
    and sz: "\<forall>b \<in> set (us @ (a, n) # vs). has_size ?H b" using ch by (auto simp: free_chain_def)
  obtain h where h: "?H a = Some h" "a \<noteq> NULL"
    and px: "link_path (blk_link ?H) (free_list s) (map fst us) a"
    and pv: "link_path (blk_link ?H) (blk_next h) (map fst vs) NULL"
    using path by (auto simp: blk_link_Some_iff)
  show thesis
  proof (cases "us = []")
    case True
    let ?H' = "?H(a \<mapsto> h\<lparr>blk_next := NULL\<rparr>)"
    have rm: "remove_from_list a (if us = [] then NULL else fst (last us)) s
        = Some (s\<lparr>heap_blocks := ?H', free_list := blk_next h\<rparr>)"
      using h True by (simp add: remove_from_list_def)
    have "free_chain ?H' (blk_next h) (us @ vs)"
      using ds pv sz True by (auto simp: free_chain_def has_size_def image_iff)
    from that [OF rm this h(1)] show thesis using h by simp
  next
    case False
    let ?l = "fst (last us)"
    have lin: "?l \<in> set (map fst us)" using False by auto
    have l: "?l \<noteq> a" "?l \<notin> set (map fst vs)" using lin ds by auto
    have ll: "?l = last (map fst us)" using False by (simp add: last_map)
    obtain k where k: "?H ?l = Some k" "?l \<noteq> NULL"
      using link_path_live [OF px lin] by (auto simp: blk_link_Some_iff)
    let ?H' = "?H(?l \<mapsto> k\<lparr>blk_next := blk_next h\<rparr>, a \<mapsto> h\<lparr>blk_next := NULL\<rparr>)"
    have rm: "remove_from_list a (if us = [] then NULL else fst (last us)) s
        = Some (s\<lparr>heap_blocks := ?H', free_list := free_list s\<rparr>)"
      using h k l False by (simp add: remove_from_list_def)
    have "link_path ((blk_link ?H)(?l \<mapsto> blk_next h)) (free_list s) (map fst us) (blk_next h)"
      unfolding ll using px False ds by (intro link_path_last_upd) auto
    then have "link_path (blk_link ?H') (free_list s) (map fst us @ map fst vs) NULL"
      using ds pv l by auto
    moreover have "has_size ?H' b = has_size ?H b" for b using h k l by (auto simp: has_size_def)
    ultimately have "free_chain ?H' (free_list s) (us @ vs)"
      using ds sz by (auto simp: free_chain_def)
    from that [OF rm this h(1)] show thesis using h k l by simp
  qed
qed

section \<open>The heap invariant\<close>

text \<open>
  \<open>heap_inv pool s xs ys\<close>: \<open>xs\<close> are the free blocks in list order, \<open>ys\<close> the allocated ones; their
  headers carry their sizes, and together they tile the pool: aligned, disjoint, inside the
  pool, and with sizes that add up to all of it.
\<close>

definition heap_inv :: "addr \<Rightarrow> kernel \<Rightarrow> block list \<Rightarrow> block list \<Rightarrow> bool" where
  "heap_inv pool s xs ys \<longleftrightarrow> heap_ready s \<and> free_chain (heap_blocks s) (free_list s) xs
     \<and> (\<forall>b \<in> set ys. has_size (heap_blocks s) b) \<and> tiles pool (xs @ ys)
     \<and> (\<forall>a. in_pool pool a \<longrightarrow> heap_blocks s a \<noteq> None)"

lemma unat_mod_8: "unat (x mod 8) = unat x mod 8" for x :: u32
  by (simp add: unat_mod)

lemma tile_in_pool:
  assumes p: "pool_ok pool" and t: "tile_ok pool (a, n)" and k: "unat k < unat n" "8 dvd unat k"
  shows "in_pool pool (a + k)" and "a + k \<noteq> NULL"
proof -
  have ak: "unat (a + k) = unat a + unat k" using block_end [OF p t] k by simp
  have pos: "0 < unat pool" using p by (simp add: pool_ok_def unat_gt_0)
  have d: "unat (a + k - pool) = unat a + unat k - unat pool"
    using t unfolding unat_sub_if_size ak by (simp add: tile_ok_def)
  have "8 dvd unat a + unat k - unat pool" using p t k by (simp add: pool_ok_def tile_ok_def dvd_diff_nat)
  then have "unat ((a + k - pool) mod 8) = 0" unfolding unat_mod_8 d by (simp add: dvd_eq_mod_eq_0)
  then have "(a + k - pool) mod 8 = 0" by (simp add: unat_0_iff)
  moreover have "unat a + unat k - unat pool < 32768" using t k(1) unfolding tile_ok_def fst_conv snd_conv by linarith
  then have "a + k - pool < RTOS_HEAP_POOL_SIZE" by (simp add: d word_less_nat_alt RTOS_HEAP_POOL_SIZE_def)
  ultimately show "in_pool pool (a + k)" by (simp add: in_pool_def)
  have "0 < unat (a + k)" unfolding ak using t pos by (simp add: tile_ok_def)
  then show "a + k \<noteq> NULL" by auto
qed

lemma tile_head:
  assumes "pool_ok pool" and "tile_ok pool (a, n)"
  shows "in_pool pool a" and "a \<noteq> NULL"
  using tile_in_pool [OF assms, of 0] assms(2) by (auto simp: tile_ok_def)

text \<open>After \<open>heap_init\<close> the whole pool is one free block.\<close>

lemma heap_init_inv:
  assumes "pool_ok pool"
  shows "heap_inv pool (heap_init pool s) [(pool, RTOS_HEAP_POOL_SIZE)] []"
proof -
  have "tiles pool [(pool, RTOS_HEAP_POOL_SIZE)]"
    using assms by (simp add: tiles_def tile_ok_def RTOS_HEAP_POOL_SIZE_def pool_ok_def)
  then show ?thesis
    using assms by (auto simp: heap_inv_def heap_init_def free_chain_Cons pool_ok_def)
qed

section \<open>Allocation\<close>

lemma take_drop_first:
  fixes t n :: u32
  assumes "\<forall>b \<in> set us. snd b < t" and "t \<le> n"
  shows "takeWhile (\<lambda>b. snd b < t) (us @ (a, n) # vs) = us"
    and "dropWhile (\<lambda>b. snd b < t) (us @ (a, n) # vs) = (a, n) # vs"
proof -
  have "\<not> n < t" using assms(2) by (rule leD)
  then show "takeWhile (\<lambda>b. snd b < t) (us @ (a, n) # vs) = us"
    "dropWhile (\<lambda>b. snd b < t) (us @ (a, n) # vs) = (a, n) # vs"
    using assms(1) by (simp_all add: takeWhile_append dropWhile_append)
qed

text \<open>Cutting the first fit: the front stays allocated, the rest returns to the free list.\<close>

lemma tiles_cut:
  assumes t: "tiles pool ((a, n) # bs)" and m: "16 \<le> unat m" "8 dvd unat m" and left: "16 \<le> unat (n - m)" and mn: "m \<le> n"
  shows "tiles pool ((a, m) # (a + m, n - m) # bs)"
proof -
  have p: "pool_ok pool" and ta: "tile_ok pool (a, n)" using t by (auto simp: tiles_Cons)
  have d: "unat (n - m) = unat n - unat m" and le: "unat m \<le> unat n"
    using mn by (simp_all add: unat_sub word_le_nat_alt)
  have eq: "m + (n - m) = n" by simp
  have "8 dvd unat (n - m)" unfolding d using ta m by (simp add: tile_ok_def dvd_diff_nat)
  moreover have "unat (m + (n - m)) = unat m + unat (n - m)" unfolding eq d using le by simp
  moreover have "unat (a + m) = unat a + unat m" using block_end [OF p ta le] .
  ultimately show ?thesis using tiles_split_iff [OF p, of m "n - m" "a + m" a bs] t m left eq by simp
qed

text \<open>What a request leaves of a fitting block, and what it takes.\<close>

definition alloc_size :: "u32 \<Rightarrow> u32 \<Rightarrow> u32" where
  "alloc_size sz n = (if 16 \<le> n - alloc_total sz then alloc_total sz else n)"

definition alloc_rest :: "u32 \<Rightarrow> block list \<Rightarrow> addr \<Rightarrow> u32 \<Rightarrow> block list" where
  "alloc_rest sz xs a n =
     (if 16 \<le> n - alloc_total sz then coalesce ((a + alloc_total sz, n - alloc_total sz) # xs) else xs)"

lemma unlink_fit:
  assumes inv: "heap_inv pool s (us @ (a, n) # vs) ys"
    and first: "\<forall>b \<in> set us. snd b < t" and fit: "t \<le> n"
  obtains H1 p1 h where "first_fit (heap_blocks s) t NULL (free_list s) = Some (Some (if us = [] then NULL else fst (last us), a))"
    and "remove_from_list a (if us = [] then NULL else fst (last us)) s = Some (s\<lparr>heap_blocks := H1, free_list := p1\<rparr>)"
    and "heap_blocks s a = Some h" and "H1 a = Some (h\<lparr>blk_next := NULL\<rparr>)" and "blk_size h = n" and "a \<noteq> NULL"
    and "free_chain H1 p1 (us @ vs)" and "\<forall>b \<in> set ys. has_size H1 b" and "\<forall>b. in_pool pool b \<longrightarrow> H1 b \<noteq> None"
proof -
  let ?H = "heap_blocks s"
  have ch: "free_chain ?H (free_list s) (us @ (a, n) # vs)"
    and al: "\<forall>b \<in> set ys. has_size ?H b" and ti: "tiles pool ((us @ (a, n) # vs) @ ys)"
    and ex: "\<forall>a. in_pool pool a \<longrightarrow> ?H a \<noteq> None" using inv by (auto simp: heap_inv_def)
  have "tiles pool ((a, n) # us @ vs @ ys)"
    using ti tiles_perm [of "(us @ (a, n) # vs) @ ys" "(a, n) # us @ vs @ ys" pool] by simp
  then have a0: "a \<noteq> NULL" using tile_head by (fastforce simp: tiles_Cons)
  have ff: "first_fit ?H t NULL (free_list s) = Some (Some (if us = [] then NULL else fst (last us), a))"
    using first_fit_chain [OF ch, of t NULL] unfolding take_drop_first [OF first fit] by simp
  obtain H1 p1 h where rm: "remove_from_list a (if us = [] then NULL else fst (last us)) s
      = Some (s\<lparr>heap_blocks := H1, free_list := p1\<rparr>)"
    and ch1: "free_chain H1 p1 (us @ vs)" and h: "?H a = Some h" "H1 a = Some (h\<lparr>blk_next := NULL\<rparr>)"
    and same: "\<And>b. map_option blk_size (H1 b) = map_option blk_size (?H b)"
    using remove_from_list_refines [OF ch] by metis
  have hn: "blk_size h = n" using ch h by (auto simp: free_chain_def has_size_def)
  have "H1 b = None \<longleftrightarrow> ?H b = None" for b using same [of b] by (cases "H1 b"; cases "?H b") auto
  with ex have "\<forall>b. in_pool pool b \<longrightarrow> H1 b \<noteq> None" by simp
  moreover have "\<forall>b \<in> set ys. has_size H1 b" using al same unfolding has_size_def by simp
  ultimately show thesis using that ff rm h hn a0 ch1 by blast
qed

text \<open>A block taken off the free list is cut in two, and the rest is put back and coalesced.\<close>

lemma carve_block:
  assumes ti: "tiles pool ((a, n) # xs @ ys)" and t: "16 \<le> unat t" "8 dvd unat t" and l: "16 \<le> n - t" and fit: "t \<le> n"
    and ch: "free_chain H p xs" and H: "H a = Some h" and al: "\<forall>b \<in> set ys. has_size H b"
    and ex: "\<forall>b. in_pool pool b \<longrightarrow> H b \<noteq> None"
  obtains f0 H' where "H (a + t) = Some f0" and "a + t \<noteq> NULL" and "a + t \<noteq> a"
    and "coalesce_loop (H(a + t \<mapsto> f0\<lparr>blk_size := n - t, blk_next := p\<rparr>, a \<mapsto> h\<lparr>blk_size := t, blk_next := NULL\<rparr>)) (a + t) = Some H'"
    and "free_chain H' (a + t) (coalesce ((a + t, n - t) # xs))"
    and "tiles pool (coalesce ((a + t, n - t) # xs) @ (a, t) # ys)"
    and "\<forall>b \<in> set ((a, t) # ys). has_size H' b" and "\<forall>b. in_pool pool b \<longrightarrow> H' b \<noteq> None"
proof -
  let ?f = "a + t" and ?l = "n - t"
  have p: "pool_ok pool" and ta: "tile_ok pool (a, n)" using ti by (auto simp: tiles_Cons)
  have l16: "16 \<le> unat ?l" using l by (simp add: word_le_nat_alt)
  have cut: "tiles pool ((a, t) # (?f, ?l) # xs @ ys)" by (rule tiles_cut [OF ti t l16 fit])
  have ds: "distinct (map fst ((a, t) # (?f, ?l) # xs @ ys))" using tiles_distinct_fst [OF cut] .
  have "unat t < unat n" using l16 fit by (simp add: unat_sub word_le_nat_alt)
  then have fp: "in_pool pool ?f" "?f \<noteq> NULL" using tile_in_pool [OF p ta _ t(2)] by auto
  obtain f0 where f0: "H ?f = Some f0" using ex fp by (meson not_None_eq)
  have fa: "?f \<noteq> a" and out: "a \<notin> fst ` set xs" "?f \<notin> fst ` set xs" using ds by auto
  let ?H2 = "H(?f \<mapsto> f0\<lparr>blk_size := ?l, blk_next := p\<rparr>, a \<mapsto> h\<lparr>blk_size := t, blk_next := NULL\<rparr>)"
  have "free_chain ?H2 p xs" using ch out by (simp add: free_chain_upd)
  then have "free_chain ?H2 ?f ((?f, ?l) # xs)" using fp out fa by (simp add: free_chain_Cons)
  from coalesce_loop_refines [OF this] obtain H' where H': "coalesce_loop ?H2 ?f = Some H'"
    "free_chain H' ?f (coalesce ((?f, ?l) # xs))" "\<forall>b. b \<notin> fst ` set ((?f, ?l) # xs) \<longrightarrow> H' b = ?H2 b" "dom H' = dom ?H2" by blast
  have "tiles pool (((?f, ?l) # xs) @ (a, t) # ys)"
    using cut tiles_perm [of "((?f, ?l) # xs) @ (a, t) # ys" "(a, t) # (?f, ?l) # xs @ ys" pool] by simp
  then have tiles: "tiles pool (coalesce ((?f, ?l) # xs) @ (a, t) # ys)" by (rule tiles_coalesce)
  have "has_size H' b" if b: "b \<in> set ys" for b
  proof -
    have "fst b \<in> fst ` set ys" using b by (rule imageI)
    moreover have "a \<notin> fst ` set ys" "?f \<notin> fst ` set ys" "fst ` set xs \<inter> fst ` set ys = {}" using ds by auto
    ultimately have "fst b \<noteq> a" "fst b \<noteq> ?f" "fst b \<notin> fst ` set xs" by (metis, metis, blast)
    then have "H' (fst b) = H (fst b)" using H'(3) by simp
    then show ?thesis using al b by (simp add: has_size_def)
  qed
  moreover have "has_size H' (a, t)" using H'(3) out fa by (simp add: has_size_def)
  moreover have "\<forall>b. in_pool pool b \<longrightarrow> H' b \<noteq> None" using ex H'(4) by (auto simp: dom_def)
  ultimately show thesis using that f0 fp fa H'(1,2) tiles by simp
qed

lemma heap_alloc_fit:
  assumes inv: "heap_inv pool s (us @ (a, n) # vs) ys" and sz: "sz \<noteq> 0" "unat sz + 15 < 2 ^ 32"
    and first: "\<forall>b \<in> set us. snd b < alloc_total sz" and fit: "alloc_total sz \<le> n"
  obtains s' where "heap_alloc sz s = Some (a + 8, s')"
    and "heap_inv pool s' (alloc_rest sz (us @ vs) a n) ((a, alloc_size sz n) # ys)"
proof -
  let ?t = "alloc_total sz"
  have rdy: "heap_ready s" and ti: "tiles pool ((us @ (a, n) # vs) @ ys)" using inv by (auto simp: heap_inv_def)
  from unlink_fit [OF inv first fit] obtain H1 p1 h where
    u: "first_fit (heap_blocks s) ?t NULL (free_list s) = Some (Some (if us = [] then NULL else fst (last us), a))"
      "remove_from_list a (if us = [] then NULL else fst (last us)) s = Some (s\<lparr>heap_blocks := H1, free_list := p1\<rparr>)"
      "heap_blocks s a = Some h" "H1 a = Some (h\<lparr>blk_next := NULL\<rparr>)" "blk_size h = n" "a \<noteq> NULL"
    and ch1: "free_chain H1 p1 (us @ vs)" and al: "\<forall>b \<in> set ys. has_size H1 b" and ex: "\<forall>b. in_pool pool b \<longrightarrow> H1 b \<noteq> None" by metis
  show thesis
  proof (cases "16 \<le> n - ?t")
    case False
    let ?s = "s\<lparr>heap_blocks := H1, free_list := p1\<rparr>"
    have "heap_alloc sz s = Some (a + 8, ?s)" using rdy sz u False by (simp add: heap_alloc_def Let_def HDR_def)
    moreover have "tiles pool ((us @ vs) @ (a, n) # ys)"
      using ti tiles_perm [of "(us @ (a, n) # vs) @ ys" "(us @ vs) @ (a, n) # ys" pool] by simp
    then have "heap_inv pool ?s (us @ vs) ((a, n) # ys)" using rdy ch1 al ex u(4,5) by (simp add: heap_inv_def has_size_def)
    ultimately show thesis using that False by (simp add: alloc_size_def alloc_rest_def)
  next
    case True
    have "tiles pool ((a, n) # (us @ vs) @ ys)"
      using ti tiles_perm [of "(us @ (a, n) # vs) @ ys" "(a, n) # (us @ vs) @ ys" pool] by simp
    from carve_block [OF this alloc_total_bounds(3,4) [OF sz(2,1)] True fit ch1 u(4) al ex] obtain f0 H' where
      f: "H1 (a + ?t) = Some f0" "a + ?t \<noteq> NULL" "a + ?t \<noteq> a"
      and H': "coalesce_loop (H1(a + ?t \<mapsto> f0\<lparr>blk_size := n - ?t, blk_next := p1\<rparr>, a \<mapsto> h\<lparr>blk_size := ?t, blk_next := NULL\<rparr>)) (a + ?t) = Some H'"
      and inv': "free_chain H' (a + ?t) (coalesce ((a + ?t, n - ?t) # us @ vs))" "tiles pool (coalesce ((a + ?t, n - ?t) # us @ vs) @ (a, ?t) # ys)"
        "\<forall>b \<in> set ((a, ?t) # ys). has_size H' b" "\<forall>b. in_pool pool b \<longrightarrow> H' b \<noteq> None" by auto
    have "H1(a + ?t \<mapsto> f0\<lparr>blk_size := n - ?t, blk_next := NULL\<rparr>, a \<mapsto> h\<lparr>blk_next := NULL, blk_size := ?t\<rparr>,
          a + ?t \<mapsto> f0\<lparr>blk_size := n - ?t, blk_next := p1\<rparr>)
        = H1(a + ?t \<mapsto> f0\<lparr>blk_size := n - ?t, blk_next := p1\<rparr>, a \<mapsto> h\<lparr>blk_size := ?t, blk_next := NULL\<rparr>)"
      using f(3) by (auto simp: fun_upd_twist)
    then have "heap_alloc sz s = Some (a + 8, s\<lparr>heap_blocks := H', free_list := a + ?t\<rparr>)"
      using rdy sz u f True H' by (simp add: heap_alloc_def Let_def HDR_def prepend_free_def coalesce_forward_def)
    moreover have "heap_inv pool (s\<lparr>heap_blocks := H', free_list := a + ?t\<rparr>) (coalesce ((a + ?t, n - ?t) # us @ vs)) ((a, ?t) # ys)"
      using rdy inv' by (simp add: heap_inv_def)
    ultimately show thesis using that True by (simp add: alloc_size_def alloc_rest_def)
  qed
qed

text \<open>The headers describe payloads that lie inside the pool and do not meet.\<close>

definition payload :: "block \<Rightarrow> nat set" where
  "payload b = {unat (fst b) + 8 ..< unat (fst b) + unat (snd b)}"

lemma payload_apart: "apart x y \<Longrightarrow> payload x \<inter> payload y = {}"
  by (auto simp: apart_def payload_def)

text \<open>
  C14. Allocation. If some free block is large enough, \<open>heap_alloc\<close> returns an 8-byte aligned
  pointer into the pool behind the header of the first such block; the block joins the
  allocated ones with room for the requested bytes, its payload is disjoint from that of
  every other allocated block, and free and allocated blocks again tile the pool.
\<close>

theorem heap_alloc_correct:
  assumes inv: "heap_inv pool s (us @ (a, n) # vs) ys" and sz: "sz \<noteq> 0" "unat sz + 15 < 2 ^ 32"
    and first: "\<forall>b \<in> set us. snd b < alloc_total sz" and fit: "alloc_total sz \<le> n"
  shows "\<exists>s' xs' m. heap_alloc sz s = Some (a + 8, s') \<and> heap_inv pool s' xs' ((a, m) # ys)
    \<and> 8 dvd unat (a + 8) \<and> {unat (a + 8) ..< unat (a + 8) + unat sz} \<subseteq> payload (a, m)
    \<and> payload (a, m) \<subseteq> {unat pool ..< unat pool + 32768}
    \<and> (\<forall>b \<in> set ys. payload (a, m) \<inter> payload b = {})"
proof -
  let ?m = "alloc_size sz n" and ?xs = "alloc_rest sz (us @ vs) a n"
  obtain s' where al: "heap_alloc sz s = Some (a + 8, s')" and inv': "heap_inv pool s' ?xs ((a, ?m) # ys)"
    by (rule heap_alloc_fit [OF assms])
  have m: "alloc_total sz \<le> ?m" using fit by (simp add: alloc_size_def)
  have ti: "tiles pool ((a, ?m) # ?xs @ ys)"
    using inv' tiles_perm [of "?xs @ (a, ?m) # ys" "(a, ?m) # ?xs @ ys" pool] by (simp add: heap_inv_def)
  then have p: "pool_ok pool" and ta: "tile_ok pool (a, ?m)" and ap: "\<forall>b \<in> set ys. apart (a, ?m) b"
    by (auto simp: tiles_Cons)
  have "unat (8 :: u32) \<le> unat ?m" using ta by (simp add: tile_ok_def)
  then have a8: "unat (a + 8) = unat a + 8" using block_end [OF p ta, of 8] by simp
  have "unat sz + 8 \<le> unat ?m" using alloc_total_bounds(1) [OF sz(2,1)] m by (simp add: word_le_nat_alt)
  then have "{unat (a + 8) ..< unat (a + 8) + unat sz} \<subseteq> payload (a, ?m)" by (auto simp: a8 payload_def)
  moreover have "payload (a, ?m) \<subseteq> {unat pool ..< unat pool + 32768}" using ta by (auto simp: payload_def tile_ok_def)
  moreover have "8 dvd unat (a + 8)" using ta by (simp add: a8 tile_ok_def)
  ultimately show ?thesis using al inv' ap payload_apart by blast
qed

text \<open>If no free block is large enough the request fails.\<close>

lemma heap_alloc_none:
  assumes "heap_inv pool s xs ys" and "\<forall>b \<in> set xs. snd b < alloc_total sz"
  shows "heap_alloc sz s = Some (NULL, s)"
proof -
  have ch: "free_chain (heap_blocks s) (free_list s) xs" using assms(1) by (simp add: heap_inv_def)
  have dw: "dropWhile (\<lambda>b. snd b < alloc_total sz) xs = []" using assms(2) by simp
  have "first_fit (heap_blocks s) (alloc_total sz) NULL (free_list s) = Some None"
    using first_fit_chain [OF ch, of "alloc_total sz" NULL] unfolding dw by simp
  then show ?thesis by (simp add: heap_alloc_def Let_def)
qed

lemma heap_alloc_cases [consumes 2, case_names fail fit]:
  assumes inv: "heap_inv pool s xs ys" and sz: "unat sz + 15 < 2 ^ 32"
  obtains (fail) "sz = 0 \<or> (\<forall>b \<in> set xs. snd b < alloc_total sz)" "heap_alloc sz s = Some (NULL, s)"
  | (fit) us a n vs s' where "xs = us @ (a, n) # vs" "sz \<noteq> 0" "alloc_total sz \<le> n" "a + 8 \<noteq> NULL"
      "heap_alloc sz s = Some (a + 8, s')"
      "heap_inv pool s' (alloc_rest sz (us @ vs) a n) ((a, alloc_size sz n) # ys)"
proof (cases "sz = 0 \<or> (\<forall>b \<in> set xs. snd b < alloc_total sz)")
  case True
  then show thesis using fail heap_alloc_none [OF inv, of sz] by (auto simp: heap_alloc_def)
next
  case False
  then obtain us a n vs where xs: "xs = us @ (a, n) # vs" and first: "\<forall>b \<in> set us. snd b < alloc_total sz"
    and le: "alloc_total sz \<le> n" using split_list_first_prop [of xs "\<lambda>b. \<not> snd b < alloc_total sz"] by fastforce
  have "tiles pool (xs @ ys)" using inv by (simp add: heap_inv_def)
  then have p: "pool_ok pool" and ta: "tile_ok pool (a, n)" unfolding xs by (auto simp: tiles_def)
  have "a + 8 \<noteq> NULL" using tile_in_pool(2) [OF p ta, of 8] ta by (simp add: tile_ok_def)
  then show thesis using heap_alloc_fit [OF inv [unfolded xs] _ sz first le] False fit [OF xs _ le] by blast
qed

lemma heap_alloc_returns:
  assumes "heap_inv pool s xs ys" and "unat sz + 15 < 2 ^ 32"
  obtains p s' where "heap_alloc sz s = Some (p, s')"
  using assms by (cases rule: heap_alloc_cases) (use that in auto)

text \<open>
  Exhaustion. For a request that does not overflow, \<open>heap_alloc\<close> always returns; the result
  is \<open>NULL\<close> exactly if nothing is asked for or no free block is large enough, and then
  nothing changes.
\<close>

theorem heap_alloc_null_iff:
  assumes inv: "heap_inv pool s xs ys" and sz: "unat sz + 15 < 2 ^ 32"
  shows "\<exists>p s'. heap_alloc sz s = Some (p, s')
    \<and> (p = NULL \<longleftrightarrow> sz = 0 \<or> (\<forall>b \<in> set xs. snd b < alloc_total sz)) \<and> (p = NULL \<longrightarrow> s' = s)"
  using assms
proof (cases rule: heap_alloc_cases)
  case (fit us a n vs s')
  then show ?thesis by (auto dest: leD)
qed blast

section \<open>Release\<close>

lemma heap_free_block:
  assumes inv: "heap_inv pool s xs (us @ (a, n) # vs)"
  obtains s' where "heap_free (a + 8) s = Some s'" and "heap_inv pool s' (coalesce ((a, n) # xs)) (us @ vs)"
proof -
  let ?H = "heap_blocks s"
  have rdy: "heap_ready s" and ch: "free_chain ?H (free_list s) xs"
    and al: "\<forall>b \<in> set (us @ (a, n) # vs). has_size ?H b" and ti: "tiles pool (xs @ us @ (a, n) # vs)"
    and ex: "\<forall>a. in_pool pool a \<longrightarrow> ?H a \<noteq> None" using inv by (auto simp: heap_inv_def)
  have ti1: "tiles pool (((a, n) # xs) @ us @ vs)"
    using ti tiles_perm [of "xs @ us @ (a, n) # vs" "((a, n) # xs) @ us @ vs" pool] by simp
  have p: "pool_ok pool" and ta: "tile_ok pool (a, n)" using ti1 by (auto simp: tiles_Cons)
  have ds: "distinct (map fst (((a, n) # xs) @ us @ vs))" using tiles_distinct_fst [OF ti1] .
  have a0: "a \<noteq> NULL" using tile_head [OF p ta] by blast
  have a8: "a + 8 \<noteq> NULL" using tile_in_pool(2) [OF p ta, of 8] ta by (simp add: tile_ok_def)
  obtain h where h: "?H a = Some h" "blk_size h = n" using al by (auto simp: has_size_def)
  let ?H1 = "?H(a \<mapsto> h\<lparr>blk_next := free_list s\<rparr>)"
  have "a \<notin> fst ` set xs" using ds by auto
  then have ch1: "free_chain ?H1 a ((a, n) # xs)" using ch a0 h by (simp add: free_chain_Cons free_chain_upd)
  obtain H' where H': "coalesce_loop ?H1 a = Some H'" "free_chain H' a (coalesce ((a, n) # xs))"
    "\<forall>b. b \<notin> fst ` set ((a, n) # xs) \<longrightarrow> H' b = ?H1 b" "dom H' = dom ?H1"
    using coalesce_loop_refines [OF ch1] by blast
  let ?s' = "s\<lparr>heap_blocks := H', free_list := a\<rparr>"
  have "heap_free (a + 8) s = Some ?s'"
    using a8 a0 rdy h H'(1) by (simp add: heap_free_def HDR_def Let_def prepend_free_def coalesce_forward_def)
  moreover have "has_size H' b" if b: "b \<in> set (us @ vs)" for b
  proof -
    have "fst b \<notin> fst ` set ((a, n) # xs)" using ds b by auto
    then have "H' (fst b) = ?H (fst b)" using H'(3) by simp
    then show ?thesis using al b by (simp add: has_size_def)
  qed
  moreover have "H' c \<noteq> None" if "in_pool pool c" for c
  proof -
    have "c \<in> dom ?H1" using ex that by (auto simp: dom_def)
    then show ?thesis using H'(4) by auto
  qed
  ultimately show thesis using that rdy H'(2) tiles_coalesce [OF ti1] by (simp add: heap_inv_def)
qed

lemma coalesce_head: "\<exists>m. coalesce ((a, n) # xs) = (a, m) # tl (coalesce ((a, n) # xs))"
  using coalesce_hd [of "(a, n) # xs"] by (cases "coalesce ((a, n) # xs)") auto

lemma coalesce_idem [simp]: "coalesce (coalesce xs) = coalesce xs"
proof (induction xs rule: coalesce.induct)
  case (1 a n b m xs)
  obtain k where "coalesce ((b, m) # xs) = (b, k) # tl (coalesce ((b, m) # xs))"
    using coalesce_head by blast
  then show ?case using 1 by (metis coalesce.simps(1))
qed simp_all

text \<open>A block and the block right behind it are joined again, whatever was joined before.\<close>

lemma coalesce_rejoin: "coalesce ((a, t) # coalesce ((a + t, k) # xs)) = coalesce ((a, t + k) # xs)"
proof (induction xs arbitrary: k)
  case Nil
  then show ?case by simp
next
  case (Cons x xs)
  obtain b m where x: "x = (b, m)" by (cases x)
  show ?case
  proof (cases "a + t + k = b")
    case True
    then show ?thesis using Cons [of "k + m"] by (simp add: x add.assoc)
  next
    case False
    obtain j where j: "coalesce ((b, m) # xs) = (b, j) # tl (coalesce ((b, m) # xs))"
      using coalesce_head by blast
    have "coalesce ((a, t + k) # coalesce ((b, m) # xs)) = (a, t + k) # coalesce (coalesce ((b, m) # xs))"
      using False by (subst (1 2) j) (simp add: add.assoc)
    then show ?thesis using False by (simp add: x add.assoc)
  qed
qed

lemma alloc_then_coalesce:
  assumes "alloc_total sz \<le> n"
  shows "coalesce ((a, alloc_size sz n) # alloc_rest sz xs a n) = coalesce ((a, n) # xs)"
  using coalesce_rejoin [of a "alloc_total sz" "n - alloc_total sz" xs] by (simp add: alloc_size_def alloc_rest_def)

text \<open>
  Round trip. Freeing a block right after its allocation undoes the cut: the block the
  request was served from is whole again, at the front of the free list, and the allocated
  blocks are those from before.
\<close>

theorem heap_alloc_free_roundtrip:
  assumes inv: "heap_inv pool s (us @ (a, n) # vs) ys" and sz: "sz \<noteq> 0" "unat sz + 15 < 2 ^ 32"
    and first: "\<forall>b \<in> set us. snd b < alloc_total sz" and fit: "alloc_total sz \<le> n"
  shows "\<exists>s1 s2. heap_alloc sz s = Some (a + 8, s1) \<and> heap_free (a + 8) s1 = Some s2
    \<and> heap_inv pool s2 (coalesce ((a, n) # us @ vs)) ys"
proof -
  obtain s1 where s1: "heap_alloc sz s = Some (a + 8, s1)"
    "heap_inv pool s1 (alloc_rest sz (us @ vs) a n) ([] @ (a, alloc_size sz n) # ys)"
    using heap_alloc_fit [OF assms] by auto
  then show ?thesis using heap_free_block [OF s1(2)] alloc_then_coalesce [OF fit, of a "us @ vs"] by auto
qed

text \<open>The free memory and the order of the sweep.\<close>

definition free_bytes :: "block list \<Rightarrow> nat" where
  "free_bytes xs = (\<Sum>b \<leftarrow> xs. unat (snd b))"

fun swept :: "block list \<Rightarrow> bool" where
  "swept (x # y # xs) \<longleftrightarrow> fst x + snd x \<noteq> fst y \<and> swept (y # xs)"
| "swept xs \<longleftrightarrow> True"

lemma coalesce_swept: "swept (coalesce xs)"
proof (induction xs rule: coalesce.induct)
  case (1 a n b m xs)
  obtain k where k: "coalesce ((b, m) # xs) = (b, k) # tl (coalesce ((b, m) # xs))"
    using coalesce_head by blast
  have "swept ((a, n) # coalesce ((b, m) # xs))" if "a + n \<noteq> b"
    using that "1.IH"(2) [OF that] by (subst k) (subst (asm) k, simp)
  then show ?case using "1.IH"(1) by simp
qed simp_all

lemma free_bytes_released:
  assumes "heap_inv pool s xs (us @ (a, n) # vs)" and "heap_inv pool s' xs' (us @ vs)"
  shows "free_bytes xs' = free_bytes xs + unat n"
  using assms by (simp add: heap_inv_def tiles_def free_bytes_def)


section \<open>Histories\<close>

text \<open>
  What clients do with the allocator after \<open>heap_init\<close>: requests of any size, and releases of pointers
  that are held. The first list holds the sizes requested, the second the pointers held.
\<close>

inductive heap_run :: "addr \<Rightarrow> kernel \<Rightarrow> u32 list \<Rightarrow> addr list \<Rightarrow> bool" for pool where
  start: "heap_run pool (heap_init pool s) [] []"
| alloc: "heap_run pool s zs ps \<Longrightarrow> heap_alloc sz s = Some (p, s') \<Longrightarrow>
    heap_run pool s' (sz # zs) (if p = NULL then ps else p # ps)"
| free: "heap_run pool s zs (ps @ p # qs) \<Longrightarrow> heap_free p s = Some s' \<Longrightarrow> heap_run pool s' zs (ps @ qs)"

lemma heap_run_inv:
  assumes "heap_run pool s zs ps" and "pool_ok pool" and "\<forall>z \<in> set zs. unat z + 15 < 2 ^ 32"
  shows "\<exists>xs ys. heap_inv pool s xs ys \<and> ps = map (\<lambda>b. fst b + 8) ys"
  using assms
proof (induction rule: heap_run.induct)
  case (start s)
  then show ?case using heap_init_inv by fastforce
next
  case (alloc s zs ps sz p s')
  then obtain xs ys where inv: "heap_inv pool s xs ys" and ps: "ps = map (\<lambda>b. fst b + 8) ys" by auto
  have sz: "unat sz + 15 < 2 ^ 32" using alloc.prems by simp
  show ?case
    using inv sz
  proof (cases rule: heap_alloc_cases)
    case fail
    then show ?thesis using alloc.hyps inv ps by auto
  next
    case (fit us a n vs t)
    then show ?thesis using alloc.hyps ps by fastforce
  qed
next
  case (free s zs ps p qs s')
  then obtain xs ys where inv: "heap_inv pool s xs ys" and ps: "ps @ p # qs = map (\<lambda>b. fst b + 8) ys" by blast
  then obtain us a n vs where ys: "ys = us @ (a, n) # vs" "ps = map (\<lambda>b. fst b + 8) us" "p = a + 8"
    "qs = map (\<lambda>b. fst b + 8) vs" by (auto simp: append_eq_map_conv Cons_eq_map_conv)
  obtain t where "heap_free (a + 8) s = Some t" "heap_inv pool t (coalesce ((a, n) # xs)) (us @ vs)"
    using heap_free_block [OF inv [unfolded ys(1)]] by blast
  then show ?case using free.hyps ys by fastforce
qed

text \<open>
  C18. Safety of every history without overflow. After any sequence of allocations and releases in
  which no requested size is within 15 bytes of \<open>2 ^ 32\<close>, the pointers that clients hold are
  distinct, aligned and inside the pool; each of them can be freed, and every request that does
  not overflow returns. The condition on the sizes is needed: \<open>heap_alloc_overflow\<close>.
\<close>

theorem heap_run_safe:
  assumes run: "heap_run pool s zs ps" and ok: "pool_ok pool" and small: "\<forall>z \<in> set zs. unat z + 15 < 2 ^ 32"
  shows "distinct ps \<and> (\<forall>p \<in> set ps. 8 dvd unat p \<and> unat p \<in> {unat pool ..< unat pool + 32768})
    \<and> (\<forall>p \<in> set ps. \<exists>s'. heap_free p s = Some s')
    \<and> (\<forall>sz. unat sz + 15 < 2 ^ 32 \<longrightarrow> (\<exists>p s'. heap_alloc sz s = Some (p, s')))"
proof -
  obtain xs ys where inv: "heap_inv pool s xs ys" and ps: "ps = map (\<lambda>b. fst b + 8) ys"
    using heap_run_inv [OF assms] by blast
  have ti: "tiles pool (xs @ ys)" using inv by (simp add: heap_inv_def)
  have "distinct (map (\<lambda>a. a + 8) (map fst ys))"
    using tiles_distinct_fst [OF ti] by (subst distinct_map) (auto intro: inj_onI)
  then have "distinct ps" by (simp add: ps comp_def)
  moreover have "8 dvd unat p \<and> unat p \<in> {unat pool ..< unat pool + 32768}" if "p \<in> set ps" for p
  proof -
    obtain a n where b: "(a, n) \<in> set ys" "p = a + 8" using \<open>p \<in> set ps\<close> by (auto simp: ps)
    then have t: "tile_ok pool (a, n)" using ti by (auto simp: tiles_def)
    then have "unat p = unat a + 8" unfolding b using block_end [OF ok t, of 8] by (simp add: tile_ok_def)
    then show ?thesis using t by (simp add: tile_ok_def)
  qed
  moreover have "\<exists>s'. heap_free p s = Some s'" if "p \<in> set ps" for p
  proof -
    obtain a n where b: "(a, n) \<in> set ys" "p = a + 8" using \<open>p \<in> set ps\<close> by (auto simp: ps)
    then obtain us vs where "ys = us @ (a, n) # vs" by (meson split_list)
    then show ?thesis using heap_free_block [of pool s xs us a n vs] inv b by blast
  qed
  moreover have "\<exists>p s'. heap_alloc sz s = Some (p, s')" if "unat sz + 15 < 2 ^ 32" for sz
    using heap_alloc_returns [OF inv that] by blast
  ultimately show ?thesis by blast
qed

section \<open>Limits of the allocator\<close>

lemma alloc_total_wraps: "alloc_total 0xFFFFFFF8 = 0" "alloc_total 0xFFFFFFFF = 8"
  by (simp_all add: alloc_total_def HDR_def)

text \<open>
  C40. Overflow. The size computation of \<open>heap_alloc\<close> is not checked: on a fresh heap a request of
  \<open>0xFFFFFFF8\<close> bytes succeeds, and the block it returns stays on the free list with size 0, so
  that afterwards every proper request fails although nothing is in use.
\<close>

theorem heap_alloc_overflow:
  assumes ok: "pool_ok pool" and sz: "sz \<noteq> 0" "unat sz + 15 < 2 ^ 32"
  shows "\<exists>s'. heap_alloc 0xFFFFFFF8 (heap_init pool s) = Some (pool + 8, s') \<and> free_list s' = pool
    \<and> heap_alloc sz s' = Some (NULL, s')"
proof -
  let ?s = "heap_init pool s"
  have p0: "pool \<noteq> NULL" using ok by (simp add: pool_ok_def)
  have b: "heap_blocks ?s pool = Some \<lparr>blk_size = RTOS_HEAP_POOL_SIZE, blk_next = NULL\<rparr>" "free_list ?s = pool"
    "heap_ready ?s" by (simp_all add: heap_init_def)
  let ?s' = "?s\<lparr>heap_blocks := (heap_blocks ?s)(pool \<mapsto> \<lparr>blk_size = 0, blk_next = NULL\<rparr>), free_list := pool\<rparr>"
  have "heap_alloc 0xFFFFFFF8 ?s = Some (pool + 8, ?s')"
    using p0 b by (simp add: heap_alloc_def Let_def alloc_total_wraps first_fit.simps [of _ _ _ pool] HDR_def
        RTOS_HEAP_POOL_SIZE_def remove_from_list_def prepend_free_def coalesce_forward_def coalesce_loop.simps [of _ pool])
  moreover have "\<not> alloc_total sz \<le> 0" using alloc_total_bounds(3) [OF sz(2,1)] by (auto simp: word_le_nat_alt)
  then have "heap_alloc sz ?s' = Some (NULL, ?s')"
    using p0 b sz by (simp add: heap_alloc_def Let_def first_fit.simps [of _ _ _ pool] first_fit.simps [of _ _ _ 0])
  ultimately show ?thesis by force
qed

text \<open>
  Fragmentation. The sweep joins only neighbours of the list, and the list is not ordered by
  address: after two allocations and their releases in the same order every byte is free
  again, but in three blocks, and a request that a fresh heap serves now fails.
\<close>

theorem heap_fragmentation:
  assumes ok: "pool_ok pool"
  shows "\<exists>s1 s2 s3 s4. heap_alloc 16 (heap_init pool s) = Some (pool + 8, s1)
    \<and> heap_alloc 16 s1 = Some (pool + 32, s2) \<and> heap_free (pool + 8) s2 = Some s3
    \<and> heap_free (pool + 32) s3 = Some s4
    \<and> heap_inv pool s4 [(pool + 24, 24), (pool, 24), (pool + 48, 32720)] []
    \<and> heap_alloc 32760 s4 = Some (NULL, s4)
    \<and> (\<exists>s'. heap_alloc 32760 (heap_init pool s) = Some (pool + 8, s'))"
proof -
  have tot: "alloc_total 16 = 24" "alloc_total 32760 = 32768" by (simp_all add: alloc_total_def HDR_def)
  have rest: "alloc_rest 16 [] a n = [(a + 24, n - 24)]" "alloc_size 16 n = 24" if "16 \<le> n - 24" for a n
    using that by (simp_all add: alloc_rest_def alloc_size_def tot)
  have inv0: "heap_inv pool (heap_init pool s) ([] @ (pool, RTOS_HEAP_POOL_SIZE) # []) []"
    using heap_init_inv [OF ok] by simp
  obtain s1 where s1: "heap_alloc 16 (heap_init pool s) = Some (pool + 8, s1)"
    "heap_inv pool s1 ([] @ (pool + 24, 32744) # []) [(pool, 24)]"
    using heap_alloc_fit [OF inv0, of 16] by (auto simp: tot rest RTOS_HEAP_POOL_SIZE_def)
  obtain s2 where s2: "heap_alloc 16 s1 = Some (pool + 32, s2)"
    "heap_inv pool s2 [(pool + 48, 32720)] ([(pool + 24, 24)] @ (pool, 24) # [])"
    using heap_alloc_fit [OF s1(2), of 16] by (auto simp: tot rest add.assoc)
  obtain s3 where s3: "heap_free (pool + 8) s2 = Some s3"
    "heap_inv pool s3 [(pool, 24), (pool + 48, 32720)] ([] @ (pool + 24, 24) # [])"
    using heap_free_block [OF s2(2)] by (auto simp: add.assoc)
  obtain s4 where s4: "heap_free (pool + 32) s3 = Some s4"
    "heap_inv pool s4 [(pool + 24, 24), (pool, 24), (pool + 48, 32720)] []"
    using heap_free_block [OF s3(2)] by (auto simp: add.assoc)
  have "heap_alloc 32760 s4 = Some (NULL, s4)" using heap_alloc_none [OF s4(2), of 32760] by (simp add: tot)
  moreover have "\<exists>s'. heap_alloc 32760 (heap_init pool s) = Some (pool + 8, s')"
    using heap_alloc_fit [OF inv0, of 32760] by (auto simp: tot RTOS_HEAP_POOL_SIZE_def)
  ultimately show ?thesis using s1 s2 s3 s4 by blast
qed

section \<open>Sample heap\<close>

definition heap_sample :: kernel where
  "heap_sample = heap_init 0x20001000 blank_kernel"

lemma heap_sample_inv:
  "pool_ok 0x20001000" "heap_inv 0x20001000 heap_sample ([] @ (0x20001000, 32768) # []) []"
  "heap_inv 0x20001000 heap_sample [(0x20001000, 32768)] []"
proof -
  show ok: "pool_ok 0x20001000" by (simp add: pool_ok_def)
  show "heap_inv 0x20001000 heap_sample ([] @ (0x20001000, 32768) # []) []"
    "heap_inv 0x20001000 heap_sample [(0x20001000, 32768)] []"
    using heap_init_inv [OF ok, of blank_kernel] by (simp_all add: heap_sample_def RTOS_HEAP_POOL_SIZE_def)
qed

lemma alloc_total_eval: "alloc_total 16 = 24" "alloc_total 40000 = 40008"
  by (simp_all add: alloc_total_def HDR_def)

theorem heap_alloc_correct_witness:
  "\<exists>s' xs' m. heap_alloc 16 heap_sample = Some (0x20001008, s')
     \<and> heap_inv 0x20001000 s' xs' [(0x20001000, m)] \<and> {0x20001008 ..< 0x20001018} \<subseteq> payload (0x20001000, m)"
  using heap_alloc_correct [OF heap_sample_inv(2), of 16] by (auto simp: alloc_total_eval)

theorem heap_alloc_null_iff_witness: "heap_alloc 40000 heap_sample = Some (NULL, heap_sample)"
  using heap_alloc_null_iff [OF heap_sample_inv(3), of 40000] by (auto simp: alloc_total_eval)

theorem heap_alloc_free_roundtrip_witness:
  "\<exists>s1 s2. heap_alloc 16 heap_sample = Some (0x20001008, s1) \<and> heap_free 0x20001008 s1 = Some s2
     \<and> heap_inv 0x20001000 s2 [(0x20001000, 32768)] []"
  using heap_alloc_free_roundtrip [OF heap_sample_inv(2), of 16] by (auto simp: alloc_total_eval)


theorem heap_run_safe_witness:
  "\<exists>s. heap_run 0x20001000 s [16] [0x20001008] \<and> (\<exists>s'. heap_free 0x20001008 s = Some s')"
proof -
  obtain s1 where s1: "heap_alloc 16 heap_sample = Some (0x20001008, s1)"
    using heap_alloc_fit [OF heap_sample_inv(2), of 16] by (auto simp: alloc_total_eval)
  have "heap_run 0x20001000 s1 [16] (if (0x20001008 :: u32) = NULL then [] else [0x20001008])"
    by (rule heap_run.alloc [OF heap_run.start [of _ blank_kernel] s1 [unfolded heap_sample_def]])
  then have "heap_run 0x20001000 s1 [16] [0x20001008]" by simp
  then show ?thesis using heap_run_safe [OF _ heap_sample_inv(1)] by fastforce
qed

theorem heap_alloc_overflow_witness:
  "\<exists>s'. heap_alloc 0xFFFFFFF8 heap_sample = Some (0x20001008, s') \<and> heap_alloc 16 s' = Some (NULL, s')"
  using heap_alloc_overflow [OF heap_sample_inv(1), of 16 blank_kernel] by (auto simp: heap_sample_def)

theorem heap_fragmentation_witness:
  "\<exists>s4. heap_inv 0x20001000 s4 [(0x20001018, 24), (0x20001000, 24), (0x20001030, 32720)] []
     \<and> heap_alloc 32760 s4 = Some (NULL, s4)"
  using heap_fragmentation [OF heap_sample_inv(1), of blank_kernel] by auto

end
