(* ===== verification/Rtos_Task.thy ===== *)
theory Rtos_Task
  imports Rtos_Waits Rtos_Timer Rtos_Heap
begin

unbundle bit_operations_syntax

text \<open>
  Task management, \<^verbatim>\<open>src/core/task.c\<close>: the registry, initial stacks, creation and deletion,
  delays, the wake-up of timed-out tasks and the stack check of every tick. Control blocks
  and stacks come from the heap. What the linker and the ABI decide is the parameter \<open>image\<close>.
  A deleted control block keeps its last contents, as the memory does, until its address is
  handed out again.
\<close>

section \<open>Link-time parameters\<close>

record image =
  heap_pool :: addr
  sizeof_TCB :: u32
  idle_stack_words :: addr
  idle_task_fn :: addr
  task_exit_trap :: addr

section \<open>The registry\<close>

definition registry_add :: "addr \<Rightarrow> kernel \<Rightarrow> kernel option" where
  "registry_add tcb s =
     (if task_registry_count s < RTOS_MAX_TASKS + 1 \<and> tcb \<noteq> NULL then do {
        R \<leftarrow> arr_set (unat (task_registry_count s)) tcb (task_registry s);
        Some (s\<lparr>task_registry := R, task_registry_count := task_registry_count s + 1\<rparr>)
      } else Some s)"

text \<open>The search from index \<open>i\<close> over \<open>k\<close> more entries, and the shift of \<open>k\<close> entries down by one.\<close>

fun registry_find :: "addr list \<Rightarrow> addr \<Rightarrow> nat \<Rightarrow> nat \<Rightarrow> nat option option" where
  "registry_find R tcb i 0 = Some None"
| "registry_find R tcb i (Suc k) = do {
     t \<leftarrow> arr_get R i;
     if t = tcb then Some (Some i) else registry_find R tcb (Suc i) k
   }"

fun registry_shift :: "addr list \<Rightarrow> nat \<Rightarrow> nat \<Rightarrow> addr list option" where
  "registry_shift R j 0 = Some R"
| "registry_shift R j (Suc k) = do {
     t \<leftarrow> arr_get R (j + 1);
     R \<leftarrow> arr_set j t R;
     registry_shift R (Suc j) k
   }"

definition registry_remove :: "addr \<Rightarrow> kernel \<Rightarrow> kernel option" where
  "registry_remove tcb s = do {
     let n = unat (task_registry_count s);
     found \<leftarrow> registry_find (task_registry s) tcb 0 n;
     case found of
       None \<Rightarrow> Some s
     | Some i \<Rightarrow> do {
         R \<leftarrow> registry_shift (task_registry s) i (n - 1 - i);
         Some (s\<lparr>task_registry := R, task_registry_count := task_registry_count s - 1\<rparr>)
       }
   }"

section \<open>Building a task\<close>

definition detach_blocked_task :: "addr \<Rightarrow> kernel \<Rightarrow> kernel option" where
  "detach_blocked_task tcb s = do {
     t \<leftarrow> get_tcb s tcb;
     s \<leftarrow> (if block_reason t = BLOCK_MUTEX then mutex_detach_waiter (block_object t) tcb s
          else if block_reason t = BLOCK_SEMAPHORE then semaphore_detach_waiter (block_object t) tcb s
          else if block_reason t = BLOCK_MSG_SEND \<or> block_reason t = BLOCK_MSG_RECV
               then msgqueue_detach_waiter (block_object t) tcb s
          else Some s);
     upd_tcb tcb (\<lambda>t. t\<lparr>block_reason := BLOCK_NONE, block_object := NULL, blocked_on_mutex := NULL\<rparr>) s
   }"

text \<open>Consecutive words, \<^verbatim>\<open>sp[0] = w0; sp[1] = w1; ...\<close>.\<close>

fun store_words :: "addr \<Rightarrow> u32 list \<Rightarrow> (addr \<Rightarrow> u32) \<Rightarrow> addr \<Rightarrow> u32" where
  "store_words sp [] M = M"
| "store_words sp (w # ws) M = store_words (sp + 4) ws (M(sp := w))"

definition build_initial_stack ::
    "image \<Rightarrow> addr \<Rightarrow> addr \<Rightarrow> (addr \<Rightarrow> u32) \<Rightarrow> addr \<times> (addr \<Rightarrow> u32)" where
  "build_initial_stack img stack_high_exclusive f M = (
     let sp = stack_high_exclusive - 32;
         M = store_words sp [0, 0, 0, 0, 0, task_exit_trap img, f, 0x01000000] M;
         sp = sp - 32;
         M = store_words sp [0, 0, 0, 0, 0, 0, 0, 0] M
     in (sp, M))"

definition task_build_common :: "image \<Rightarrow> addr \<Rightarrow> addr \<Rightarrow> kernel \<Rightarrow> (rtos_status_t \<times> kernel) option" where
  "task_build_common img tcb f s =
     (if tcb = NULL \<or> f = NULL then Some (RTOS_ERR_PARAM, s)
      else do {
        t \<leftarrow> get_tcb s tcb;
        let base = stack_base t;
        let high = (base + stack_size t) AND NOT 7;
        let M = (stack_mem s)(base := RTOS_STACK_CANARY);
        let (sp, M) = build_initial_stack img high f M;
        s \<leftarrow> upd_tcb tcb (\<lambda>t. t\<lparr>stack_ptr := sp, task_func := f, next_ready := NULL,
               base_priority := priority t, blocked_on_mutex := NULL, mutex_wait_next := NULL,
               time_slice_counter := 0, block_reason := BLOCK_NONE, block_object := NULL,
               block_wake_status := RTOS_OK, wake_time := UINT32_MAX\<rparr>) (s\<lparr>stack_mem := M\<rparr>);
        Some (RTOS_OK, s)
      })"

text \<open>\<^verbatim>\<open>memset(tcb, 0, sizeof(TCB_t))\<close>.\<close>

definition zero_tcb :: TCB_t where
  "zero_tcb = \<lparr>stack_ptr = 0, prio_bucket = 0, priority = 0, state = TASK_STATE_READY,
     stack_base = 0, stack_size = 0, name = replicate RTOS_TASK_NAME_MAX 0, wake_time = 0,
     next_tcb = 0, base_priority = 0, blocked_on_mutex = 0, mutex_wait_next = 0, task_func = 0,
     next_ready = 0, time_slice_counter = 0, block_reason = BLOCK_NONE, block_object = 0,
     block_wake_status = RTOS_OK\<rparr>"

text \<open>The bytes of \<^verbatim>\<open>"idle"\<close> with its terminator.\<close>

definition idle_name :: "u8 list" where
  "idle_name = [0x69, 0x64, 0x6C, 0x65, 0]"

definition task_init :: "image \<Rightarrow> kernel \<Rightarrow> (rtos_status_t \<times> kernel) option" where
  "task_init img s = do {
     let s = heap_init (heap_pool img) s;
     let s = sw_timer_init s;
     let s = scheduler_init s;
     let s = s\<lparr>task_registry_count := 0\<rparr>;
     (p, s) \<leftarrow> heap_alloc (sizeof_TCB img) s;
     let s = s\<lparr>idle_tcb := p\<rparr>;
     if p = NULL then Some (RTOS_ERR_NO_MEM, s)
     else do {
       let s = s\<lparr>tcbs := (tcbs s)(p \<mapsto> zero_tcb)\<rparr>;
       s \<leftarrow> upd_tcb p (\<lambda>t. t\<lparr>stack_base := idle_stack_words img, stack_size := RTOS_IDLE_STACK_SIZE,
              priority := 255, prio_bucket := of_nat (RTOS_NUM_PRIORITIES - 1),
              name := idle_name @ drop 5 (name t)\<rparr>) s;
       (st, s) \<leftarrow> task_build_common img p (idle_task_fn img) s;
       if st \<noteq> RTOS_OK then Some (RTOS_ERR_STATE, s)
       else do {
         s \<leftarrow> upd_tcb p (\<lambda>t. t\<lparr>state := TASK_STATE_READY\<rparr>) s;
         (st, s) \<leftarrow> scheduler_add_task p s;
         if st \<noteq> RTOS_OK then Some (RTOS_ERR_STATE, s)
         else do {
           s \<leftarrow> registry_add p s;
           Some (RTOS_OK, s)
         }
       }
     }
   }"

section \<open>Creation and deletion\<close>

text \<open>
  \<open>nm\<close> is the address of the name, or \<open>NULL\<close>; the copy always takes 15 bytes, whatever the
  length of the string.
\<close>

definition task_create ::
    "image \<Rightarrow> addr \<Rightarrow> u8 \<Rightarrow> u32 \<Rightarrow> addr \<Rightarrow> kernel \<Rightarrow> (addr \<times> kernel) option" where
  "task_create img f prio stack_sz nm s =
     (if f = NULL \<or> stack_sz < RTOS_MIN_STACK_SIZE then Some (NULL, s)
      else if task_registry_count s \<ge> RTOS_MAX_TASKS then Some (NULL, s)
      else do {
        let stack_sz = (stack_sz + 7) AND NOT 7;
        (tcb, s) \<leftarrow> heap_alloc (sizeof_TCB img) s;
        (stk, s) \<leftarrow> heap_alloc stack_sz s;
        if tcb = NULL \<or> stk = NULL then do {
          s \<leftarrow> heap_free tcb s;
          s \<leftarrow> heap_free stk s;
          Some (NULL, s)
        } else do {
          let s = s\<lparr>tcbs := (tcbs s)(tcb \<mapsto> zero_tcb)\<rparr>;
          s \<leftarrow> upd_tcb tcb (\<lambda>t. t\<lparr>stack_base := stk, stack_size := stack_sz, priority := prio,
                 prio_bucket := prio_bucket_of prio\<rparr>) s;
          s \<leftarrow> upd_tcb tcb (\<lambda>t. t\<lparr>name := (if nm \<noteq> NULL
                 then read_bytes (ram s) nm (RTOS_TASK_NAME_MAX - 1) @ [0]
                 else 0 # tl (name t))\<rparr>) s;
          (st, s) \<leftarrow> task_build_common img tcb f s;
          if st \<noteq> RTOS_OK then do {
            s \<leftarrow> heap_free stk s;
            s \<leftarrow> heap_free tcb s;
            Some (NULL, s)
          } else do {
            s \<leftarrow> upd_tcb tcb (\<lambda>t. t\<lparr>state := TASK_STATE_READY\<rparr>) s;
            (st, s) \<leftarrow> scheduler_add_task tcb s;
            if st \<noteq> RTOS_OK then do {
              s \<leftarrow> heap_free stk s;
              s \<leftarrow> heap_free tcb s;
              Some (NULL, s)
            } else do {
              s \<leftarrow> registry_add tcb s;
              Some (tcb, s)
            }
          }
        }
      })"

definition task_delete :: "addr \<Rightarrow> kernel \<Rightarrow> (rtos_status_t \<times> kernel) option" where
  "task_delete tcb s =
     (if tcb = NULL then Some (RTOS_ERR_PARAM, s)
      else if tcb = idle_tcb s then Some (RTOS_ERR_STATE, s)
      else if tcb = current_tcb s then Some (RTOS_ERR_STATE, s)
      else do {
        let s = cpsid s;
        t \<leftarrow> get_tcb s tcb;
        s \<leftarrow> (if state t = TASK_STATE_BLOCKED then detach_blocked_task tcb s else Some s);
        s \<leftarrow> scheduler_remove_task tcb s;
        s \<leftarrow> upd_tcb tcb (\<lambda>t. t\<lparr>state := TASK_STATE_TERMINATED\<rparr>) s;
        s \<leftarrow> registry_remove tcb s;
        t \<leftarrow> get_tcb s tcb;
        s \<leftarrow> heap_free (stack_base t) s;
        s \<leftarrow> heap_free tcb s;
        Some (RTOS_OK, cpsie s)
      })"

section \<open>Delays and ticks\<close>

definition task_yield :: "kernel \<Rightarrow> kernel" where
  "task_yield s = scheduler_mark_reschedule s"

definition task_delay :: "u32 \<Rightarrow> attempt" where
  "task_delay ticks s =
     (if ticks = 0 then Some (Some RTOS_ERR_PARAM, s)
      else if current_tcb s = NULL then Some (Some RTOS_ERR_STATE, s)
      else block_enter ticks BLOCK_DELAY NULL s)"

text \<open>The body of the loop of \<^verbatim>\<open>rtos_wake_delayed\<close> for one registry entry.\<close>

definition wake_one :: "u32 \<Rightarrow> addr \<Rightarrow> kernel \<Rightarrow> kernel option" where
  "wake_one now a s =
     (if a = NULL \<or> a = idle_tcb s then Some s
      else do {
        t \<leftarrow> get_tcb s a;
        if state t \<noteq> TASK_STATE_BLOCKED \<or> wake_time t = UINT32_MAX \<or> now < wake_time t then Some s
        else if block_reason t = BLOCK_DELAY then do {
          s \<leftarrow> upd_tcb a (\<lambda>t. t\<lparr>block_reason := BLOCK_NONE, block_object := NULL,
                 state := TASK_STATE_READY\<rparr>) s;
          (_, s) \<leftarrow> scheduler_add_task a s;
          Some s
        }
        else if block_reason t = BLOCK_MUTEX then mutex_wake_timeout a s
        else if block_reason t = BLOCK_SEMAPHORE then semaphore_wake_timeout a s
        else if block_reason t = BLOCK_MSG_SEND \<or> block_reason t = BLOCK_MSG_RECV
             then msgqueue_wake_timeout a s
        else Some s
      })"

text \<open>
  The loops over the registry: from index \<open>i\<close> over \<open>k\<close> more entries, where \<open>k\<close> counts down from
  \<open>task_registry_count\<close>, which no loop body changes.
\<close>

fun wake_loop :: "u32 \<Rightarrow> nat \<Rightarrow> nat \<Rightarrow> kernel \<Rightarrow> kernel option" where
  "wake_loop now i 0 s = Some s"
| "wake_loop now i (Suc k) s = do {
     a \<leftarrow> arr_get (task_registry s) i;
     s \<leftarrow> wake_one now a s;
     wake_loop now (Suc i) k s
   }"

definition rtos_wake_delayed :: "kernel \<Rightarrow> kernel option" where
  "rtos_wake_delayed s = wake_loop (s_rtos_tick_count s) 0 (unat (task_registry_count s)) s"

text \<open>\<open>True\<close> with the final state: a canary was overwritten and the handler spins forever.\<close>

fun stack_check_loop :: "nat \<Rightarrow> nat \<Rightarrow> kernel \<Rightarrow> (bool \<times> kernel) option" where
  "stack_check_loop i 0 s = Some (False, s)"
| "stack_check_loop i (Suc k) s = do {
     a \<leftarrow> arr_get (task_registry s) i;
     if a = NULL then stack_check_loop (Suc i) k s
     else do {
       t \<leftarrow> get_tcb s a;
       if stack_base t = NULL then stack_check_loop (Suc i) k s
       else let v = stack_mem s (stack_base t) in
         if v \<noteq> RTOS_STACK_CANARY
         then Some (True, s\<lparr>g_rtos_stack_overflow_task_name := name t, g_rtos_stack_overflow_canary := v\<rparr>)
         else stack_check_loop (Suc i) k s
     }
   }"

definition rtos_stack_check_all :: "kernel \<Rightarrow> (bool \<times> kernel) option" where
  "rtos_stack_check_all s = stack_check_loop 0 (unat (task_registry_count s)) s"

definition rtos_tick_increment :: "kernel \<Rightarrow> kernel" where
  "rtos_tick_increment s = s\<lparr>s_rtos_tick_count := s_rtos_tick_count s + 1\<rparr>"

section \<open>The registry as a list\<close>

definition registry :: "kernel \<Rightarrow> addr list \<Rightarrow> bool" where
  "registry s R \<longleftrightarrow> length (task_registry s) = 33 \<and> unat (task_registry_count s) \<le> 33
     \<and> R = take (unat (task_registry_count s)) (task_registry s)"

lemma registry_length: "registry s R \<Longrightarrow> length R = unat (task_registry_count s)"
  by (simp add: registry_def)

lemma registry_cong:
  "registry s R \<Longrightarrow> task_registry s' = task_registry s \<Longrightarrow> task_registry_count s' = task_registry_count s \<Longrightarrow>
   registry s' R"
  by (simp add: registry_def)

lemma registry_add_refines:
  assumes r: "registry s R" and room: "length R < 33" and a: "a \<noteq> NULL"
  obtains L n where "registry_add a s = Some (s\<lparr>task_registry := L, task_registry_count := n\<rparr>)"
    and "registry (s\<lparr>task_registry := L, task_registry_count := n\<rparr>) (R @ [a])"
proof -
  let ?n = "task_registry_count s"
  have n: "unat ?n < 33" "length (task_registry s) = 33" using r room by (auto simp: registry_def)
  then have u: "unat (?n + 1) = unat ?n + 1" by (simp add: unat_word_ariths)
  have "?n < RTOS_MAX_TASKS + 1" using n by (simp add: word_less_nat_alt RTOS_MAX_TASKS_def)
  then have "registry_add a s = Some (s\<lparr>task_registry := (task_registry s)[unat ?n := a], task_registry_count := ?n + 1\<rparr>)"
    using n a by (simp add: registry_add_def)
  moreover have "registry (s\<lparr>task_registry := (task_registry s)[unat ?n := a], task_registry_count := ?n + 1\<rparr>) (R @ [a])"
    using r n u by (simp add: registry_def take_Suc_conv_app_nth)
  ultimately show thesis by (rule that)
qed

lemma registry_find_first:
  "i + k \<le> length L \<Longrightarrow> take k (drop i L) = us @ a # vs \<Longrightarrow> a \<notin> set us \<Longrightarrow>
   registry_find L a i k = Some (Some (i + length us))"
proof (induction k arbitrary: i us)
  case 0
  then show ?case by simp
next
  case (Suc k)
  have "drop i L = L ! i # drop (Suc i) L" using Suc.prems(1) by (simp add: Cons_nth_drop_Suc)
  then have e: "L ! i # take k (drop (Suc i) L) = us @ a # vs" using Suc.prems(2) by simp
  show ?case
  proof (cases us)
    case Nil
    then show ?thesis using e Suc.prems(1) by simp
  next
    case (Cons u us')
    then show ?thesis using e Suc.prems Suc.IH [of "Suc i" us'] by auto
  qed
qed

lemma registry_shift_eq:
  "j + k < length L \<Longrightarrow> registry_shift L j k = Some (take j L @ take k (drop (Suc j) L) @ drop (j + k) L)"
proof (induction k arbitrary: j L)
  case 0
  then show ?case by simp
next
  case (Suc k)
  let ?L = "L[j := L ! Suc j]"
  have "registry_shift L j (Suc k) = registry_shift ?L (Suc j) k" using Suc.prems by simp
  also have "\<dots> = Some (take (Suc j) ?L @ take k (drop (Suc (Suc j)) ?L) @ drop (Suc j + k) ?L)"
    using Suc.prems by (intro Suc.IH) simp
  also have "take (Suc j) ?L = take j L @ [L ! Suc j]" using Suc.prems by (simp add: take_Suc_conv_app_nth)
  also have "take k (drop (Suc (Suc j)) ?L) = take k (drop (Suc (Suc j)) L)" by simp
  also have "drop (Suc j + k) ?L = drop (j + Suc k) L" by simp
  finally show ?case using Suc.prems by (simp flip: Cons_nth_drop_Suc [of "Suc j" L])
qed

lemma registry_remove_refines:
  assumes r: "registry s R" and a: "a \<in> set R"
  obtains L n where "registry_remove a s = Some (s\<lparr>task_registry := L, task_registry_count := n\<rparr>)"
    and "registry (s\<lparr>task_registry := L, task_registry_count := n\<rparr>) (remove1 a R)"
proof -
  let ?n = "task_registry_count s" and ?L = "task_registry s"
  obtain us vs where R: "R = us @ a # vs" "a \<notin> set us" using a by (metis split_list_first)
  have len: "length ?L = 33" "unat ?n \<le> 33" and tk: "take (unat ?n) ?L = us @ a # vs"
    using r R(1) by (simp_all add: registry_def)
  have rl: "unat ?n = length us + Suc (length vs)" using registry_length [OF r] unfolding R(1) by simp
  have f: "registry_find ?L a 0 (unat ?n) = Some (Some (length us))"
    using registry_find_first [of 0 "unat ?n" ?L us a vs] len tk R by simp
  let ?S = "take (length us) ?L @ take (length vs) (drop (Suc (length us)) ?L) @ drop (length us + length vs) ?L"
  have "registry_shift ?L (length us) (unat ?n - 1 - length us) = Some ?S"
    using registry_shift_eq [of "length us" "length vs" ?L] len rl by simp
  then have rm: "registry_remove a s = Some (s\<lparr>task_registry := ?S, task_registry_count := ?n - 1\<rparr>)"
    using f by (simp add: registry_remove_def Let_def)
  have pre: "take (length us) ?L = us" using arg_cong [OF tk, of "take (length us)"] rl by (simp add: min_def)
  have "take (length vs) (drop (Suc (length us)) ?L) = drop (Suc (length us)) (take (unat ?n) ?L)"
    using rl by (simp add: drop_take)
  then have suf: "take (length vs) (drop (Suc (length us)) ?L) = vs" unfolding tk by simp
  have "?n \<noteq> 0" using rl by auto
  then have n1: "unat (?n - 1) = length us + length vs" using rl by (simp add: unat_minus_one)
  have "length ?S = 33" using len rl by simp
  moreover have "take (length us + length vs) ?S = us @ vs" unfolding pre suf by simp
  moreover have "remove1 a R = us @ vs" using R by (simp add: remove1_append)
  ultimately have "registry (s\<lparr>task_registry := ?S, task_registry_count := ?n - 1\<rparr>) (remove1 a R)"
    using len rl n1 by (simp add: registry_def)
  then show thesis using rm that by blast
qed

end
