(* ===== verification/Rtos_Tick.thy ===== *)
theory Rtos_Tick
  imports Rtos_Task
begin

text \<open>
  What \<^verbatim>\<open>task.c\<close> does on a tick: \<open>rtos_wake_delayed\<close> walks the registry and makes every task
  ready whose wake-up tick has come, through the timeout handler of the object it waits for;
  \<open>rtos_stack_check_all\<close> looks at the canary of every stack. With the delays of
  \<open>task_delay\<close>, these are the liveness of waiting, and its limits when the tick count wraps.
\<close>

section \<open>Overdue tasks\<close>

definition overdue :: "u32 \<Rightarrow> TCB_t \<Rightarrow> bool" where
  "overdue now t \<longleftrightarrow> state t = TASK_STATE_BLOCKED \<and> block_reason t \<noteq> BLOCK_NONE
     \<and> wake_time t \<noteq> UINT32_MAX \<and> wake_time t \<le> now"

definition due :: "u32 \<Rightarrow> kernel \<Rightarrow> addr \<Rightarrow> bool" where
  "due now s a \<longleftrightarrow> a \<noteq> idle_tcb s \<and> (case tcbs s a of None \<Rightarrow> False | Some t \<Rightarrow> overdue now t)"

definition bucket_at :: "kernel \<Rightarrow> addr \<Rightarrow> nat" where
  "bucket_at s a = (case tcbs s a of None \<Rightarrow> 0 | Some t \<Rightarrow> unat (prio_bucket t))"

text \<open>The control block after the wake-up: a delay just ends, a wait ends with the timeout status.\<close>

definition tick_woken :: "TCB_t \<Rightarrow> TCB_t" where
  "tick_woken t = (case block_reason t of
     BLOCK_DELAY \<Rightarrow> woken t
   | BLOCK_MUTEX \<Rightarrow> mutex_timed_out t
   | _ \<Rightarrow> sem_timed_out t)"

lemma overdue_links [simp]:
  "overdue now (t\<lparr>next_ready := r\<rparr>) = overdue now t" "overdue now (t\<lparr>mutex_wait_next := r\<rparr>) = overdue now t"
  by (simp_all add: overdue_def)

lemma queue_timed_out_eq: "queue_timed_out = sem_timed_out"
  by (rule ext) (simp only: queue_timed_out_def sem_timed_out_def)

text \<open>One entry of the registry.\<close>

lemma wake_delay:
  assumes inv: "sched_inv s Q" and win: "waits_inv s W" and t: "tcbs s a = Some t"
    and st: "state t = TASK_STATE_BLOCKED" "block_reason t = BLOCK_DELAY"
  obtains s' where "scheduler_add_task a (s\<lparr>tcbs := (tcbs s)(a \<mapsto> woken t)\<rparr>) = Some (RTOS_OK, s')"
    and "sched_inv s' (Q(unat (prio_bucket t) := Q (unat (prio_bucket t)) @ [a]))"
    and "waits_inv s' (\<lambda>w. removeAll a (W w))"
    and "same_but_links ((tcbs s)(a \<mapsto> woken t)) (tcbs s')" and "calm s' = calm s"
proof -
  have r: "\<not> runnable t" using st by (simp add: runnable_def)
  obtain s' where add: "scheduler_add_task a (s\<lparr>tcbs := (tcbs s)(a \<mapsto> woken t)\<rparr>) = Some (RTOS_OK, s')"
    and inv': "sched_inv s' (Q(unat (prio_bucket t) := Q (unat (prio_bucket t)) @ [a]))"
    and fr: "ready_frame (s\<lparr>tcbs := (tcbs s)(a \<mapsto> woken t)\<rparr>) s'"
    by (rule make_ready [OF inv t r, of "woken t"]) simp_all
  have links: "same_but_links ((tcbs s)(a \<mapsto> woken t)) (tcbs s')"
    using fr by (auto simp: ready_frame_def intro: same_but_links_ready)
  have ptr: "wptr s' w = wptr s w" for w by (rule wptr_cong) (simp_all add: ready_frame_sel [OF fr])
  have "waits_inv s' (\<lambda>w. removeAll a (W w))"
  proof (rule waits_inv_drop [OF win links])
    show "waiters_of s' w (remove1 a (W w))" if w: "wptr s w \<noteq> None" for w
    proof -
      have "blocked_on t = None" using st by (simp add: blocked_on_def wait_obj_of_def)
      then have "a \<notin> set (W w)" using waits_inv_blocked [OF win w, of a] t by auto
      then have "remove1 a (W w) = W w" by (rule remove1_idem)
      moreover have "waiters_of s' w (W w)"
        by (rule waiters_of_cong [OF waits_inv_list [OF win w] ptr]) (simp add: ready_frame_wait_link [OF fr] t)
      ultimately show ?thesis by simp
    qed
  qed (simp_all add: ptr)
  then show thesis using that add inv' links ready_frame_calm [OF fr] by simp
qed

lemma wake_one_due:
  assumes inv: "sched_inv s Q" and win: "waits_inv s W" and t: "tcbs s a = Some t"
    and d: "overdue now t" and idle: "a \<noteq> idle_tcb s"
  obtains s' where "wake_one now a s = Some s'"
    and "sched_inv s' (Q(unat (prio_bucket t) := Q (unat (prio_bucket t)) @ [a]))"
    and "waits_inv s' (\<lambda>w. removeAll a (W w))"
    and "same_but_links ((tcbs s)(a \<mapsto> tick_woken t)) (tcbs s')" and "calm s' = calm s"
proof -
  have nn: "a \<noteq> NULL" using inv t by (rule sched_inv_nonnull)
  have blk: "state t = TASK_STATE_BLOCKED" and w: "wake_time t \<noteq> UINT32_MAX" "\<not> now < wake_time t"
    and br: "block_reason t \<noteq> BLOCK_NONE" using d by (auto simp: overdue_def)
  note pre = nn idle t blk w
  show thesis
  proof (cases "block_reason t")
    case BLOCK_NONE
    with br show thesis by simp
  next
    case BLOCK_DELAY
    have eq: "wake_one now a s = map_option snd (scheduler_add_task a (s\<lparr>tcbs := (tcbs s)(a \<mapsto> woken t)\<rparr>))"
      using pre BLOCK_DELAY by (simp add: wake_one_def woken_def case_prod_unfold bind_to_map)
    obtain s' where "scheduler_add_task a (s\<lparr>tcbs := (tcbs s)(a \<mapsto> woken t)\<rparr>) = Some (RTOS_OK, s')"
      and "sched_inv s' (Q(unat (prio_bucket t) := Q (unat (prio_bucket t)) @ [a]))"
      and "waits_inv s' (\<lambda>w. removeAll a (W w))"
      and "same_but_links ((tcbs s)(a \<mapsto> woken t)) (tcbs s')" and "calm s' = calm s"
      by (rule wake_delay [OF inv win t blk BLOCK_DELAY])
    then show thesis by (intro that [of s']) (simp_all add: eq tick_woken_def BLOCK_DELAY)
  next
    case BLOCK_MUTEX
    have eq: "wake_one now a s = mutex_wake_timeout a s" "tick_woken t = mutex_timed_out t"
      using pre BLOCK_MUTEX by (simp_all add: wake_one_def tick_woken_def queue_timed_out_eq)
    have "blocked_on t = Some (MutexQ (block_object t))" by (simp add: blocked_on_def blk wait_obj_of_def BLOCK_MUTEX)
    then show thesis using mutex_q.wake_timeout_waits [OF inv win t _ refl] that unfolding eq by blast
  next
    case BLOCK_SEMAPHORE
    have eq: "wake_one now a s = semaphore_wake_timeout a s" "tick_woken t = sem_timed_out t"
      using pre BLOCK_SEMAPHORE by (simp_all add: wake_one_def tick_woken_def queue_timed_out_eq)
    have "blocked_on t = Some (SemQ (block_object t))" by (simp add: blocked_on_def blk wait_obj_of_def BLOCK_SEMAPHORE)
    then show thesis using sem_q.wake_timeout_waits [OF inv win t _ refl] that unfolding eq by blast
  next
    case BLOCK_MSG_SEND
    have eq: "wake_one now a s = msgqueue_wake_timeout a s" "tick_woken t = queue_timed_out t"
      using pre BLOCK_MSG_SEND by (simp_all add: wake_one_def tick_woken_def queue_timed_out_eq)
    have "blocked_on t = Some (SendQ (block_object t))" by (simp add: blocked_on_def blk wait_obj_of_def BLOCK_MSG_SEND)
    then show thesis using send_q.wake_timeout_waits [OF inv win t _ conjI [OF refl BLOCK_MSG_SEND]] that unfolding eq by blast
  next
    case BLOCK_MSG_RECV
    have eq: "wake_one now a s = msgqueue_wake_timeout a s" "tick_woken t = queue_timed_out t"
      using pre BLOCK_MSG_RECV by (simp_all add: wake_one_def tick_woken_def queue_timed_out_eq)
    have "blocked_on t = Some (RecvQ (block_object t))" by (simp add: blocked_on_def blk wait_obj_of_def BLOCK_MSG_RECV)
    then show thesis using recv_q.wake_timeout_waits [OF inv win t _ conjI [OF refl BLOCK_MSG_RECV]] that unfolding eq by blast
  qed
qed

lemma wake_one_idle:
  assumes t: "tcbs s a = Some t" "a \<noteq> NULL" and d: "\<not> due now s a"
  shows "wake_one now a s = Some s"
proof (cases "block_reason t")
  case BLOCK_NONE
  then show ?thesis using t by (simp add: wake_one_def)
qed (use assms in \<open>auto simp: wake_one_def due_def overdue_def not_le\<close>)

section \<open>The walk over the registry\<close>

text \<open>What the walk over the tasks \<open>as\<close> makes of the ready rings, the wait lists and the tasks.\<close>

definition wake_ready :: "u32 \<Rightarrow> kernel \<Rightarrow> addr list \<Rightarrow> ready_queues \<Rightarrow> ready_queues" where
  "wake_ready now s as Q = (\<lambda>b. Q b @ filter (\<lambda>a. due now s a \<and> bucket_at s a = b) as)"

definition wake_waits :: "u32 \<Rightarrow> kernel \<Rightarrow> addr list \<Rightarrow> wait_queues \<Rightarrow> wait_queues" where
  "wake_waits now s as W = (\<lambda>w. filter (\<lambda>a. \<not> (a \<in> set as \<and> due now s a)) (W w))"

definition wake_tcbs :: "u32 \<Rightarrow> kernel \<Rightarrow> addr list \<Rightarrow> addr \<rightharpoonup> TCB_t" where
  "wake_tcbs now s as = (\<lambda>a. if a \<in> set as \<and> due now s a then map_option tick_woken (tcbs s a) else tcbs s a)"

lemma due_links:
  assumes "same_but_links (tcbs s) (tcbs s')" and "idle_tcb s' = idle_tcb s"
  shows "due now s' a = due now s a" and "bucket_at s' a = bucket_at s a"
proof -
  have "due now s' a = due now s a \<and> bucket_at s' a = bucket_at s a"
  proof (cases "tcbs s a")
    case None
    then have "tcbs s' a = None" using same_but_links_None [OF assms(1), of a] by simp
    then show ?thesis using None by (simp add: due_def bucket_at_def)
  next
    case (Some t)
    then obtain r w where "tcbs s' a = Some (t\<lparr>next_ready := r, mutex_wait_next := w\<rparr>)"
      by (rule same_but_links_Some [OF assms(1)])
    then show ?thesis using Some assms(2) by (simp add: due_def bucket_at_def)
  qed
  then show "due now s' a = due now s a" "bucket_at s' a = bucket_at s a" by auto
qed

lemma tick_woken_links:
  "erase_links t = erase_links t' \<Longrightarrow> erase_links (tick_woken t) = erase_links (tick_woken t')"
  by (drule erase_links_eqD)
     (auto simp: tick_woken_def woken_def mutex_timed_out_def sem_timed_out_def erase_links_def split: block_reason_t.split)

text \<open>A step that touches only \<open>a\<close> and links does not change what is due among the others.\<close>

lemma due_other:
  assumes "same_but_links ((tcbs s)(a \<mapsto> u)) (tcbs s')" and "idle_tcb s' = idle_tcb s" and "x \<noteq> a"
  shows "due now s' x = due now s x" and "bucket_at s' x = bucket_at s x"
    and "map_option erase_links (tcbs s' x) = map_option erase_links (tcbs s x)"
proof -
  let ?s = "s\<lparr>tcbs := (tcbs s)(a \<mapsto> u)\<rparr>"
  have l: "same_but_links (tcbs ?s) (tcbs s')" "idle_tcb s' = idle_tcb ?s" using assms by simp_all
  show "due now s' x = due now s x" "bucket_at s' x = bucket_at s x"
    using due_links [OF l, where a = x] assms(3) by (simp_all add: due_def bucket_at_def)
  show "map_option erase_links (tcbs s' x) = map_option erase_links (tcbs s x)"
    using assms(1) [unfolded same_but_links_def, rule_format, of x] assms(3) by simp
qed

lemma wake_tcbs_step:
  assumes same: "same_but_links ((tcbs s)(a \<mapsto> tick_woken t)) (tcbs s1)" and idle: "idle_tcb s1 = idle_tcb s"
    and t: "tcbs s a = Some t" "due now s a" and new: "a \<notin> set as"
  shows "same_but_links (wake_tcbs now s (a # as)) (wake_tcbs now s1 as)"
  unfolding same_but_links_def
proof
  fix x
  show "map_option erase_links (wake_tcbs now s (a # as) x) = map_option erase_links (wake_tcbs now s1 as x)"
  proof (cases "x = a")
    case True
    then show ?thesis
      using same [unfolded same_but_links_def, rule_format, of a] t new by (simp add: wake_tcbs_def)
  next
    case False
    note o = due_other [OF same idle False]
    have "map_option erase_links (map_option tick_woken (tcbs s1 x)) = map_option erase_links (map_option tick_woken (tcbs s x))"
      using o(3) by (cases "tcbs s x"; cases "tcbs s1 x") (auto intro: tick_woken_links)
    then show ?thesis using o False by (simp add: wake_tcbs_def)
  qed
qed

lemma wake_loop_refines:
  assumes "sched_inv s Q" and "waits_inv s W" and "i + k \<le> length (task_registry s)"
    and "take k (drop i (task_registry s)) = as" and "distinct as" and "\<forall>a \<in> set as. tcbs s a \<noteq> None"
  shows "\<exists>s'. wake_loop now i k s = Some s' \<and> sched_inv s' (wake_ready now s as Q)
    \<and> waits_inv s' (wake_waits now s as W) \<and> same_but_links (wake_tcbs now s as) (tcbs s') \<and> calm s' = calm s"
  using assms
proof (induction k arbitrary: i s Q W as)
  case 0
  then show ?case by (auto simp: wake_ready_def wake_waits_def wake_tcbs_def)
next
  case (Suc k)
  let ?R = "task_registry s"
  have "drop i ?R = ?R ! i # drop (Suc i) ?R" using Suc.prems(3) by (simp add: Cons_nth_drop_Suc)
  then obtain a as' where as: "as = a # as'" "a = ?R ! i" "as' = take k (drop (Suc i) ?R)"
    using Suc.prems(4) by simp
  have get: "arr_get ?R i = Some a" using Suc.prems(3) as by simp
  obtain t where t: "tcbs s a = Some t" using Suc.prems(6) as by auto
  have nn: "a \<noteq> NULL" using Suc.prems(1) t by (rule sched_inv_nonnull)
  have new: "a \<notin> set as'" "distinct as'" using Suc.prems(5) as by auto
  show ?case
  proof (cases "due now s a")
    case False
    have "\<exists>s'. wake_loop now (Suc i) k s = Some s' \<and> sched_inv s' (wake_ready now s as' Q)
      \<and> waits_inv s' (wake_waits now s as' W) \<and> same_but_links (wake_tcbs now s as') (tcbs s') \<and> calm s' = calm s"
      using Suc.prems as new by (intro Suc.IH) auto
    moreover have "wake_ready now s as Q = wake_ready now s as' Q" "wake_waits now s as W = wake_waits now s as' W"
      "wake_tcbs now s as = wake_tcbs now s as'"
      using False as by (auto simp: wake_ready_def wake_waits_def wake_tcbs_def fun_eq_iff intro!: filter_cong)
    ultimately show ?thesis using get wake_one_idle [OF t nn False] by simp
  next
    case True
    then have d: "overdue now t" "a \<noteq> idle_tcb s" using t by (auto simp: due_def)
    obtain s1 where s1: "wake_one now a s = Some s1"
        "sched_inv s1 (Q(unat (prio_bucket t) := Q (unat (prio_bucket t)) @ [a]))"
        "waits_inv s1 (\<lambda>w. removeAll a (W w))"
      and links: "same_but_links ((tcbs s)(a \<mapsto> tick_woken t)) (tcbs s1)" and cs: "calm s1 = calm s"
      by (rule wake_one_due [OF Suc.prems(1,2) t d])
    note sel = calm_sel [OF cs]
    note other = due_other [OF links sel(1)]
    have nb: "due now s1 x = due now s x" "bucket_at s1 x = bucket_at s x" if "x \<in> set as'" for x
      using other [of x] that new by auto
    have live: "\<forall>x \<in> set as'. tcbs s1 x \<noteq> None"
      using Suc.prems(6) as same_but_links_None [OF links] by auto
    have pre: "Suc i + k \<le> length (task_registry s1)" "take k (drop (Suc i) (task_registry s1)) = as'"
      using Suc.prems(3) as sel(3) by simp_all
    obtain s' where s': "wake_loop now (Suc i) k s1 = Some s'"
        "sched_inv s' (wake_ready now s1 as' (Q(unat (prio_bucket t) := Q (unat (prio_bucket t)) @ [a])))"
        "waits_inv s' (wake_waits now s1 as' (\<lambda>w. removeAll a (W w)))"
        "same_but_links (wake_tcbs now s1 as') (tcbs s')" "calm s' = calm s1"
      using Suc.IH [OF s1(2,3) pre new(2) live] by blast
    have "wake_ready now s1 as' (Q(unat (prio_bucket t) := Q (unat (prio_bucket t)) @ [a])) = wake_ready now s as Q"
      using True nb t as by (auto simp: wake_ready_def fun_eq_iff bucket_at_def intro!: filter_cong)
    moreover have "wake_waits now s1 as' (\<lambda>w. removeAll a (W w)) = wake_waits now s as W"
      using True nb as by (auto simp: wake_waits_def removeAll_filter_not_eq fun_eq_iff intro!: filter_cong)
    moreover have "same_but_links (wake_tcbs now s as) (tcbs s')"
      using same_but_links_trans [OF wake_tcbs_step [OF links sel(1) t True new(1)] s'(4)] as by simp
    ultimately show ?thesis using get s1(1) s' cs by simp
  qed
qed

text \<open>
  Wake-up at the tick. \<open>rtos_wake_delayed\<close> makes exactly the overdue tasks ready: in registry
  order they join the ends of their ready rings and leave the wait lists they were on, tasks
  that waited for an object with the status \<open>RTOS_ERR_TIMEOUT\<close>; nothing else changes but the
  links of the lists.
\<close>

theorem wake_delayed_refines:
  assumes "sched_inv s Q" and "waits_inv s W" and "registry s R" and "distinct R" and "\<forall>a \<in> set R. tcbs s a \<noteq> None"
  shows "\<exists>s'. rtos_wake_delayed s = Some s'
    \<and> sched_inv s' (wake_ready (s_rtos_tick_count s) s R Q) \<and> waits_inv s' (wake_waits (s_rtos_tick_count s) s R W)
    \<and> same_but_links (wake_tcbs (s_rtos_tick_count s) s R) (tcbs s') \<and> calm s' = calm s"
  using wake_loop_refines [OF assms(1,2) _ _ assms(4,5), of 0 "unat (task_registry_count s)"] assms(3)
  by (auto simp: rtos_wake_delayed_def registry_def)

section \<open>Ticks\<close>

text \<open>
  What happens to the tasks while ticks pass and nothing else: \<open>SysTick_Handler\<close> increments the tick
  count and wakes tasks.
\<close>

fun pass_ticks :: "nat \<Rightarrow> kernel \<Rightarrow> kernel option" where
  "pass_ticks 0 s = Some s"
| "pass_ticks (Suc j) s = do { s \<leftarrow> pass_ticks j s; rtos_wake_delayed (rtos_tick_increment s) }"

lemma wake_count [simp]:
  "wake_ready now (s\<lparr>s_rtos_tick_count := k\<rparr>) R Q = wake_ready now s R Q"
  "wake_waits now (s\<lparr>s_rtos_tick_count := k\<rparr>) R W = wake_waits now s R W"
  "wake_tcbs now (s\<lparr>s_rtos_tick_count := k\<rparr>) R = wake_tcbs now s R"
  by (simp_all add: wake_ready_def wake_waits_def wake_tcbs_def due_def bucket_at_def cong: if_cong)

definition tasks_ok :: "kernel \<Rightarrow> addr list \<Rightarrow> ready_queues \<Rightarrow> wait_queues \<Rightarrow> bool" where
  "tasks_ok s R Q W \<longleftrightarrow> sched_inv s Q \<and> waits_inv s W \<and> registry s R \<and> distinct R \<and> (\<forall>a \<in> set R. tcbs s a \<noteq> None)"

lemma tick_wakes_tasks:
  assumes ok: "tasks_ok s R Q W" and now: "now = s_rtos_tick_count s + 1"
  obtains s' where "rtos_wake_delayed (rtos_tick_increment s) = Some s'"
    and "tasks_ok s' R (wake_ready now s R Q) (wake_waits now s R W)"
    and "same_but_links (wake_tcbs now s R) (tcbs s')" and "calm s' = calm (s\<lparr>s_rtos_tick_count := now\<rparr>)"
proof -
  let ?s0 = "s\<lparr>s_rtos_tick_count := now\<rparr>"
  note ok = ok [unfolded tasks_ok_def]
  have win: "waits_inv ?s0 W" by (rule waits_inv_cong [of s]) (use ok in \<open>auto intro: wptr_cong\<close>)
  have reg: "registry ?s0 R" by (rule registry_cong [of s]) (use ok in simp_all)
  obtain s' where s': "rtos_wake_delayed ?s0 = Some s'" "sched_inv s' (wake_ready now s R Q)" "waits_inv s' (wake_waits now s R W)"
    and links: "same_but_links (wake_tcbs now s R) (tcbs s')" and cs: "calm s' = calm ?s0"
    using wake_delayed_refines [OF _ win reg] ok by auto
  have "registry s' R" by (rule registry_cong [OF reg]) (simp_all add: calm_sel [OF cs])
  moreover have "tcbs s' a = None \<longleftrightarrow> tcbs s a = None" for a
    using same_but_links_None [OF links, of a] by (simp add: wake_tcbs_def)
  ultimately have "tasks_ok s' R (wake_ready now s R Q) (wake_waits now s R W)" using s' ok by (simp add: tasks_ok_def)
  then show thesis using that s'(1) links cs by (simp add: rtos_tick_increment_def now)
qed

text \<open>A sleeping task during ticks before its wake-up tick, and at the first tick at which it is overdue.\<close>

definition asleep :: "kernel \<Rightarrow> addr \<Rightarrow> u32 \<Rightarrow> bool" where
  "asleep s a w \<longleftrightarrow> a \<noteq> idle_tcb s \<and> (\<exists>t. tcbs s a = Some t \<and> state t = TASK_STATE_BLOCKED \<and> block_reason t = BLOCK_DELAY
     \<and> wake_time t = w)"

definition awake :: "kernel \<Rightarrow> ready_queues \<Rightarrow> addr \<Rightarrow> bool" where
  "awake s Q a \<longleftrightarrow> (\<exists>t. tcbs s a = Some t \<and> state t = TASK_STATE_READY \<and> a \<in> set (Q (unat (prio_bucket t))))"

lemma tick_asleep:
  assumes ok: "tasks_ok s R Q W" and a: "asleep s a w" and mem: "a \<in> set R" and now: "now = s_rtos_tick_count s + 1"
  obtains s' Q' W' where "rtos_wake_delayed (rtos_tick_increment s) = Some s'" and "tasks_ok s' R Q' W'"
    and "s_rtos_tick_count s' = now" and "if w \<noteq> UINT32_MAX \<and> w \<le> now then awake s' Q' a else asleep s' a w"
proof -
  obtain s' where s': "rtos_wake_delayed (rtos_tick_increment s) = Some s'"
      "tasks_ok s' R (wake_ready now s R Q) (wake_waits now s R W)"
    and links: "same_but_links (wake_tcbs now s R) (tcbs s')" and cs: "calm s' = calm (s\<lparr>s_rtos_tick_count := now\<rparr>)"
    by (rule tick_wakes_tasks [OF ok now])
  note sel = calm_sel [OF cs, simplified]
  obtain t where t: "tcbs s a = Some t" "state t = TASK_STATE_BLOCKED" "block_reason t = BLOCK_DELAY" "wake_time t = w" "a \<noteq> idle_tcb s"
    using a by (auto simp: asleep_def)
  have due: "due now s a \<longleftrightarrow> w \<noteq> UINT32_MAX \<and> w \<le> now" using t by (simp add: due_def overdue_def)
  have "wake_tcbs now s R a = Some (if due now s a then woken t else t)" using t mem by (simp add: wake_tcbs_def tick_woken_def)
  then obtain r x where t': "tcbs s' a = Some ((if due now s a then woken t else t)\<lparr>next_ready := r, mutex_wait_next := x\<rparr>)"
    by (rule same_but_links_Some [OF links])
  have "if w \<noteq> UINT32_MAX \<and> w \<le> now then awake s' (wake_ready now s R Q) a else asleep s' a w"
    using t t' mem sel(1) unfolding due [symmetric]
    by (auto simp: awake_def asleep_def wake_ready_def bucket_at_def woken_def)
  then show thesis using that s' sel(5) by blast
qed

lemma ticks_asleep:
  assumes ok: "tasks_ok s R Q W" and a: "asleep s a w" and mem: "a \<in> set R"
    and early: "\<And>i. 1 \<le> i \<Longrightarrow> i \<le> j \<Longrightarrow> w = UINT32_MAX \<or> s_rtos_tick_count s + of_nat i < w"
  obtains s' Q' W' where "pass_ticks j s = Some s'" and "tasks_ok s' R Q' W'" and "asleep s' a w"
    and "s_rtos_tick_count s' = s_rtos_tick_count s + of_nat j"
proof -
  have "\<exists>s' Q' W'. pass_ticks i s = Some s' \<and> tasks_ok s' R Q' W' \<and> asleep s' a w \<and> s_rtos_tick_count s' = s_rtos_tick_count s + of_nat i"
    if "i \<le> j" for i
    using that
  proof (induction i)
    case (Suc i)
    then obtain s1 Q1 W1 where s1: "pass_ticks i s = Some s1" "tasks_ok s1 R Q1 W1" "asleep s1 a w"
      "s_rtos_tick_count s1 = s_rtos_tick_count s + of_nat i" by auto
    obtain s2 Q2 W2 where s2: "rtos_wake_delayed (rtos_tick_increment s1) = Some s2" "tasks_ok s2 R Q2 W2"
        "s_rtos_tick_count s2 = s_rtos_tick_count s1 + 1"
      and st: "if w \<noteq> UINT32_MAX \<and> w \<le> s_rtos_tick_count s1 + 1 then awake s2 Q2 a else asleep s2 a w"
      by (rule tick_asleep [OF s1(2,3) mem refl])
    have k: "s_rtos_tick_count s1 + 1 = s_rtos_tick_count s + of_nat (Suc i)" using s1(4) by simp
    have "w = UINT32_MAX \<or> s_rtos_tick_count s1 + 1 < w" unfolding k by (rule early) (use Suc.prems in simp_all)
    then have "asleep s2 a w" using st by (auto simp: not_le)
    then show ?case using s1(1) s2 k by auto
  qed (use ok a in auto)
  then show thesis using that by blast
qed

section \<open>Delays\<close>

lemma task_delay_blocks:
  assumes inv: "sched_inv s Q" and cur: "current_tcb s = self" and t: "tcbs s self = Some t" and r: "runnable t"
    and n: "n \<noteq> 0"
  obtains s1 u where "task_delay n s = Some (None, s1)"
    and "sched_inv s1 (Q(unat (prio_bucket t) := remove1 self (Q (unat (prio_bucket t)))))"
    and "ready_frame (s\<lparr>tcbs := (tcbs s)(self \<mapsto> u), icsr := 0x10000000, primask := False\<rparr>) s1"
    and "state u = TASK_STATE_BLOCKED" and "block_reason u = BLOCK_DELAY"
    and "wake_time u = s_rtos_tick_count s + n" and "mutex_wait_next u = mutex_wait_next t"
proof -
  have nn: "self \<noteq> NULL" using inv t by (rule sched_inv_nonnull)
  obtain s1 where s1: "block_enter n BLOCK_DELAY NULL s = Some (None, s1)"
      "sched_inv s1 (Q(unat (prio_bucket t) := remove1 self (Q (unat (prio_bucket t)))))"
    and fr: "ready_frame (s\<lparr>tcbs := (tcbs s)(self \<mapsto> blocked_tcb (s_rtos_tick_count s) n BLOCK_DELAY NULL t),
                       icsr := 0x10000000, primask := False\<rparr>) s1"
    by (rule block_enter_inv [OF inv t cur r])
  then show thesis using that [OF _ s1(2) fr] n nn cur by (simp add: task_delay_def wake_tick_def)
qed

lemma task_delay_sleeps:
  assumes ok: "tasks_ok s R Q W" and cur: "current_tcb s = self" and t: "tcbs s self = Some t" and r: "runnable t"
    and idle: "self \<noteq> idle_tcb s" and n: "n \<noteq> 0"
  obtains s1 W1 where "task_delay n s = Some (None, s1)"
    and "tasks_ok s1 R (Q(unat (prio_bucket t) := remove1 self (Q (unat (prio_bucket t))))) W1"
    and "asleep s1 self (s_rtos_tick_count s + n)" and "s_rtos_tick_count s1 = s_rtos_tick_count s"
proof -
  note ok = ok [unfolded tasks_ok_def]
  obtain s1 u where s1: "task_delay n s = Some (None, s1)"
      "sched_inv s1 (Q(unat (prio_bucket t) := remove1 self (Q (unat (prio_bucket t)))))"
    and fr: "ready_frame (s\<lparr>tcbs := (tcbs s)(self \<mapsto> u), icsr := 0x10000000, primask := False\<rparr>) s1"
    and u: "state u = TASK_STATE_BLOCKED" "block_reason u = BLOCK_DELAY" "wake_time u = s_rtos_tick_count s + n"
      "mutex_wait_next u = mutex_wait_next t"
    by (rule task_delay_blocks [of s Q, OF _ cur t r n]) (use ok in simp_all)
  note sel = ready_frame_sel [OF fr]
  have sr: "same_but_ready ((tcbs s)(self \<mapsto> u)) (tcbs s1)" using fr by (auto simp: ready_frame_def)
  have "waits_inv s1 W"
    by (rule waits_inv_new [OF _ sr]) (use ok t r u in \<open>auto intro: wptr_cong simp: sel blocked_on_def wait_obj_of_def runnable_def\<close>)
  moreover have "registry s1 R" by (rule registry_cong [of s]) (use ok in \<open>simp_all add: sel\<close>)
  moreover have "tcbs s1 a \<noteq> None" if "tcbs s a \<noteq> None" for a using same_but_ready_None [OF sr, of a] that by auto
  ultimately have "tasks_ok s1 R (Q(unat (prio_bucket t) := remove1 self (Q (unat (prio_bucket t))))) W"
    using ok s1(2) by (simp add: tasks_ok_def)
  moreover obtain x where "tcbs s1 self = Some (u\<lparr>next_ready := x\<rparr>)" using ready_frame_tcb [OF fr, of self] by auto
  then have "asleep s1 self (s_rtos_tick_count s + n)" using u idle sel by (simp add: asleep_def)
  ultimately show thesis using that [OF s1(1)] sel by simp
qed

text \<open>
  C22. A delay ends at its tick, not earlier and not later. If \<open>task_delay n\<close> is called at tick \<open>k\<close> and
  \<open>k + n\<close> stays below the largest tick count, the task is off its ready ring; after fewer than \<open>n\<close>
  ticks, each of which runs \<open>rtos_wake_delayed\<close>, it is still blocked, and after the \<open>n\<close>-th tick it
  is ready and back in the ring of its priority. The invariants of rings, wait lists and
  registry hold throughout.
\<close>

theorem task_delay_ends:
  assumes ok: "tasks_ok s R Q W" and cur: "current_tcb s = self" and t: "tcbs s self = Some t" and r: "runnable t"
    and idle: "self \<noteq> idle_tcb s" and mem: "self \<in> set R" and n: "n \<noteq> 0"
    and small: "unat (s_rtos_tick_count s) + unat n < 2 ^ 32 - 1"
  shows "\<exists>s1. task_delay n s = Some (None, s1)
    \<and> (\<forall>j < unat n. \<exists>s2 Q2 W2 u. pass_ticks j s1 = Some s2 \<and> tasks_ok s2 R Q2 W2
         \<and> tcbs s2 self = Some u \<and> state u = TASK_STATE_BLOCKED \<and> self \<notin> queued Q2)
    \<and> (\<exists>s2 Q2 W2 u. pass_ticks (unat n) s1 = Some s2 \<and> tasks_ok s2 R Q2 W2
         \<and> tcbs s2 self = Some u \<and> state u = TASK_STATE_READY \<and> self \<in> set (Q2 (unat (prio_bucket u))))"
proof -
  let ?k = "s_rtos_tick_count s" and ?w = "s_rtos_tick_count s + n"
  obtain s1 W1 where s1: "task_delay n s = Some (None, s1)" "s_rtos_tick_count s1 = ?k"
    and ok1: "tasks_ok s1 R (Q(unat (prio_bucket t) := remove1 self (Q (unat (prio_bucket t))))) W1" and a1: "asleep s1 self ?w"
    by (rule task_delay_sleeps [OF ok cur t r idle n])
  have w: "unat ?w = unat ?k + unat n" using small by (simp add: unat_word_ariths)
  have at: "unat (?k + of_nat i) = unat ?k + i" if "i \<le> unat n" for i
    using small that by (simp add: unat_word_ariths unat_of_nat)
  have early: "s_rtos_tick_count s1 + of_nat i < ?w" if "i < unat n" for i
    using at [of i] w that s1(2) by (simp add: word_less_nat_alt)
  have before: "\<exists>s2 Q2 W2. pass_ticks j s1 = Some s2 \<and> tasks_ok s2 R Q2 W2 \<and> asleep s2 self ?w \<and> s_rtos_tick_count s2 = ?k + of_nat j"
    if "j < unat n" for j
    by (rule ticks_asleep [OF ok1 a1 mem, of j]) (use early that s1(2) in auto)
  have "\<exists>s2 Q2 W2 u. pass_ticks j s1 = Some s2 \<and> tasks_ok s2 R Q2 W2 \<and> tcbs s2 self = Some u \<and> state u = TASK_STATE_BLOCKED \<and> self \<notin> queued Q2"
    if j: "j < unat n" for j
    using before [OF j] placed_blocked [OF sched_inv_placed] by (fastforce simp: asleep_def tasks_ok_def runnable_def)
  moreover have "\<exists>s2 Q2 W2 u. pass_ticks (unat n) s1 = Some s2 \<and> tasks_ok s2 R Q2 W2 \<and> tcbs s2 self = Some u
      \<and> state u = TASK_STATE_READY \<and> self \<in> set (Q2 (unat (prio_bucket u)))"
  proof -
    obtain m where m: "unat n = Suc m" using n by (metis not0_implies_Suc unat_eq_zero)
    obtain s2 Q2 W2 where s2: "pass_ticks m s1 = Some s2" "tasks_ok s2 R Q2 W2" "asleep s2 self ?w" "s_rtos_tick_count s2 = ?k + of_nat m"
      using before [of m] m by auto
    obtain s3 Q3 W3 where s3: "rtos_wake_delayed (rtos_tick_increment s2) = Some s3" "tasks_ok s3 R Q3 W3"
      and st: "if ?w \<noteq> UINT32_MAX \<and> ?w \<le> s_rtos_tick_count s2 + 1 then awake s3 Q3 self else asleep s3 self ?w"
      by (rule tick_asleep [OF s2(2,3) mem refl])
    have "s_rtos_tick_count s2 + 1 = ?w" using s2(4) arg_cong [OF m, of "of_nat :: nat \<Rightarrow> u32"] by (simp add: algebra_simps)
    moreover have "?w \<noteq> UINT32_MAX" using w small by auto
    ultimately have "awake s3 Q3 self" using st by simp
    then show ?thesis using s2(1) s3 m by (auto simp: awake_def)
  qed
  ultimately show ?thesis using s1(1) by blast
qed

text \<open>
  C37. Delays across the wrap of the tick count. The wake-up tick \<open>k + n\<close> is computed modulo \<open>2 ^ 32\<close> and
  \<open>rtos_wake_delayed\<close> compares it as a number. If the sum wraps and \<open>k\<close> is not itself the largest
  tick count, the task is ready after the very next tick. If the sum is \<open>UINT32_MAX\<close>, the mark for
  waiting forever, the task is still blocked after any number of ticks.
\<close>

theorem task_delay_wraps:
  assumes ok: "tasks_ok s R Q W" and cur: "current_tcb s = self" and t: "tcbs s self = Some t" and r: "runnable t"
    and idle: "self \<noteq> idle_tcb s" and mem: "self \<in> set R" and n: "n \<noteq> 0"
  shows "\<exists>s1. task_delay n s = Some (None, s1)
    \<and> (unat (s_rtos_tick_count s) + unat n \<ge> 2 ^ 32 \<and> s_rtos_tick_count s \<noteq> UINT32_MAX
         \<longrightarrow> (\<exists>s2 Q2 W2 u. pass_ticks 1 s1 = Some s2 \<and> tasks_ok s2 R Q2 W2
                \<and> tcbs s2 self = Some u \<and> state u = TASK_STATE_READY \<and> self \<in> set (Q2 (unat (prio_bucket u)))))
    \<and> (unat (s_rtos_tick_count s) + unat n = 2 ^ 32 - 1
         \<longrightarrow> (\<forall>j. \<exists>s2 u. pass_ticks j s1 = Some s2 \<and> tcbs s2 self = Some u \<and> state u = TASK_STATE_BLOCKED))"
proof -
  let ?k = "s_rtos_tick_count s" and ?w = "s_rtos_tick_count s + n"
  obtain s1 W1 where s1: "task_delay n s = Some (None, s1)" "s_rtos_tick_count s1 = ?k"
    and ok1: "tasks_ok s1 R (Q(unat (prio_bucket t) := remove1 self (Q (unat (prio_bucket t))))) W1" and a1: "asleep s1 self ?w"
    by (rule task_delay_sleeps [OF ok cur t r idle n])
  have lt: "unat ?k < 2 ^ 32" "unat n < 2 ^ 32" by (rule unat_less_2p32)+
  have "\<exists>s2 Q2 W2 u. pass_ticks 1 s1 = Some s2 \<and> tasks_ok s2 R Q2 W2 \<and> tcbs s2 self = Some u \<and> state u = TASK_STATE_READY
      \<and> self \<in> set (Q2 (unat (prio_bucket u)))"
    if wrap: "unat ?k + unat n \<ge> 2 ^ 32" and k: "?k \<noteq> UINT32_MAX"
  proof -
    have e: "unat ?w = unat ?k + unat n - 2 ^ 32" using wrap lt by (simp add: unat_word_ariths mod_if)
    have "unat ?k \<noteq> 2 ^ 32 - 1" using k by (auto simp: word_unat_eq_iff)
    then have "unat (?k + 1) = unat ?k + 1" using lt by (simp add: unat_word_ariths)
    then have "?w \<le> ?k + 1" unfolding word_le_nat_alt e using lt by simp
    moreover have "?w \<noteq> UINT32_MAX" using e lt by auto
    moreover obtain s2 Q2 W2 where s2: "rtos_wake_delayed (rtos_tick_increment s1) = Some s2" "tasks_ok s2 R Q2 W2"
      and st: "if ?w \<noteq> UINT32_MAX \<and> ?w \<le> s_rtos_tick_count s1 + 1 then awake s2 Q2 self else asleep s2 self ?w"
      by (rule tick_asleep [OF ok1 a1 mem refl])
    ultimately have "awake s2 Q2 self" using s1(2) by simp
    then show ?thesis using s2 by (auto simp: awake_def)
  qed
  moreover have "\<exists>s2 u. pass_ticks j s1 = Some s2 \<and> tcbs s2 self = Some u \<and> state u = TASK_STATE_BLOCKED"
    if sum: "unat ?k + unat n = 2 ^ 32 - 1" for j
  proof -
    have "unat ?w = 2 ^ 32 - 1" using sum by (simp add: unat_word_ariths)
    then have "?w = UINT32_MAX" by (simp add: word_unat_eq_iff)
    then obtain s2 where "pass_ticks j s1 = Some s2" "asleep s2 self ?w" using ticks_asleep [OF ok1 a1 mem, of j] by blast
    then show ?thesis by (auto simp: asleep_def)
  qed
  ultimately show ?thesis using s1(1) by blast
qed

section \<open>Stack overflow detection\<close>

definition stack_intact :: "kernel \<Rightarrow> addr \<Rightarrow> bool" where
  "stack_intact s a \<longleftrightarrow> (case tcbs s a of None \<Rightarrow> True
     | Some t \<Rightarrow> stack_base t = NULL \<or> stack_mem s (stack_base t) = RTOS_STACK_CANARY)"

lemma stack_check_loop_eq:
  assumes "i + k \<le> length (task_registry s)" and "take k (drop i (task_registry s)) = as"
    and "\<forall>a \<in> set as. a \<noteq> NULL \<and> tcbs s a \<noteq> None"
  shows "stack_check_loop i k s = (case dropWhile (stack_intact s) as of
      [] \<Rightarrow> Some (False, s)
    | a # _ \<Rightarrow> Some (True, s\<lparr>g_rtos_stack_overflow_task_name := name (the (tcbs s a)),
                             g_rtos_stack_overflow_canary := stack_mem s (stack_base (the (tcbs s a)))\<rparr>))"
  using assms
proof (induction k arbitrary: i as)
  case 0
  then show ?case by auto
next
  case (Suc k)
  let ?R = "task_registry s"
  have "drop i ?R = ?R ! i # drop (Suc i) ?R" using Suc.prems(1) by (simp add: Cons_nth_drop_Suc)
  then obtain a as' where as: "as = a # as'" "a = ?R ! i" "as' = take k (drop (Suc i) ?R)"
    using Suc.prems(2) by simp
  have get: "arr_get ?R i = Some a" using Suc.prems(1) as by simp
  obtain t where t: "tcbs s a = Some t" "a \<noteq> NULL" using Suc.prems(3) as by auto
  have IH: "stack_check_loop (Suc i) k s = (case dropWhile (stack_intact s) as' of
      [] \<Rightarrow> Some (False, s)
    | a # _ \<Rightarrow> Some (True, s\<lparr>g_rtos_stack_overflow_task_name := name (the (tcbs s a)),
                             g_rtos_stack_overflow_canary := stack_mem s (stack_base (the (tcbs s a)))\<rparr>))"
    using Suc.prems as by (intro Suc.IH) auto
  show ?case
  proof (cases "stack_intact s a")
    case True
    then have "stack_check_loop i (Suc k) s = stack_check_loop (Suc i) k s"
      using get t by (auto simp: stack_intact_def Let_def)
    moreover have "dropWhile (stack_intact s) as = dropWhile (stack_intact s) as'" using True as by simp
    ultimately show ?thesis using IH by simp
  next
    case False
    then have "dropWhile (stack_intact s) as = a # as'" using as by simp
    moreover have "stack_base t \<noteq> NULL" "stack_mem s (stack_base t) \<noteq> RTOS_STACK_CANARY"
      using False t by (auto simp: stack_intact_def)
    ultimately show ?thesis using get t by (simp add: Let_def)
  qed
qed

lemma stack_check_all_eq:
  assumes "registry s R" and "\<forall>a \<in> set R. a \<noteq> NULL \<and> tcbs s a \<noteq> None"
  shows "rtos_stack_check_all s = (case dropWhile (stack_intact s) R of
      [] \<Rightarrow> Some (False, s)
    | a # _ \<Rightarrow> Some (True, s\<lparr>g_rtos_stack_overflow_task_name := name (the (tcbs s a)),
                             g_rtos_stack_overflow_canary := stack_mem s (stack_base (the (tcbs s a)))\<rparr>))"
  using stack_check_loop_eq [of 0 "unat (task_registry_count s)" s R] assms
  by (simp add: rtos_stack_check_all_def registry_def)

text \<open>
  Stack check. If the canary of every registered stack is intact, the check returns and
  changes nothing; otherwise it stops for good after recording the name and the overwritten
  canary of the first damaged task in registry order.
\<close>

theorem stack_check_detects:
  assumes "registry s R" and "\<forall>a \<in> set R. a \<noteq> NULL \<and> tcbs s a \<noteq> None"
  shows "if \<forall>a \<in> set R. stack_intact s a then rtos_stack_check_all s = Some (False, s)
    else \<exists>us a vs t. R = us @ a # vs \<and> (\<forall>x \<in> set us. stack_intact s x) \<and> \<not> stack_intact s a
      \<and> tcbs s a = Some t
      \<and> rtos_stack_check_all s = Some (True, s\<lparr>g_rtos_stack_overflow_task_name := name t,
                                               g_rtos_stack_overflow_canary := stack_mem s (stack_base t)\<rparr>)"
proof -
  note chk = stack_check_all_eq [OF assms]
  show ?thesis
  proof (cases "\<forall>a \<in> set R. stack_intact s a")
    case True
    then have dw: "dropWhile (stack_intact s) R = []" by simp
    show ?thesis using True unfolding chk dw by simp
  next
    case False
    then obtain us a vs where R: "R = us @ a # vs" "\<forall>x \<in> set us. stack_intact s x" "\<not> stack_intact s a"
      using split_list_first_prop [of R "\<lambda>a. \<not> stack_intact s a"] by auto
    then have dw: "dropWhile (stack_intact s) R = a # vs" by (simp add: dropWhile_append)
    obtain t where t: "tcbs s a = Some t" using assms(2) R by auto
    have "rtos_stack_check_all s = Some (True, s\<lparr>g_rtos_stack_overflow_task_name := name t,
        g_rtos_stack_overflow_canary := stack_mem s (stack_base t)\<rparr>)" unfolding chk dw by (simp add: t)
    then show ?thesis unfolding if_not_P [OF False] using R t by blast
  qed
qed

section \<open>Sample state\<close>

text \<open>
  At tick 7 task 16 runs, task 32 sleeps until tick 5, task 48 waits for semaphore 256 until
  tick 7 and task 64 is the idle task.
\<close>

definition tick_sample :: kernel where
  "tick_sample = blank_kernel\<lparr>
     tcbs := [16 \<mapsto> (sample_task 200 TASK_STATE_RUNNING 16)\<lparr>stack_base := 1024\<rparr>,
              32 \<mapsto> (sample_task 70 TASK_STATE_BLOCKED 0)\<lparr>block_reason := BLOCK_DELAY, wake_time := 5\<rparr>,
              48 \<mapsto> (sample_task 100 TASK_STATE_BLOCKED 0)\<lparr>block_reason := BLOCK_SEMAPHORE,
                       block_object := 256, wake_time := 7\<rparr>,
              64 \<mapsto> sample_task 255 TASK_STATE_READY 64],
     semaphores := [256 \<mapsto> \<lparr>sem_count = 0, max_count = 1, sem_wait_head = 48, sem_wait_tail = 48\<rparr>],
     ready_head := [0, 0, 0, 0, 0, 0, 16, 64], current_tcb := 16, idle_tcb := 64,
     task_registry := [64, 16, 32, 48] @ replicate 29 0, task_registry_count := 4, s_rtos_tick_count := 7\<rparr>"

definition tick_sample_queues :: ready_queues where
  "tick_sample_queues = (\<lambda>b. [])(6 := [16], 7 := [64])"

definition tick_sample_waits :: wait_queues where
  "tick_sample_waits = (\<lambda>w. [])(SemQ 256 := [48])"

lemma tick_sample_inv: "sched_inv tick_sample tick_sample_queues"
  by (auto simp: sched_inv_def placed_def queued_def runnable_def ready_rel_def tick_sample_def
      tick_sample_queues_def sample_defs ring_def ready_link_def split: if_splits dest!: less_8_cases)

lemma tick_sample_wptr: "wptr tick_sample w \<noteq> None \<longleftrightarrow> w = SemQ 256"
  by (cases w) (auto simp: wptr_def tick_sample_def blank_kernel_def access_defs fetch_def)

lemma tick_sample_waits_inv: "waits_inv tick_sample tick_sample_waits"
proof -
  have "waiters_of tick_sample (SemQ 256) [48]"
    by (simp add: waiters_of_def wptr_def tick_sample_def wait_list_def wait_link_def)
  moreover have "(\<exists>t. tcbs tick_sample a = Some t \<and> blocked_on t = Some w) \<longleftrightarrow> w = SemQ 256 \<and> a = 48" for w a
    by (auto simp: tick_sample_def blocked_on_def wait_obj_of_def)
  ultimately show ?thesis unfolding waits_inv_def tick_sample_wptr by (auto simp: tick_sample_waits_def)
qed

lemma tick_sample_sel:
  "registry tick_sample [64, 16, 32, 48]" "current_tcb tick_sample = 16" "idle_tcb tick_sample = 64"
  "s_rtos_tick_count tick_sample = 7" "\<forall>a \<in> set [64, 16, 32, 48]. a \<noteq> NULL \<and> tcbs tick_sample a \<noteq> None"
  "tcbs tick_sample 16 = Some ((sample_task 200 TASK_STATE_RUNNING 16)\<lparr>stack_base := 1024\<rparr>)"
  by (simp_all add: registry_def tick_sample_def)

lemma tick_sample_due: "due 7 tick_sample 32" "due 7 tick_sample 48" "\<not> due 7 tick_sample 16" "\<not> due 7 tick_sample 64"
  "bucket_at tick_sample 32 = 2" "bucket_at tick_sample 48 = 3"
  by (simp_all add: due_def overdue_def bucket_at_def tick_sample_def prio_bucket_of_eval)

theorem wake_delayed_refines_witness:
  "\<exists>s'. rtos_wake_delayed tick_sample = Some s' \<and> sched_inv s' (tick_sample_queues(2 := [32], 3 := [48]))
     \<and> waiters_of s' (SemQ 256) []"
proof -
  obtain s' where s': "rtos_wake_delayed tick_sample = Some s'"
      "sched_inv s' (wake_ready 7 tick_sample [64, 16, 32, 48] tick_sample_queues)"
      "waits_inv s' (wake_waits 7 tick_sample [64, 16, 32, 48] tick_sample_waits)" "calm s' = calm tick_sample"
    using wake_delayed_refines [OF tick_sample_inv tick_sample_waits_inv tick_sample_sel(1)] tick_sample_sel(4,5) by auto
  have "wake_ready 7 tick_sample [64, 16, 32, 48] tick_sample_queues = tick_sample_queues(2 := [32], 3 := [48])"
    using tick_sample_due by (auto simp: wake_ready_def tick_sample_queues_def)
  moreover have "waiters_of s' (SemQ 256) []"
  proof -
    have "map_option (\<lambda>x. (sem_count x, max_count x)) (semaphores s' 256) = Some (0, 1)"
      using calm_objects(2) [OF s'(4), of 256] by (simp add: tick_sample_def)
    then have "wptr s' (SemQ 256) \<noteq> None" by (auto simp: wptr_def get_sem_def fetch_def)
    from waits_inv_list [OF s'(3) this] show ?thesis
      using tick_sample_due by (simp add: wake_waits_def tick_sample_waits_def)
  qed
  ultimately show ?thesis using s' by auto
qed

lemma tick_sample_ok: "tasks_ok tick_sample [64, 16, 32, 48] tick_sample_queues tick_sample_waits"
  using tick_sample_inv tick_sample_waits_inv tick_sample_sel(1,5) by (simp add: tasks_ok_def)

theorem task_delay_ends_witness:
  "\<exists>s1 s2 u s3 v. task_delay 10 tick_sample = Some (None, s1)
     \<and> pass_ticks 9 s1 = Some s2 \<and> tcbs s2 16 = Some u \<and> state u = TASK_STATE_BLOCKED
     \<and> pass_ticks 10 s1 = Some s3 \<and> tcbs s3 16 = Some v \<and> state v = TASK_STATE_READY"
proof -
  have un: "unat (10 :: u32) = 10" by simp
  obtain s1 where s1: "task_delay 10 tick_sample = Some (None, s1)"
      "\<forall>j < 10. \<exists>s2 Q2 W2 u. pass_ticks j s1 = Some s2 \<and> tasks_ok s2 [64, 16, 32, 48] Q2 W2
         \<and> tcbs s2 16 = Some u \<and> state u = TASK_STATE_BLOCKED \<and> 16 \<notin> queued Q2"
      "\<exists>s2 Q2 W2 u. pass_ticks 10 s1 = Some s2 \<and> tasks_ok s2 [64, 16, 32, 48] Q2 W2
         \<and> tcbs s2 16 = Some u \<and> state u = TASK_STATE_READY \<and> 16 \<in> set (Q2 (unat (prio_bucket u)))"
    using task_delay_ends [OF tick_sample_ok tick_sample_sel(2,6), of 10, unfolded un] tick_sample_sel(3,4)
    by (auto simp: runnable_def)
  have "(9 :: nat) < 10" by simp
  with s1 show ?thesis by blast
qed

theorem task_delay_wraps_witness:
  "(\<exists>s1 s2 u. task_delay 0xFFFFFFFF tick_sample = Some (None, s1)
      \<and> pass_ticks 1 s1 = Some s2 \<and> tcbs s2 16 = Some u \<and> state u = TASK_STATE_READY)
   \<and> (\<exists>s1 s2 u. task_delay 0xFFFFFFF8 tick_sample = Some (None, s1)
      \<and> pass_ticks 1000 s1 = Some s2 \<and> tcbs s2 16 = Some u \<and> state u = TASK_STATE_BLOCKED)"
proof -
  have r: "runnable ((sample_task 200 TASK_STATE_RUNNING 16)\<lparr>stack_base := 1024\<rparr>)" "(16 :: u32) \<noteq> idle_tcb tick_sample"
    "(16 :: u32) \<in> set [64, 16, 32, 48]" by (simp_all add: runnable_def tick_sample_sel(3))
  note inst = task_delay_wraps [OF tick_sample_ok tick_sample_sel(2,6) r]
  have a: "unat (s_rtos_tick_count tick_sample) + unat (0xFFFFFFFF :: u32) \<ge> 2 ^ 32 \<and> s_rtos_tick_count tick_sample \<noteq> UINT32_MAX"
    "unat (s_rtos_tick_count tick_sample) + unat (0xFFFFFFF8 :: u32) = 2 ^ 32 - 1" by (simp_all add: tick_sample_sel(4))
  have "(0xFFFFFFFF :: u32) \<noteq> 0" "(0xFFFFFFF8 :: u32) \<noteq> 0" by simp_all
  from inst [OF this(1)] inst [OF this(2)] a show ?thesis by blast
qed

theorem stack_check_detects_witness:
  "\<exists>s'. rtos_stack_check_all tick_sample = Some (True, s') \<and> g_rtos_stack_overflow_canary s' = 0"
proof -
  have "\<not> stack_intact tick_sample 16"
    by (simp add: stack_intact_def tick_sample_def blank_kernel_def RTOS_STACK_CANARY_def)
  moreover have "stack_intact tick_sample 64" "stack_intact tick_sample 32" "stack_intact tick_sample 48"
    by (simp_all add: stack_intact_def tick_sample_def sample_task_def blank_tcb_def)
  moreover have "stack_mem tick_sample x = 0" for x by (simp add: tick_sample_def blank_kernel_def)
  ultimately show ?thesis using stack_check_detects [OF tick_sample_sel(1,5)] by auto
qed

end
