(* ===== verification/Rtos_Lifecycle.thy ===== *)
theory Rtos_Lifecycle
  imports Rtos_Tick
begin

unbundle bit_operations_syntax

text \<open>
  Creation and deletion of tasks. \<open>task_inv\<close> ties the registry to the scheduler and to the
  heap: the registered tasks are the ones that are not terminated, and each of them owns its
  own heap blocks, one for the control block and, except for the idle task, one for the stack.
  \<open>task_init\<close> establishes it, \<open>task_create\<close> and \<open>task_delete\<close> keep it.
\<close>

section \<open>The heap does not touch tasks\<close>

definition heap_frame :: "kernel \<Rightarrow> kernel \<Rightarrow> bool" where
  "heap_frame s s' \<longleftrightarrow> (\<exists>H f. s' = s\<lparr>heap_blocks := H, free_list := f\<rparr>)"

lemma heap_frame_refl [simp]: "heap_frame s s"
  unfolding heap_frame_def by (rule exI [of _ "heap_blocks s"], rule exI [of _ "free_list s"]) simp

lemma heap_frame_trans:
  assumes "heap_frame s s'" and "heap_frame s' s''"
  shows "heap_frame s s''"
proof -
  obtain H f H' f' where "s' = s\<lparr>heap_blocks := H, free_list := f\<rparr>" "s'' = s'\<lparr>heap_blocks := H', free_list := f'\<rparr>"
    using assms unfolding heap_frame_def by blast
  then have "s'' = s\<lparr>heap_blocks := H', free_list := f'\<rparr>" by simp
  then show ?thesis unfolding heap_frame_def by blast
qed

lemma heap_frame_upd [simp]: "heap_frame s (s\<lparr>heap_blocks := H\<rparr>)" "heap_frame s (s\<lparr>free_list := f\<rparr>)"
proof -
  have "s\<lparr>heap_blocks := H\<rparr> = s\<lparr>heap_blocks := H, free_list := free_list s\<rparr>"
    "s\<lparr>free_list := f\<rparr> = s\<lparr>heap_blocks := heap_blocks s, free_list := f\<rparr>" by simp_all
  then show "heap_frame s (s\<lparr>heap_blocks := H\<rparr>)" "heap_frame s (s\<lparr>free_list := f\<rparr>)" unfolding heap_frame_def by blast+
qed

lemma heap_frame_into: "heap_frame s s' \<Longrightarrow> heap_frame s (s'\<lparr>free_list := f\<rparr>)"
  by (rule heap_frame_trans [OF _ heap_frame_upd(2)])

lemma heap_frame_sel:
  assumes "heap_frame s s'"
  shows "tcbs s' = tcbs s" "ready_head s' = ready_head s" "task_registry s' = task_registry s"
    "task_registry_count s' = task_registry_count s" "idle_tcb s' = idle_tcb s" "current_tcb s' = current_tcb s"
    "heap_ready s' = heap_ready s" "ram s' = ram s" "stack_mem s' = stack_mem s" "wptr s' w = wptr s w"
    "s_rtos_tick_count s' = s_rtos_tick_count s"
  using assms by (auto simp: heap_frame_def wptr_def access_defs split: wait_obj.split)

lemma upd_blk_frame: "upd_blk p f s = Some s' \<Longrightarrow> heap_frame s s'"
  by (auto simp: upd_blk_def)

lemma remove_from_list_frame: "remove_from_list b p s = Some s' \<Longrightarrow> heap_frame s s'"
  by (auto simp: remove_from_list_def split: bind_splits if_splits dest!: upd_blk_frame
      intro: heap_frame_trans [OF heap_frame_upd(2)] heap_frame_trans)

lemma prepend_free_frame: "prepend_free b s = Some s' \<Longrightarrow> heap_frame s s'"
  by (auto simp: prepend_free_def split: bind_splits dest!: upd_blk_frame intro: heap_frame_into)

lemma coalesce_forward_frame: "coalesce_forward s = Some s' \<Longrightarrow> heap_frame s s'"
  by (auto simp: coalesce_forward_def)

lemma heap_free_frame: "heap_free p s = Some s' \<Longrightarrow> heap_frame s s'"
  by (auto simp: heap_free_def Let_def split: if_splits bind_splits
      dest!: prepend_free_frame coalesce_forward_frame intro: heap_frame_trans)

lemma heap_alloc_frame: "heap_alloc sz s = Some (p, s') \<Longrightarrow> heap_frame s s'"
  by (auto simp: heap_alloc_def Let_def split: if_splits bind_splits option.splits
      dest!: upd_blk_frame remove_from_list_frame prepend_free_frame coalesce_forward_frame)
     (meson heap_frame_trans)+

text \<open>An allocation as its callers see it.\<close>

lemma heap_inv_cong:
  "heap_inv pool s xs ys \<Longrightarrow> heap_blocks s' = heap_blocks s \<Longrightarrow> free_list s' = free_list s \<Longrightarrow>
   heap_ready s' = heap_ready s \<Longrightarrow> heap_inv pool s' xs ys"
  by (simp add: heap_inv_def)

lemma heap_alloc_result:
  assumes inv: "heap_inv pool s xs ys" and sz: "unat sz + 15 < 2 ^ 32" and al: "heap_alloc sz s = Some (p, s')"
  obtains (fail) "p = NULL" "s' = s"
  | (ok) n xs' where "p \<noteq> NULL" "heap_inv pool s' xs' ((p - 8, n) # ys)" "unat sz + 8 \<le> unat n"
  using inv sz
proof (cases rule: heap_alloc_cases)
  case fail
  then show thesis using that(1) al by simp
next
  case (fit us a n vs t)
  have "alloc_total sz \<le> alloc_size sz n" using fit(3) by (simp add: alloc_size_def)
  then have "unat sz + 8 \<le> unat (alloc_size sz n)"
    using alloc_total_bounds(1) [OF sz fit(2)] by (simp add: word_le_nat_alt)
  then show thesis using that(2) fit al by simp
qed

lemma heap_block_of:
  assumes inv: "heap_inv pool s xs ys" and b: "(a, n) \<in> set ys"
  shows "8 dvd unat a" and "unat (a + 8) = unat a + 8" and "unat a + unat n < 2 ^ 32" and "a \<noteq> NULL"
proof -
  have ti: "pool_ok pool" "tile_ok pool (a, n)" using inv b by (auto simp: heap_inv_def tiles_def)
  then show "8 dvd unat a" "unat a + unat n < 2 ^ 32" by (auto simp: tile_ok_def pool_ok_def)
  show "unat (a + 8) = unat a + 8" using block_end [OF ti, of 8] ti(2) by (simp add: tile_ok_def)
  show "a \<noteq> NULL" using tile_head [OF ti] by simp
qed

section \<open>A new task\<close>

lemma new_task:
  assumes inv: "sched_inv s Q" and p: "p \<noteq> NULL" "p \<notin> queued Q"
    and u: "state u = TASK_STATE_READY" "prio_bucket u = prio_bucket_of (priority u)"
  obtains s' where "scheduler_add_task p (s\<lparr>tcbs := (tcbs s)(p \<mapsto> u)\<rparr>) = Some (RTOS_OK, s')"
    and "sched_inv s' (Q(unat (prio_bucket u) := Q (unat (prio_bucket u)) @ [p]))"
    and "ready_frame (s\<lparr>tcbs := (tcbs s)(p \<mapsto> u)\<rparr>) s'"
proof -
  let ?s1 = "s\<lparr>tcbs := (tcbs s)(p \<mapsto> u)\<rparr>" and ?b = "unat (prio_bucket u)"
  let ?Q = "Q(?b := Q ?b @ [p])"
  have b: "?b < RTOS_NUM_PRIORITIES" using u(2) by simp
  have "p \<notin> set (Q c)" if "c < RTOS_NUM_PRIORITIES" for c using p(2) that by (auto simp: queued_def)
  then have rel1: "ready_rel ?s1 Q" using sched_inv_rel [OF inv] by (simp add: ready_rel_def ring_upd)
  obtain s' where add: "scheduler_add_task p ?s1 = Some (RTOS_OK, s')" and rel': "ready_rel s' ?Q"
    and fr: "ready_frame (?s1\<lparr>tcbs := (tcbs ?s1)(p \<mapsto> u\<lparr>state := added_state (state u)\<rparr>)\<rparr>) s'"
    using scheduler_add_refines [OF rel1, of p u] p b u by auto
  have "u\<lparr>state := added_state (state u)\<rparr> = u" using u(1) by (cases u) (simp add: added_state_def)
  with fr have fr': "ready_frame ?s1 s'" by simp
  have "sched_inv s' ?Q"
  proof (rule sched_inv_step [OF inv rel', where a = p and u = u and i = "icsr s" and m = "primask s"])
    show "ready_frame (s\<lparr>tcbs := (tcbs s)(p \<mapsto> u)\<rparr>\<lparr>icsr := icsr s, primask := primask s\<rparr>) s'" using fr' by simp
    show "placed ?Q p u" using p u by (simp add: placed_def runnable_def)
  qed auto
  then show thesis using add fr' that by blast
qed

section \<open>The initial stack\<close>

definition read_words :: "(addr \<Rightarrow> u32) \<Rightarrow> addr \<Rightarrow> nat \<Rightarrow> u32 list" where
  "read_words M a n = map (\<lambda>i. M (a + 4 * of_nat i)) [0..<n]"

definition initial_frame :: "image \<Rightarrow> addr \<Rightarrow> u32 list" where
  "initial_frame img f = replicate 8 0 @ [0, 0, 0, 0, 0, task_exit_trap img, f, 0x01000000]"

lemma word_step_neq: "0 < k \<Longrightarrow> k < 2 ^ 30 \<Longrightarrow> (4 :: u32) * of_nat k \<noteq> 0"
proof
  assume k: "0 < k" "k < 2 ^ 30" and "(4 :: u32) * of_nat k = 0"
  then have "(of_nat (4 * k) :: u32) = 0" by simp
  moreover have "unat (of_nat (4 * k) :: u32) = 4 * k" using k by (intro unat_of_nat_u32) simp
  ultimately show False using k by simp
qed

lemma word_step_inj: "i < j \<Longrightarrow> j < 2 ^ 30 \<Longrightarrow> a + 4 * of_nat i \<noteq> a + 4 * (of_nat j :: u32)"
proof -
  assume ij: "i < j" "j < 2 ^ 30"
  then have "(4 :: u32) * of_nat (j - i) \<noteq> 0" by (intro word_step_neq) simp_all
  moreover have "(4 :: u32) * of_nat j = 4 * of_nat i + 4 * of_nat (j - i)"
    using ij by (simp add: of_nat_diff right_diff_distrib)
  ultimately show ?thesis by simp
qed

lemma store_words_other: "(\<And>i. i < length ws \<Longrightarrow> a \<noteq> sp + 4 * of_nat i) \<Longrightarrow> store_words sp ws M a = M a"
proof (induction ws arbitrary: sp M)
  case (Cons w ws)
  have "a \<noteq> sp" using Cons.prems [of 0] by simp
  moreover have "a \<noteq> sp + 4 + 4 * of_nat i" if "i < length ws" for i
    using Cons.prems [of "Suc i"] that by (simp add: algebra_simps)
  ultimately show ?case using Cons.IH by simp
qed simp

lemma store_words_nth: "i < length ws \<Longrightarrow> length ws < 2 ^ 30 \<Longrightarrow> store_words sp ws M (sp + 4 * of_nat i) = ws ! i"
proof (induction ws arbitrary: sp M i)
  case (Cons w ws)
  show ?case
  proof (cases i)
    case 0
    have "sp \<noteq> sp + 4 + 4 * of_nat j" if "j < length ws" for j
      using word_step_inj [of 0 "Suc j" sp] that Cons.prems(2) by (simp add: algebra_simps)
    then show ?thesis using 0 store_words_other [of ws sp "sp + 4" "M(sp := w)"] by simp
  next
    case (Suc j)
    have e: "sp + 4 * of_nat (Suc j) = sp + 4 + 4 * of_nat j" by (simp add: algebra_simps)
    have "store_words (sp + 4) ws (M(sp := w)) (sp + 4 + 4 * of_nat j) = ws ! j"
      using Cons.IH Cons.prems Suc by simp
    then show ?thesis unfolding Suc e by (simp only: store_words.simps nth_Cons_Suc)
  qed
qed simp

lemma read_store_words: "n = length ws \<Longrightarrow> n < 2 ^ 30 \<Longrightarrow> read_words (store_words sp ws M) sp n = ws"
  by (rule nth_equalityI) (simp_all add: read_words_def store_words_nth)

lemma read_words_append: "read_words M a (m + n) = read_words M a m @ read_words M (a + 4 * of_nat m) n"
  by (rule nth_equalityI) (auto simp: read_words_def nth_append algebra_simps of_nat_diff)

lemma read_words_above:
  assumes "n + length ws < 2 ^ 30"
  shows "read_words (store_words sp ws M) (sp + 4 * of_nat (length ws)) n = read_words M (sp + 4 * of_nat (length ws)) n"
proof -
  have "store_words sp ws M (sp + 4 * of_nat (length ws) + 4 * of_nat i) = M (sp + 4 * of_nat (length ws) + 4 * of_nat i)"
    if "i < n" for i
  proof (rule store_words_other)
    fix j assume "j < length ws"
    then show "sp + 4 * of_nat (length ws) + 4 * of_nat i \<noteq> sp + 4 * of_nat j"
      using word_step_inj [of j "length ws + i" sp] that assms by (simp add: algebra_simps)
  qed
  then show ?thesis by (simp add: read_words_def)
qed

lemma build_initial_stack_frame:
  assumes "build_initial_stack img high f M = (sp, M')"
  shows "sp = high - 64" and "read_words M' sp 16 = initial_frame img f"
    and "(\<And>i. i < 16 \<Longrightarrow> a \<noteq> sp + 4 * of_nat i) \<Longrightarrow> M' a = M a"
proof -
  let ?hi = "[0, 0, 0, 0, 0, task_exit_trap img, f, 0x01000000]" and ?lo = "[0, 0, 0, 0, 0, 0, 0, 0] :: u32 list"
  have e: "high - 32 = sp + 32" and M': "M' = store_words sp ?lo (store_words (sp + 32) ?hi M)" and "sp = high - 64"
    using assms by (auto simp: build_initial_stack_def Let_def)
  then show "sp = high - 64" by simp
  have "read_words M' sp (8 + 8) = read_words M' sp 8 @ read_words M' (sp + 32) 8" by (subst read_words_append) simp
  moreover have "read_words M' sp 8 = ?lo" unfolding M'
    using read_store_words [of 8 ?lo sp "store_words (sp + 32) ?hi M"] by (simp del: store_words.simps)
  moreover have "read_words M' (sp + 32) 8 = ?hi"
    unfolding M' using read_words_above [of 8 ?lo sp "store_words (sp + 32) ?hi M"] read_store_words [of 8 ?hi "sp + 32" M]
    by (simp del: store_words.simps)
  moreover have "replicate 8 (0 :: u32) = ?lo" by (simp add: numeral_eq_Suc)
  ultimately show "read_words M' sp 16 = initial_frame img f" by (simp add: initial_frame_def)
  assume out: "\<And>i. i < 16 \<Longrightarrow> a \<noteq> sp + 4 * of_nat i"
  have "a \<noteq> sp + 32 + 4 * of_nat i" if "i < 8" for i using out [of "8 + i"] that by (simp add: algebra_simps)
  then have "store_words (sp + 32) ?hi M a = M a" by (intro store_words_other) simp
  moreover have "a \<noteq> sp + 4 * of_nat i" if "i < 8" for i using out [of i] that by simp
  ultimately show "M' a = M a" unfolding M'
    by (subst store_words_other) (simp_all del: store_words.simps)
qed

section \<open>Tasks and their memory\<close>

definition task_blocks :: "kernel \<Rightarrow> addr \<Rightarrow> addr list" where
  "task_blocks s a = (if a = idle_tcb s then [a - 8]
     else [a - 8, (case tcbs s a of None \<Rightarrow> NULL | Some t \<Rightarrow> stack_base t - 8)])"

definition task_inv :: "image \<Rightarrow> kernel \<Rightarrow> ready_queues \<Rightarrow> addr list \<Rightarrow> block list \<Rightarrow> block list \<Rightarrow> bool" where
  "task_inv img s Q R xs ys \<longleftrightarrow> sched_inv s Q \<and> heap_inv (heap_pool img) s xs ys \<and> registry s R
     \<and> distinct (concat (map (task_blocks s) R)) \<and> set (concat (map (task_blocks s) R)) \<subseteq> fst ` set ys
     \<and> (\<forall>a. a \<in> set R \<longleftrightarrow> (\<exists>t. tcbs s a = Some t \<and> state t \<noteq> TASK_STATE_TERMINATED))
     \<and> idle_tcb s \<in> set R"

lemma task_invD:
  assumes "task_inv img s Q R xs ys"
  shows "sched_inv s Q" "heap_inv (heap_pool img) s xs ys" "registry s R"
    "distinct (concat (map (task_blocks s) R))" "set (concat (map (task_blocks s) R)) \<subseteq> fst ` set ys"
    "\<And>a. a \<in> set R \<longleftrightarrow> (\<exists>t. tcbs s a = Some t \<and> state t \<noteq> TASK_STATE_TERMINATED)" "idle_tcb s \<in> set R"
  using assms by (auto simp: task_inv_def)

lemma task_blocks_self: "a - 8 \<in> set (task_blocks s a)"
  by (simp add: task_blocks_def)

lemma task_inv_registry_distinct:
  assumes "task_inv img s Q R xs ys"
  shows "distinct R"
proof -
  have "removeAll [] (map (task_blocks s) R) = map (task_blocks s) R"
    by (rule removeAll_id) (auto simp: task_blocks_def)
  then have "distinct (map (task_blocks s) R)" using task_invD(4) [OF assms] by (simp add: distinct_concat_iff)
  then show ?thesis by (simp add: distinct_map)
qed

text \<open>Scheduling knows no tasks but the registered ones.\<close>

lemma task_inv_queued: "task_inv img s Q R xs ys \<Longrightarrow> queued Q \<subseteq> set R"
proof
  fix a assume inv: "task_inv img s Q R xs ys" and "a \<in> queued Q"
  then obtain b where b: "b < RTOS_NUM_PRIORITIES" "a \<in> set (Q b)" by (auto simp: queued_def)
  note sinv = task_invD(1) [OF inv]
  obtain t where t: "tcbs s a = Some t" using ready_rel_live [OF sched_inv_rel [OF sinv] b] by blast
  then have "runnable t" using sched_inv_queued [OF sinv t b] by simp
  then show "a \<in> set R" using t task_invD(6) [OF inv, of a] by (auto simp: runnable_def)
qed

text \<open>A block that was just allocated belongs to no task.\<close>

lemma fresh_address:
  assumes inv: "task_inv img s Q R xs ys" and new: "p - 8 \<notin> fst ` set ys"
  shows "p \<notin> set R" and "p \<notin> queued Q"
proof -
  show "p \<notin> set R" using task_blocks_self [of p s] task_invD(5) [OF inv] new by auto
  then show "p \<notin> queued Q" using task_inv_queued [OF inv] by blast
qed

lemma task_blocks_cong:
  assumes "idle_tcb s' = idle_tcb s" and "\<And>a. a \<in> set R \<Longrightarrow>
      map_option stack_base (tcbs s' a) = map_option stack_base (tcbs s a)"
  shows "map (task_blocks s') R = map (task_blocks s) R"
proof (rule map_cong [OF refl])
  fix a assume "a \<in> set R"
  then show "task_blocks s' a = task_blocks s a"
    using assms by (cases "tcbs s a"; cases "tcbs s' a") (fastforce simp: task_blocks_def)+
qed

section \<open>Creation\<close>

text \<open>The control block that \<open>task_create\<close> writes.\<close>

definition created_tcb :: "image \<Rightarrow> addr \<Rightarrow> u8 \<Rightarrow> u32 \<Rightarrow> addr \<Rightarrow> u8 list \<Rightarrow> TCB_t" where
  "created_tcb img f prio sz stk nm = \<lparr>stack_ptr = ((stk + sz) AND NOT 7) - 64, prio_bucket = prio_bucket_of prio,
     priority = prio, state = TASK_STATE_READY, stack_base = stk, stack_size = sz, name = nm,
     wake_time = UINT32_MAX, next_tcb = 0, base_priority = prio, blocked_on_mutex = 0, mutex_wait_next = 0,
     task_func = f, next_ready = 0, time_slice_counter = 0, block_reason = BLOCK_NONE, block_object = 0,
     block_wake_status = RTOS_OK\<rparr>"

lemma created_tcb_sel [simp]:
  "state (created_tcb img f prio sz stk nm) = TASK_STATE_READY"
  "priority (created_tcb img f prio sz stk nm) = prio"
  "prio_bucket (created_tcb img f prio sz stk nm) = prio_bucket_of prio"
  "stack_base (created_tcb img f prio sz stk nm) = stk"
  "next_ready (created_tcb img f prio sz stk nm) = 0"
  "mutex_wait_next (created_tcb img f prio sz stk nm) = 0"
  "stack_ptr (created_tcb img f prio sz stk nm) = ((stk + sz) AND NOT 7) - 64"
  "(created_tcb img f prio sz stk nm)\<lparr>state := TASK_STATE_READY\<rparr> = created_tcb img f prio sz stk nm"
  by (simp_all add: created_tcb_def)

definition name_bytes :: "kernel \<Rightarrow> addr \<Rightarrow> u8 list" where
  "name_bytes s nm = (if nm \<noteq> NULL then read_bytes (ram s) nm 15 @ [0] else replicate 16 0)"

definition stack_image :: "image \<Rightarrow> addr \<Rightarrow> u32 \<Rightarrow> addr \<Rightarrow> (addr \<Rightarrow> u32) \<Rightarrow> addr \<Rightarrow> u32" where
  "stack_image img stk sz f M = snd (build_initial_stack img ((stk + sz) AND NOT 7) f (M(stk := RTOS_STACK_CANARY)))"

text \<open>After the two allocations the rest of \<open>task_create\<close> is straight line code.\<close>

lemma task_create_steps:
  assumes f: "f \<noteq> NULL" and sz: "\<not> stack_sz < RTOS_MIN_STACK_SIZE" and cnt: "\<not> task_registry_count s \<ge> RTOS_MAX_TASKS"
    and a1: "heap_alloc (sizeof_TCB img) s = Some (p, s1)" and a2: "heap_alloc ((stack_sz + 7) AND NOT 7) s1 = Some (q, s2)"
    and nn: "p \<noteq> NULL" "q \<noteq> NULL"
  defines "s3 \<equiv> s2\<lparr>stack_mem := stack_image img q ((stack_sz + 7) AND NOT 7) f (stack_mem s2)\<rparr>"
  assumes add: "scheduler_add_task p (s3\<lparr>tcbs := (tcbs s3)(p \<mapsto>
      created_tcb img f prio ((stack_sz + 7) AND NOT 7) q (name_bytes s2 nm))\<rparr>) = Some (RTOS_OK, s4)"
  shows "task_create img f prio stack_sz nm s = map_option (\<lambda>s. (p, s)) (registry_add p s4)"
proof -
  let ?sz = "(stack_sz + 7) AND NOT 7"
  let ?t = "zero_tcb\<lparr>stack_base := q, stack_size := ?sz, priority := prio, prio_bucket := prio_bucket_of prio,
    name := name_bytes s2 nm\<rparr>"
  have nm: "read_bytes (ram s2) nm (RTOS_TASK_NAME_MAX - Suc 0) @ [0] = name_bytes s2 nm" if "nm \<noteq> NULL"
    using that by (simp add: name_bytes_def RTOS_TASK_NAME_MAX_def)
  have nm0: "0 # tl (name zero_tcb) = name_bytes s2 nm" if "nm = NULL"
    using that by (simp add: name_bytes_def zero_tcb_def RTOS_TASK_NAME_MAX_def numeral_eq_Suc)
  have build: "task_build_common img p f (s2\<lparr>tcbs := (tcbs s2)(p \<mapsto> ?t)\<rparr>) = Some (RTOS_OK, s3\<lparr>tcbs := (tcbs s2)(p \<mapsto>
      created_tcb img f prio ?sz q (name_bytes s2 nm))\<rparr>)"
    using nn(1) f
    by (simp add: task_build_common_def Let_def case_prod_unfold s3_def stack_image_def build_initial_stack_def
        created_tcb_def zero_tcb_def)
  have "tcbs s3 = tcbs s2" by (simp add: s3_def)
  then show ?thesis
    using assms(1-7) add build
    by (cases "nm = NULL") (simp_all add: task_create_def Let_def nm nm0 bind_to_map)
qed

text \<open>The frame and the canary that the new stack holds, and that both lie inside its block.\<close>

lemma stack_image_frame:
  assumes q: "8 dvd unat q" and sz: "8 dvd unat sz" "256 \<le> unat sz" and fit: "unat q + unat sz < 2 ^ 32"
  defines "sp \<equiv> ((q + sz) AND NOT 7) - 64"
  shows "read_words (stack_image img q sz f M) sp 16 = initial_frame img f"
    and "stack_image img q sz f M q = RTOS_STACK_CANARY"
    and "unat sp = unat q + unat sz - 64"
proof -
  have e: "unat (q + sz) = unat q + unat sz" using fit by (simp add: unat_word_ariths)
  have al: "(q + sz) AND NOT 7 = q + sz" by (rule aligned8_id) (simp add: e q sz dvd_add)
  show sp: "unat sp = unat q + unat sz - 64" using sz unfolding sp_def al unat_sub_if_size e by simp
  obtain sp' M' where b: "build_initial_stack img ((q + sz) AND NOT 7) f (M(q := RTOS_STACK_CANARY)) = (sp', M')"
    by fastforce
  have s: "stack_image img q sz f M = M'" "sp' = sp" using b build_initial_stack_frame(1) [OF b] by (simp_all add: stack_image_def sp_def)
  show "read_words (stack_image img q sz f M) sp 16 = initial_frame img f"
    using build_initial_stack_frame(2) [OF b] s by simp
  have "q \<noteq> sp' + 4 * of_nat i" if "i < 16" for i
  proof
    assume eq: "q = sp' + 4 * of_nat i"
    have "unat (4 * of_nat i :: u32) = 4 * i"
      using unat_of_nat_u32 [of "4 * i"] that by simp
    moreover have "unat sp + 4 * i < 2 ^ 32" using sp fit sz that by linarith
    ultimately have "unat (sp + 4 * of_nat i) = unat sp + 4 * i" by (simp add: unat_word_ariths)
    then show False using eq s sp sz by simp
  qed
  then show "stack_image img q sz f M q = RTOS_STACK_CANARY" using build_initial_stack_frame(3) [OF b] s by simp
qed

text \<open>A task joins: its blocks were allocated for it, its address is new.\<close>

lemma task_inv_join:
  assumes inv: "task_inv img s Q R xs ys" and sinv: "sched_inv s' Q'"
    and heap: "heap_inv (heap_pool img) s' xs' ((q - 8, m) # (p - 8, n) # ys)"
    and reg: "registry s' (R @ [p])" and links: "same_but_links ((tcbs s)(p \<mapsto> u)) (tcbs s')"
    and u: "state u \<noteq> TASK_STATE_TERMINATED" "stack_base u = q" and idle: "idle_tcb s' = idle_tcb s"
  shows "task_inv img s' Q' (R @ [p]) xs' ((q - 8, m) # (p - 8, n) # ys)"
proof -
  have "tiles (heap_pool img) (xs' @ (q - 8, m) # (p - 8, n) # ys)" using heap by (simp add: heap_inv_def)
  from tiles_distinct_fst [OF this] have new: "p - 8 \<notin> fst ` set ys" "q - 8 \<notin> fst ` set ys" "q - 8 \<noteq> p - 8" by auto
  have pR: "p \<notin> set R" using fresh_address [OF inv new(1)] by simp
  have old: "map_option erase_links (tcbs s' a) = map_option erase_links (tcbs s a)" if "a \<noteq> p" for a
    using links [unfolded same_but_links_def, rule_format, of a] that by simp
  have "((tcbs s)(p \<mapsto> u)) p = Some u" by simp
  then obtain r w where tp: "tcbs s' p = Some (u\<lparr>next_ready := r, mutex_wait_next := w\<rparr>)"
    by (rule same_but_links_Some [OF links])
  have "map_option stack_base (tcbs s' a) = map_option stack_base (tcbs s a)" if "a \<in> set R" for a
  proof -
    have "a \<noteq> p" using that pR by blast
    then have "map_option (stack_base \<circ> erase_links) (tcbs s' a) = map_option (stack_base \<circ> erase_links) (tcbs s a)"
      using old by (metis option.map_comp)
    then show ?thesis by (simp add: comp_def erase_links_def)
  qed
  then have blocks: "map (task_blocks s') R = map (task_blocks s) R" by (rule task_blocks_cong [OF idle])
  have "p \<noteq> idle_tcb s" using pR task_invD(7) [OF inv] by auto
  then have tb: "task_blocks s' p = [p - 8, q - 8]" using tp u idle by (simp add: task_blocks_def)
  have live: "(\<exists>t. tcbs s' a = Some t \<and> state t \<noteq> TASK_STATE_TERMINATED) \<longleftrightarrow> a \<in> set (R @ [p])" for a
  proof (cases "a = p")
    case False
    have "map_option (state \<circ> erase_links) (tcbs s' a) = map_option (state \<circ> erase_links) (tcbs s a)"
      using old [OF False] by (metis option.map_comp)
    then have "map_option state (tcbs s' a) = map_option state (tcbs s a)" by (simp add: comp_def erase_links_def)
    then show ?thesis using task_invD(6) [OF inv, of a] False by (cases "tcbs s a"; cases "tcbs s' a") auto
  qed (use tp u in auto)
  have sub: "set (concat (map (task_blocks s) R)) \<subseteq> fst ` set ys" using task_invD(5) [OF inv] .
  have "distinct (concat (map (task_blocks s') (R @ [p])))"
    using task_invD(4) [OF inv] sub new by (auto simp: blocks tb)
  moreover have "set (concat (map (task_blocks s') (R @ [p]))) \<subseteq> fst ` set ((q - 8, m) # (p - 8, n) # ys)"
    using sub by (simp add: blocks tb) blast
  ultimately show ?thesis using sinv heap reg live idle task_invD(7) [OF inv] by (simp add: task_inv_def)
qed

text \<open>The two blocks of a new task.\<close>

lemma create_blocks:
  assumes inv: "task_inv img s Q R xs ys" and hi: "unat stack_sz + 30 < 2 ^ 32" and tsz: "unat (sizeof_TCB img) + 15 < 2 ^ 32"
    and a1: "heap_alloc (sizeof_TCB img) s = Some (p, s1)" "p \<noteq> NULL"
    and a2: "heap_alloc ((stack_sz + 7) AND NOT 7) s1 = Some (q, s2)" "q \<noteq> NULL"
  obtains n m xs2 where "heap_frame s s2" and "heap_inv (heap_pool img) s2 xs2 ((q - 8, m) # (p - 8, n) # ys)"
    and "unat ((stack_sz + 7) AND NOT 7) + 8 \<le> unat m" and "p \<notin> set R" and "p \<notin> queued Q"
proof -
  let ?sz = "(stack_sz + 7) AND NOT 7"
  have sz: "unat ?sz + 15 < 2 ^ 32" using hi by (subst unat_align8) simp_all
  obtain n xs1 where h1: "heap_inv (heap_pool img) s1 xs1 ((p - 8, n) # ys)"
    using heap_alloc_result [OF task_invD(2) [OF inv] tsz a1(1)] a1(2) by metis
  obtain m xs2 where h2: "heap_inv (heap_pool img) s2 xs2 ((q - 8, m) # (p - 8, n) # ys)" and m: "unat ?sz + 8 \<le> unat m"
    using heap_alloc_result [OF h1 sz a2(1)] a2(2) by metis
  have fr: "heap_frame s s2" using heap_alloc_frame [OF a1(1)] heap_alloc_frame [OF a2(1)] by (rule heap_frame_trans)
  have "tiles (heap_pool img) (xs2 @ (q - 8, m) # (p - 8, n) # ys)" using h2 by (simp add: heap_inv_def)
  from tiles_distinct_fst [OF this] have "p - 8 \<notin> fst ` set ys" by auto
  from fresh_address [OF inv this] show thesis using that fr h2 m by blast
qed

lemma task_create_refines:
  assumes inv: "task_inv img s Q R xs ys" and win: "waits_inv s W"
    and f: "f \<noteq> NULL" and lo: "256 \<le> unat stack_sz" and hi: "unat stack_sz + 30 < 2 ^ 32" and cnt: "length R < 32"
    and tsz: "unat (sizeof_TCB img) + 15 < 2 ^ 32"
    and a1: "heap_alloc (sizeof_TCB img) s = Some (p, s1)" "p \<noteq> NULL"
    and a2: "heap_alloc ((stack_sz + 7) AND NOT 7) s1 = Some (q, s2)" "q \<noteq> NULL"
  obtains s' xs' n m where "task_create img f prio stack_sz nm s = Some (p, s')"
    and "task_inv img s' (Q(unat (prio_bucket_of prio) := Q (unat (prio_bucket_of prio)) @ [p])) (R @ [p]) xs'
        ((q - 8, m) # (p - 8, n) # ys)"
    and "waits_inv s' W"
    and "same_but_ready ((tcbs s)(p \<mapsto> created_tcb img f prio ((stack_sz + 7) AND NOT 7) q (name_bytes s2 nm))) (tcbs s')"
    and "stack_mem s' = stack_image img q ((stack_sz + 7) AND NOT 7) f (stack_mem s2)"
    and "unat ((stack_sz + 7) AND NOT 7) + 8 \<le> unat m" and "idle_tcb s' = idle_tcb s" and "current_tcb s' = current_tcb s"
    and "heap_blocks s' = heap_blocks s2" and "free_list s' = free_list s2"
proof -
  let ?sz = "(stack_sz + 7) AND NOT 7"
  obtain n m xs2 where fr2: "heap_frame s s2" and h2: "heap_inv (heap_pool img) s2 xs2 ((q - 8, m) # (p - 8, n) # ys)"
    and m: "unat ?sz + 8 \<le> unat m" and new: "p \<notin> set R" "p \<notin> queued Q"
    by (rule create_blocks [OF inv hi tsz a1 a2])
  note fs = heap_frame_sel [OF fr2]
  let ?u = "created_tcb img f prio ?sz q (name_bytes s2 nm)"
  let ?s3 = "s2\<lparr>stack_mem := stack_image img q ?sz f (stack_mem s2)\<rparr>"
  have inv3: "sched_inv ?s3 Q" using task_invD(1) [OF inv] fs by (simp add: sched_inv_def ready_rel_def)
  obtain s4 where add: "scheduler_add_task p (?s3\<lparr>tcbs := (tcbs ?s3)(p \<mapsto> ?u)\<rparr>) = Some (RTOS_OK, s4)"
    and inv4: "sched_inv s4 (Q(unat (prio_bucket_of prio) := Q (unat (prio_bucket_of prio)) @ [p]))"
    and fr: "ready_frame (?s3\<lparr>tcbs := (tcbs ?s3)(p \<mapsto> ?u)\<rparr>) s4"
    using new_task [OF inv3 a1(2) new(2), of ?u] by auto
  note rs = ready_frame_sel [OF fr]
  have reg4: "registry s4 R" using task_invD(3) [OF inv] rs fs by (simp add: registry_def)
  have "length R < 33" using cnt by simp
  then obtain L k where radd: "registry_add p s4 = Some (s4\<lparr>task_registry := L, task_registry_count := k\<rparr>)"
    and reg: "registry (s4\<lparr>task_registry := L, task_registry_count := k\<rparr>) (R @ [p])"
    by (rule registry_add_refines [OF reg4 _ a1(2)])
  let ?s' = "s4\<lparr>task_registry := L, task_registry_count := k\<rparr>"
  have cre: "task_create img f prio stack_sz nm s = Some (p, ?s')"
  proof -
    have "\<not> stack_sz < RTOS_MIN_STACK_SIZE" using lo by (simp add: word_less_nat_alt RTOS_MIN_STACK_SIZE_def)
    moreover have "\<not> task_registry_count s \<ge> RTOS_MAX_TASKS"
      using cnt registry_length [OF task_invD(3) [OF inv]] by (simp add: word_le_nat_alt RTOS_MAX_TASKS_def)
    ultimately show ?thesis using task_create_steps [OF f _ _ a1(1) a2(1) a1(2) a2(2) add] radd by simp
  qed
  have sr: "same_but_ready ((tcbs s)(p \<mapsto> ?u)) (tcbs ?s')" using fr fs by (auto simp: ready_frame_def)
  note sl = same_but_links_ready [OF sr]
  have heap': "heap_inv (heap_pool img) ?s' xs2 ((q - 8, m) # (p - 8, n) # ys)"
    using h2 by (rule heap_inv_cong) (simp_all add: rs)
  have sinv': "sched_inv ?s' (Q(unat (prio_bucket_of prio) := Q (unat (prio_bucket_of prio)) @ [p]))"
    using inv4 by (simp add: sched_inv_def ready_rel_def)
  have tinv: "task_inv img ?s' (Q(unat (prio_bucket_of prio) := Q (unat (prio_bucket_of prio)) @ [p])) (R @ [p]) xs2
      ((q - 8, m) # (p - 8, n) # ys)"
    by (rule task_inv_join [OF inv sinv' heap' reg sl]) (simp_all add: rs fs)
  have win': "waits_inv ?s' W"
  proof (rule waits_inv_new [OF win sr])
    show "blocked_on t = None" if "tcbs s p = Some t" for t using task_invD(6) [OF inv, of p] new(1) that by auto
    have "wptr ?s' w = wptr s4 w" for w by (rule wptr_cong) simp_all
    moreover have "wptr s4 w = wptr s2 w" for w by (rule wptr_cong) (simp_all add: rs)
    ultimately show "wptr ?s' w = wptr s w" for w using fs(10) by simp
  qed simp
  have "stack_mem ?s' = stack_image img q ?sz f (stack_mem s2)" "idle_tcb ?s' = idle_tcb s"
    "current_tcb ?s' = current_tcb s" "heap_blocks ?s' = heap_blocks s2" "free_list ?s' = free_list s2" using rs fs by simp_all
  then show thesis using that [OF cre tinv win' sr] m by blast
qed

lemma task_create_outcome:
  assumes inv: "task_inv img s Q R xs ys" and win: "waits_inv s W"
    and f: "f \<noteq> NULL" and lo: "256 \<le> unat stack_sz" and hi: "unat stack_sz + 30 < 2 ^ 32" and cnt: "length R < 32"
    and tsz: "unat (sizeof_TCB img) + 15 < 2 ^ 32"
    and a1: "heap_alloc (sizeof_TCB img) s = Some (p, s1)" "p \<noteq> NULL"
    and a2: "heap_alloc ((stack_sz + 7) AND NOT 7) s1 = Some (q, s2)" "q \<noteq> NULL"
  obtains s' xs' n m t where "task_create img f prio stack_sz nm s = Some (p, s')"
    and "task_inv img s' (Q(unat (prio_bucket_of prio) := Q (unat (prio_bucket_of prio)) @ [p])) (R @ [p]) xs'
        ((q - 8, m) # (p - 8, n) # ys)"
    and "waits_inv s' W" and "idle_tcb s' = idle_tcb s" and "current_tcb s' = current_tcb s"
    and "tcbs s' p = Some t" and "state t = TASK_STATE_READY" and "priority t = prio" and "stack_base t = q"
    and "stack_mem s' q = RTOS_STACK_CANARY" and "read_words (stack_mem s') (stack_ptr t) 16 = initial_frame img f"
    and "unat q < unat (stack_ptr t)" and "unat (stack_ptr t) + 64 \<le> unat (q - 8) + unat m"
    and "\<forall>a. a \<noteq> p \<longrightarrow> map_option erase_links (tcbs s' a) = map_option erase_links (tcbs s a)"
proof -
  let ?sz = "(stack_sz + 7) AND NOT 7"
  have "unat ?sz = (unat stack_sz + 7) div 8 * 8" using hi by (intro unat_align8) simp
  then have sz: "256 \<le> unat ?sz" "8 dvd unat ?sz" using lo by simp_all
  let ?u = "created_tcb img f prio ?sz q (name_bytes s2 nm)"
  obtain s' xs' n m where cre: "task_create img f prio stack_sz nm s = Some (p, s')"
      "task_inv img s' (Q(unat (prio_bucket_of prio) := Q (unat (prio_bucket_of prio)) @ [p])) (R @ [p]) xs'
        ((q - 8, m) # (p - 8, n) # ys)" "waits_inv s' W"
    and sr: "same_but_ready ((tcbs s)(p \<mapsto> ?u)) (tcbs s')"
    and M: "stack_mem s' = stack_image img q ?sz f (stack_mem s2)" and m: "unat ?sz + 8 \<le> unat m"
    and more: "idle_tcb s' = idle_tcb s" "current_tcb s' = current_tcb s"
    by (rule task_create_refines [OF assms])
  have q: "8 dvd unat q" "unat q = unat (q - 8) + 8" "unat q + unat ?sz < 2 ^ 32"
    using heap_block_of [OF task_invD(2) [OF cre(2)], of "q - 8" m] m by auto
  have "((tcbs s)(p \<mapsto> ?u)) p = Some ?u" by simp
  then obtain x where tp: "tcbs s' p = Some (?u\<lparr>next_ready := x\<rparr>)" by (rule same_but_ready_Some [OF sr])
  note frame = stack_image_frame [OF q(1) sz(2,1) q(3)]
  have "map_option erase_links (tcbs s' a) = map_option erase_links (tcbs s a)" if "a \<noteq> p" for a
    using same_but_links_ready [OF sr, unfolded same_but_links_def, rule_format, of a] that by simp
  then have "\<forall>a. a \<noteq> p \<longrightarrow> map_option erase_links (tcbs s' a) = map_option erase_links (tcbs s a)" by blast
  moreover have "stack_ptr (?u\<lparr>next_ready := x\<rparr>) = ((q + ?sz) AND NOT 7) - 64" by simp
  moreover have "unat (((q + ?sz) AND NOT 7) - 64) = unat q + unat ?sz - 64" using frame(3) .
  ultimately show thesis
    using cre more M tp frame(1,2) q(2) m sz(1) by (intro that [OF cre more tp]) simp_all
qed

text \<open>
  C12. Creation. If both allocations succeed, \<open>task_create\<close> returns the new control block: ready at
  the end of the ring of its priority and last in the registry, owning its two heap blocks.
  Its stack holds the canary at its base and, at the saved stack pointer inside the block,
  the frame from which the first context switch starts the task function with the Thumb bit
  set and the exit trap as return address. No other task changes and the invariants hold.
\<close>

theorem task_create_correct:
  assumes inv: "task_inv img s Q R xs ys" and win: "waits_inv s W"
    and f: "f \<noteq> NULL" and lo: "256 \<le> unat stack_sz" and hi: "unat stack_sz + 30 < 2 ^ 32" and cnt: "length R < 32"
    and tsz: "unat (sizeof_TCB img) + 15 < 2 ^ 32"
    and a1: "heap_alloc (sizeof_TCB img) s = Some (p, s1)" "p \<noteq> NULL"
    and a2: "heap_alloc ((stack_sz + 7) AND NOT 7) s1 = Some (q, s2)" "q \<noteq> NULL"
  shows "\<exists>s' xs' n m t. task_create img f prio stack_sz nm s = Some (p, s')
    \<and> task_inv img s' (Q(unat (prio_bucket_of prio) := Q (unat (prio_bucket_of prio)) @ [p])) (R @ [p]) xs'
        ((q - 8, m) # (p - 8, n) # ys)
    \<and> waits_inv s' W \<and> tcbs s' p = Some t \<and> state t = TASK_STATE_READY \<and> priority t = prio \<and> stack_base t = q
    \<and> stack_mem s' q = RTOS_STACK_CANARY \<and> read_words (stack_mem s') (stack_ptr t) 16 = initial_frame img f
    \<and> unat q < unat (stack_ptr t) \<and> unat (stack_ptr t) + 64 \<le> unat (q - 8) + unat m
    \<and> (\<forall>a. a \<noteq> p \<longrightarrow> map_option erase_links (tcbs s' a) = map_option erase_links (tcbs s a))"
  by (rule task_create_outcome [OF assms]) blast

section \<open>Refusal\<close>

lemma task_inv_heap:
  assumes inv: "task_inv img s Q R xs ys" and fr: "heap_frame s s'" and heap: "heap_inv (heap_pool img) s' xs' ys"
  shows "task_inv img s' Q R xs' ys"
proof -
  note fs = heap_frame_sel [OF fr]
  have tb: "task_blocks s' = task_blocks s" by (rule ext) (simp add: task_blocks_def fs)
  have "sched_inv s' Q" using task_invD(1) [OF inv] fs by (simp add: sched_inv_def ready_rel_def)
  moreover have "registry s' R" using task_invD(3) [OF inv] fs by (simp add: registry_def)
  ultimately show ?thesis using task_invD(4-7) [OF inv] heap by (simp add: task_inv_def tb fs)
qed

lemma free_bytes_same:
  "heap_inv pool s xs ys \<Longrightarrow> heap_inv pool s' xs' ys \<Longrightarrow> free_bytes xs' = free_bytes xs"
  by (simp add: heap_inv_def tiles_def free_bytes_def)

lemma heap_free_allocated:
  assumes "heap_inv pool s xs ((p - 8, n) # ys)"
  obtains s' xs' where "heap_free p s = Some s'" and "heap_inv pool s' xs' ys" and "heap_frame s s'"
proof -
  have "heap_inv pool s xs ([] @ (p - 8, n) # ys)" using assms by simp
  then obtain s' where "heap_free (p - 8 + 8) s = Some s'" "heap_inv pool s' (coalesce ((p - 8, n) # xs)) ([] @ ys)"
    by (rule heap_free_block)
  then show thesis using that heap_free_frame by auto
qed

lemma heap_free_NULL [simp]: "heap_free NULL s = Some s"
  by (simp add: heap_free_def)

text \<open>When one of the two allocations of \<open>task_create\<close> fails, both pointers are freed; the heap is as before.\<close>

lemma create_gives_back:
  assumes h0: "heap_inv P s xs ys" and k: "unat k + 15 < 2 ^ 32" and l: "unat l + 15 < 2 ^ 32"
    and a1: "heap_alloc k s = Some (p, s1)" and a2: "heap_alloc l s1 = Some (q, s2)" and null: "p = NULL \<or> q = NULL"
  shows "\<exists>s' xs'. do { s \<leftarrow> heap_free p s2; heap_free q s } = Some s' \<and> heap_frame s s' \<and> heap_inv P s' xs' ys"
proof (cases rule: heap_alloc_result [OF h0 k a1, case_names fail ok])
  case fail
  have a2': "heap_alloc l s = Some (q, s2)" using a2 fail by simp
  show ?thesis
  proof (cases rule: heap_alloc_result [OF h0 l a2', case_names fail ok])
    case fail
    then show ?thesis using h0 \<open>p = NULL\<close> by auto
  next
    case (ok m xs2)
    then obtain s' xs' where "heap_free q s2 = Some s'" "heap_inv P s' xs' ys" "heap_frame s2 s'"
      using heap_free_allocated by blast
    then show ?thesis using \<open>p = NULL\<close> heap_frame_trans heap_alloc_frame [OF a2'] by auto
  qed
next
  case (ok n xs1)
  then have "q = NULL" using null by simp
  then have "s2 = s1" using heap_alloc_result [OF ok(2) l a2] by blast
  obtain s' xs' where "heap_free p s1 = Some s'" "heap_inv P s' xs' ys" "heap_frame s1 s'"
    using heap_free_allocated [OF ok(2)] by blast
  then show ?thesis using \<open>q = NULL\<close> \<open>s2 = s1\<close> heap_frame_trans heap_alloc_frame [OF a1] by auto
qed

lemma task_create_fails:
  assumes inv: "task_inv img s Q R xs ys"
    and tsz: "unat (sizeof_TCB img) + 15 < 2 ^ 32" and hi: "unat stack_sz + 30 < 2 ^ 32"
    and fail: "f = NULL \<or> unat stack_sz < 256 \<or> 31 \<le> length (remove1 (idle_tcb s) R)
      \<or> (\<exists>s1. heap_alloc (sizeof_TCB img) s = Some (NULL, s1))
      \<or> (\<exists>p s1 s2. heap_alloc (sizeof_TCB img) s = Some (p, s1)
            \<and> heap_alloc ((stack_sz + 7) AND NOT 7) s1 = Some (NULL, s2))"
  shows "\<exists>s' xs'. task_create img f prio stack_sz nm s = Some (NULL, s') \<and> heap_frame s s'
    \<and> heap_inv (heap_pool img) s' xs' ys
    \<and> (f = NULL \<or> unat stack_sz < 256 \<or> 31 \<le> length (remove1 (idle_tcb s) R) \<longrightarrow> s' = s)"
proof -
  let ?sz = "(stack_sz + 7) AND NOT 7"
  let ?early = "f = NULL \<or> unat stack_sz < 256 \<or> 31 \<le> length (remove1 (idle_tcb s) R)"
  have cnt: "RTOS_MAX_TASKS \<le> task_registry_count s \<longleftrightarrow> 31 \<le> length (remove1 (idle_tcb s) R)"
    using registry_length [OF task_invD(3) [OF inv]] task_invD(7) [OF inv]
    by (auto simp: length_remove1 word_le_nat_alt RTOS_MAX_TASKS_def)
  have small: "stack_sz < RTOS_MIN_STACK_SIZE \<longleftrightarrow> unat stack_sz < 256"
    by (simp add: word_less_nat_alt RTOS_MIN_STACK_SIZE_def)
  show ?thesis
  proof (cases ?early)
    case True
    then have "task_create img f prio stack_sz nm s = Some (NULL, s)" using cnt small by (auto simp: task_create_def)
    then show ?thesis using task_invD(2) [OF inv] heap_frame_refl by blast
  next
    case False
    note h0 = task_invD(2) [OF inv]
    have usz: "unat ?sz + 15 < 2 ^ 32" using hi by (subst unat_align8) simp_all
    obtain p s1 where a1: "heap_alloc (sizeof_TCB img) s = Some (p, s1)" using fail False by blast
    obtain q s2 where a2: "heap_alloc ?sz s1 = Some (q, s2)"
      using heap_alloc_result [OF h0 tsz a1] heap_alloc_returns [OF _ usz] h0 by metis
    have null: "p = NULL \<or> q = NULL" using fail False a1 a2 by auto
    have cre: "task_create img f prio stack_sz nm s =
        map_option (\<lambda>s. (NULL, s)) (do { s \<leftarrow> heap_free p s2; heap_free q s })"
      using False cnt small a1 a2 null by (simp add: task_create_def Let_def bind_to_map map_option_bind comp_def)
    obtain s' xs' where s': "do { s \<leftarrow> heap_free p s2; heap_free q s } = Some s'" "heap_frame s s'"
      "heap_inv (heap_pool img) s' xs' ys"
      using create_gives_back [OF h0 tsz usz a1 a2 null] by blast
    then show ?thesis using cre False by auto
  qed
qed

text \<open>
  C23. Refusal. \<open>task_create\<close> returns \<open>NULL\<close> and changes nothing if it gets no function, a stack
  below the minimum, or if 31 tasks besides the idle task are registered. If one of the two
  allocations fails, whatever the other one obtained is released: tasks, allocated blocks and
  the number of free bytes are as before.
\<close>

theorem task_create_refuses:
  assumes inv: "task_inv img s Q R xs ys"
    and tsz: "unat (sizeof_TCB img) + 15 < 2 ^ 32" and hi: "unat stack_sz + 30 < 2 ^ 32"
    and fail: "f = NULL \<or> unat stack_sz < 256 \<or> 31 \<le> length (remove1 (idle_tcb s) R)
      \<or> (\<exists>s1. heap_alloc (sizeof_TCB img) s = Some (NULL, s1))
      \<or> (\<exists>p s1 s2. heap_alloc (sizeof_TCB img) s = Some (p, s1)
            \<and> heap_alloc ((stack_sz + 7) AND NOT 7) s1 = Some (NULL, s2))"
  shows "\<exists>s' xs'. task_create img f prio stack_sz nm s = Some (NULL, s') \<and> task_inv img s' Q R xs' ys
    \<and> free_bytes xs' = free_bytes xs \<and> tcbs s' = tcbs s
    \<and> (f = NULL \<or> unat stack_sz < 256 \<or> 31 \<le> length (remove1 (idle_tcb s) R) \<longrightarrow> s' = s)"
proof -
  obtain s' xs' where s': "task_create img f prio stack_sz nm s = Some (NULL, s')" "heap_frame s s'"
      "heap_inv (heap_pool img) s' xs' ys"
    and early: "f = NULL \<or> unat stack_sz < 256 \<or> 31 \<le> length (remove1 (idle_tcb s) R) \<longrightarrow> s' = s"
    using task_create_fails [OF assms] by blast
  show ?thesis
    using s'(1) early task_inv_heap [OF inv s'(2,3)] free_bytes_same [OF task_invD(2) [OF inv] s'(3)]
      heap_frame_sel(1) [OF s'(2)] by blast
qed

section \<open>Deletion\<close>

definition cleared :: "TCB_t \<Rightarrow> TCB_t" where
  "cleared t = t\<lparr>block_reason := BLOCK_NONE, block_object := NULL, blocked_on_mutex := NULL\<rparr>"

lemma cleared_sel [simp]:
  "next_ready (cleared t) = next_ready t" "priority (cleared t) = priority t" "prio_bucket (cleared t) = prio_bucket t"
  "state (cleared t) = state t" "stack_base (cleared t) = stack_base t" "blocked_on (cleared t) = None"
  "mutex_wait_next (cleared t) = mutex_wait_next t"
  by (simp_all add: cleared_def blocked_on_def wait_obj_of_def)

lemma cleared_links:
  "erase_links (cleared (mutex_detached t)) = erase_links (cleared t)"
  "erase_links (cleared (sem_detached t)) = erase_links (cleared t)"
  "erase_links (cleared (queue_detached t)) = erase_links (cleared t)"
  by (simp_all add: cleared_def mutex_detached_def sem_detached_def queue_detached_def erase_links_def)

lemma detach_blocked_eq:
  assumes "tcbs s a = Some t" and "a \<noteq> NULL"
  shows "detach_blocked_task a s = do {
      s \<leftarrow> (case block_reason t of BLOCK_MUTEX \<Rightarrow> mutex_detach_waiter (block_object t) a s
        | BLOCK_SEMAPHORE \<Rightarrow> semaphore_detach_waiter (block_object t) a s
        | BLOCK_MSG_SEND \<Rightarrow> msgqueue_detach_waiter (block_object t) a s
        | BLOCK_MSG_RECV \<Rightarrow> msgqueue_detach_waiter (block_object t) a s
        | _ \<Rightarrow> Some s);
      upd_tcb a cleared s }"
proof -
  have "(\<lambda>t. t\<lparr>blocked_on_mutex := NULL, block_reason := BLOCK_NONE, block_object := NULL\<rparr>) = cleared"
    by (rule ext) (simp add: cleared_def)
  then show ?thesis using assms by (simp add: detach_blocked_task_def split: block_reason_t.split)
qed

lemma detach_unlisted:
  assumes inv: "sched_inv s Q" and win: "waits_inv s W" and t: "tcbs s a = Some t"
    and blk: "state t = TASK_STATE_BLOCKED" and none: "wait_obj_of t = None"
  shows "sched_inv (s\<lparr>tcbs := (tcbs s)(a \<mapsto> cleared t)\<rparr>) Q"
    and "waits_inv (s\<lparr>tcbs := (tcbs s)(a \<mapsto> cleared t)\<rparr>) (\<lambda>w. removeAll a (W w))"
proof -
  let ?s' = "s\<lparr>tcbs := (tcbs s)(a \<mapsto> cleared t)\<rparr>"
  have "placed Q a (cleared t)"
    using sched_inv_placed [OF inv t] by (rule placed_states) (simp_all add: runnable_def blk)
  then show "sched_inv ?s' Q" using sched_inv_tcb_upd [OF inv t] by simp
  have l: "same_but_links ((tcbs s)(a \<mapsto> cleared t)) (tcbs ?s')" by simp
  show "waits_inv ?s' (\<lambda>w. removeAll a (W w))"
  proof (rule waits_inv_drop [OF win l])
    show "waiters_of ?s' w (remove1 a (W w))" if w: "wptr s w \<noteq> None" for w
    proof -
      have "blocked_on t = None" using none by (simp add: blocked_on_def)
      then have "a \<notin> set (W w)" using waits_inv_blocked [OF win w, of a] t by auto
      then have "remove1 a (W w) = W w" by (rule remove1_idem)
      then show ?thesis using waiters_of_cong [OF waits_inv_list [OF win w], of ?s'] t by simp
    qed
  qed simp_all
qed

lemma detach_blocked_refines:
  assumes inv: "sched_inv s Q" and win: "waits_inv s W" and t: "tcbs s a = Some t" and blk: "state t = TASK_STATE_BLOCKED"
  obtains s' where "detach_blocked_task a s = Some s'" and "sched_inv s' Q" and "waits_inv s' (\<lambda>w. removeAll a (W w))"
    and "same_but_links ((tcbs s)(a \<mapsto> cleared t)) (tcbs s')" and "calm s' = calm s"
proof -
  have nn: "a \<noteq> NULL" using inv t by (rule sched_inv_nonnull)
  note eq = detach_blocked_eq [OF t nn] and inst = inv win t and g = cleared_sel(6,1,2,3,4)
  have links: "same_but_links ((tcbs s)(a \<mapsto> v)) T \<Longrightarrow> erase_links v = erase_links (cleared t) \<Longrightarrow>
      same_but_links ((tcbs s)(a \<mapsto> cleared t)) T" for v T
    by (erule same_but_links_trans [rotated]) (rule same_but_links_upd, simp_all)
  have on: "blocked_on t = wait_obj_of t" by (simp add: blocked_on_def blk)
  show thesis
  proof (cases "block_reason t")
    case BLOCK_MUTEX
    then have w: "blocked_on t = Some (MutexQ (block_object t))" by (simp add: on wait_obj_of_def)
    show thesis using mutex_q.detach_clears [OF inst w refl g] that links cleared_links eq [unfolded BLOCK_MUTEX]
      unfolding block_reason_t.case by metis
  next
    case BLOCK_SEMAPHORE
    then have w: "blocked_on t = Some (SemQ (block_object t))" by (simp add: on wait_obj_of_def)
    show thesis using sem_q.detach_clears [OF inst w refl g] that links cleared_links eq [unfolded BLOCK_SEMAPHORE]
      unfolding block_reason_t.case by metis
  next
    case BLOCK_MSG_SEND
    then have w: "blocked_on t = Some (SendQ (block_object t))" by (simp add: on wait_obj_of_def)
    show thesis using send_q.detach_clears [OF inst w conjI [OF refl BLOCK_MSG_SEND] g] that links cleared_links eq [unfolded BLOCK_MSG_SEND]
      unfolding block_reason_t.case by metis
  next
    case BLOCK_MSG_RECV
    then have w: "blocked_on t = Some (RecvQ (block_object t))" by (simp add: on wait_obj_of_def)
    show thesis using recv_q.detach_clears [OF inst w conjI [OF refl BLOCK_MSG_RECV] g] that links cleared_links eq [unfolded BLOCK_MSG_RECV]
      unfolding block_reason_t.case by metis
  qed (use that eq t nn detach_unlisted [OF inst blk] in \<open>simp_all add: wait_obj_of_def\<close>)
qed

text \<open>Both blocks of the task are allocated and differ from the blocks of all other tasks.\<close>

lemma task_blocks_split:
  assumes inv: "task_inv img s Q (us @ a # vs) xs ys" and t: "tcbs s a = Some t" and idle: "a \<noteq> idle_tcb s"
  shows "a - 8 \<in> fst ` set ys" and "stack_base t - 8 \<in> fst ` set ys" and "a - 8 \<noteq> stack_base t - 8"
    and "distinct (concat (map (task_blocks s) (us @ vs)))"
    and "set (concat (map (task_blocks s) (us @ vs))) \<subseteq> fst ` set ys - {a - 8, stack_base t - 8}"
proof -
  let ?A = "concat (map (task_blocks s) us)" and ?B = "concat (map (task_blocks s) vs)"
  have tb: "task_blocks s a = [a - 8, stack_base t - 8]" using t idle by (simp add: task_blocks_def)
  have eq: "concat (map (task_blocks s) (us @ a # vs)) = ?A @ [a - 8, stack_base t - 8] @ ?B" by (simp add: tb)
  have d: "distinct (?A @ [a - 8, stack_base t - 8] @ ?B)" using task_invD(4) [OF inv] unfolding eq .
  have sub: "set (?A @ [a - 8, stack_base t - 8] @ ?B) \<subseteq> fst ` set ys" using task_invD(5) [OF inv] unfolding eq .
  show "a - 8 \<in> fst ` set ys" "stack_base t - 8 \<in> fst ` set ys" using sub by auto
  show "a - 8 \<noteq> stack_base t - 8" using d by auto
  have eq': "concat (map (task_blocks s) (us @ vs)) = ?A @ ?B" by simp
  show "distinct (concat (map (task_blocks s) (us @ vs)))" unfolding eq' using d by auto
  show "set (concat (map (task_blocks s) (us @ vs))) \<subseteq> fst ` set ys - {a - 8, stack_base t - 8}"
    unfolding eq' using d sub by auto
qed

lemma filter_fst_split:
  assumes "distinct (map fst ys)" and ys: "ys = us @ (x, n) # vs"
  shows "filter (\<lambda>b. fst b \<noteq> x) ys = us @ vs"
proof -
  have "\<forall>b \<in> set us. fst b \<noteq> x" "\<forall>b \<in> set vs. fst b \<noteq> x" using assms by (auto simp: image_iff)
  then have "filter (\<lambda>b. fst b \<noteq> x) us = us" "filter (\<lambda>b. fst b \<noteq> x) vs = vs" by (auto intro: filter_True)
  then show ?thesis unfolding ys by simp
qed

text \<open>Releasing the block at a given address.\<close>

lemma heap_free_at:
  assumes inv: "heap_inv pool s xs ys" and x: "(p - 8, n) \<in> set ys"
  obtains s' xs' where "heap_free p s = Some s'" and "heap_inv pool s' xs' (filter (\<lambda>b. fst b \<noteq> p - 8) ys)"
    and "heap_frame s s'" and "free_bytes xs' = free_bytes xs + unat n"
proof -
  obtain us vs where ys: "ys = us @ (p - 8, n) # vs" using x by (meson split_list)
  have "tiles pool (xs @ ys)" using inv by (simp add: heap_inv_def)
  then have "distinct (map fst ys)" using tiles_distinct_fst by fastforce
  then have fil: "filter (\<lambda>b. fst b \<noteq> p - 8) ys = us @ vs" using ys by (rule filter_fst_split)
  obtain s' where s': "heap_free (p - 8 + 8) s = Some s'" "heap_inv pool s' (coalesce ((p - 8, n) # xs)) (us @ vs)"
    using heap_free_block [OF inv [unfolded ys]] by blast
  have "free_bytes (coalesce ((p - 8, n) # xs)) = free_bytes xs + unat n"
    using free_bytes_released [OF inv [unfolded ys] s'(2)] .
  then show thesis using that s' fil heap_free_frame by simp
qed

text \<open>The first half of \<open>task_delete\<close>: the task leaves its wait list and its ready ring for good.\<close>

lemma sched_inv_terminate:
  assumes inv: "sched_inv s Q" and t: "tcbs s a = Some t"
  obtains s' r where "do { s \<leftarrow> scheduler_remove_task a s; upd_tcb a (\<lambda>t. t\<lparr>state := TASK_STATE_TERMINATED\<rparr>) s } = Some s'"
    and "sched_inv s' (Q(unat (prio_bucket t) := remove1 a (Q (unat (prio_bucket t)))))"
    and "tcbs s' a = Some (t\<lparr>state := TASK_STATE_TERMINATED, next_ready := r\<rparr>)"
    and "ready_frame (s\<lparr>tcbs := (tcbs s)(a \<mapsto> t\<lparr>state := TASK_STATE_TERMINATED\<rparr>)\<rparr>) s'"
proof -
  let ?u = "t\<lparr>state := TASK_STATE_TERMINATED\<rparr>" and ?b = "unat (prio_bucket t)"
  let ?Q = "Q(?b := remove1 a (Q ?b))"
  have nn: "a \<noteq> NULL" using inv t by (rule sched_inv_nonnull)
  have b: "?b < RTOS_NUM_PRIORITIES" using inv t by simp
  obtain s1 where s1: "scheduler_remove_task a s = Some s1" and rel: "ready_rel s1 ?Q" and fr: "ready_frame s s1"
    using scheduler_remove_refines [OF sched_inv_rel [OF inv] t nn b] by blast
  obtain r where t1: "tcbs s1 a = Some (t\<lparr>next_ready := r\<rparr>)" using ready_frame_tcb [OF fr t] by blast
  let ?v = "t\<lparr>next_ready := r, state := TASK_STATE_TERMINATED\<rparr>"
  let ?s' = "s1\<lparr>tcbs := (tcbs s1)(a \<mapsto> ?v)\<rparr>"
  have fr': "ready_frame (s\<lparr>tcbs := (tcbs s)(a \<mapsto> ?u)\<rparr>) ?s'"
    using ready_frame_upd [OF fr t t1, of "\<lambda>t. t\<lparr>state := TASK_STATE_TERMINATED\<rparr>" "\<lambda>t. t\<lparr>state := TASK_STATE_TERMINATED\<rparr>"]
    by (simp add: erase_ready_def)
  have rel': "ready_rel ?s' ?Q" using ready_rel_tcb_upd [OF rel t1, of ?v] by simp
  have pl: "placed ?Q a ?u"
  proof (cases "runnable t")
    case True
    then show ?thesis using make_blocked_placed [OF inv t True, of ?u] by (simp add: runnable_def)
  next
    case False
    have "remove1 a (Q ?b) = Q ?b"
      using placed_blocked [OF sched_inv_placed [OF inv t] False] b by (intro remove1_idem) (auto simp: queued_def)
    then have "?Q = Q" by simp
    then show ?thesis using sched_inv_placed [OF inv t] False by (simp add: placed_def runnable_def)
  qed
  have "sched_inv ?s' ?Q"
  proof (rule sched_inv_step [OF inv rel', where a = a and u = ?u and i = "icsr s" and m = "primask s"])
    show "ready_frame (s\<lparr>tcbs := (tcbs s)(a \<mapsto> ?u)\<rparr>\<lparr>icsr := icsr s, primask := primask s\<rparr>) ?s'" using fr' by simp
    show "x \<in> set (?Q c) \<longleftrightarrow> x \<in> set (Q c)" if "x \<noteq> a" for c x using that by (simp add: set_remove1_other)
  qed (rule pl)
  then show thesis using that [of ?s' r] s1 t1 nn fr' by simp
qed

lemma delete_detach:
  assumes inv: "sched_inv s Q" and win: "waits_inv s W" and t: "tcbs s a = Some t"
  obtains s1 u where "(if state t = TASK_STATE_BLOCKED then detach_blocked_task a s else Some s) = Some s1"
    and "sched_inv s1 Q" and "waits_inv s1 (\<lambda>w. removeAll a (W w))"
    and "same_but_links ((tcbs s)(a \<mapsto> u)) (tcbs s1)" and "calm s1 = calm s" and "tcbs s1 a = Some u"
    and "stack_base u = stack_base t" and "prio_bucket u = prio_bucket t"
    and "blocked_on u = None"
proof (cases "state t = TASK_STATE_BLOCKED")
  case True
  obtain s1 where s1: "detach_blocked_task a s = Some s1" "sched_inv s1 Q" "waits_inv s1 (\<lambda>w. removeAll a (W w))"
      "calm s1 = calm s" and l: "same_but_links ((tcbs s)(a \<mapsto> cleared t)) (tcbs s1)"
    by (rule detach_blocked_refines [OF inv win t True])
  have "((tcbs s)(a \<mapsto> cleared t)) a = Some (cleared t)" by simp
  then obtain r w where ta: "tcbs s1 a = Some ((cleared t)\<lparr>next_ready := r, mutex_wait_next := w\<rparr>)"
    by (rule same_but_links_Some [OF l])
  let ?u = "(cleared t)\<lparr>next_ready := r, mutex_wait_next := w\<rparr>"
  have "same_but_links ((tcbs s)(a \<mapsto> ?u)) (tcbs s1)"
    by (rule same_but_links_trans [OF same_but_links_upd l]) simp_all
  then show thesis using that [of s1 ?u] True s1 ta by simp
next
  case False
  have "removeAll a (W w) = W w" if "wptr s w \<noteq> None" for w
    using waits_inv_blocked [OF win that, of a] t False by (intro removeAll_id) auto
  then have "waits_inv s (\<lambda>w. removeAll a (W w))" by (rule waits_inv_lists [OF win])
  moreover have "(tcbs s)(a \<mapsto> t) = tcbs s" using t by (simp add: map_upd_triv)
  ultimately show thesis using that [of s t] False inv t by simp
qed

text \<open>The memory of a deleted task: its place in the registry, its stack and its control block.\<close>

lemma delete_memory:
  assumes reg: "registry s R" and mem: "a \<in> set R" and heap: "heap_inv P s xs ys"
    and n: "(a - 8, n) \<in> set ys" and m: "(b - 8, m) \<in> set ys" and ne: "a - 8 \<noteq> b - 8"
  obtains L k s1 s2 xs' where "registry_remove a s = Some (s\<lparr>task_registry := L, task_registry_count := k\<rparr>)"
    and "heap_free b (s\<lparr>task_registry := L, task_registry_count := k\<rparr>) = Some s1" and "heap_free a s1 = Some s2"
    and "heap_frame (s\<lparr>task_registry := L, task_registry_count := k\<rparr>) s2" and "registry s2 (remove1 a R)"
    and "heap_inv P s2 xs' (filter (\<lambda>c. fst c \<noteq> a - 8 \<and> fst c \<noteq> b - 8) ys)"
    and "free_bytes xs' = free_bytes xs + unat n + unat m"
proof -
  obtain L k where rm: "registry_remove a s = Some (s\<lparr>task_registry := L, task_registry_count := k\<rparr>)"
    and reg': "registry (s\<lparr>task_registry := L, task_registry_count := k\<rparr>) (remove1 a R)"
    using registry_remove_refines [OF reg mem] by metis
  let ?s0 = "s\<lparr>task_registry := L, task_registry_count := k\<rparr>"
  have h0: "heap_inv P ?s0 xs ys" using heap by (rule heap_inv_cong) simp_all
  obtain s1 xs1 where s1: "heap_free b ?s0 = Some s1" "heap_inv P s1 xs1 (filter (\<lambda>c. fst c \<noteq> b - 8) ys)"
      "heap_frame ?s0 s1" "free_bytes xs1 = free_bytes xs + unat m"
    by (rule heap_free_at [OF h0 m])
  have "(a - 8, n) \<in> set (filter (\<lambda>c. fst c \<noteq> b - 8) ys)" using n ne by simp
  then obtain s2 xs2 where s2: "heap_free a s1 = Some s2"
      "heap_inv P s2 xs2 (filter (\<lambda>c. fst c \<noteq> a - 8) (filter (\<lambda>c. fst c \<noteq> b - 8) ys))"
      "heap_frame s1 s2" "free_bytes xs2 = free_bytes xs1 + unat n"
    by (rule heap_free_at [OF s1(2)])
  have fr: "heap_frame ?s0 s2" using s1(3) s2(3) by (rule heap_frame_trans)
  then have "registry s2 (remove1 a R)" using reg' heap_frame_sel [OF fr] by (simp add: registry_def)
  then show thesis using that rm s1(1,4) s2(1,2,4) fr by (simp add: conj_commute)
qed

text \<open>A deleted task leaves its wait list and its ready ring.\<close>

lemma delete_unschedules:
  assumes inv: "sched_inv s Q" and win: "waits_inv s W" and t: "tcbs s a = Some t"
  obtains s1 s2 u where "(if state t = TASK_STATE_BLOCKED then detach_blocked_task a s else Some s) = Some s1"
    and "do { s \<leftarrow> scheduler_remove_task a s1; upd_tcb a (\<lambda>t. t\<lparr>state := TASK_STATE_TERMINATED\<rparr>) s } = Some s2"
    and "sched_inv s2 (Q(unat (prio_bucket t) := remove1 a (Q (unat (prio_bucket t)))))" and "waits_inv s2 (\<lambda>w. removeAll a (W w))"
    and "same_but_links ((tcbs s)(a \<mapsto> u)) (tcbs s2)" and "state u = TASK_STATE_TERMINATED" and "stack_base u = stack_base t"
    and "idle_tcb s2 = idle_tcb s" and "current_tcb s2 = current_tcb s" and "task_registry s2 = task_registry s"
    and "task_registry_count s2 = task_registry_count s" and "heap_blocks s2 = heap_blocks s" and "free_list s2 = free_list s"
    and "heap_ready s2 = heap_ready s"
proof -
  obtain s1 u where s1: "(if state t = TASK_STATE_BLOCKED then detach_blocked_task a s else Some s) = Some s1"
      "sched_inv s1 Q" "waits_inv s1 (\<lambda>w. removeAll a (W w))" "calm s1 = calm s"
    and l1: "same_but_links ((tcbs s)(a \<mapsto> u)) (tcbs s1)"
    and u: "tcbs s1 a = Some u" "stack_base u = stack_base t" "prio_bucket u = prio_bucket t" "blocked_on u = None"
    by (rule delete_detach [OF inv win t])
  let ?u = "u\<lparr>state := TASK_STATE_TERMINATED\<rparr>"
  obtain s2 r where s2: "do { s \<leftarrow> scheduler_remove_task a s1; upd_tcb a (\<lambda>t. t\<lparr>state := TASK_STATE_TERMINATED\<rparr>) s } = Some s2"
      "sched_inv s2 (Q(unat (prio_bucket t) := remove1 a (Q (unat (prio_bucket t)))))"
      "tcbs s2 a = Some (u\<lparr>state := TASK_STATE_TERMINATED, next_ready := r\<rparr>)"
    and fr: "ready_frame (s1\<lparr>tcbs := (tcbs s1)(a \<mapsto> ?u)\<rparr>) s2"
    using sched_inv_terminate [OF s1(2) u(1)] u(3) by metis
  have sr: "same_but_ready ((tcbs s1)(a \<mapsto> ?u)) (tcbs s2)" using fr by (auto simp: ready_frame_def)
  have "same_but_links ((tcbs s)(a \<mapsto> ?u)) ((tcbs s1)(a \<mapsto> ?u))" using same_but_links_upd [OF l1, of ?u ?u a] by simp
  then have links: "same_but_links ((tcbs s)(a \<mapsto> ?u)) (tcbs s2)"
    by (rule same_but_links_trans) (rule same_but_links_ready [OF sr])
  have "wptr s2 w = wptr s1 w" for w by (rule wptr_cong) (simp_all add: ready_frame_sel [OF fr])
  then have "waits_inv s2 (\<lambda>w. removeAll a (W w))" by (intro waits_inv_new [OF s1(3) sr]) (use u in auto)
  then show thesis
    using that [OF s1(1) s2(1,2) _ links] u(2) calm_sel [OF s1(4)] ready_frame_sel [OF fr] by simp
qed

lemma task_delete_steps:
  assumes inv: "task_inv img s Q R xs ys" and win: "waits_inv s W" and mem: "a \<in> set R"
    and idle: "a \<noteq> idle_tcb s" and cur: "a \<noteq> current_tcb s" and t: "tcbs s a = Some t"
    and n: "(a - 8, n) \<in> set ys" and m: "(stack_base t - 8, m) \<in> set ys" and ne: "a - 8 \<noteq> stack_base t - 8"
  obtains s' xs' v where "task_delete a s = Some (RTOS_OK, s')"
    and "sched_inv s' (Q(unat (prio_bucket t) := remove1 a (Q (unat (prio_bucket t)))))"
    and "heap_inv (heap_pool img) s' xs' (filter (\<lambda>b. fst b \<noteq> a - 8 \<and> fst b \<noteq> stack_base t - 8) ys)"
    and "registry s' (remove1 a R)" and "waits_inv s' (\<lambda>w. removeAll a (W w))"
    and "same_but_links ((tcbs s)(a \<mapsto> v)) (tcbs s')" and "state v = TASK_STATE_TERMINATED"
    and "idle_tcb s' = idle_tcb s" and "current_tcb s' = current_tcb s" and "free_bytes xs' = free_bytes xs + unat n + unat m"
proof -
  let ?s0 = "cpsid s" and ?b = "unat (prio_bucket t)"
  have nn: "a \<noteq> NULL" using task_invD(1) [OF inv] t by (rule sched_inv_nonnull)
  have inv0: "sched_inv ?s0 Q" "waits_inv ?s0 W" "tcbs ?s0 a = Some t"
    using task_invD(1) [OF inv] waits_inv_cong [OF win, of ?s0] t by (simp_all add: cpsid_def)
  obtain s1 s2 u where s1: "(if state t = TASK_STATE_BLOCKED then detach_blocked_task a ?s0 else Some ?s0) = Some s1"
    and s2: "do { s \<leftarrow> scheduler_remove_task a s1; upd_tcb a (\<lambda>t. t\<lparr>state := TASK_STATE_TERMINATED\<rparr>) s } = Some s2"
      "sched_inv s2 (Q(?b := remove1 a (Q ?b)))" "waits_inv s2 (\<lambda>w. removeAll a (W w))"
    and links: "same_but_links ((tcbs ?s0)(a \<mapsto> u)) (tcbs s2)" and u: "state u = TASK_STATE_TERMINATED" "stack_base u = stack_base t"
    and sel: "idle_tcb s2 = idle_tcb ?s0" "current_tcb s2 = current_tcb ?s0" "task_registry s2 = task_registry ?s0"
      "task_registry_count s2 = task_registry_count ?s0" "heap_blocks s2 = heap_blocks ?s0" "free_list s2 = free_list ?s0"
      "heap_ready s2 = heap_ready ?s0"
    by (rule delete_unschedules [OF inv0])
  have "cpsid s = s\<lparr>primask := True\<rparr>" by (simp add: cpsid_def)
  note sel = sel [unfolded this, simplified] and links = links [unfolded this, simplified]
  have r2: "registry s2 R" using task_invD(3) [OF inv] sel by (simp add: registry_def)
  have h2: "heap_inv (heap_pool img) s2 xs ys" using task_invD(2) [OF inv] by (rule heap_inv_cong) (simp_all add: sel)
  obtain L k s4 s5 xs5 where
    s3: "registry_remove a s2 = Some (s2\<lparr>task_registry := L, task_registry_count := k\<rparr>)"
    and s4: "heap_free (stack_base t) (s2\<lparr>task_registry := L, task_registry_count := k\<rparr>) = Some s4" and s5: "heap_free a s4 = Some s5"
    and f5: "heap_frame (s2\<lparr>task_registry := L, task_registry_count := k\<rparr>) s5" and reg: "registry s5 (remove1 a R)"
    and h5: "heap_inv (heap_pool img) s5 xs5 (filter (\<lambda>b. fst b \<noteq> a - 8 \<and> fst b \<noteq> stack_base t - 8) ys)"
    and fb: "free_bytes xs5 = free_bytes xs + unat n + unat m"
    by (rule delete_memory [OF r2 mem h2 n m ne])
  note h = heap_frame_sel [OF f5]
  have "((tcbs s)(a \<mapsto> u)) a = Some u" by simp
  then obtain r w where v: "tcbs s2 a = Some (u\<lparr>next_ready := r, mutex_wait_next := w\<rparr>)" by (rule same_but_links_Some [OF links])
  obtain sr where "scheduler_remove_task a s1 = Some sr" "upd_tcb a (\<lambda>t. t\<lparr>state := TASK_STATE_TERMINATED\<rparr>) sr = Some s2"
    using s2(1) by (auto split: bind_splits)
  then have del: "task_delete a s = Some (RTOS_OK, cpsie s5)"
    using nn idle cur inv0(3) s1 s3 s4 s5 v u(2) by (simp add: task_delete_def Let_def)
  have "wptr (cpsie s5) w = wptr s2 w" for w
    using h(10) [of w] wptr_cong [of "s2\<lparr>task_registry := L, task_registry_count := k\<rparr>" s2 w] by (simp add: cpsie_def)
  then have "waits_inv (cpsie s5) (\<lambda>w. removeAll a (W w))" by (intro waits_inv_cong [OF s2(3)]) (simp_all add: cpsie_def h)
  moreover have "heap_inv (heap_pool img) (cpsie s5) xs5 (filter (\<lambda>b. fst b \<noteq> a - 8 \<and> fst b \<noteq> stack_base t - 8) ys)"
    using h5 by (simp add: heap_inv_def cpsie_def)
  moreover have "sched_inv (cpsie s5) (Q(?b := remove1 a (Q ?b)))" using s2(2) h by (simp add: sched_inv_def ready_rel_def cpsie_def)
  moreover have "registry (cpsie s5) (remove1 a R)" using reg by (simp add: registry_def cpsie_def)
  ultimately show thesis using that [OF del, of xs5 u] u(1) links sel h fb by (simp add: cpsie_def)
qed

lemma task_inv_leave:
  assumes inv: "task_inv img s Q (us @ a # vs) xs ys" and t: "tcbs s a = Some t" and idle: "a \<noteq> idle_tcb s"
    and sinv: "sched_inv s' Q'"
    and heap: "heap_inv (heap_pool img) s' xs' (filter (\<lambda>b. fst b \<noteq> a - 8 \<and> fst b \<noteq> stack_base t - 8) ys)"
    and reg: "registry s' (us @ vs)" and links: "same_but_links ((tcbs s)(a \<mapsto> v)) (tcbs s')"
    and v: "state v = TASK_STATE_TERMINATED" and idle': "idle_tcb s' = idle_tcb s"
  shows "task_inv img s' Q' (us @ vs) xs' (filter (\<lambda>b. fst b \<noteq> a - 8 \<and> fst b \<noteq> stack_base t - 8) ys)"
proof -
  let ?ys = "filter (\<lambda>b. fst b \<noteq> a - 8 \<and> fst b \<noteq> stack_base t - 8) ys"
  note bl = task_blocks_split [OF inv t idle]
  have out: "a \<notin> set (us @ vs)" using task_inv_registry_distinct [OF inv] by auto
  have old: "map_option erase_links (tcbs s' x) = map_option erase_links (tcbs s x)" if "x \<noteq> a" for x
    using links [unfolded same_but_links_def, rule_format, of x] that by simp
  have field: "map_option g (tcbs s' x) = map_option g (tcbs s x)" if "x \<noteq> a" "\<And>t. g (erase_links t) = g t"
    for x and g :: "TCB_t \<Rightarrow> 'b"
    using arg_cong [OF old [OF that(1)], of "map_option g"] that(2) by (simp add: option.map_comp comp_def)
  have blocks: "map (task_blocks s') (us @ vs) = map (task_blocks s) (us @ vs)"
    by (rule task_blocks_cong [OF idle'], rule field) (use out in \<open>auto simp: erase_links_def\<close>)
  have "fst ` set ys - {a - 8, stack_base t - 8} = fst ` set ?ys" by auto
  then have sub: "set (concat (map (task_blocks s') (us @ vs))) \<subseteq> fst ` set ?ys"
    using bl(5) unfolding blocks by simp
  have "((tcbs s)(a \<mapsto> v)) a = Some v" by simp
  then obtain r w where ta: "tcbs s' a = Some (v\<lparr>next_ready := r, mutex_wait_next := w\<rparr>)"
    by (rule same_but_links_Some [OF links])
  have live: "(\<exists>t. tcbs s' x = Some t \<and> state t \<noteq> TASK_STATE_TERMINATED) \<longleftrightarrow> x \<in> set (us @ vs)" for x
  proof (cases "x = a")
    case False
    then have "map_option state (tcbs s' x) = map_option state (tcbs s x)" by (rule field) (simp add: erase_links_def)
    then show ?thesis using task_invD(6) [OF inv, of x] False by (cases "tcbs s x"; cases "tcbs s' x") auto
  qed (use ta v out in auto)
  have "distinct (concat (map (task_blocks s') (us @ vs)))" using bl(4) unfolding blocks .
  then show ?thesis
    using sinv heap reg sub live idle' idle task_invD(7) [OF inv] unfolding task_inv_def by auto
qed

lemma task_delete_outcome:
  assumes inv: "task_inv img s Q R xs ys" and win: "waits_inv s W" and mem: "a \<in> set R"
    and idle: "a \<noteq> idle_tcb s" and cur: "a \<noteq> current_tcb s" and t: "tcbs s a = Some t"
  obtains s' xs' n m v where "task_delete a s = Some (RTOS_OK, s')"
    and "(a - 8, n) \<in> set ys" and "(stack_base t - 8, m) \<in> set ys"
    and "task_inv img s' (Q(unat (prio_bucket t) := remove1 a (Q (unat (prio_bucket t))))) (remove1 a R) xs'
        (filter (\<lambda>b. fst b \<noteq> a - 8 \<and> fst b \<noteq> stack_base t - 8) ys)"
    and "waits_inv s' (\<lambda>w. removeAll a (W w))" and "free_bytes xs' = free_bytes xs + unat n + unat m"
    and "same_but_links ((tcbs s)(a \<mapsto> v)) (tcbs s')" and "state v = TASK_STATE_TERMINATED"
    and "idle_tcb s' = idle_tcb s" and "current_tcb s' = current_tcb s"
proof -
  obtain us vs where R: "R = us @ a # vs" "a \<notin> set us" using mem by (metis split_list_first)
  have rem: "remove1 a R = us @ vs" using R by (simp add: remove1_append)
  note inv' = inv [unfolded R(1)]
  note bl = task_blocks_split [OF inv' t idle]
  obtain n m where n: "(a - 8, n) \<in> set ys" and m: "(stack_base t - 8, m) \<in> set ys" using bl(1,2) by auto
  obtain s' xs' v where s': "task_delete a s = Some (RTOS_OK, s')"
      "sched_inv s' (Q(unat (prio_bucket t) := remove1 a (Q (unat (prio_bucket t)))))"
      "heap_inv (heap_pool img) s' xs' (filter (\<lambda>b. fst b \<noteq> a - 8 \<and> fst b \<noteq> stack_base t - 8) ys)"
      "registry s' (us @ vs)" "waits_inv s' (\<lambda>w. removeAll a (W w))"
    and l: "same_but_links ((tcbs s)(a \<mapsto> v)) (tcbs s')" and v: "state v = TASK_STATE_TERMINATED"
    and f: "idle_tcb s' = idle_tcb s" "current_tcb s' = current_tcb s" "free_bytes xs' = free_bytes xs + unat n + unat m"
    by (rule task_delete_steps [OF inv win mem idle cur t n m bl(3), unfolded rem])
  show thesis
    by (rule that [OF s'(1) n m _ s'(5) f(3) l v f(1,2)])
       (use task_inv_leave [OF inv' t idle s'(2,3,4) l v f(1)] rem in simp)
qed

text \<open>
  C13. Deletion. Deleting a task other than the idle and the running one succeeds, wherever the
  task is: it leaves its ready ring or the wait list it is blocked on, it is marked
  terminated and taken off the registry, and exactly its two heap blocks are released. No
  other task changes and the invariants hold.
\<close>

theorem task_delete_correct:
  assumes inv: "task_inv img s Q R xs ys" and win: "waits_inv s W" and mem: "a \<in> set R"
    and idle: "a \<noteq> idle_tcb s" and cur: "a \<noteq> current_tcb s" and t: "tcbs s a = Some t"
  shows "\<exists>s' xs' n m v. task_delete a s = Some (RTOS_OK, s')
    \<and> (a - 8, n) \<in> set ys \<and> (stack_base t - 8, m) \<in> set ys
    \<and> task_inv img s' (Q(unat (prio_bucket t) := remove1 a (Q (unat (prio_bucket t))))) (remove1 a R) xs'
        (filter (\<lambda>b. fst b \<noteq> a - 8 \<and> fst b \<noteq> stack_base t - 8) ys)
    \<and> waits_inv s' (\<lambda>w. removeAll a (W w)) \<and> free_bytes xs' = free_bytes xs + unat n + unat m
    \<and> tcbs s' a = Some v \<and> state v = TASK_STATE_TERMINATED
    \<and> (\<forall>x. x \<noteq> a \<longrightarrow> map_option erase_links (tcbs s' x) = map_option erase_links (tcbs s x))"
proof -
  obtain s' xs' n m v where del: "task_delete a s = Some (RTOS_OK, s')" "(a - 8, n) \<in> set ys" "(stack_base t - 8, m) \<in> set ys"
      "task_inv img s' (Q(unat (prio_bucket t) := remove1 a (Q (unat (prio_bucket t))))) (remove1 a R) xs'
        (filter (\<lambda>b. fst b \<noteq> a - 8 \<and> fst b \<noteq> stack_base t - 8) ys)"
      "waits_inv s' (\<lambda>w. removeAll a (W w))" "free_bytes xs' = free_bytes xs + unat n + unat m"
    and l: "same_but_links ((tcbs s)(a \<mapsto> v)) (tcbs s')" and v: "state v = TASK_STATE_TERMINATED"
    by (rule task_delete_outcome [OF assms])
  have "((tcbs s)(a \<mapsto> v)) a = Some v" by simp
  then obtain r w where ta: "tcbs s' a = Some (v\<lparr>next_ready := r, mutex_wait_next := w\<rparr>)"
    by (rule same_but_links_Some [OF l])
  have "map_option erase_links (tcbs s' x) = map_option erase_links (tcbs s x)" if "x \<noteq> a" for x
    using l [unfolded same_but_links_def, rule_format, of x] that by simp
  moreover have "state (v\<lparr>next_ready := r, mutex_wait_next := w\<rparr>) = TASK_STATE_TERMINATED" using v by simp
  ultimately show ?thesis using del ta by blast
qed

section \<open>Start-up\<close>

text \<open>
  The state before \<open>task_init\<close>: statics are zero, nothing exists yet. The image is sound if the
  pool lies properly in memory and holds at least one control block.
\<close>

definition boot :: "kernel \<Rightarrow> bool" where
  "boot s \<longleftrightarrow> tcbs s = Map.empty \<and> mutexes s = Map.empty \<and> semaphores s = Map.empty
     \<and> msg_queues s = Map.empty \<and> length (task_registry s) = 33"

definition image_ok :: "image \<Rightarrow> bool" where
  "image_ok img \<longleftrightarrow> pool_ok (heap_pool img) \<and> sizeof_TCB img \<noteq> 0 \<and> unat (sizeof_TCB img) + 15 < 2 ^ 32
     \<and> alloc_total (sizeof_TCB img) \<le> RTOS_HEAP_POOL_SIZE \<and> idle_task_fn img \<noteq> NULL"

definition idle_tcb_init :: "image \<Rightarrow> TCB_t" where
  "idle_tcb_init img = created_tcb img (idle_task_fn img) 255 RTOS_IDLE_STACK_SIZE (idle_stack_words img)
     (idle_name @ replicate 11 0)"

lemma task_init_steps:
  fixes img :: image and s :: kernel
  defines "s0 \<equiv> (scheduler_init (sw_timer_init (heap_init (heap_pool img) s)))\<lparr>task_registry_count := 0\<rparr>"
  assumes al: "heap_alloc (sizeof_TCB img) s0 = Some (p, s1)" "p \<noteq> NULL" and fn: "idle_task_fn img \<noteq> NULL"
  defines "s2 \<equiv> s1\<lparr>idle_tcb := p,
      stack_mem := stack_image img (idle_stack_words img) RTOS_IDLE_STACK_SIZE (idle_task_fn img) (stack_mem s1)\<rparr>"
  assumes add: "scheduler_add_task p (s2\<lparr>tcbs := (tcbs s2)(p \<mapsto> idle_tcb_init img)\<rparr>) = Some (RTOS_OK, s3)"
  shows "task_init img s = map_option (\<lambda>s. (RTOS_OK, s)) (registry_add p s3)"
proof -
  let ?t = "zero_tcb\<lparr>stack_base := idle_stack_words img, stack_size := RTOS_IDLE_STACK_SIZE, priority := 255,
    prio_bucket := 7, name := idle_name @ drop 5 (name zero_tcb)\<rparr>"
  have nm: "drop 5 (name zero_tcb) = replicate 11 0" by (simp add: zero_tcb_def RTOS_TASK_NAME_MAX_def)
  have build: "task_build_common img p (idle_task_fn img) (s1\<lparr>idle_tcb := p, tcbs := (tcbs s1)(p \<mapsto> ?t)\<rparr>)
      = Some (RTOS_OK, s2\<lparr>tcbs := (tcbs s1)(p \<mapsto> idle_tcb_init img)\<rparr>)"
    unfolding nm using al(2) fn
    by (simp add: task_build_common_def Let_def case_prod_unfold s2_def stack_image_def build_initial_stack_def
        created_tcb_def zero_tcb_def idle_tcb_init_def prio_bucket_of_eval)
  have st: "(idle_tcb_init img)\<lparr>state := TASK_STATE_READY\<rparr> = idle_tcb_init img" by (simp add: idle_tcb_init_def)
  have "tcbs s2 = tcbs s1" "(of_nat (RTOS_NUM_PRIORITIES - 1) :: u8) = 7"
    by (simp_all add: s2_def RTOS_NUM_PRIORITIES_def)
  then show ?thesis
    using al(1) [unfolded s0_def] al(2) add build st by (simp add: task_init_def Let_def bind_to_map)
qed

lemma only_idle:
  assumes "sched_inv s Q" and "heap_inv (heap_pool img) s xs [(heap_pool img, n)]" and "registry s [heap_pool img + 8]"
    and idle: "idle_tcb s = heap_pool img + 8" and sr: "same_but_ready [heap_pool img + 8 \<mapsto> idle_tcb_init img] (tcbs s)"
    and none: "\<And>w. wptr s w = None"
  shows "task_inv img s Q [heap_pool img + 8] xs [(heap_pool img, n)]" and "waits_inv s (\<lambda>_. [])"
proof -
  let ?p = "heap_pool img + 8"
  have "[?p \<mapsto> idle_tcb_init img] ?p = Some (idle_tcb_init img)" by simp
  then obtain r where tp: "tcbs s ?p = Some ((idle_tcb_init img)\<lparr>next_ready := r\<rparr>)" by (rule same_but_ready_Some [OF sr])
  have other: "tcbs s a = None" if "a \<noteq> ?p" for a using same_but_ready_None [OF sr, of a] that by simp
  have st: "state ((idle_tcb_init img)\<lparr>next_ready := r\<rparr>) = TASK_STATE_READY" by (simp add: idle_tcb_init_def)
  show "waits_inv s (\<lambda>_. [])"
    unfolding waits_inv_def none using tp other st by (metis blocked_on_ready option.discI option.inject task_state_t.distinct(3))
  have "a \<in> set [?p] \<longleftrightarrow> (\<exists>t. tcbs s a = Some t \<and> state t \<noteq> TASK_STATE_TERMINATED)" for a
    using tp other [of a] st by (cases "a = ?p") auto
  moreover have "task_blocks s ?p = [heap_pool img]" by (simp add: task_blocks_def idle)
  then have "distinct (concat (map (task_blocks s) [?p]))" "set (concat (map (task_blocks s) [?p])) \<subseteq> fst ` set [(heap_pool img, n)]"
    by simp_all
  moreover have "idle_tcb s \<in> set [?p]" using idle by simp
  ultimately show "task_inv img s Q [?p] xs [(heap_pool img, n)]" using assms(1-3) unfolding task_inv_def by blast
qed

lemma task_init_refines:
  assumes b: "boot s" and img: "image_ok img"
  obtains s' n where "task_init img s = Some (RTOS_OK, s')"
    and "idle_tcb s' = heap_pool img + 8" and "current_tcb s' = NULL" and "waits_inv s' (\<lambda>_. [])"
    and "task_inv img s' ((\<lambda>_. [])(7 := [heap_pool img + 8])) [heap_pool img + 8]
        (alloc_rest (sizeof_TCB img) [] (heap_pool img) RTOS_HEAP_POOL_SIZE) [(heap_pool img, n)]"
    and "same_but_ready [heap_pool img + 8 \<mapsto> idle_tcb_init img] (tcbs s')"
proof -
  let ?P = "heap_pool img"
  let ?p = "?P + 8" and ?Q = "\<lambda>_ :: nat. [] :: addr list"
  have ok: "pool_ok ?P" and tsz: "sizeof_TCB img \<noteq> 0" "unat (sizeof_TCB img) + 15 < 2 ^ 32"
    and fit: "alloc_total (sizeof_TCB img) \<le> RTOS_HEAP_POOL_SIZE" and fn: "idle_task_fn img \<noteq> NULL"
    using img by (auto simp: image_ok_def)
  let ?s0 = "(scheduler_init (sw_timer_init (heap_init ?P s)))\<lparr>task_registry_count := 0\<rparr>"
  have h0: "heap_inv ?P ?s0 ([] @ (?P, RTOS_HEAP_POOL_SIZE) # []) []"
    using heap_init_inv [OF ok, of s] by (simp add: heap_inv_def scheduler_init_def sw_timer_init_def)
  obtain s1 where al: "heap_alloc (sizeof_TCB img) ?s0 = Some (?p, s1)"
    and h1: "heap_inv ?P s1 (alloc_rest (sizeof_TCB img) [] ?P RTOS_HEAP_POOL_SIZE)
      [(?P, alloc_size (sizeof_TCB img) RTOS_HEAP_POOL_SIZE)]"
    using heap_alloc_fit [OF h0 tsz _ fit] by auto
  let ?n = "alloc_size (sizeof_TCB img) RTOS_HEAP_POOL_SIZE"
  have pn: "?p \<noteq> NULL" using heap_block_of(2) [OF h1, of ?P ?n] by auto
  note fs = heap_frame_sel [OF heap_alloc_frame [OF al]]
  let ?s2 = "s1\<lparr>idle_tcb := ?p,
    stack_mem := stack_image img (idle_stack_words img) RTOS_IDLE_STACK_SIZE (idle_task_fn img) (stack_mem s1)\<rparr>"
  have inv2: "sched_inv ?s2 ?Q"
    using b fs by (simp add: sched_inv_def ready_rel_def boot_def scheduler_init_def sw_timer_init_def heap_init_def)
  obtain s3 where add: "scheduler_add_task ?p (?s2\<lparr>tcbs := (tcbs ?s2)(?p \<mapsto> idle_tcb_init img)\<rparr>) = Some (RTOS_OK, s3)"
    and inv3: "sched_inv s3 (?Q(7 := [?p]))"
    and fr: "ready_frame (?s2\<lparr>tcbs := (tcbs ?s2)(?p \<mapsto> idle_tcb_init img)\<rparr>) s3"
    using new_task [OF inv2 pn, of "idle_tcb_init img"] by (auto simp: idle_tcb_init_def queued_def prio_bucket_of_eval)
  note rs = ready_frame_sel [OF fr]
  have "registry s3 []" using b rs fs
    by (simp add: registry_def boot_def scheduler_init_def sw_timer_init_def heap_init_def)
  then obtain L k where radd: "registry_add ?p s3 = Some (s3\<lparr>task_registry := L, task_registry_count := k\<rparr>)"
    and reg: "registry (s3\<lparr>task_registry := L, task_registry_count := k\<rparr>) ([] @ [?p])"
    using registry_add_refines [OF _ _ pn] by (metis list.size(3) zero_less_numeral)
  let ?s' = "s3\<lparr>task_registry := L, task_registry_count := k\<rparr>"
  have init: "task_init img s = Some (RTOS_OK, ?s')" using task_init_steps [OF al pn fn add] radd by simp
  have t0: "tcbs s1 = Map.empty" using b fs by (simp add: boot_def scheduler_init_def sw_timer_init_def heap_init_def)
  have sr: "same_but_ready [?p \<mapsto> idle_tcb_init img] (tcbs ?s')" using fr t0 by (auto simp: ready_frame_def)
  have none: "wptr ?s' w = None" for w
    using b rs fs(10) [of w] by (cases w) (simp_all add: wptr_def access_defs boot_def scheduler_init_def sw_timer_init_def
      heap_init_def fetch_def)
  have heap': "heap_inv ?P ?s' (alloc_rest (sizeof_TCB img) [] ?P RTOS_HEAP_POOL_SIZE) [(?P, ?n)]"
    using h1 by (rule heap_inv_cong) (simp_all add: rs)
  have sinv': "sched_inv ?s' (?Q(7 := [?p]))" using inv3 by (simp add: sched_inv_def ready_rel_def)
  have idle': "idle_tcb ?s' = ?p" using rs(8) by simp
  note only = only_idle [OF sinv' heap' reg [unfolded append_Nil] idle' sr none]
  have "current_tcb ?s' = NULL" using rs fs by (simp add: scheduler_init_def)
  then show thesis using that [OF init idle'] only sr by blast
qed

text \<open>
  Start-up. From the zeroed statics \<open>task_init\<close> returns \<open>RTOS_OK\<close> with the idle task as the
  only task: lowest priority, ready, first in the pool and in the registry. All invariants
  of tasks, heap, scheduler and wait lists hold.
\<close>

theorem task_init_correct:
  assumes b: "boot s" and img: "image_ok img"
  shows "\<exists>s' xs n t. task_init img s = Some (RTOS_OK, s') \<and> idle_tcb s' = heap_pool img + 8 \<and> current_tcb s' = NULL
    \<and> task_inv img s' ((\<lambda>_. [])(7 := [heap_pool img + 8])) [heap_pool img + 8] xs [(heap_pool img, n)]
    \<and> waits_inv s' (\<lambda>_. []) \<and> tcbs s' (heap_pool img + 8) = Some t \<and> priority t = 255
    \<and> state t = TASK_STATE_READY \<and> task_func t = idle_task_fn img"
proof -
  let ?p = "heap_pool img + 8"
  obtain s' n where s': "task_init img s = Some (RTOS_OK, s')" "idle_tcb s' = ?p" "current_tcb s' = NULL"
      "waits_inv s' (\<lambda>_. [])" "task_inv img s' ((\<lambda>_. [])(7 := [?p])) [?p]
        (alloc_rest (sizeof_TCB img) [] (heap_pool img) RTOS_HEAP_POOL_SIZE) [(heap_pool img, n)]"
    and sr: "same_but_ready [?p \<mapsto> idle_tcb_init img] (tcbs s')"
    by (rule task_init_refines [OF assms])
  have "[?p \<mapsto> idle_tcb_init img] ?p = Some (idle_tcb_init img)" by simp
  then obtain r where "tcbs s' ?p = Some ((idle_tcb_init img)\<lparr>next_ready := r\<rparr>)" by (rule same_but_ready_Some [OF sr])
  then show ?thesis using s' by (auto simp: idle_tcb_init_def created_tcb_def)
qed

section \<open>Sample image\<close>

definition sample_image :: image where
  "sample_image = \<lparr>heap_pool = 0x20001000, sizeof_TCB = 84, idle_stack_words = 0x20009000,
     idle_task_fn = 0x08000401, task_exit_trap = 0x08000501\<rparr>"

lemma sample_totals: "alloc_total 84 = 96" "alloc_total 512 = 520" "alloc_total 40000 = 40008"
  "(512 + 7) AND NOT 7 = (512 :: u32)" "(40000 + 7) AND NOT 7 = (40000 :: u32)"
  by (simp_all add: alloc_total_def HDR_def)

lemma sample_image_ok: "image_ok sample_image" "boot blank_kernel"
  by (simp_all add: image_ok_def sample_image_def pool_ok_def sample_totals RTOS_HEAP_POOL_SIZE_def boot_def
      blank_kernel_def)

text \<open>After start-up the first two requests of \<open>task_create\<close> succeed.\<close>

lemma sample_started:
  obtains s n where "task_init sample_image blank_kernel = Some (RTOS_OK, s)" and "idle_tcb s = 0x20001008"
    and "current_tcb s = 0" and "waits_inv s (\<lambda>_. [])"
    and "task_inv sample_image s ((\<lambda>_. [])(7 := [0x20001008])) [0x20001008]
           ([] @ (0x20001060, 32672) # []) [(0x20001000, n)]"
proof -
  have e: "alloc_rest 84 [] 0x20001000 RTOS_HEAP_POOL_SIZE = [(0x20001060, 32672)]"
    by (simp add: alloc_rest_def sample_totals RTOS_HEAP_POOL_SIZE_def)
  show thesis
    using task_init_refines [OF sample_image_ok(2,1)] that by (auto simp: sample_image_def e)
qed

lemma sample_allocs:
  assumes "task_inv sample_image s Q R ([] @ (0x20001060, 32672) # []) ys"
  obtains s1 s2 where "heap_alloc (sizeof_TCB sample_image) s = Some (0x20001068, s1)"
    and "heap_alloc ((512 + 7) AND NOT 7) s1 = Some (0x200010C8, s2)"
    and "heap_alloc ((40000 + 7) AND NOT 7) s1 = Some (0, s1)"
proof -
  have h: "heap_inv 0x20001000 s ([] @ (0x20001060, 32672) # []) ys" using task_invD(2) [OF assms] by (simp add: sample_image_def)
  obtain s1 where a1: "heap_alloc 84 s = Some (0x20001068, s1)"
    and h1: "heap_inv 0x20001000 s1 ([] @ (0x200010C0, 32576) # []) ((0x20001060, 96) # ys)"
    using heap_alloc_fit [OF h, of 84] by (auto simp: sample_totals alloc_rest_def alloc_size_def)
  obtain s2 where "heap_alloc 512 s1 = Some (0x200010C8, s2)"
    using heap_alloc_fit [OF h1, of 512] by (auto simp: sample_totals)
  moreover have "heap_alloc 40000 s1 = Some (NULL, s1)"
    using heap_alloc_none [OF h1, of 40000] by (simp add: sample_totals)
  ultimately show thesis using that a1 by (simp add: sample_totals sample_image_def)
qed

theorem task_init_correct_witness:
  "\<exists>s' xs n. task_init sample_image blank_kernel = Some (RTOS_OK, s')
     \<and> task_inv sample_image s' ((\<lambda>_. [])(7 := [0x20001008])) [0x20001008] xs [(0x20001000, n)]"
  using task_init_correct [OF sample_image_ok(2,1)] by (auto simp: sample_image_def)

theorem task_create_correct_witness:
  "\<exists>s s' t. task_init sample_image blank_kernel = Some (RTOS_OK, s)
     \<and> task_create sample_image 0x08001001 100 512 0 s = Some (0x20001068, s')
     \<and> tcbs s' 0x20001068 = Some t \<and> read_words (stack_mem s') (stack_ptr t) 16 = initial_frame sample_image 0x08001001"
proof -
  obtain s n where s: "task_init sample_image blank_kernel = Some (RTOS_OK, s)" "waits_inv s (\<lambda>_. [])"
    and inv: "task_inv sample_image s ((\<lambda>_. [])(7 := [0x20001008])) [0x20001008]
      ([] @ (0x20001060, 32672) # []) [(0x20001000, n)]" by (rule sample_started)
  obtain s1 s2 where a: "heap_alloc (sizeof_TCB sample_image) s = Some (0x20001068, s1)"
    "heap_alloc ((512 + 7) AND NOT 7) s1 = Some (0x200010C8, s2)" by (rule sample_allocs [OF inv])
  have "unat (sizeof_TCB sample_image) + 15 < 2 ^ 32" by (simp add: sample_image_def)
  from task_create_correct [OF inv s(2) _ _ _ _ this a(1) _ a(2), of "0x08001001" 100 0] s(1)
  show ?thesis by auto
qed

theorem task_create_refuses_witness:
  "\<exists>s s'. task_init sample_image blank_kernel = Some (RTOS_OK, s)
     \<and> task_create sample_image 0x08001001 100 40000 0 s = Some (NULL, s') \<and> tcbs s' = tcbs s"
proof -
  obtain s n where s: "task_init sample_image blank_kernel = Some (RTOS_OK, s)"
    and inv: "task_inv sample_image s ((\<lambda>_. [])(7 := [0x20001008])) [0x20001008]
      ([] @ (0x20001060, 32672) # []) [(0x20001000, n)]" by (rule sample_started)
  obtain s1 where a: "heap_alloc (sizeof_TCB sample_image) s = Some (0x20001068, s1)"
    "heap_alloc ((40000 + 7) AND NOT 7) s1 = Some (0, s1)" by (rule sample_allocs [OF inv])
  have "unat (sizeof_TCB sample_image) + 15 < 2 ^ 32" by (simp add: sample_image_def)
  from task_create_refuses [OF inv this, of 40000 "0x08001001" 100 0] a s show ?thesis by auto
qed

theorem task_delete_correct_witness:
  "\<exists>s s1 s2. task_init sample_image blank_kernel = Some (RTOS_OK, s)
     \<and> task_create sample_image 0x08001001 100 512 0 s = Some (0x20001068, s1)
     \<and> task_delete 0x20001068 s1 = Some (RTOS_OK, s2) \<and> registry s2 [0x20001008]"
proof -
  obtain s n where s: "task_init sample_image blank_kernel = Some (RTOS_OK, s)" "idle_tcb s = 0x20001008"
      "current_tcb s = 0" "waits_inv s (\<lambda>_. [])"
    and inv: "task_inv sample_image s ((\<lambda>_. [])(7 := [0x20001008])) [0x20001008]
      ([] @ (0x20001060, 32672) # []) [(0x20001000, n)]" by (rule sample_started)
  obtain s1 s2 where a: "heap_alloc (sizeof_TCB sample_image) s = Some (0x20001068, s1)"
    "heap_alloc ((512 + 7) AND NOT 7) s1 = Some (0x200010C8, s2)" by (rule sample_allocs [OF inv])
  have "unat (sizeof_TCB sample_image) + 15 < 2 ^ 32" by (simp add: sample_image_def)
  note pre = inv s(4) _ _ _ _ this a(1) _ a(2)
  let ?Q = "(\<lambda>_. [])(7 := [0x20001008])" and ?b = "unat (prio_bucket_of 100)"
  obtain s3 xs3 n3 m3 where c: "task_create sample_image 0x08001001 100 512 0 s = Some (0x20001068, s3)"
      "task_inv sample_image s3 (?Q(?b := ?Q ?b @ [0x20001068])) ([0x20001008] @ [0x20001068]) xs3
         ((0x200010C8 - 8, m3) # (0x20001068 - 8, n3) # [(0x20001000, n)])" "waits_inv s3 (\<lambda>_. [])"
      "idle_tcb s3 = idle_tcb s" "current_tcb s3 = current_tcb s"
    by (rule task_create_refines [OF pre, of "0x08001001" 100 0]) simp_all
  obtain t where t: "tcbs s3 0x20001068 = Some t" using task_invD(6) [OF c(2), of "0x20001068"] by auto
  obtain s4 xs4 ys4 Q4 where "task_delete 0x20001068 s3 = Some (RTOS_OK, s4)"
    "task_inv sample_image s4 Q4 (remove1 0x20001068 ([0x20001008] @ [0x20001068])) xs4 ys4"
    using task_delete_correct [OF c(2,3) _ _ _ t] c(4,5) s(2,3) by auto
  then show ?thesis using s(1) c(1) task_invD(3) by fastforce
qed

end
