(* ===== verification/Rtos_System.thy ===== *)
theory Rtos_System
  imports Rtos_Lifecycle
begin

unbundle bit_operations_syntax

text \<open>
  The platform layer and what ties the kernel together: the SysTick handler and the clock,
  timer and priority registers of \<^verbatim>\<open>src/platform/system.c\<close>, the exception handlers of
  \<^verbatim>\<open>src/core/context_switch.s\<close>, and \<open>rtos_start\<close> of \<^verbatim>\<open>src/core/task.c\<close>. \<open>soc\<close> holds the
  memory-mapped registers, \<open>cpu\<close> the registers a context switch saves. Hardware that changes
  a polled register is the parameter \<open>hw\<close>: one step of the peripherals between two reads.
\<close>

section \<open>Registers\<close>

record soc =
  mmio32 :: "addr \<Rightarrow> u32"
  mmio8 :: "addr \<Rightarrow> u8"
  SystemCoreClock :: u32

record cpu =
  r4_r11 :: "u32 list"
  psp :: addr
  basepri :: u32

definition write32 :: "addr \<Rightarrow> u32 \<Rightarrow> soc \<Rightarrow> soc" where
  "write32 a v p = p\<lparr>mmio32 := (mmio32 p)(a := v)\<rparr>"

definition SYSTICK_CTRL :: addr where "SYSTICK_CTRL = 0xE000E010"
definition SYSTICK_LOAD :: addr where "SYSTICK_LOAD = 0xE000E014"
definition SYSTICK_VAL :: addr where "SYSTICK_VAL = 0xE000E018"
definition SCB_SHPR_BASE :: addr where "SCB_SHPR_BASE = 0xE000ED18"
definition NVIC_IPR_BASE :: addr where "NVIC_IPR_BASE = 0xE000E400"

lemmas system_regs = SYSTICK_CTRL_def SYSTICK_LOAD_def SYSTICK_VAL_def SCB_SHPR_BASE_def NVIC_IPR_BASE_def

section \<open>Clock, timer and priorities\<close>

definition SysTick_Config :: "u32 \<Rightarrow> soc \<Rightarrow> u32 \<times> soc" where
  "SysTick_Config ticks p =
     (if ticks - 1 > 0xFFFFFF then (1, p)
      else let p = write32 SYSTICK_LOAD (ticks - 1) p;
               p = write32 SYSTICK_VAL 0 p;
               p = write32 SYSTICK_CTRL (push_bit 2 1 OR push_bit 1 1 OR push_bit 0 1) p
           in (0, p))"

definition nvic_set_priority :: "int \<Rightarrow> u32 \<Rightarrow> soc \<Rightarrow> soc" where
  "nvic_set_priority irqn preempt_prio p =
     (let reg = (if irqn < 0 then SCB_SHPR_BASE + ((word_of_int irqn AND 0xF) - 4)
                 else NVIC_IPR_BASE + word_of_int irqn)
      in p\<lparr>mmio8 := (mmio8 p)(reg := ucast (preempt_prio AND 0xFF))\<rparr>)"

partial_function (option) poll :: "('p \<Rightarrow> 'p) \<Rightarrow> ('p \<Rightarrow> bool) \<Rightarrow> 'p \<Rightarrow> 'p option" where
  "poll hw ready p = (if ready p then Some p else poll hw ready (hw p))"

definition SystemInitClock :: "(soc \<Rightarrow> soc) \<Rightarrow> bool \<Rightarrow> soc \<Rightarrow> soc option" where
  "SystemInitClock hw RTOS_QEMU_BUILD p =
     (if RTOS_QEMU_BUILD then Some (p\<lparr>SystemCoreClock := 16000000\<rparr>)
      else do {
        let RCC_CR = 0x40023800;
        let RCC_PLLCFGR = 0x40023804;
        let RCC_CFGR = 0x40023808;
        let FLASH_ACR = 0x40023C00;
        let p = write32 RCC_CR (mmio32 p RCC_CR OR push_bit 16 1) p;
        p \<leftarrow> poll hw (\<lambda>p. mmio32 p RCC_CR AND push_bit 17 1 \<noteq> 0) p;
        let p = write32 FLASH_ACR (push_bit 0 5 OR push_bit 8 1 OR push_bit 9 1 OR push_bit 10 1) p;
        let p = write32 RCC_PLLCFGR (push_bit 0 8 OR push_bit 6 0 OR push_bit 6 192 OR push_bit 16 0
                                     OR push_bit 24 4 OR push_bit 22 0) p;
        let p = write32 RCC_CR (mmio32 p RCC_CR OR push_bit 24 1) p;
        p \<leftarrow> poll hw (\<lambda>p. mmio32 p RCC_CR AND push_bit 25 1 \<noteq> 0) p;
        let p = write32 RCC_CFGR (mmio32 p RCC_CFGR OR push_bit 0 2) p;
        p \<leftarrow> poll hw (\<lambda>p. mmio32 p RCC_CFGR AND push_bit 2 3 = push_bit 2 2) p;
        Some (p\<lparr>SystemCoreClock := 168000000\<rparr>)
      })"

section \<open>The SysTick handler\<close>

text \<open>\<open>True\<close>: the stack check has stopped the system inside the handler.\<close>

definition SysTick_Handler :: "callbacks \<Rightarrow> kernel \<Rightarrow> (bool \<times> kernel) option" where
  "SysTick_Handler cb s = do {
     let s = rtos_tick_increment s;
     s \<leftarrow> rtos_wake_delayed s;
     s \<leftarrow> sw_timer_tick_process cb s;
     (halted, s) \<leftarrow> rtos_stack_check_all s;
     if halted then Some (True, s)
     else do {
       s \<leftarrow> scheduler_time_slice_tick s;
       Some (False, scheduler_mark_reschedule s)
     }
   }"

section \<open>Context switch\<close>

text \<open>The last half of both handlers: \<^verbatim>\<open>ldr r2, [r0]; ldmia r2!, {r4-r11}; msr psp, r2\<close>.\<close>

definition restore_context :: "addr \<Rightarrow> cpu \<Rightarrow> kernel \<Rightarrow> cpu option" where
  "restore_context r0 c s = do {
     t \<leftarrow> get_tcb s r0;
     let r2 = stack_ptr t;
     Some (c\<lparr>r4_r11 := read_words (stack_mem s) r2 8, psp := r2 + 32\<rparr>)
   }"

definition SVC_Handler :: "cpu \<Rightarrow> kernel \<Rightarrow> (cpu \<times> kernel) option" where
  "SVC_Handler c s = do {
     (r0, s) \<leftarrow> scheduler_get_next s;
     c \<leftarrow> restore_context r0 c s;
     Some (c\<lparr>basepri := 0\<rparr>, cpsie s)
   }"

text \<open>\<^verbatim>\<open>stmdb r0!, {r4-r11}\<close> and, if there is a current task, \<^verbatim>\<open>str r0, [r2]\<close>.\<close>

definition save_context :: "cpu \<Rightarrow> kernel \<Rightarrow> kernel option" where
  "save_context c s =
     (if psp c = 0 then Some s
      else do {
        let r0 = psp c - 32;
        let s = s\<lparr>stack_mem := store_words r0 (r4_r11 c) (stack_mem s)\<rparr>;
        if current_tcb s = NULL then Some s
        else upd_tcb (current_tcb s) (\<lambda>t. t\<lparr>stack_ptr := r0\<rparr>) s
      })"

definition PendSV_Handler :: "cpu \<Rightarrow> kernel \<Rightarrow> (cpu \<times> kernel) option" where
  "PendSV_Handler c s = do {
     let s = cpsid s;
     s \<leftarrow> save_context c s;
     (r0, s) \<leftarrow> scheduler_get_next s;
     c \<leftarrow> restore_context r0 c s;
     Some (c, cpsie s)
   }"

section \<open>Starting the kernel\<close>

text \<open>A status: the call returns it. No status: the first task runs, and the call never returns.\<close>

definition rtos_start ::
    "(soc \<Rightarrow> soc) \<Rightarrow> bool \<Rightarrow> cpu \<Rightarrow> soc \<Rightarrow> kernel \<Rightarrow> (rtos_status_t option \<times> cpu \<times> soc \<times> kernel) option" where
  "rtos_start hw qemu c p s =
     (if idle_tcb s = NULL then Some (Some RTOS_ERR_STATE, c, p, s)
      else do {
        p \<leftarrow> SystemInitClock hw qemu p;
        let p = nvic_set_priority (-1) (push_bit (4 - 1) 1) p;
        let p = nvic_set_priority (-2) (push_bit 4 1 - 1) p;
        let (r, p) = SysTick_Config (SystemCoreClock p div RTOS_TICK_RATE_HZ) p;
        if r \<noteq> 0 then Some (Some RTOS_ERR_STATE, c, p, s)
        else do {
          let s = cpsie s;
          (c, s) \<leftarrow> SVC_Handler c s;
          Some (None, c, p, s)
        }
      })"

section \<open>Timer and priority registers\<close>

lemma SysTick_Config_eq:
  "SysTick_Config n p =
     (if 1 \<le> unat n \<and> unat n \<le> 2 ^ 24
      then (0, p\<lparr>mmio32 := (mmio32 p)(SYSTICK_LOAD := n - 1, SYSTICK_VAL := 0, SYSTICK_CTRL := 7)\<rparr>)
      else (1, p))"
proof (cases "n = 0")
  case True
  then show ?thesis by (simp add: SysTick_Config_def)
next
  case False
  then have "unat (n - 1) = unat n - 1" and "1 \<le> unat n" by (simp_all add: unat_minus_one Suc_le_eq unat_gt_0)
  then have "n - 1 > 0xFFFFFF \<longleftrightarrow> \<not> unat n \<le> 2 ^ 24" by (auto simp: word_less_nat_alt)
  then show ?thesis
    using \<open>1 \<le> unat n\<close> by (simp add: SysTick_Config_def Let_def write32_def)
qed

text \<open>
  Tick period. \<open>SysTick_Config\<close> accepts exactly the periods the 24-bit counter can hold; the
  period 0, whose reload value would wrap, is refused like all others without touching a
  register.
\<close>

theorem SysTick_Config_bounds:
  "SysTick_Config n p =
     (if 1 \<le> unat n \<and> unat n \<le> 2 ^ 24
      then (0, p\<lparr>mmio32 := (mmio32 p)(SYSTICK_LOAD := n - 1, SYSTICK_VAL := 0, SYSTICK_CTRL := 7)\<rparr>)
      else (1, p))"
  by (rule SysTick_Config_eq)

text \<open>
  Exception priorities. \<open>rtos_start\<close> writes 8 and 15 unshifted into the priority bytes of SysTick
  and PendSV. The four implemented priority bits are the upper ones, so both exceptions get
  priority 0: PendSV is not the lowest priority but as urgent as the tick.
\<close>

theorem start_priorities:
  "let p' = nvic_set_priority (-2) (push_bit 4 1 - 1) (nvic_set_priority (-1) (push_bit (4 - 1) 1) p)
   in mmio8 p' 0xE000ED23 = 8 \<and> mmio8 p' 0xE000ED22 = 15
    \<and> drop_bit 4 (mmio8 p' 0xE000ED23) = 0 \<and> drop_bit 4 (mmio8 p' 0xE000ED22) = 0"
  by (simp add: nvic_set_priority_def Let_def system_regs)

section \<open>The time slice\<close>

text \<open>Whatever the slice, the tick changes at most the slice counter of the running task.\<close>

lemma time_slice_refines:
  assumes inv: "sched_inv s Q" and cur: "current_ok s"
  obtains T i where "scheduler_time_slice_tick s = Some (s\<lparr>tcbs := T, icsr := i\<rparr>)"
    and "T = tcbs s \<or> (\<exists>t n. tcbs s (current_tcb s) = Some t \<and> T = (tcbs s)(current_tcb s \<mapsto> t\<lparr>time_slice_counter := n\<rparr>))"
proof -
  let ?c = "current_tcb s"
  show thesis
  proof (cases "?c = NULL \<or> ?c = idle_tcb s \<or> (\<exists>t. tcbs s ?c = Some t \<and> state t \<noteq> TASK_STATE_RUNNING)")
    case True
    then have "scheduler_time_slice_tick s = Some (s\<lparr>tcbs := tcbs s, icsr := icsr s\<rparr>)" using cur
      by (auto simp: scheduler_time_slice_tick_def Let_def current_ok_def live_tcb_def)
    then show thesis using that by blast
  next
    case False
    then obtain t where t: "tcbs s ?c = Some t" "state t = TASK_STATE_RUNNING" and nn: "?c \<noteq> NULL" "?c \<noteq> idle_tcb s"
      using cur by (auto simp: current_ok_def live_tcb_def)
    let ?s1 = "s\<lparr>tcbs := (tcbs s)(?c \<mapsto> t\<lparr>time_slice_counter := time_slice_counter t + 1\<rparr>)\<rparr>"
    let ?s2 = "s\<lparr>tcbs := (tcbs s)(?c \<mapsto> t\<lparr>time_slice_counter := 0\<rparr>)\<rparr>"
    have b: "unat (prio_bucket t) < RTOS_NUM_PRIORITIES" using inv t(1) by simp
    let ?h = "ready_head s ! unat (prio_bucket t)"
    have "?h = NULL \<or> (\<exists>h. tcbs s ?h = Some h)"
      using ring_hd [OF ready_rel_ring [OF sched_inv_rel [OF inv] b]] ready_rel_live [OF sched_inv_rel [OF inv] b]
        ready_rel_ring [OF sched_inv_rel [OF inv] b]
      by (cases "Q (unat (prio_bucket t)) = []") auto
    then obtain h where "?h = NULL \<or> get_tcb ?s1 ?h = Some h" by (cases "?h = NULL"; cases "?h = ?c") auto
    then obtain al where al: "(if ?h = NULL then Some True else do { h \<leftarrow> get_tcb ?s1 ?h; Some (next_ready h = ?h) }) = Some al"
      by (cases "?h = NULL") auto
    have "ready_rel s Q" using inv by (rule sched_inv_rel)
    then have ts: "scheduler_time_slice_tick s = Some (if time_slice_counter t + 1 < RTOS_TIME_SLICE_TICKS then ?s1
        else if al then ?s2 else ?s2\<lparr>icsr := 0x10000000\<rparr>)"
      using t nn b al by (simp add: scheduler_time_slice_tick_def Let_def scheduler_mark_reschedule_def)
    show thesis
    proof (cases "time_slice_counter t + 1 < RTOS_TIME_SLICE_TICKS")
      case True
      then show thesis using that [where T = "tcbs ?s1" and i = "icsr s"] ts t(1) by auto
    next
      case False
      then show thesis using that [where T = "tcbs ?s2" and i = "if al then icsr s else 0x10000000"] ts t(1) by auto
    qed
  qed
qed

lemma wptr_sw_timers [simp]: "wptr (s\<lparr>sw_timers := S\<rparr>) w = wptr s w" "wptr (s\<lparr>timer_list := p\<rparr>) w = wptr s w"
  by (rule wptr_cong; simp)+

lemma time_slice_keeps:
  assumes inv: "sched_inv s Q" and win: "waits_inv s W" and cur: "current_ok s"
  obtains s' where "scheduler_time_slice_tick s = Some s'" and "sched_inv s' Q" and "waits_inv s' W"
    and "s_rtos_tick_count s' = s_rtos_tick_count s" and "sw_timers s' = sw_timers s" and "timer_list s' = timer_list s"
proof (rule time_slice_refines [OF inv cur])
  fix T i
  let ?s' = "s\<lparr>tcbs := T, icsr := i\<rparr>"
  assume eq: "scheduler_time_slice_tick s = Some ?s'"
    and T: "T = tcbs s \<or> (\<exists>t n. tcbs s (current_tcb s) = Some t \<and> T = (tcbs s)(current_tcb s \<mapsto> t\<lparr>time_slice_counter := n\<rparr>))"
  have ptr: "wptr ?s' w = wptr s w" for w by (rule wptr_cong) simp_all
  have "sched_inv ?s' Q \<and> waits_inv ?s' W"
  proof (cases "T = tcbs s")
    case True
    then show ?thesis using inv waits_inv_cong [OF win ptr] by simp
  next
    case False
    then obtain t n where t: "tcbs s (current_tcb s) = Some t"
      and T: "T = (tcbs s)(current_tcb s \<mapsto> t\<lparr>time_slice_counter := n\<rparr>)" using T by blast
    have "placed Q (current_tcb s) (t\<lparr>time_slice_counter := n\<rparr>)"
      by (rule placed_states [OF sched_inv_placed [OF inv t]]) (simp_all add: runnable_def)
    then have "sched_inv (s\<lparr>tcbs := T\<rparr>) Q" unfolding T by (intro sched_inv_tcb_upd [OF inv t]) simp
    moreover have "wait_link T = wait_link (tcbs s)" unfolding T using t by (auto simp: wait_link_def)
    then have "waiters_of ?s' w (W w)" if "wptr s w \<noteq> None" for w
      using waiters_of_cong [OF waits_inv_list [OF win that] ptr] by simp
    moreover have "(\<exists>u. T a = Some u \<and> blocked_on u = Some w) \<longleftrightarrow> (\<exists>u. tcbs s a = Some u \<and> blocked_on u = Some w)" for a w
      unfolding T using t by (auto simp: blocked_on_def wait_obj_of_def split: block_reason_t.split)
    ultimately show ?thesis using win ptr by (simp add: waits_inv_def)
  qed
  then show thesis using that [OF eq] by simp
qed

section \<open>The timers on a tick\<close>

text \<open>A property that the timer fields do not affect and the callbacks keep holds through the loop.\<close>

lemma upd_timer_keeps:
  assumes "upd_timer a f s = Some s'" and "P s" and "\<And>s S. P s \<Longrightarrow> P (s\<lparr>sw_timers := S\<rparr>)"
  shows "P s'"
  using assms by (auto simp: upd_timer_def bind_eq_Some_conv split: if_splits)

lemma fire_timer_keeps:
  assumes fire: "fire_timer cb now s = Some s'" and P: "P s"
    and S: "\<And>s S. P s \<Longrightarrow> P (s\<lparr>sw_timers := S\<rparr>)" and L: "\<And>s p. P s \<Longrightarrow> P (s\<lparr>timer_list := p\<rparr>)"
    and cb: "\<And>f arg s s'. cb f arg s = Some s' \<Longrightarrow> P s \<Longrightarrow> P s'"
  shows "P s'"
proof -
  note upd = upd_timer_keeps [where P = P, OF _ _ S]
  have ins: "P s2" if "insert_sorted t s1 = Some s2" "P s1" for t s1 s2
    using that by (auto simp: insert_sorted_def Let_def bind_eq_Some_conv split: if_splits intro: L upd)
  from fire obtain x s1 s2 and y z :: sw_timer_t where s1: "upd_timer (timer_list s) (\<lambda>x. x\<lparr>next_timer := NULL\<rparr>) (s\<lparr>timer_list := x\<rparr>) = Some s1"
    and s2: "(if callback y \<noteq> NULL then cb (callback y) (callback_arg y) s1 else Some s1) = Some s2"
    and s': "(if periodic z then do {
        s3 \<leftarrow> upd_timer (timer_list s) (\<lambda>x. x\<lparr>expiry_tick := now + period_ticks x, next_timer := NULL\<rparr>) s2;
        insert_sorted (timer_list s) s3 } else upd_timer (timer_list s) (\<lambda>x. x\<lparr>active := False\<rparr>) s2) = Some s'"
    unfolding fire_timer_def Let_def bind_eq_Some_conv option.inject prod.inject by blast
  have "P s1" using s1 L [OF P] by (rule upd)
  then have "P s2" using s2 by (auto split: if_splits dest: cb)
  then show ?thesis using s' by (auto simp: bind_eq_Some_conv split: if_splits dest: upd ins)
qed

lemma tick_loop_keeps:
  assumes run: "tick_loop cb now s = Some s'" and P: "P s"
    and S: "\<And>s S. P s \<Longrightarrow> P (s\<lparr>sw_timers := S\<rparr>)" and L: "\<And>s p. P s \<Longrightarrow> P (s\<lparr>timer_list := p\<rparr>)"
    and cb: "\<And>f arg s s'. cb f arg s = Some s' \<Longrightarrow> P s \<Longrightarrow> P s'"
  shows "P s'"
proof -
  have "cb = cb \<longrightarrow> P s \<longrightarrow> P s'"
  proof (rule tick_loop.raw_induct [OF _ run, of "\<lambda>cb' now s r. cb' = cb \<longrightarrow> P s \<longrightarrow> P r"])
    fix tl cb' now s r
    assume IH: "\<And>cb' now s r. tl cb' now s = Some r \<Longrightarrow> cb' = cb \<longrightarrow> P s \<longrightarrow> P r"
      and eq: "do { due \<leftarrow> timer_due now s;
        if due then do { s \<leftarrow> fire_timer cb' now s; tl cb' now s } else Some s } = Some r"
    show "cb' = cb \<longrightarrow> P s \<longrightarrow> P r"
    proof (intro impI)
      assume cb': "cb' = cb" and "P s"
      then have "P s1" if "fire_timer cb' now s = Some s1" for s1
        using fire_timer_keeps [where P = P, OF that [unfolded cb'] _ S L cb] by simp
      then show "P r" using eq IH cb' \<open>P s\<close> by (fastforce simp: bind_eq_Some_conv split: if_splits)
    qed
  qed
  with P show ?thesis by simp
qed

text \<open>Callbacks that return and change application data only.\<close>

definition user_callbacks :: "callbacks \<Rightarrow> bool" where
  "user_callbacks cb \<longleftrightarrow> (\<forall>f arg s. \<exists>M. cb f arg s = Some (s\<lparr>ram := M\<rparr>))"

definition timer_step :: "kernel \<Rightarrow> kernel \<Rightarrow> bool" where
  "timer_step s s' \<longleftrightarrow> (\<exists>S M p. s' = s\<lparr>sw_timers := S, ram := M, timer_list := p\<rparr>)"

lemma user_callbacks_quiet: "user_callbacks cb \<Longrightarrow> quiet_callbacks cb"
  unfolding user_callbacks_def quiet_callbacks_def
proof (intro allI)
  fix f arg s
  assume "\<forall>f arg s. \<exists>M. cb f arg s = Some (s\<lparr>ram := M\<rparr>)"
  then obtain M where "cb f arg s = Some (s\<lparr>ram := M\<rparr>)" by blast
  then show "\<exists>s'. cb f arg s = Some s' \<and> sw_timers s' = sw_timers s \<and> timer_list s' = timer_list s" by simp
qed

lemma timer_step_refl: "timer_step s s"
  unfolding timer_step_def by (intro exI [of _ "sw_timers s"] exI [of _ "ram s"] exI [of _ "timer_list s"]) simp

lemma timer_step_upd:
  "timer_step s s' \<Longrightarrow> timer_step s (s'\<lparr>sw_timers := S\<rparr>)" "timer_step s s' \<Longrightarrow> timer_step s (s'\<lparr>timer_list := p\<rparr>)"
  "timer_step s s' \<Longrightarrow> timer_step s (s'\<lparr>ram := M\<rparr>)"
  unfolding timer_step_def by (elim exE, simp, blast)+

lemma tick_loop_timer_step:
  assumes "user_callbacks cb" and "tick_loop cb now s = Some s'"
  shows "timer_step s s'"
proof (rule tick_loop_keeps [OF assms(2), where P = "timer_step s"])
  show "timer_step s s2" if "cb f arg s1 = Some s2" "timer_step s s1" for f arg s1 s2
  proof -
    obtain M where "cb f arg s1 = Some (s1\<lparr>ram := M\<rparr>)" using assms(1) unfolding user_callbacks_def by blast
    then show ?thesis using that timer_step_upd(3) by simp
  qed
qed (auto intro: timer_step_refl timer_step_upd)

lemma timer_step_sel:
  assumes "timer_step s s'"
  shows "tcbs s' = tcbs s" "ready_head s' = ready_head s" "mutexes s' = mutexes s" "semaphores s' = semaphores s"
    "msg_queues s' = msg_queues s" "current_tcb s' = current_tcb s" "idle_tcb s' = idle_tcb s"
    "task_registry s' = task_registry s" "task_registry_count s' = task_registry_count s"
    "s_rtos_tick_count s' = s_rtos_tick_count s" "stack_mem s' = stack_mem s"
  using assms by (auto simp: timer_step_def)

section \<open>One tick of the system\<close>

lemma stack_intact_wake:
  assumes same: "same_but_links (wake_tcbs now s R) (tcbs s')" and M: "stack_mem s' = stack_mem s"
  shows "stack_intact s' a = stack_intact s a"
proof (cases "tcbs s a")
  case None
  then have "tcbs s' a = None" using same_but_links_None [OF same, of a] by (simp add: wake_tcbs_def)
  then show ?thesis using None by (simp add: stack_intact_def)
next
  case (Some t)
  have "stack_base (tick_woken t) = stack_base t"
    by (simp add: tick_woken_def woken_def mutex_timed_out_def sem_timed_out_def split: block_reason_t.split)
  with Some obtain u where u: "wake_tcbs now s R a = Some u" "stack_base u = stack_base t"
    by (cases "a \<in> set R \<and> due now s a") (auto simp: wake_tcbs_def)
  obtain r w where "tcbs s' a = Some (u\<lparr>next_ready := r, mutex_wait_next := w\<rparr>)"
    by (rule same_but_links_Some [OF same u(1)])
  then show ?thesis using Some u(2) M by (simp add: stack_intact_def)
qed

text \<open>The first half: the tick count, the wake-ups and the timers.\<close>

lemma tick_wakes:
  assumes inv: "sched_inv s Q" and win: "waits_inv s W" and reg: "registry s R" "distinct R"
    and live: "\<forall>a \<in> set R. tcbs s a \<noteq> None" and cur: "current_ok s"
    and cb: "user_callbacks cb" and tm: "timers s xs" and now: "now = s_rtos_tick_count s + 1"
    and re: "\<forall>a \<in> set xs. \<forall>x. sw_timers s a = Some x \<longrightarrow> rearm_ok now x"
  obtains s1 s2 zs where "rtos_wake_delayed (rtos_tick_increment s) = Some s1"
    and "sw_timer_tick_process cb s1 = Some s2"
    and "timers s2 zs" and "\<forall>a \<in> set zs. now < expiry_at (sw_timers s2) a"
    and "sched_inv s2 (wake_ready now s R Q)" and "waits_inv s2 (wake_waits now s R W)"
    and "current_ok s2" and "s_rtos_tick_count s2 = now" and "registry s2 R" and "\<forall>a \<in> set R. tcbs s2 a \<noteq> None"
    and "\<forall>a. stack_intact s2 a = stack_intact s a"
proof -
  let ?s0 = "s\<lparr>s_rtos_tick_count := now\<rparr>"
  have s0: "rtos_tick_increment s = ?s0" by (simp add: rtos_tick_increment_def now)
  have win0: "waits_inv ?s0 W" by (rule waits_inv_cong [OF win wptr_cong]) simp_all
  have reg0: "registry ?s0 R" by (rule registry_cong [OF reg(1)]) simp_all
  obtain s1 where s1: "rtos_wake_delayed ?s0 = Some s1" "sched_inv s1 (wake_ready now s R Q)"
      "waits_inv s1 (wake_waits now s R W)"
    and links: "same_but_links (wake_tcbs now s R) (tcbs s1)" and cs: "calm s1 = calm ?s0"
    using wake_loop_refines [of ?s0 Q W 0 "unat (task_registry_count s)" R now] inv win0 reg reg0 live
    by (auto simp: rtos_wake_delayed_def registry_def)
  note c = calm_sel [OF cs, simplified]
  have none: "tcbs s1 a = None \<longleftrightarrow> tcbs s a = None" for a
    using same_but_links_None [OF links, of a] by (simp add: wake_tcbs_def)
  have tm1: "timers s1 xs" using tm c by (simp add: timers_def)
  obtain s2 zs where s2: "sw_timer_tick_process cb s1 = Some s2" "timers s2 zs"
      "\<forall>a \<in> set zs. now < expiry_at (sw_timers s2) a"
    using tick_fires [OF user_callbacks_quiet [OF cb] tm1, of now] re c by auto
  have "timer_step s1 s2" using s2(1) by (intro tick_loop_timer_step [OF cb]) (simp add: sw_timer_tick_process_def)
  note t = timer_step_sel [OF this]
  show thesis
  proof (rule that [OF _ s2])
    show "rtos_wake_delayed (rtos_tick_increment s) = Some s1" using s1(1) s0 by simp
    show "sched_inv s2 (wake_ready now s R Q)" using s1(2) sched_inv_cong [OF t(1,2)] by simp
    show "waits_inv s2 (wake_waits now s R W)" by (rule waits_inv_cong [OF s1(3) wptr_cong]) (simp_all add: t)
    show "s_rtos_tick_count s2 = now" using t c by simp
    show "current_ok s2" using cur none by (simp add: current_ok_def live_tcb_def t c)
    show "registry s2 R" by (rule registry_cong [OF reg(1)]) (simp_all add: t c)
    show "\<forall>a \<in> set R. tcbs s2 a \<noteq> None" using live none t by simp
    show "\<forall>a. stack_intact s2 a = stack_intact s a"
      using stack_intact_wake [OF links c(7)] by (simp add: stack_intact_def t cong: option.case_cong)
  qed
qed

text \<open>
  C6. One tick. If the kernel invariants hold, no re-armed timer passes the end of the tick count
  and the timer callbacks change application data only, \<open>SysTick_Handler\<close> returns: the tick
  count has advanced by one, exactly the overdue tasks have joined the ends of their ready
  rings and left their wait lists, every timer left in the list is still to come, the
  invariants hold and a context switch is requested. The one exception is a damaged stack
  canary, which stops the system after the timers.
\<close>

theorem SysTick_Handler_correct:
  assumes inv: "sched_inv s Q" and win: "waits_inv s W" and reg: "registry s R" "distinct R"
    and live: "\<forall>a \<in> set R. tcbs s a \<noteq> None" and cur: "current_ok s"
    and cb: "user_callbacks cb" and tm: "timers s xs" and now: "now = s_rtos_tick_count s + 1"
    and re: "\<forall>a \<in> set xs. \<forall>x. sw_timers s a = Some x \<longrightarrow> rearm_ok now x"
  shows "\<exists>halted s' zs. SysTick_Handler cb s = Some (halted, s')
    \<and> (halted \<longleftrightarrow> (\<exists>a \<in> set R. \<not> stack_intact s a)) \<and> s_rtos_tick_count s' = now
    \<and> sched_inv s' (wake_ready now s R Q) \<and> waits_inv s' (wake_waits now s R W)
    \<and> timers s' zs \<and> (\<forall>a \<in> set zs. now < expiry_at (sw_timers s') a)
    \<and> (\<not> halted \<longrightarrow> icsr s' = push_bit 28 1)"
proof -
  obtain s1 s2 zs where s1: "rtos_wake_delayed (rtos_tick_increment s) = Some s1"
    and s2: "sw_timer_tick_process cb s1 = Some s2" "timers s2 zs" "\<forall>a \<in> set zs. now < expiry_at (sw_timers s2) a"
    and inv2: "sched_inv s2 (wake_ready now s R Q)" "waits_inv s2 (wake_waits now s R W)" "current_ok s2"
    and n2: "s_rtos_tick_count s2 = now" and reg2: "registry s2 R" "\<forall>a \<in> set R. tcbs s2 a \<noteq> None"
    and int: "\<forall>a. stack_intact s2 a = stack_intact s a"
    by (rule tick_wakes [OF assms])
  have "\<forall>a \<in> set R. a \<noteq> NULL \<and> tcbs s2 a \<noteq> None" using reg2(2) sched_inv_nonnull [OF inv2(1)] by blast
  note chk = stack_check_all_eq [OF reg2(1) this]
  show ?thesis
  proof (cases "\<forall>a \<in> set R. stack_intact s2 a")
    case True
    then have dw: "dropWhile (stack_intact s2) R = []" by simp
    have "rtos_stack_check_all s2 = Some (False, s2)" unfolding chk dw by simp
    moreover obtain s3 where s3: "scheduler_time_slice_tick s2 = Some s3" "sched_inv s3 (wake_ready now s R Q)"
        "waits_inv s3 (wake_waits now s R W)" "s_rtos_tick_count s3 = s_rtos_tick_count s2"
        "sw_timers s3 = sw_timers s2" "timer_list s3 = timer_list s2"
      by (rule time_slice_keeps [OF inv2])
    ultimately have "SysTick_Handler cb s = Some (False, s3\<lparr>icsr := push_bit 28 1\<rparr>)"
      using s1 s2(1) by (simp add: SysTick_Handler_def Let_def scheduler_mark_reschedule_def)
    moreover have "waits_inv (s3\<lparr>icsr := push_bit 28 1\<rparr>) (wake_waits now s R W)"
      by (rule waits_inv_cong [OF s3(3) wptr_cong]) simp_all
    moreover have "timers (s3\<lparr>icsr := push_bit 28 1\<rparr>) zs" using s2(2) s3 by (simp add: timers_def)
    ultimately show ?thesis using True int s2(3) s3 n2
      by (intro exI [of _ False] exI [of _ "s3\<lparr>icsr := push_bit 28 1\<rparr>"] exI [of _ zs]) simp
  next
    case False
    then obtain a as where "dropWhile (stack_intact s2) R = a # as"
      by (cases "dropWhile (stack_intact s2) R") (simp_all add: dropWhile_eq_Nil_conv)
    then obtain n v where halt: "rtos_stack_check_all s2 =
        Some (True, s2\<lparr>g_rtos_stack_overflow_task_name := n, g_rtos_stack_overflow_canary := v\<rparr>)" (is "_ = Some (True, ?s3)")
      unfolding chk by simp
    have "SysTick_Handler cb s = Some (True, ?s3)" using s1 s2(1) halt by (simp add: SysTick_Handler_def Let_def)
    moreover have "sched_inv ?s3 (wake_ready now s R Q)" using inv2(1) sched_inv_cong [of ?s3 s2] by simp
    moreover have "waits_inv ?s3 (wake_waits now s R W)" by (rule waits_inv_cong [OF inv2(2) wptr_cong]) simp_all
    moreover have "timers ?s3 zs" using s2(2) by (simp add: timers_def)
    ultimately show ?thesis using False int s2(3) n2
      by (intro exI [of _ True] exI [of _ ?s3] exI [of _ zs]) simp
  qed
qed

definition tick_ready :: kernel where
  "tick_ready = tick_sample\<lparr>stack_mem := (\<lambda>_. RTOS_STACK_CANARY)\<rparr>"

lemma idle_callbacks_user: "user_callbacks idle_callbacks"
  unfolding user_callbacks_def
proof (intro allI)
  show "\<exists>M. idle_callbacks f arg s = Some (s\<lparr>ram := M\<rparr>)" for f arg s
    by (intro exI [of _ "ram s"]) (simp add: idle_callbacks_def)
qed

lemma tick_ready_pre:
  "sched_inv tick_ready tick_sample_queues" "waits_inv tick_ready tick_sample_waits"
  "registry tick_ready [64, 16, 32, 48]" "distinct [64, 16, 32, 48 :: addr]"
  "\<forall>a \<in> set [64, 16, 32, 48]. tcbs tick_ready a \<noteq> None" "current_ok tick_ready" "timers tick_ready []"
  "s_rtos_tick_count tick_ready = 7" "\<forall>a \<in> set [64, 16, 32, 48]. stack_intact tick_ready a"
proof -
  have eq: "tcbs tick_ready = tcbs tick_sample" "ready_head tick_ready = ready_head tick_sample"
    "task_registry tick_ready = task_registry tick_sample"
    "task_registry_count tick_ready = task_registry_count tick_sample" "mutexes tick_ready = mutexes tick_sample"
    "semaphores tick_ready = semaphores tick_sample" "msg_queues tick_ready = msg_queues tick_sample"
    "current_tcb tick_ready = current_tcb tick_sample" by (simp_all add: tick_ready_def)
  show "sched_inv tick_ready tick_sample_queues" using tick_sample_inv sched_inv_cong [OF eq(1,2)] by simp
  show "waits_inv tick_ready tick_sample_waits" by (rule waits_inv_cong [OF tick_sample_waits_inv wptr_cong]) (simp_all add: eq)
  show "registry tick_ready [64, 16, 32, 48]" by (rule registry_cong [OF tick_sample_sel(1) eq(3,4)])
  show "\<forall>a \<in> set [64, 16, 32, 48]. tcbs tick_ready a \<noteq> None" using tick_sample_sel(5) unfolding eq by blast
  show "current_ok tick_ready" using tick_sample_sel(2,6) by (simp add: current_ok_def live_tcb_def eq)
  show "timers tick_ready []" by (simp add: timers_def timer_chain_def tick_ready_def tick_sample_def blank_kernel_def)
  show "s_rtos_tick_count tick_ready = 7" by (simp add: tick_ready_def tick_sample_sel)
  show "\<forall>a \<in> set [64, 16, 32, 48]. stack_intact tick_ready a"
    by (simp add: stack_intact_def tick_ready_def split: option.split)
qed simp

theorem SysTick_Handler_correct_witness:
  "\<exists>s'. SysTick_Handler idle_callbacks tick_ready = Some (False, s') \<and> s_rtos_tick_count s' = 8
     \<and> sched_inv s' (tick_sample_queues(2 := [32], 3 := [48])) \<and> icsr s' = push_bit 28 1"
proof -
  have "due 8 tick_ready 32" "due 8 tick_ready 48" "\<not> due 8 tick_ready 16" "\<not> due 8 tick_ready 64"
    "bucket_at tick_ready 32 = 2" "bucket_at tick_ready 48 = 3"
    by (simp_all add: due_def overdue_def bucket_at_def tick_ready_def tick_sample_def prio_bucket_of_eval)
  then have "wake_ready 8 tick_ready [64, 16, 32, 48] tick_sample_queues = tick_sample_queues(2 := [32], 3 := [48])"
    by (auto simp: wake_ready_def tick_sample_queues_def)
  then show ?thesis
    using SysTick_Handler_correct [OF tick_ready_pre(1-6) idle_callbacks_user tick_ready_pre(7), of 8]
      tick_ready_pre(8,9) by auto
qed

end
