(* ===== verification/Rtos_Context.thy ===== *)
theory Rtos_Context
  imports Rtos_System
begin

unbundle bit_operations_syntax

text \<open>
  The context switch as a whole: what \<open>PendSV_Handler\<close> saves of the interrupted task, what it
  loads of the next one, that a task gets its registers back when it runs again, and the
  first dispatch by \<open>rtos_start\<close>, with the clock set-up before it.
\<close>

section \<open>The dispatch and the stacks\<close>

text \<open>Selecting a task touches no stack pointer and no stack.\<close>

definition saved_sp :: "kernel \<Rightarrow> addr \<rightharpoonup> addr" where
  "saved_sp s = (\<lambda>a. map_option stack_ptr (tcbs s a))"

lemma upd_tcb_sp:
  assumes "upd_tcb a f s = Some s'" and f: "\<And>t. stack_ptr (f t) = stack_ptr t"
  shows "saved_sp s' = saved_sp s \<and> stack_mem s' = stack_mem s"
proof -
  obtain t where t: "tcbs s a = Some t" and s': "s' = s\<lparr>tcbs := (tcbs s)(a \<mapsto> f t)\<rparr>"
    using assms(1) by (auto simp: upd_tcb_def modify_eq_Some_iff)
  show ?thesis unfolding s' using t f by (auto simp: saved_sp_def)
qed

lemma saved_sp_more [simp]:
  "saved_sp (s\<lparr>current_tcb := c\<rparr>) = saved_sp s" "saved_sp (s\<lparr>ready_head := rh\<rparr>) = saved_sp s"
  "saved_sp (s\<lparr>primask := m\<rparr>) = saved_sp s" "saved_sp (s\<lparr>stack_mem := M\<rparr>) = saved_sp s"
  by (simp_all add: saved_sp_def)

lemma saved_sp_upd [simp]: "saved_sp (s\<lparr>tcbs := (tcbs s)(a \<mapsto> t)\<rparr>) = (saved_sp s)(a \<mapsto> stack_ptr t)"
  by (auto simp: saved_sp_def)

lemma get_next_sp:
  assumes "scheduler_get_next s = Some (sel, s')"
  shows "saved_sp s' = saved_sp s" and "stack_mem s' = stack_mem s" and "sel = current_tcb s'"
proof -
  obtain s1 where s1: "(if current_tcb s \<noteq> NULL then do {
        t \<leftarrow> get_tcb s (current_tcb s);
        if state t = TASK_STATE_RUNNING then upd_tcb (current_tcb s) (\<lambda>t. t\<lparr>state := TASK_STATE_READY\<rparr>) s else Some s
      } else Some s) = Some s1"
    and rest: "(case scan_ready (ready_head s1) 0 of
       Some p \<Rightarrow> do {
         sel \<leftarrow> arr_get (ready_head s1) p;
         t \<leftarrow> get_tcb s1 sel;
         rh \<leftarrow> arr_set p (next_ready t) (ready_head s1);
         s \<leftarrow> upd_tcb sel (\<lambda>t. t\<lparr>state := TASK_STATE_RUNNING, time_slice_counter := 0\<rparr>) (s1\<lparr>ready_head := rh\<rparr>);
         Some (sel, s\<lparr>current_tcb := sel\<rparr>)
       }
     | None \<Rightarrow> if idle_tcb s1 \<noteq> NULL then do {
           s \<leftarrow> upd_tcb (idle_tcb s1) (\<lambda>t. t\<lparr>state := TASK_STATE_RUNNING, time_slice_counter := 0\<rparr>) s1;
           Some (idle_tcb s, s\<lparr>current_tcb := idle_tcb s\<rparr>)
         } else None) = Some (sel, s')"
    using bind_eq_Some_conv [THEN iffD1, OF assms [unfolded scheduler_get_next_def Let_def]] by blast
  have "saved_sp s1 = saved_sp s \<and> stack_mem s1 = stack_mem s"
    using s1 by (auto simp: bind_eq_Some_conv split: if_splits dest!: upd_tcb_sp)
  moreover have "saved_sp s' = saved_sp s1 \<and> stack_mem s' = stack_mem s1 \<and> sel = current_tcb s'"
    using rest by (cases "scan_ready (ready_head s1) 0") (auto simp: bind_eq_Some_conv split: if_splits dest!: upd_tcb_sp)
  ultimately show "saved_sp s' = saved_sp s" "stack_mem s' = stack_mem s" "sel = current_tcb s'" by simp_all
qed

lemma restore_context_eq:
  assumes "saved_sp s a = Some sp" and "a \<noteq> NULL"
  shows "restore_context a c s = Some (c\<lparr>r4_r11 := read_words (stack_mem s) sp 8, psp := sp + 32\<rparr>)"
  using assms by (auto simp: restore_context_def saved_sp_def Let_def)

lemma restore_contextD:
  assumes "restore_context a c s = Some c'"
  obtains sp where "saved_sp s a = Some sp" and "c' = c\<lparr>r4_r11 := read_words (stack_mem s) sp 8, psp := sp + 32\<rparr>"
  using assms by (auto simp: restore_context_def saved_sp_def Let_def bind_eq_Some_conv get_tcb_def fetch_def split: if_splits)

lemma save_context_eq:
  assumes "tcbs s (current_tcb s) = Some t" and "current_tcb s \<noteq> NULL" and "psp c \<noteq> 0"
  shows "save_context c s = Some (s\<lparr>tcbs := (tcbs s)(current_tcb s \<mapsto> t\<lparr>stack_ptr := psp c - 32\<rparr>),
      stack_mem := store_words (psp c - 32) (r4_r11 c) (stack_mem s)\<rparr>)"
  using assms by (simp add: save_context_def Let_def)

text \<open>The eight words of a saved frame.\<close>

definition frame_at :: "addr \<Rightarrow> addr set" where
  "frame_at sp = (\<lambda>i. sp + 4 * of_nat i) ` {..<8}"

lemma read_words_frame:
  "\<forall>a \<in> frame_at sp. M' a = M a \<Longrightarrow> read_words M' sp 8 = read_words M sp 8"
  by (simp add: read_words_def frame_at_def)

lemma store_words_frame: "length ws = 8 \<Longrightarrow> a \<notin> frame_at sp \<Longrightarrow> store_words sp ws M a = M a"
  by (rule store_words_other) (auto simp: frame_at_def)

text \<open>What a switch leaves in memory, whatever task it selects.\<close>

lemma PendSV_saves:
  assumes run: "PendSV_Handler c s = Some (c', s')" and t: "tcbs s a = Some t"
    and cur: "current_tcb s = a" "a \<noteq> NULL" and c: "psp c \<noteq> 0"
  obtains sp where "saved_sp s' = (saved_sp s)(a \<mapsto> psp c - 32)"
    and "stack_mem s' = store_words (psp c - 32) (r4_r11 c) (stack_mem s)"
    and "saved_sp s' (current_tcb s') = Some sp" and "r4_r11 c' = read_words (stack_mem s') sp 8" and "psp c' = sp + 32"
proof -
  define s1 where "s1 = s\<lparr>tcbs := (tcbs s)(a \<mapsto> t\<lparr>stack_ptr := psp c - 32\<rparr>),
      stack_mem := store_words (psp c - 32) (r4_r11 c) (stack_mem s), primask := True\<rparr>"
  have "save_context c (cpsid s) = Some s1" unfolding s1_def using save_context_eq [of "cpsid s" t c] t cur c by (simp add: cpsid_def)
  then obtain r0 s2 where s2: "scheduler_get_next s1 = Some (r0, s2)" and re: "restore_context r0 c s2 = Some c'"
    and s': "s' = cpsie s2"
    using run by (auto simp: PendSV_Handler_def Let_def bind_eq_Some_conv)
  note g = get_next_sp [OF s2]
  have same: "saved_sp s' = saved_sp s2" "stack_mem s' = stack_mem s2" "current_tcb s' = current_tcb s2"
    by (simp_all add: s' cpsie_def)
  have one: "saved_sp s1 = (saved_sp s)(a \<mapsto> psp c - 32)" "stack_mem s1 = store_words (psp c - 32) (r4_r11 c) (stack_mem s)"
    by (simp_all add: s1_def)
  obtain sp where sp: "saved_sp s2 r0 = Some sp" and c': "c' = c\<lparr>r4_r11 := read_words (stack_mem s2) sp 8, psp := sp + 32\<rparr>"
    by (rule restore_contextD [OF re])
  show thesis
  proof (rule that)
    show "saved_sp s' = (saved_sp s)(a \<mapsto> psp c - 32)" unfolding same g one ..
    show "stack_mem s' = store_words (psp c - 32) (r4_r11 c) (stack_mem s)" unfolding same g one ..
    show "saved_sp s' (current_tcb s') = Some sp" using sp unfolding same g(3) .
  qed (simp_all add: c' same)
qed

text \<open>
  C7. Context switch. If some task is ready, \<open>PendSV_Handler\<close> stores the eight callee-saved
  registers below the process stack pointer of the interrupted task, records the new top of
  its stack in its control block, makes the first task of the highest non-empty ready ring
  the running one and loads that task's registers and stack pointer. No other stack and no
  other saved stack pointer changes, and the scheduler invariant holds.
\<close>

theorem PendSV_switches:
  assumes inv: "sched_inv s Q" and t: "tcbs s a = Some t" and cur: "current_tcb s = a"
    and c: "psp c \<noteq> 0" "length (r4_r11 c) = 8" and q: "queued Q \<noteq> {}"
  shows "\<exists>p sel sp c' s'. PendSV_Handler c s = Some (c', s')
    \<and> p < RTOS_NUM_PRIORITIES \<and> Q p \<noteq> [] \<and> (\<forall>q < p. Q q = []) \<and> sel = hd (Q p) \<and> current_tcb s' = sel
    \<and> sched_inv s' (Q(p := rotate1 (Q p)))
    \<and> saved_sp s' = (saved_sp s)(a \<mapsto> psp c - 32) \<and> read_words (stack_mem s') (psp c - 32) 8 = r4_r11 c
    \<and> (\<forall>x. x \<notin> frame_at (psp c - 32) \<longrightarrow> stack_mem s' x = stack_mem s x)
    \<and> saved_sp s' sel = Some sp \<and> r4_r11 c' = read_words (stack_mem s') sp 8 \<and> psp c' = sp + 32
    \<and> basepri c' = basepri c"
proof -
  have nn: "a \<noteq> NULL" using inv t by (rule sched_inv_nonnull)
  let ?u = "t\<lparr>stack_ptr := psp c - 32\<rparr>"
  let ?s1 = "s\<lparr>tcbs := (tcbs s)(a \<mapsto> ?u), stack_mem := store_words (psp c - 32) (r4_r11 c) (stack_mem s), primask := True\<rparr>"
  have save: "save_context c (cpsid s) = Some ?s1"
    using save_context_eq [of "cpsid s" t c] t cur nn c by (simp add: cpsid_def)
  have "placed Q a ?u" by (rule placed_states [OF sched_inv_placed [OF inv t]]) (simp_all add: runnable_def)
  then have "sched_inv (s\<lparr>tcbs := (tcbs s)(a \<mapsto> ?u)\<rparr>) Q" by (intro sched_inv_tcb_upd [OF inv t]) simp
  then have inv1: "sched_inv ?s1 Q" using sched_inv_cong [of ?s1 "s\<lparr>tcbs := (tcbs s)(a \<mapsto> ?u)\<rparr>"] by simp
  have ok1: "current_ok ?s1" using cur nn by (simp add: current_ok_def live_tcb_def)
  obtain p where p: "p < RTOS_NUM_PRIORITIES" "Q p \<noteq> []" "\<forall>q < p. Q q = []"
    using least_bucket [OF sched_inv_rel [OF inv] q] by blast
  obtain s2 where s2: "scheduler_get_next ?s1 = Some (hd (Q p), s2)" "sched_inv s2 (Q(p := rotate1 (Q p)))"
      "current_tcb s2 = hd (Q p)"
    by (rule get_next_inv [OF inv1 ok1 p])
  have sel: "hd (Q p) \<noteq> NULL" "tcbs s (hd (Q p)) \<noteq> None"
    using ready_rel_live [OF sched_inv_rel [OF inv] p(1)] ready_rel_ring [OF sched_inv_rel [OF inv] p(1)] p(2) by auto
  have sp1: "saved_sp ?s1 = (saved_sp s)(a \<mapsto> psp c - 32)" by (auto simp: saved_sp_def)
  obtain sp where sp: "saved_sp s2 (hd (Q p)) = Some sp"
    using sel(2) unfolding get_next_sp(1) [OF s2(1)] sp1 by (cases "hd (Q p) = a") (auto simp: saved_sp_def)
  let ?c' = "c\<lparr>r4_r11 := read_words (stack_mem s2) sp 8, psp := sp + 32\<rparr>" and ?s' = "cpsie s2"
  have run: "PendSV_Handler c s = Some (?c', ?s')"
    using save s2(1) restore_context_eq [OF sp sel(1), of c] by (simp add: PendSV_Handler_def Let_def)
  have same: "saved_sp ?s' = (saved_sp s)(a \<mapsto> psp c - 32)" "current_tcb ?s' = hd (Q p)"
    "stack_mem ?s' = store_words (psp c - 32) (r4_r11 c) (stack_mem s)" "stack_mem s2 = stack_mem ?s'"
    using get_next_sp [OF s2(1)] sp1 s2(3) by (auto simp: cpsie_def saved_sp_def)
  have "sched_inv ?s' (Q(p := rotate1 (Q p)))" using s2(2) by (simp add: cpsie_def)
  moreover have "read_words (stack_mem ?s') (psp c - 32) 8 = r4_r11 c" using read_store_words [of 8 "r4_r11 c"] c(2) same(3) by simp
  moreover have "\<forall>x. x \<notin> frame_at (psp c - 32) \<longrightarrow> stack_mem ?s' x = stack_mem s x"
    unfolding same(3) using store_words_frame [OF c(2)] by blast
  moreover have "saved_sp ?s' (hd (Q p)) = Some sp" using sp by (simp add: cpsie_def saved_sp_def)
  ultimately show ?thesis using run p same
    by (intro exI [of _ p] exI [of _ "hd (Q p)"] exI [of _ sp] exI [of _ ?c'] exI [of _ ?s']) simp
qed

text \<open>
  C20. A task gets its registers back. Let a task be interrupted, and let the processor later
  switch from another task back to it. If nobody wrote to its saved frame or its saved stack
  pointer in between and the other task's frame lies elsewhere, the callee-saved registers and
  the process stack pointer are exactly those of the interruption.
\<close>

theorem context_switch_roundtrip:
  assumes out: "PendSV_Handler c s = Some (c1, s1)" "tcbs s a = Some t" "current_tcb s = a" "a \<noteq> NULL"
    and c: "psp c \<noteq> 0" "length (r4_r11 c) = 8"
    and kept: "saved_sp s2 a = saved_sp s1 a" "\<forall>x \<in> frame_at (psp c - 32). stack_mem s2 x = stack_mem s1 x"
    and later: "PendSV_Handler c2 s2 = Some (c3, s3)" "tcbs s2 b = Some u" "current_tcb s2 = b" "b \<noteq> NULL"
    and c2: "psp c2 \<noteq> 0" "length (r4_r11 c2) = 8"
    and other: "b \<noteq> a" "frame_at (psp c - 32) \<inter> frame_at (psp c2 - 32) = {}"
    and again: "current_tcb s3 = a"
  shows "r4_r11 c3 = r4_r11 c \<and> psp c3 = psp c"
proof -
  obtain sp where s1: "saved_sp s1 = (saved_sp s)(a \<mapsto> psp c - 32)"
      "stack_mem s1 = store_words (psp c - 32) (r4_r11 c) (stack_mem s)"
    by (rule PendSV_saves [OF out c(1)])
  obtain sp' where s3: "saved_sp s3 = (saved_sp s2)(b \<mapsto> psp c2 - 32)"
      "stack_mem s3 = store_words (psp c2 - 32) (r4_r11 c2) (stack_mem s2)"
    and re: "saved_sp s3 (current_tcb s3) = Some sp'" "r4_r11 c3 = read_words (stack_mem s3) sp' 8" "psp c3 = sp' + 32"
    by (rule PendSV_saves [OF later c2(1)])
  have sp': "sp' = psp c - 32" using re(1) again other(1) kept(1) s1(1) s3(1) by simp
  have "\<forall>x \<in> frame_at (psp c - 32). stack_mem s3 x = stack_mem s1 x"
  proof
    fix x assume x: "x \<in> frame_at (psp c - 32)"
    then have "x \<notin> frame_at (psp c2 - 32)" using other(2) by blast
    then show "stack_mem s3 x = stack_mem s1 x" unfolding s3(2) using store_words_frame [OF c2(2)] kept(2) x by simp
  qed
  then have "read_words (stack_mem s3) (psp c - 32) 8 = read_words (stack_mem s1) (psp c - 32) 8" by (rule read_words_frame)
  also have "\<dots> = r4_r11 c" using read_store_words [of 8 "r4_r11 c"] c(2) s1(2) by simp
  finally show ?thesis using re sp' by simp
qed

section \<open>The first dispatch\<close>

lemma SVC_dispatches:
  assumes inv: "sched_inv s Q" and cur: "current_ok s"
    and p: "p < RTOS_NUM_PRIORITIES" "Q p \<noteq> []" "\<forall>q < p. Q q = []"
  obtains sp s' where "saved_sp s (hd (Q p)) = Some sp"
    and "SVC_Handler c s = Some (c\<lparr>r4_r11 := read_words (stack_mem s) sp 8, psp := sp + 32, basepri := 0\<rparr>, s')"
    and "sched_inv s' (Q(p := rotate1 (Q p)))" and "current_tcb s' = hd (Q p)" and "stack_mem s' = stack_mem s"
    and "primask s' = False"
proof -
  obtain s1 where s1: "scheduler_get_next s = Some (hd (Q p), s1)" "sched_inv s1 (Q(p := rotate1 (Q p)))"
      "current_tcb s1 = hd (Q p)"
    by (rule get_next_inv [OF inv cur p])
  note g = get_next_sp [OF s1(1)]
  have sel: "hd (Q p) \<noteq> NULL" "tcbs s (hd (Q p)) \<noteq> None"
    using ready_rel_live [OF sched_inv_rel [OF inv] p(1)] ready_rel_ring [OF sched_inv_rel [OF inv] p(1)] p(2) by auto
  then obtain sp where sp: "saved_sp s (hd (Q p)) = Some sp" by (auto simp: saved_sp_def)
  have "SVC_Handler c s = Some (c\<lparr>r4_r11 := read_words (stack_mem s) sp 8, psp := sp + 32, basepri := 0\<rparr>, cpsie s1)"
    using s1(1) restore_context_eq [of s1 "hd (Q p)" sp c] sp sel(1) g by (simp add: SVC_Handler_def)
  then show thesis
  proof (rule that [OF sp])
    show "sched_inv (cpsie s1) (Q(p := rotate1 (Q p)))" using s1(2) by (simp add: cpsie_def)
  qed (simp_all add: cpsie_def s1(3) g(2))
qed

text \<open>
  Start of the kernel. With an idle task, a ready task, and a core clock that makes a tick
  period of 1 to \<open>2 ^ 24\<close> cycles, \<open>rtos_start\<close> does not return: it programs the tick period and
  enters the first task of the highest non-empty ready ring with interrupts enabled, with the
  registers and the stack pointer of that task's saved frame.
\<close>

theorem rtos_start_dispatches:
  assumes inv: "sched_inv s Q" and idle: "idle_tcb s \<noteq> NULL" and cur: "current_tcb s = NULL" and q: "queued Q \<noteq> {}"
    and clk: "SystemInitClock hw qemu p = Some p1"
    and ticks: "1 \<le> unat (SystemCoreClock p1 div RTOS_TICK_RATE_HZ)" "unat (SystemCoreClock p1 div RTOS_TICK_RATE_HZ) \<le> 2 ^ 24"
  shows "\<exists>b sp c' p' s'. rtos_start hw qemu c p s = Some (None, c', p', s')
    \<and> b < RTOS_NUM_PRIORITIES \<and> Q b \<noteq> [] \<and> (\<forall>q < b. Q q = []) \<and> current_tcb s' = hd (Q b)
    \<and> sched_inv s' (Q(b := rotate1 (Q b))) \<and> \<not> primask s' \<and> basepri c' = 0
    \<and> saved_sp s (hd (Q b)) = Some sp \<and> r4_r11 c' = read_words (stack_mem s) sp 8 \<and> psp c' = sp + 32
    \<and> stack_mem s' = stack_mem s
    \<and> mmio32 p' SYSTICK_LOAD = SystemCoreClock p1 div RTOS_TICK_RATE_HZ - 1 \<and> mmio32 p' SYSTICK_CTRL = 7"
proof -
  let ?s = "cpsie s" and ?n = "SystemCoreClock p1 div RTOS_TICK_RATE_HZ"
  let ?p2 = "nvic_set_priority (-2) (push_bit 4 1 - 1) (nvic_set_priority (-1) (push_bit (4 - 1) 1) p1)"
  have keep: "SystemCoreClock ?p2 = SystemCoreClock p1" "mmio32 ?p2 = mmio32 p1"
    by (simp_all add: nvic_set_priority_def Let_def)
  have cfg: "SysTick_Config ?n ?p2 = (0, ?p2\<lparr>mmio32 := (mmio32 p1)(SYSTICK_LOAD := ?n - 1, SYSTICK_VAL := 0, SYSTICK_CTRL := 7)\<rparr>)"
    (is "_ = (0, ?p')")
    using SysTick_Config_eq [of ?n ?p2] ticks keep by simp
  have inv1: "sched_inv ?s Q" and ok: "current_ok ?s" using inv cur by (simp_all add: cpsie_def current_ok_def)
  obtain b where b: "b < RTOS_NUM_PRIORITIES" "Q b \<noteq> []" "\<forall>q < b. Q q = []"
    using least_bucket [OF sched_inv_rel [OF inv] q] by blast
  obtain sp s' where sp: "saved_sp ?s (hd (Q b)) = Some sp"
    and svc: "SVC_Handler c ?s = Some (c\<lparr>r4_r11 := read_words (stack_mem ?s) sp 8, psp := sp + 32, basepri := 0\<rparr>, s')"
      (is "_ = Some (?c', s')")
    and s': "sched_inv s' (Q(b := rotate1 (Q b)))" "current_tcb s' = hd (Q b)" "stack_mem s' = stack_mem ?s" "primask s' = False"
    by (rule SVC_dispatches [OF inv1 ok b])
  have "rtos_start hw qemu c p s = Some (None, ?c', ?p', s')"
    using idle clk cfg svc keep(1) by (simp add: rtos_start_def Let_def)
  then show ?thesis using b sp s'
    by (intro exI [of _ b] exI [of _ sp] exI [of _ ?c'] exI [of _ ?p'] exI [of _ s'])
       (simp add: cpsie_def system_regs)
qed

section \<open>From reset to the first task\<close>

text \<open>
  C19. Boot. After a reset with cleared static data, \<open>task_init\<close> and one \<open>task_create\<close> whose two
  heap requests succeed, \<open>rtos_start\<close> on the emulator sets the tick period to 16000 cycles and starts
  a task. If the priority of the created task is below 224, so that its ready ring is more urgent
  than the idle task's, the created task runs: its callee-saved registers are zero, and the
  exception frame at the process stack pointer holds the task function as return address and the
  exit trap as link register. A task of a priority from 224 on, even one that is numerically above
  the idle task's 255, shares the last ring with the idle task and stands behind it: the idle task
  runs first.
\<close>

theorem boot_runs_task:
  assumes b: "boot s" and img: "image_ok img" and init: "task_init img s = Some (RTOS_OK, s0)"
    and f: "f \<noteq> NULL" and sz: "256 \<le> unat stack_sz" "unat stack_sz + 30 < 2 ^ 32"
    and a1: "heap_alloc (sizeof_TCB img) s0 = Some (a, s1)" "a \<noteq> NULL"
    and a2: "heap_alloc ((stack_sz + 7) AND NOT 7) s1 = Some (stk, s2)" "stk \<noteq> NULL"
  shows "\<exists>s3 c' p' s4. task_create img f prio stack_sz nm s0 = Some (a, s3)
    \<and> rtos_start hw True c p s3 = Some (None, c', p', s4) \<and> mmio32 p' SYSTICK_LOAD = 15999
    \<and> (if unat prio < 224 then current_tcb s4 = a \<and> r4_r11 c' = replicate 8 0
           \<and> read_words (stack_mem s4) (psp c') 8 = [0, 0, 0, 0, 0, task_exit_trap img, f, 0x01000000]
         else current_tcb s4 = idle_tcb s0)"
proof -
  let ?i = "heap_pool img + 8" and ?b = "unat (prio_bucket_of prio)"
  obtain s0' n where s0': "task_init img s = Some (RTOS_OK, s0')" "idle_tcb s0' = ?i" "current_tcb s0' = NULL"
      "waits_inv s0' (\<lambda>_. [])" "task_inv img s0' ((\<lambda>_. [])(7 := [?i])) [?i]
        (alloc_rest (sizeof_TCB img) [] (heap_pool img) RTOS_HEAP_POOL_SIZE) [(heap_pool img, n)]"
    by (rule task_init_refines [OF b img])
  then have s0: "idle_tcb s0 = ?i" "current_tcb s0 = NULL" "waits_inv s0 (\<lambda>_. [])"
    and inv: "task_inv img s0 ((\<lambda>_. [])(7 := [?i])) [?i]
        (alloc_rest (sizeof_TCB img) [] (heap_pool img) RTOS_HEAP_POOL_SIZE) [(heap_pool img, n)]"
    using init by auto
  have tsz: "unat (sizeof_TCB img) + 15 < 2 ^ 32" using img by (simp add: image_ok_def)
  let ?Q = "((\<lambda>_. [])(7 := [?i]))(?b := ((\<lambda>_. [])(7 := [?i])) ?b @ [a])"
  have room: "length [?i] < 32" by simp
  obtain s3 xs' k m t where cre: "task_create img f prio stack_sz nm s0 = Some (a, s3)"
      "task_inv img s3 ?Q ([?i] @ [a]) xs' ((stk - 8, m) # (a - 8, k) # [(heap_pool img, n)])"
    and more0: "idle_tcb s3 = idle_tcb s0" "current_tcb s3 = current_tcb s0"
    and t: "tcbs s3 a = Some t" "read_words (stack_mem s3) (stack_ptr t) 16 = initial_frame img f"
    by (rule task_create_outcome [OF inv s0(3) f sz room tsz a1 a2])
  have more: "idle_tcb s3 = ?i" "current_tcb s3 = NULL" using more0 s0 by simp_all
  have b7: "?b < 7 \<longleftrightarrow> unat prio < 224" "?b < RTOS_NUM_PRIORITIES" using unsigned_less [of prio, where 'a = nat]
    by (auto simp: unat_prio_bucket_of RTOS_NUM_PRIORITIES_def)
  have nn: "?i \<noteq> NULL" using task_invD(7) [OF inv] task_invD(6) [OF inv] sched_inv_nonnull [OF task_invD(1) [OF inv]] by force
  have Q: "?Q ?b = (if unat prio < 224 then [a] else [?i, a])" "\<forall>q < ?b. ?Q q = []"
    using b7 by (auto simp: RTOS_NUM_PRIORITIES_def)
  have ne: "?Q ?b \<noteq> []" by simp
  have ok: "sched_inv (cpsie s3) ?Q" "current_ok (cpsie s3)" using task_invD(1) [OF cre(2)] more by (simp_all add: cpsie_def current_ok_def)
  obtain sp s4 where sp: "saved_sp (cpsie s3) (hd (?Q ?b)) = Some sp"
    and svc: "SVC_Handler c (cpsie s3) = Some (c\<lparr>r4_r11 := read_words (stack_mem (cpsie s3)) sp 8, psp := sp + 32, basepri := 0\<rparr>, s4)"
      (is "_ = Some (?c', s4)")
    and s4: "current_tcb s4 = hd (?Q ?b)" "stack_mem s4 = stack_mem (cpsie s3)"
    by (rule SVC_dispatches [OF ok b7(2) ne Q(2), of c])
  let ?p2 = "nvic_set_priority (-2) (push_bit 4 1 - 1) (nvic_set_priority (-1) (push_bit (4 - 1) 1) (p\<lparr>SystemCoreClock := 16000000\<rparr>))"
  let ?p' = "?p2\<lparr>mmio32 := (mmio32 p)(SYSTICK_LOAD := 15999, SYSTICK_VAL := 0, SYSTICK_CTRL := 7)\<rparr>"
  have keep: "SystemCoreClock ?p2 = 16000000" "mmio32 ?p2 = mmio32 p" by (simp_all add: nvic_set_priority_def Let_def)
  have "SysTick_Config 16000 ?p2 = (0, ?p')" using SysTick_Config_eq [of 16000 ?p2] keep by simp
  then have "rtos_start hw True c p s3 = Some (None, ?c', ?p', s4)"
    using more nn svc keep(1) by (simp add: rtos_start_def Let_def SystemInitClock_def RTOS_TICK_RATE_HZ_def)
  moreover have "read_words (stack_mem s3) sp 8 = replicate 8 0
      \<and> read_words (stack_mem s3) (sp + 32) 8 = [0, 0, 0, 0, 0, task_exit_trap img, f, 0x01000000]" if "unat prio < 224"
  proof -
    have "sp = stack_ptr t" using sp t(1) that unfolding Q(1) by (simp add: cpsie_def saved_sp_def)
    then have "read_words (stack_mem s3) sp 8 @ read_words (stack_mem s3) (sp + 32) 8
        = replicate 8 0 @ [0, 0, 0, 0, 0, task_exit_trap img, f, 0x01000000]"
      using t(2) read_words_append [of "stack_mem s3" sp 8 8] by (simp add: initial_frame_def)
    then show ?thesis by (simp add: append_eq_append_conv read_words_def del: replicate.simps)
  qed
  ultimately show ?thesis using cre(1) s4 Q(1) s0(1)
    by (intro exI [of _ s3] exI [of _ ?c'] exI [of _ ?p'] exI [of _ s4]) (simp add: cpsie_def system_regs)
qed

section \<open>Clock set-up\<close>

text \<open>
  What the reference manual of the STM32F407 says of the reset and clock control: an enabled
  oscillator or PLL reports ready after some time, the switch status follows the switch bits,
  and the hardware itself writes only status bits of \<open>RCC_CR\<close> and \<open>RCC_CFGR\<close>.
\<close>

definition responds :: "(soc \<Rightarrow> soc) \<Rightarrow> (soc \<Rightarrow> bool) \<Rightarrow> (soc \<Rightarrow> bool) \<Rightarrow> bool" where
  "responds hw request ready \<longleftrightarrow> (\<forall>p. request p \<longrightarrow> (\<exists>n. ready ((hw ^^ n) p)))"

definition status_only :: "(soc \<Rightarrow> soc) \<Rightarrow> bool" where
  "status_only hw \<longleftrightarrow> (\<forall>p. mmio32 (hw p) 0x40023808 AND 3 = mmio32 p 0x40023808 AND 3
     \<and> (\<forall>a. a \<noteq> 0x40023800 \<longrightarrow> a \<noteq> 0x40023808 \<longrightarrow> mmio32 (hw p) a = mmio32 p a))"

definition rcc_documented :: "(soc \<Rightarrow> soc) \<Rightarrow> bool" where
  "rcc_documented hw \<longleftrightarrow> status_only hw
     \<and> responds hw (\<lambda>p. bit (mmio32 p 0x40023800) 16) (\<lambda>p. bit (mmio32 p 0x40023800) 17)
     \<and> responds hw (\<lambda>p. bit (mmio32 p 0x40023800) 24) (\<lambda>p. bit (mmio32 p 0x40023800) 25)
     \<and> responds hw (\<lambda>p. mmio32 p 0x40023808 AND 3 = 2) (\<lambda>p. mmio32 p 0x40023808 AND 12 = 8)"

lemma poll_returns:
  assumes "ready ((hw ^^ n) p)"
  shows "\<exists>m. poll hw ready p = Some ((hw ^^ m) p) \<and> ready ((hw ^^ m) p)"
  using assms
proof (induction n arbitrary: p)
  case 0
  then show ?case by (intro exI [of _ 0]) (simp add: poll.simps [of hw ready p])
next
  case (Suc n)
  show ?case
  proof (cases "ready p")
    case True
    then show ?thesis by (intro exI [of _ 0]) (simp add: poll.simps [of hw ready p])
  next
    case False
    obtain m where "poll hw ready (hw p) = Some ((hw ^^ m) (hw p))" "ready ((hw ^^ m) (hw p))"
      using Suc.IH [of "hw p"] Suc.prems by (auto simp: funpow_swap1)
    then show ?thesis using False by (intro exI [of _ "Suc m"]) (simp add: poll.simps [of hw ready p] funpow_swap1)
  qed
qed

lemma status_only_steps:
  assumes "status_only hw"
  shows "mmio32 ((hw ^^ n) p) 0x40023808 AND 3 = mmio32 p 0x40023808 AND 3"
    and "a \<noteq> 0x40023800 \<Longrightarrow> a \<noteq> 0x40023808 \<Longrightarrow> mmio32 ((hw ^^ n) p) a = mmio32 p a"
  using assms by (induction n) (simp_all add: status_only_def)

lemma poll_step:
  assumes hw: "status_only hw" "responds hw request ready" and p: "request p"
  obtains p' where "poll hw ready p = Some p'" and "ready p'"
    and "mmio32 p' 0x40023808 AND 3 = mmio32 p 0x40023808 AND 3"
    and "\<And>a. a \<noteq> 0x40023800 \<Longrightarrow> a \<noteq> 0x40023808 \<Longrightarrow> mmio32 p' a = mmio32 p a"
proof -
  obtain n where "ready ((hw ^^ n) p)" using hw(2) p by (auto simp: responds_def)
  from poll_returns [where ready = ready, OF this] obtain m where "poll hw ready p = Some ((hw ^^ m) p)" "ready ((hw ^^ m) p)" by blast
  then show thesis using status_only_steps [OF hw(1)] by (intro that [of "(hw ^^ m) p"]) simp_all
qed

lemma bit_test: "(x :: u32) AND push_bit n 1 \<noteq> 0 \<longleftrightarrow> bit x n"
  by (simp add: bit_iff_and_push_bit_not_eq_0)

text \<open>
  C29. Clock set-up. On hardware that behaves as documented and is reset to its internal
  oscillator, \<open>SystemInitClock\<close> ends with the system clock taken from the PLL and 168 MHz
  recorded as the core clock. The PLL however is configured with source bit 0, the internal
  oscillator, and with the factors 8, 192 and 2, which make 192 MHz of its 16 MHz and 96 MHz
  of the 8 MHz of the comment.
\<close>

theorem SystemInitClock_returns:
  assumes hw: "rcc_documented hw" and p: "mmio32 p 0x40023808 AND 3 = 0"
  shows "\<exists>p'. SystemInitClock hw False p = Some p' \<and> SystemCoreClock p' = 168000000
    \<and> mmio32 p' 0x40023808 AND 12 = 8
    \<and> mmio32 p' 0x40023C00 = 0x705
    \<and> mmio32 p' 0x40023804 AND 0x3F = 8 \<and> drop_bit 6 (mmio32 p' 0x40023804) AND 0x1FF = 192
    \<and> drop_bit 16 (mmio32 p' 0x40023804) AND 3 = 0 \<and> \<not> bit (mmio32 p' 0x40023804) 22"
proof -
  let ?CR = "0x40023800 :: addr" and ?PLL = "0x40023804 :: addr" and ?CFGR = "0x40023808 :: addr" and ?ACR = "0x40023C00 :: addr"
  have st: "status_only hw"
    and hse: "responds hw (\<lambda>p. bit (mmio32 p ?CR) 16) (\<lambda>p. mmio32 p ?CR AND push_bit 17 1 \<noteq> 0)"
    and pll: "responds hw (\<lambda>p. bit (mmio32 p ?CR) 24) (\<lambda>p. mmio32 p ?CR AND push_bit 25 1 \<noteq> 0)"
    and sws: "responds hw (\<lambda>p. mmio32 p ?CFGR AND 3 = 2) (\<lambda>p. mmio32 p ?CFGR AND push_bit 2 3 = push_bit 2 2)"
    using hw unfolding rcc_documented_def bit_test by simp_all
  let ?p1 = "write32 ?CR (mmio32 p ?CR OR push_bit 16 1) p"
  have "bit (mmio32 ?p1 ?CR) 16" by (simp add: write32_def bit_or_iff bit_push_bit_iff)
  then obtain p2 where p2: "poll hw (\<lambda>p. mmio32 p ?CR AND push_bit 17 1 \<noteq> 0) ?p1 = Some p2"
    "mmio32 p2 ?CFGR AND 3 = mmio32 ?p1 ?CFGR AND 3"
    using poll_step [OF st hse] by blast
  let ?p3 = "write32 ?ACR (push_bit 0 5 OR push_bit 8 1 OR push_bit 9 1 OR push_bit 10 1) p2"
  let ?p4 = "write32 ?PLL (push_bit 0 8 OR push_bit 6 0 OR push_bit 6 192 OR push_bit 16 0 OR push_bit 24 4 OR push_bit 22 0) ?p3"
  let ?p5 = "write32 ?CR (mmio32 ?p4 ?CR OR push_bit 24 1) ?p4"
  have "bit (mmio32 ?p5 ?CR) 24" by (simp add: write32_def bit_or_iff bit_push_bit_iff)
  then obtain p6 where p6: "poll hw (\<lambda>p. mmio32 p ?CR AND push_bit 25 1 \<noteq> 0) ?p5 = Some p6"
    "mmio32 p6 ?CFGR AND 3 = mmio32 ?p5 ?CFGR AND 3"
    and keep6: "\<And>a. a \<noteq> ?CR \<Longrightarrow> a \<noteq> ?CFGR \<Longrightarrow> mmio32 p6 a = mmio32 ?p5 a"
    using poll_step [OF st pll] by blast
  let ?p7 = "write32 ?CFGR (mmio32 p6 ?CFGR OR push_bit 0 2) p6"
  have "mmio32 p6 ?CFGR AND 3 = 0" using p6(2) p2(2) p by (simp add: write32_def)
  then have "mmio32 ?p7 ?CFGR AND 3 = 2" by (simp add: write32_def bit.conj_disj_distrib2)
  then obtain p8 where p8: "poll hw (\<lambda>p. mmio32 p ?CFGR AND push_bit 2 3 = push_bit 2 2) ?p7 = Some p8"
      "mmio32 p8 ?CFGR AND push_bit 2 3 = push_bit 2 2"
    and keep8: "\<And>a. a \<noteq> ?CR \<Longrightarrow> a \<noteq> ?CFGR \<Longrightarrow> mmio32 p8 a = mmio32 ?p7 a"
    using poll_step [OF st sws] by blast
  have "SystemInitClock hw False p = Some (p8\<lparr>SystemCoreClock := 168000000\<rparr>)"
    using p2(1) p6(1) p8(1) unfolding SystemInitClock_def Let_def by simp
  moreover have "mmio32 p8 ?ACR = 0x705" "mmio32 p8 ?PLL = 0x04003008"
    using keep6 [of ?ACR] keep6 [of ?PLL] keep8 [of ?ACR] keep8 [of ?PLL] by (simp_all add: write32_def)
  moreover have "mmio32 p8 ?CFGR AND 12 = 8" using p8(2) by simp
  ultimately show ?thesis by simp
qed

section \<open>Sample states\<close>

text \<open>Two tasks of one priority, the first running; both have a frame on their stack.\<close>

definition switch_sample :: kernel where
  "switch_sample = blank_kernel\<lparr>
     tcbs := [16 \<mapsto> sample_task 200 TASK_STATE_RUNNING 32,
              32 \<mapsto> (sample_task 200 TASK_STATE_READY 16)\<lparr>stack_ptr := 0x3000\<rparr>],
     ready_head := [0, 0, 0, 0, 0, 0, 32, 0], current_tcb := 16\<rparr>"

definition switch_queues :: ready_queues where
  "switch_queues = (\<lambda>b. [])(6 := [32, 16])"

definition sample_cpu :: cpu where
  "sample_cpu = \<lparr>r4_r11 = [4, 5, 6, 7, 8, 9, 10, 11], psp = 0x2000, basepri = 0\<rparr>"

lemma switch_sample_inv: "sched_inv switch_sample switch_queues"
  by (auto simp: sched_inv_def placed_def queued_def runnable_def ready_rel_def switch_sample_def
      switch_queues_def sample_defs ring_def ready_link_def split: if_splits dest!: less_8_cases)

lemma switch_queues_least:
  "p < RTOS_NUM_PRIORITIES \<Longrightarrow> switch_queues p \<noteq> [] \<Longrightarrow> p = 6"
  by (simp add: switch_queues_def split: if_splits)

lemma switch_sample_sel:
  "tcbs switch_sample 16 = Some (sample_task 200 TASK_STATE_RUNNING 32)" "current_tcb switch_sample = 16"
  "saved_sp switch_sample 32 = Some 0x3000" "queued switch_queues \<noteq> {}"
  "psp sample_cpu = 0x2000" "r4_r11 sample_cpu = [4, 5, 6, 7, 8, 9, 10, 11]"
  by (auto simp: switch_sample_def saved_sp_def sample_cpu_def queued_def switch_queues_def RTOS_NUM_PRIORITIES_def
      intro: exI [of _ 6])

theorem PendSV_switches_witness:
  "\<exists>c' s'. PendSV_Handler sample_cpu switch_sample = Some (c', s') \<and> current_tcb s' = 32 \<and> psp c' = 0x3020
     \<and> saved_sp s' 16 = Some 0x1FE0 \<and> read_words (stack_mem s') 0x1FE0 8 = [4, 5, 6, 7, 8, 9, 10, 11]"
proof -
  have c: "psp sample_cpu \<noteq> 0" "length (r4_r11 sample_cpu) = 8" by (simp_all add: switch_sample_sel)
  obtain p sel sp c' s' where run: "PendSV_Handler sample_cpu switch_sample = Some (c', s')"
    and p: "p < RTOS_NUM_PRIORITIES" "switch_queues p \<noteq> []" "sel = hd (switch_queues p)" "current_tcb s' = sel"
    and sv: "saved_sp s' = (saved_sp switch_sample)(16 \<mapsto> psp sample_cpu - 32)"
      "read_words (stack_mem s') (psp sample_cpu - 32) 8 = r4_r11 sample_cpu"
      "saved_sp s' sel = Some sp" "psp c' = sp + 32"
    using PendSV_switches [OF switch_sample_inv switch_sample_sel(1,2) c switch_sample_sel(4)] by blast
  have "sel = 32" using p(3) switch_queues_least [OF p(1,2)] by (simp add: switch_queues_def)
  then show ?thesis using run p(4) sv by (simp add: switch_sample_sel)
qed

lemma switch_sample_runs:
  obtains c1 s1 c3 s3 where "PendSV_Handler sample_cpu switch_sample = Some (c1, s1)"
    and "tcbs s1 32 \<noteq> None" and "current_tcb s1 = 32" and "psp c1 = 0x3020" and "length (r4_r11 c1) = 8"
    and "PendSV_Handler c1 s1 = Some (c3, s3)" and "current_tcb s3 = 16"
proof -
  have "\<exists>c1 s1 c3 s3. PendSV_Handler sample_cpu switch_sample = Some (c1, s1) \<and> tcbs s1 32 \<noteq> None \<and> current_tcb s1 = 32
    \<and> psp c1 = 0x3020 \<and> length (r4_r11 c1) = 8 \<and> PendSV_Handler c1 s1 = Some (c3, s3) \<and> current_tcb s3 = 16"
    by (simp add: PendSV_Handler_def Let_def save_context_def scheduler_get_next_def restore_context_def switch_sample_def
        sample_cpu_def cpsid_def cpsie_def blank_kernel_def read_words_def del: store_words.simps)
  then show thesis using that by blast
qed

lemma frames_apart: "frame_at (0x2000 - 32) \<inter> frame_at (0x3020 - 32) = {}"
proof -
  have "{..<8 :: nat} = {0, 1, 2, 3, 4, 5, 6, 7}" by auto
  then show ?thesis by (simp add: frame_at_def)
qed

theorem context_switch_roundtrip_witness:
  "\<exists>c1 s1 c3 s3. PendSV_Handler sample_cpu switch_sample = Some (c1, s1) \<and> PendSV_Handler c1 s1 = Some (c3, s3)
     \<and> r4_r11 c3 = [4, 5, 6, 7, 8, 9, 10, 11] \<and> psp c3 = 0x2000"
proof -
  obtain c1 s1 c3 s3 where out: "PendSV_Handler sample_cpu switch_sample = Some (c1, s1)"
    and s1: "tcbs s1 32 \<noteq> None" "current_tcb s1 = 32" and c1: "psp c1 = 0x3020" "length (r4_r11 c1) = 8"
    and later: "PendSV_Handler c1 s1 = Some (c3, s3)" "current_tcb s3 = 16" by (rule switch_sample_runs)
  from s1(1) obtain u where u: "tcbs s1 32 = Some u" by auto
  have "r4_r11 c3 = r4_r11 sample_cpu \<and> psp c3 = psp sample_cpu"
    by (rule context_switch_roundtrip [OF out switch_sample_sel(1,2) _ _ _ refl _ later(1) u s1(2) _ _ c1(2) _ _ later(2)])
       (use c1(1) frames_apart in \<open>simp_all add: switch_sample_sel\<close>)
  then show ?thesis using out later(1) by (simp add: switch_sample_sel)
qed

definition sample_soc :: soc where
  "sample_soc = \<lparr>mmio32 = (\<lambda>_. 0), mmio8 = (\<lambda>_. 0), SystemCoreClock = 16000000\<rparr>"

theorem rtos_start_dispatches_witness:
  "\<exists>s c' p' s'. task_init sample_image blank_kernel = Some (RTOS_OK, s)
     \<and> rtos_start id True sample_cpu sample_soc s = Some (None, c', p', s')
     \<and> current_tcb s' = 0x20001008 \<and> mmio32 p' SYSTICK_LOAD = 15999"
proof -
  obtain s n where s: "task_init sample_image blank_kernel = Some (RTOS_OK, s)" "idle_tcb s = 0x20001008" "current_tcb s = 0"
    and inv: "task_inv sample_image s ((\<lambda>_. [])(7 := [0x20001008])) [0x20001008] ([] @ (0x20001060, 32672) # []) [(0x20001000, n)]"
    by (rule sample_started)
  let ?Q = "((\<lambda>_. [])(7 := [0x20001008])) :: ready_queues"
  have q: "queued ?Q \<noteq> {}" by (auto simp: queued_def RTOS_NUM_PRIORITIES_def intro: exI [of _ 7])
  have clk: "SystemInitClock id True sample_soc = Some (sample_soc\<lparr>SystemCoreClock := 16000000\<rparr>)"
    by (simp add: SystemInitClock_def)
  have div: "(16000000 :: u32) div RTOS_TICK_RATE_HZ = 16000" by (simp add: RTOS_TICK_RATE_HZ_def)
  have ticks: "1 \<le> unat (SystemCoreClock (sample_soc\<lparr>SystemCoreClock := 16000000\<rparr>) div RTOS_TICK_RATE_HZ)"
    "unat (SystemCoreClock (sample_soc\<lparr>SystemCoreClock := 16000000\<rparr>) div RTOS_TICK_RATE_HZ) \<le> 2 ^ 24" by (simp_all add: div)
  have idle: "idle_tcb s \<noteq> NULL" using s(2) by simp
  obtain b c' p' s' where run: "rtos_start id True sample_cpu sample_soc s = Some (None, c', p', s')"
    and b: "?Q b \<noteq> []" "current_tcb s' = hd (?Q b)"
    and ld: "mmio32 p' SYSTICK_LOAD = SystemCoreClock (sample_soc\<lparr>SystemCoreClock := 16000000\<rparr>) div RTOS_TICK_RATE_HZ - 1"
    using rtos_start_dispatches [OF task_invD(1) [OF inv] idle s(3) q clk ticks, of sample_cpu] by blast
  have "b = 7" using b(1) by (simp split: if_splits)
  then show ?thesis using s(1) run b(2) ld div by auto
qed

theorem boot_runs_task_witness:
  "\<exists>s0 s3 c' p' s4. task_init sample_image blank_kernel = Some (RTOS_OK, s0)
     \<and> task_create sample_image 0x08001001 100 512 0 s0 = Some (0x20001068, s3)
     \<and> rtos_start id True sample_cpu sample_soc s3 = Some (None, c', p', s4) \<and> current_tcb s4 = 0x20001068
     \<and> read_words (stack_mem s4) (psp c') 8 = [0, 0, 0, 0, 0, 0x08000501, 0x08001001, 0x01000000]"
proof -
  obtain s n where s: "task_init sample_image blank_kernel = Some (RTOS_OK, s)"
    and inv: "task_inv sample_image s ((\<lambda>_. [])(7 := [0x20001008])) [0x20001008] ([] @ (0x20001060, 32672) # []) [(0x20001000, n)]"
    by (rule sample_started)
  obtain s1 s2 where a: "heap_alloc (sizeof_TCB sample_image) s = Some (0x20001068, s1)"
    "heap_alloc ((512 + 7) AND NOT 7) s1 = Some (0x200010C8, s2)" by (rule sample_allocs [OF inv])
  have trap: "task_exit_trap sample_image = 0x08000501" by (simp add: sample_image_def)
  have nn: "(0x08001001 :: addr) \<noteq> NULL" "256 \<le> unat (512 :: u32)" "unat (512 :: u32) + 30 < 2 ^ 32" "(0x20001068 :: addr) \<noteq> NULL" "(0x200010C8 :: addr) \<noteq> NULL" by simp_all
  show ?thesis
    using boot_runs_task [OF sample_image_ok(2,1) s nn(1-3) a(1) nn(4) a(2) nn(5), of 100 0 id sample_cpu sample_soc] s
    unfolding trap by auto
qed

text \<open>Hardware that answers at once.\<close>

definition instant_rcc :: "soc \<Rightarrow> soc" where
  "instant_rcc p = p\<lparr>mmio32 := (mmio32 p)(0x40023800 := mmio32 p 0x40023800 OR push_bit 17 1 OR push_bit 25 1,
     0x40023808 := (mmio32 p 0x40023808 AND 3) OR push_bit 2 (mmio32 p 0x40023808 AND 3))\<rparr>"

lemma instant_rcc_documented: "rcc_documented instant_rcc"
proof -
  have three: "(3 :: u32) = mask 2" by (simp add: mask_eq_exp_minus_1)
  have sw: "((x AND 3) OR push_bit 2 (x AND 3)) AND 3 = x AND 3" for x :: u32
    unfolding three by (rule bit_word_eqI) (auto simp: bit_simps)
  have sws: "((x AND 3) OR push_bit 2 (x AND 3)) AND 12 = 8" if "x AND 3 = 2" for x :: u32 using that by simp
  have now: "\<exists>n. ready ((instant_rcc ^^ n) p)" if "ready (instant_rcc p)" for ready p
    using that by (intro exI [of _ 1]) simp
  have "status_only instant_rcc" using sw by (simp add: status_only_def instant_rcc_def)
  moreover have "responds instant_rcc request (\<lambda>p. bit (mmio32 p 0x40023800) 17)"
    "responds instant_rcc request (\<lambda>p. bit (mmio32 p 0x40023800) 25)" for request
    by (auto simp: responds_def bit_simps instant_rcc_def intro!: now)
  moreover have "responds instant_rcc (\<lambda>p. mmio32 p 0x40023808 AND 3 = 2) (\<lambda>p. mmio32 p 0x40023808 AND 12 = 8)"
    unfolding responds_def by (intro allI impI now) (simp add: instant_rcc_def sws)
  ultimately show ?thesis by (simp add: rcc_documented_def)
qed

theorem SystemInitClock_returns_witness:
  "\<exists>p'. SystemInitClock instant_rcc False sample_soc = Some p' \<and> SystemCoreClock p' = 168000000
     \<and> \<not> bit (mmio32 p' 0x40023804) 22"
  using SystemInitClock_returns [OF instant_rcc_documented, of sample_soc] by (auto simp: sample_soc_def)

end
