(* ===== verification/Rtos_Invariant.thy ===== *)
theory Rtos_Invariant
  imports Rtos_Context
begin

unbundle bit_operations_syntax

text \<open>
  The invariant of the whole system. \<open>system_inv\<close> collects what the other theories establish:
  rings, wait lists, registry and heap agree with the control blocks, the running task is
  registered and the idle task can always run. Every service, the tick and the context switch
  keep it; mutexes follow in \<open>Rtos_Locking\<close>.
\<close>

section \<open>The invariant of the system\<close>

definition idle_runs :: "kernel \<Rightarrow> bool" where
  "idle_runs s \<longleftrightarrow> (\<exists>t. tcbs s (idle_tcb s) = Some t \<and> runnable t)"

definition system_rel ::
    "image \<Rightarrow> kernel \<Rightarrow> ready_queues \<Rightarrow> wait_queues \<Rightarrow> addr list \<Rightarrow> block list \<Rightarrow> block list \<Rightarrow> bool" where
  "system_rel img s Q W R xs ys \<longleftrightarrow> task_inv img s Q R xs ys \<and> waits_inv s W
     \<and> (current_tcb s = NULL \<or> current_tcb s \<in> set R) \<and> idle_runs s"

definition system_inv :: "image \<Rightarrow> kernel \<Rightarrow> bool" where
  "system_inv img s \<longleftrightarrow> (\<exists>Q W R xs ys. system_rel img s Q W R xs ys)"

lemma system_invI: "system_rel img s Q W R xs ys \<Longrightarrow> system_inv img s"
  unfolding system_inv_def by blast

lemma system_relD:
  assumes "system_rel img s Q W R xs ys"
  shows "task_inv img s Q R xs ys" "waits_inv s W" "current_tcb s = NULL \<or> current_tcb s \<in> set R" "idle_runs s" "sched_inv s Q"
  using assms task_invD(1) by (auto simp: system_rel_def)

text \<open>A step that creates and deletes nothing: heap, registry and the life of the tasks stay.\<close>

definition same_life :: "(addr \<rightharpoonup> TCB_t) \<Rightarrow> (addr \<rightharpoonup> TCB_t) \<Rightarrow> bool" where
  "same_life T T' \<longleftrightarrow> (\<forall>a. map_option (\<lambda>t. (stack_base t, state t = TASK_STATE_TERMINATED)) (T' a)
     = map_option (\<lambda>t. (stack_base t, state t = TASK_STATE_TERMINATED)) (T a))"

definition same_env :: "kernel \<Rightarrow> kernel \<Rightarrow> bool" where
  "same_env s s' \<longleftrightarrow> heap_blocks s' = heap_blocks s \<and> free_list s' = free_list s \<and> heap_ready s' = heap_ready s
     \<and> task_registry s' = task_registry s \<and> task_registry_count s' = task_registry_count s \<and> idle_tcb s' = idle_tcb s"

lemma same_life_links: "same_but_links T T' \<Longrightarrow> same_life T T'"
  unfolding same_life_def
proof
  fix a assume l: "same_but_links T T'"
  show "map_option (\<lambda>t. (stack_base t, state t = TASK_STATE_TERMINATED)) (T' a)
     = map_option (\<lambda>t. (stack_base t, state t = TASK_STATE_TERMINATED)) (T a)"
  proof (cases "T a")
    case None
    then show ?thesis using same_but_links_None [OF l, of a] by simp
  next
    case (Some t)
    then obtain r w where "T' a = Some (t\<lparr>next_ready := r, mutex_wait_next := w\<rparr>)" by (rule same_but_links_Some [OF l])
    then show ?thesis using Some by simp
  qed
qed

lemma same_life_trans: "same_life T T' \<Longrightarrow> same_life T' T'' \<Longrightarrow> same_life T T''"
  by (simp add: same_life_def)

lemma same_life_upd:
  assumes "T a = Some u" and "stack_base v = stack_base u"
    and "state v \<noteq> TASK_STATE_TERMINATED" "state u \<noteq> TASK_STATE_TERMINATED"
  shows "same_life T (T(a \<mapsto> v))"
  using assms by (simp add: same_life_def)

lemma same_life_Some:
  assumes "same_life T T'"
  shows "(\<exists>t. T' a = Some t \<and> state t \<noteq> TASK_STATE_TERMINATED) \<longleftrightarrow> (\<exists>t. T a = Some t \<and> state t \<noteq> TASK_STATE_TERMINATED)"
  using assms [unfolded same_life_def, rule_format, of a] by (cases "T a"; cases "T' a") auto

lemma task_inv_step:
  assumes inv: "task_inv img s Q R xs ys" and inv': "sched_inv s' Q'" and env: "same_env s s'"
    and life: "same_life (tcbs s) (tcbs s')"
  shows "task_inv img s' Q' R xs ys"
proof -
  have tb: "task_blocks s' = task_blocks s"
  proof
    fix a
    show "task_blocks s' a = task_blocks s a"
      using life [unfolded same_life_def, rule_format, of a] env
      by (cases "tcbs s a"; cases "tcbs s' a") (simp_all add: task_blocks_def same_env_def)
  qed
  have "heap_inv (heap_pool img) s' xs ys"
    by (rule heap_inv_cong [OF task_invD(2) [OF inv]]) (use env in \<open>simp_all add: same_env_def\<close>)
  moreover have "registry s' R"
    by (rule registry_cong [OF task_invD(3) [OF inv]]) (use env in \<open>simp_all add: same_env_def\<close>)
  moreover have "idle_tcb s' = idle_tcb s" using env by (simp add: same_env_def)
  ultimately show ?thesis
    using task_invD(4-7) [OF inv] inv' unfolding task_inv_def tb same_life_Some [OF life] by simp
qed

text \<open>The tasks become \<open>T\<close>, and then only list links change.\<close>

lemma system_links:
  assumes sys: "system_rel img s Q W R xs ys" and inv': "sched_inv s' Q'" and win': "waits_inv s' W'"
    and env: "same_env s s'" and cur: "current_tcb s' = current_tcb s \<or> current_tcb s' \<in> set R"
    and links: "same_but_links T (tcbs s')" and life: "same_life (tcbs s) T"
    and idle: "\<And>i. tcbs s (idle_tcb s) = Some i \<Longrightarrow> runnable i \<Longrightarrow> \<exists>j. T (idle_tcb s) = Some j \<and> runnable j"
  shows "system_rel img s' Q' W' R xs ys"
proof -
  have life': "same_life (tcbs s) (tcbs s')" by (rule same_life_trans [OF life same_life_links [OF links]])
  obtain j where j: "T (idle_tcb s) = Some j" "runnable j" using system_relD(4) [OF sys] idle by (auto simp: idle_runs_def)
  obtain r w where "tcbs s' (idle_tcb s) = Some (j\<lparr>next_ready := r, mutex_wait_next := w\<rparr>)"
    by (rule same_but_links_Some [OF links j(1)])
  then have "idle_runs s'" using j(2) env by (simp add: idle_runs_def same_env_def runnable_def)
  then show ?thesis
    using task_inv_step [OF system_relD(1) [OF sys] inv' env life'] win' cur system_relD(3) [OF sys]
    by (auto simp: system_rel_def)
qed

text \<open>One task \<open>a\<close> gets the control block \<open>v\<close>, otherwise only list links change.\<close>

lemma system_step:
  assumes sys: "system_rel img s Q W R xs ys" and inv': "sched_inv s' Q'" and win': "waits_inv s' W'"
    and env: "same_env s s'" and cur: "current_tcb s' = current_tcb s"
    and links: "same_but_links ((tcbs s)(a \<mapsto> v)) (tcbs s')" and u: "tcbs s a = Some u"
    and v: "stack_base v = stack_base u" "state v \<noteq> TASK_STATE_TERMINATED" "state u \<noteq> TASK_STATE_TERMINATED"
    and idle: "a = idle_tcb s \<Longrightarrow> runnable v"
  shows "system_rel img s' Q' W' R xs ys"
  by (rule system_links [OF sys inv' win' env _ links same_life_upd [where T = "tcbs s", OF u v]]) (use cur idle in auto)

lemma system_quiet:
  assumes sys: "system_rel img s Q W R xs ys" and "sched_inv s' Q'" and "waits_inv s' W'"
    and "same_env s s'" and "current_tcb s' = current_tcb s" and "same_but_links (tcbs s) (tcbs s')"
  shows "system_rel img s' Q' W' R xs ys"
proof -
  obtain i where i: "tcbs s (idle_tcb s) = Some i" "runnable i" using system_relD(4) [OF sys] by (auto simp: idle_runs_def)
  have "(tcbs s)(idle_tcb s \<mapsto> i) = tcbs s" using i(1) by auto
  then show ?thesis
    using system_step [OF sys assms(2-5), of "idle_tcb s" i i] assms(6) i by (auto simp: runnable_def)
qed

lemma same_env_frame: "ready_frame s s' \<Longrightarrow> same_env s s'"
  by (simp add: same_env_def ready_frame_sel)

lemma same_env_calm: "calm s' = calm s \<Longrightarrow> same_env s s'"
  using calm_sel [of s' s] by (simp add: same_env_def)

lemma same_env_trans: "same_env s s' \<Longrightarrow> same_env s' s'' \<Longrightarrow> same_env s s''"
  by (simp add: same_env_def)

lemma same_env_set_wptr [simp]: "same_env s (set_wptr w ht s') = same_env s s'"
  by (simp add: same_env_def set_wptr_def split: wait_obj.split)

lemma same_env_more [simp]:
  "same_env s (s'\<lparr>tcbs := T\<rparr>) = same_env s s'" "same_env s (s'\<lparr>semaphores := S\<rparr>) = same_env s s'"
  "same_env s (s'\<lparr>msg_queues := M\<rparr>) = same_env s s'" "same_env s (s'\<lparr>ram := B\<rparr>) = same_env s s'"
  "same_env s (s'\<lparr>icsr := i\<rparr>) = same_env s s'" "same_env s (s'\<lparr>primask := p\<rparr>) = same_env s s'"
  "same_env s (s'\<lparr>stack_mem := m\<rparr>) = same_env s s'" "same_env s (s'\<lparr>s_rtos_tick_count := k\<rparr>) = same_env s s'"
  "same_env s (s'\<lparr>sw_timers := tm\<rparr>) = same_env s s'" "same_env s (s'\<lparr>timer_list := l\<rparr>) = same_env s s'"
  "same_env s (s'\<lparr>current_tcb := c\<rparr>) = same_env s s'" "same_env s (s'\<lparr>ready_head := rh\<rparr>) = same_env s s'"
  "same_env s s"
  by (simp_all add: same_env_def)

section \<open>Wait objects in the system\<close>

lemma waits_inv_running:
  assumes win: "waits_inv s W" and t: "tcbs s a = Some t" "runnable t" and w: "wptr s w \<noteq> None"
  shows "a \<notin> set (W w)"
proof
  assume "a \<in> set (W w)"
  then obtain u where "tcbs s a = Some u" "blocked_on u = Some w" using waits_inv_blocked [OF win w] by blast
  then show False using t by (auto simp: blocked_on_def runnable_def split: if_splits)
qed

lemma waits_inv_blocked_all: "waits_inv s W \<Longrightarrow> wptr s w \<noteq> None \<Longrightarrow> blocked_all s (W w)"
  using waits_inv_blocked by (fastforce simp: blocked_all_def blocked_on_def runnable_def split: if_splits)

lemma waiters_elsewhere:
  assumes win: "waits_inv s W" and w: "wptr s w \<noteq> None" and ptr: "wptr s' w = wptr s w"
    and link: "\<And>y. y \<in> set (W w) \<Longrightarrow> wait_link (tcbs s') y = wait_link (tcbs s) y"
  shows "waiters_of s' w (W w)"
proof -
  have "wait_list (tcbs s') h (W w) = wait_list (tcbs s) h (W w)" for h using link by (rule wait_list_cong)
  then show ?thesis using waits_inv_list [OF win w] ptr by (simp add: waiters_of_def)
qed

lemma waiters_of_wptr: "waiters_of s w xs \<Longrightarrow> wptr s w \<noteq> None"
  by (auto simp: waiters_of_def)

text \<open>A task enters the list of \<open>obj\<close> at its end, or leaves it; other lists are not touched.\<close>

lemma waits_inv_enter:
  assumes win: "waits_inv s W" and p: "wptr s obj \<noteq> None" and t: "tcbs s a = Some t" "blocked_on t = None"
    and links: "same_but_links ((tcbs s)(a \<mapsto> v)) (tcbs s')" and v: "blocked_on v = Some obj"
    and list: "waiters_of s' obj (W obj @ [a])" and other: "\<And>w. w \<noteq> obj \<Longrightarrow> wptr s' w = wptr s w"
    and link: "\<And>y. y \<notin> insert a (set (W obj)) \<Longrightarrow> wait_link (tcbs s') y = wait_link (tcbs s) y"
  shows "waits_inv s' (W(obj := W obj @ [a]))"
proof (rule waits_inv_join [OF win links t v p])
  show "wptr s' w = None \<longleftrightarrow> wptr s w = None" for w using other [of w] p waiters_of_wptr [OF list] by (cases "w = obj") auto
  fix w assume w: "wptr s w \<noteq> None"
  show "waiters_of s' w ((W(obj := W obj @ [a])) w)"
  proof (cases "w = obj")
    case False
    have "y \<notin> insert a (set (W obj))" if "y \<in> set (W w)" for y
      using that waits_inv_disjoint [OF win w p False] waits_inv_blocked [OF win w that] t by auto
    then show ?thesis using waiters_elsewhere [OF win w other] link False by simp
  qed (use list in simp)
qed

lemma waits_inv_leave:
  assumes win: "waits_inv s W" and p: "wptr s obj \<noteq> None" and a: "a \<in> set (W obj)"
    and links: "same_but_links ((tcbs s)(a \<mapsto> v)) (tcbs s')" and v: "blocked_on v = None"
    and list: "waiters_of s' obj (remove1 a (W obj))" and other: "\<And>w. w \<noteq> obj \<Longrightarrow> wptr s' w = wptr s w"
    and link: "\<And>y. y \<notin> set (W obj) \<Longrightarrow> wait_link (tcbs s') y = wait_link (tcbs s) y"
  shows "waits_inv s' (W(obj := remove1 a (W obj)))"
proof -
  have none: "wptr s' w = None \<longleftrightarrow> wptr s w = None" for w using other [of w] p waiters_of_wptr [OF list] by (cases "w = obj") auto
  have rm: "remove1 a (W w) = (W(obj := remove1 a (W obj))) w" if "wptr s w \<noteq> None" for w
    using waits_inv_disjoint [OF win that p] a by (cases "w = obj") (auto intro: remove1_idem)
  have "waits_inv s' (\<lambda>w. removeAll a (W w))"
  proof (rule waits_inv_drop [OF win links v none])
    fix w assume w: "wptr s w \<noteq> None"
    show "waiters_of s' w (remove1 a (W w))"
    proof (cases "w = obj")
      case False
      then have "waiters_of s' w (W w)" using waits_inv_disjoint [OF win w p False] link by (intro waiters_elsewhere [OF win w other]) auto
      then show ?thesis using rm [OF w] False by simp
    qed (use list in simp)
  qed
  then show ?thesis
  proof (rule waits_inv_lists)
    fix w assume "wptr s' w \<noteq> None"
    then have w: "wptr s w \<noteq> None" by (simp add: none)
    show "(W(obj := remove1 a (W obj))) w = removeAll a (W w)"
      using rm [OF w] distinct_remove1_removeAll [OF waiters_of_distinct [OF waits_inv_list [OF win w]]] by simp
  qed
qed

context fifo_wait_object
begin

text \<open>The running task joins the list of this object and blocks.\<close>

lemma block_waits:
  assumes inv: "sched_inv s Q" and win: "waits_inv s W" and p: "wptr s obj \<noteq> None"
    and cur: "current_tcb s = self" and t: "tcbs s self = Some t" and r: "runnable t"
    and on: "\<And>u. blocked_on (blocked_tcb n k reason x u) = Some obj"
      "n = s_rtos_tick_count s" "k = timeout"
  obtains ht T s' where "enqueue self (cpsid s) = Some (set_wptr obj ht (s\<lparr>tcbs := T, primask := True\<rparr>))"
    and "block_enter timeout reason x (set_wptr obj ht (s\<lparr>tcbs := T, primask := False\<rparr>)) = Some (None, s')"
    and "sched_inv s' (Q(unat (prio_bucket t) := remove1 self (Q (unat (prio_bucket t)))))"
    and "waits_inv s' (W(obj := W obj @ [self]))" and "same_env s s'" and "current_tcb s' = self"
    and "same_but_links ((tcbs s)(self \<mapsto> blocked_tcb n k reason x t)) (tcbs s')"
proof -
  have w: "waiters_of s obj (W obj)" using waits_inv_list [OF win p] .
  have new: "self \<notin> set (W obj)" by (rule waits_inv_running [OF win t r p])
  obtain ht T s' t' rw where enq: "enqueue self (cpsid s) = Some (set_wptr obj ht (s\<lparr>tcbs := T, primask := True\<rparr>))"
    and b: "block_enter timeout reason x (set_wptr obj ht (s\<lparr>tcbs := T, primask := False\<rparr>)) = Some (None, s')"
    and s': "sched_inv s' (Q(unat (prio_bucket t) := remove1 self (Q (unat (prio_bucket t)))))"
      "waiters_of s' obj (W obj @ [self])" and cf: "chain_frame (insert self (set (W obj))) (tcbs s) T"
    and t': "t' = blocked_tcb (s_rtos_tick_count s) timeout reason x (t\<lparr>mutex_wait_next := rw\<rparr>)"
    and fr: "ready_frame (set_wptr obj ht (s\<lparr>tcbs := T(self \<mapsto> t'), icsr := 0x10000000, primask := False\<rparr>)) s'"
    by (rule block_waiter [OF inv w cur t r new])
  let ?v = "blocked_tcb n k reason x t"
  have sr: "same_but_ready (T(self \<mapsto> t')) (tcbs s')" using fr by (auto simp: ready_frame_def)
  have tv: "t' = ?v\<lparr>mutex_wait_next := rw\<rparr>" using t' on(2,3) by (simp add: blocked_tcb_def)
  have links: "same_but_links ((tcbs s)(self \<mapsto> ?v)) (tcbs s')"
  proof (rule same_but_links_trans [OF same_but_links_upd same_but_links_ready [OF sr]])
    show "same_but_links (tcbs s) T" using cf by (simp add: chain_frame_def same_but_links_wait)
  qed (simp add: tv)
  have "waits_inv s' (W(obj := W obj @ [self]))"
  proof (rule waits_inv_enter [OF win p t _ links _ s'(2)])
    show "blocked_on t = None" using r by (auto simp: blocked_on_def runnable_def)
    show "wptr s' w = wptr s w" if "w \<noteq> obj" for w
    proof -
      have "wptr s' w = wptr (set_wptr obj ht (s\<lparr>tcbs := T(self \<mapsto> t'), icsr := 0x10000000, primask := False\<rparr>)) w"
        by (rule wptr_cong) (simp_all add: ready_frame_sel [OF fr])
      then show ?thesis using that by simp
    qed
    fix y assume y: "y \<notin> insert self (set (W obj))"
    then have "wait_link (T(self \<mapsto> t')) y = wait_link (tcbs s) y" using cf by (simp add: chain_frame_def wait_link_def)
    then show "wait_link (tcbs s') y = wait_link (tcbs s) y" using same_but_ready_wait_link [OF sr] by metis
  qed (use on in auto)
  moreover have "same_env s s'" by (rule same_env_trans [OF _ same_env_frame [OF fr]]) simp
  ultimately show thesis using that [OF enq b s'(1)] links ready_frame_sel(7) [OF fr] cur by simp
qed

text \<open>The first waiter, if there is one, leaves the list and becomes ready.\<close>

lemma wake_waits:
  assumes sys: "system_rel img s Q W R xs ys" and p: "wptr s obj \<noteq> None"
  obtains s' Q' where "do {
      (t, s) \<leftarrow> pop_head s;
      if t \<noteq> NULL then do {
        s \<leftarrow> upd_tcb t woken s; (_, s) \<leftarrow> scheduler_add_task t s; Some (scheduler_mark_reschedule s)
      } else Some s } = Some s'"
    and "system_rel img s' Q' (W(obj := tl (W obj))) R xs ys"
proof -
  note inv = system_relD(5) [OF sys] and win = system_relD(2) [OF sys]
  have w: "waiters_of s obj (W obj)" using waits_inv_list [OF win p] .
  obtain ht T i s' where run: "do {
      (t, s) \<leftarrow> pop_head s;
      if t \<noteq> NULL then do {
        s \<leftarrow> upd_tcb t woken s; (_, s) \<leftarrow> scheduler_add_task t s; Some (scheduler_mark_reschedule s)
      } else Some s } = Some s'"
    and s': "sched_inv s' (wake_queues s (W obj) Q)" "waiters_of s' obj (tl (W obj))"
    and fr: "ready_frame (set_wptr obj ht (s\<lparr>tcbs := T, icsr := i\<rparr>)) s'" and fw: "first_woken s (W obj) T"
    by (rule wake_any [OF inv w waits_inv_blocked_all [OF win p]])
  have env: "same_env s s'" by (rule same_env_trans [OF _ same_env_frame [OF fr]]) simp
  have cur: "current_tcb s' = current_tcb s" using ready_frame_sel(7) [OF fr] by simp
  have sr: "same_but_ready T (tcbs s')" using fr by (auto simp: ready_frame_def)
  have ptr: "wptr s' w = wptr s w" if "w \<noteq> obj" for w
  proof -
    have "wptr s' w = wptr (set_wptr obj ht (s\<lparr>tcbs := T, icsr := i\<rparr>)) w" by (rule wptr_cong) (simp_all add: ready_frame_sel [OF fr])
    then show ?thesis using that by simp
  qed
  have link: "wait_link (tcbs s') y = wait_link (tcbs s) y" if "y \<notin> set (W obj)" for y
  proof -
    have "T y = tcbs s y" using fw that set_take_subset [of 1 "W obj"] by (auto simp: first_woken_def)
    then have "wait_link T y = wait_link (tcbs s) y" by (simp add: wait_link_def)
    then show ?thesis using same_but_ready_wait_link [OF sr] by metis
  qed
  show thesis
  proof (cases "W obj")
    case Nil
    then have "T = tcbs s" using fw by (auto simp: first_woken_def)
    then have l: "same_but_links (tcbs s) (tcbs s')" using same_but_links_ready [OF sr] by simp
    have none: "wptr s' w \<noteq> None \<longleftrightarrow> wptr s w \<noteq> None" for w using ptr [of w] p waiters_of_wptr [OF s'(2)] by (cases "w = obj") auto
    have "waiters_of s' w (W w)" if "wptr s' w \<noteq> None" for w
      using waiters_elsewhere [OF win _ ptr] link s'(2) that none Nil by (cases "w = obj") auto
    then have "waits_inv s' W" using win none unfolding waits_inv_def blocked_on_same [OF l] by blast
    moreover have "W(obj := tl (W obj)) = W" using Nil by auto
    ultimately show thesis by (intro that [OF run system_quiet [OF sys s'(1) _ env cur l]]) simp
  next
    case (Cons a as)
    obtain u where u: "tcbs s a = Some u" "blocked_on u = Some obj" using waits_inv_blocked [OF win p, of a] Cons by auto
    obtain r where "T a = Some (woken (u\<lparr>mutex_wait_next := r\<rparr>))" using fw Cons u(1) by (auto simp: first_woken_def)
    then have T: "T = (tcbs s)(a \<mapsto> (woken u)\<lparr>mutex_wait_next := r\<rparr>)"
      using fw Cons by (auto simp: first_woken_def woken_def fun_eq_iff)
    have l: "same_but_links ((tcbs s)(a \<mapsto> woken u)) (tcbs s')"
      by (rule same_but_links_trans [OF _ same_but_links_ready [OF sr]]) (simp add: T same_but_links_upd)
    have "waits_inv s' (W(obj := remove1 a (W obj)))"
      by (rule waits_inv_leave [OF win p _ l]) (use s'(2) Cons ptr link in auto)
    moreover have "stack_base (woken u) = stack_base u" "state u \<noteq> TASK_STATE_TERMINATED"
      using u(2) by (auto simp: woken_def blocked_on_def split: if_splits)
    ultimately show thesis
      by (intro that [OF run system_step [OF sys s'(1) _ env cur l u(1)]]) (simp_all add: Cons runnable_def)
  qed
qed

end

lemma system_same:
  assumes sys: "system_rel img s Q W R xs ys" and "tcbs s' = tcbs s" and "ready_head s' = ready_head s"
    and "\<And>w. wptr s' w = wptr s w" and "same_env s s'" and "current_tcb s' = current_tcb s"
  shows "system_rel img s' Q W R xs ys"
proof (rule system_quiet [OF sys])
  show "sched_inv s' Q" using system_relD(5) [OF sys] sched_inv_cong [OF assms(2,3)] by simp
  show "waits_inv s' W" by (rule waits_inv_cong [OF system_relD(2) [OF sys] assms(4,2)])
qed (use assms in simp_all)

section \<open>Calls of the running task\<close>

definition running :: "kernel \<Rightarrow> bool" where
  "running s \<longleftrightarrow> current_tcb s \<noteq> idle_tcb s \<and> (\<exists>t. tcbs s (current_tcb s) = Some t \<and> state t = TASK_STATE_RUNNING)"

lemma runningE:
  assumes "running s" and "system_rel img s Q W R xs ys"
  obtains t where "tcbs s (current_tcb s) = Some t" and "state t = TASK_STATE_RUNNING" and "runnable t"
    and "current_tcb s \<noteq> idle_tcb s" and "current_tcb s \<noteq> NULL"
  using assms sched_inv_nonnull [OF system_relD(5) [OF assms(2)]] by (auto simp: running_def runnable_def)

lemma yield_keeps: "system_rel img s Q W R xs ys \<Longrightarrow> system_rel img (task_yield s) Q W R xs ys"
  by (rule system_same) (simp_all add: task_yield_def scheduler_mark_reschedule_def)

lemma delay_keeps:
  assumes sys: "system_rel img s Q W R xs ys" and run: "running s" and call: "task_delay n s = Some (r, s')"
  shows "system_inv img s'"
proof (cases "n = 0")
  case True
  then show ?thesis using call sys by (auto simp: task_delay_def intro: system_invI)
next
  case False
  obtain t where t: "tcbs s (current_tcb s) = Some t" "state t = TASK_STATE_RUNNING" "runnable t"
    and nn: "current_tcb s \<noteq> idle_tcb s" "current_tcb s \<noteq> NULL" by (rule runningE [OF run sys])
  let ?c = "current_tcb s" and ?v = "blocked_tcb (s_rtos_tick_count s) n BLOCK_DELAY NULL t"
  obtain s1 where s1: "block_enter n BLOCK_DELAY NULL s = Some (None, s1)"
      "sched_inv s1 (Q(unat (prio_bucket t) := remove1 ?c (Q (unat (prio_bucket t)))))"
    and fr: "ready_frame (s\<lparr>tcbs := (tcbs s)(?c \<mapsto> ?v), icsr := 0x10000000, primask := False\<rparr>) s1"
    by (rule block_enter_inv [OF system_relD(5) [OF sys] t(1) refl t(3)])
  have s': "s' = s1" using call s1(1) False nn(2) by (simp add: task_delay_def)
  note win = system_relD(2) [OF sys]
  have sr: "same_but_ready ((tcbs s)(?c \<mapsto> ?v)) (tcbs s1)" using fr by (auto simp: ready_frame_def)
  have ptr: "wptr s1 w = wptr s w" for w by (rule wptr_cong) (simp_all add: ready_frame_sel [OF fr])
  have "waits_inv s1 (\<lambda>w. removeAll ?c (W w))"
  proof (rule waits_inv_drop [OF win same_but_links_ready [OF sr]])
    show "waiters_of s1 w (remove1 ?c (W w))" if w: "wptr s w \<noteq> None" for w
    proof -
      have "remove1 ?c (W w) = W w" using waits_inv_running [OF win t(1,3) w] by (rule remove1_idem)
      moreover have "waiters_of s1 w (W w)"
        by (rule waiters_of_cong [OF waits_inv_list [OF win w] ptr]) (simp add: ready_frame_wait_link [OF fr] t(1))
      ultimately show ?thesis by simp
    qed
  qed (simp_all add: ptr blocked_on_def wait_obj_of_def)
  moreover have "same_env s s1" by (rule same_env_trans [OF _ same_env_frame [OF fr]]) simp
  ultimately have "system_rel img s1 (Q(unat (prio_bucket t) := remove1 ?c (Q (unat (prio_bucket t)))))
      (\<lambda>w. removeAll ?c (W w)) R xs ys"
    by (rule system_step [OF sys s1(2) _ _ _ same_but_links_ready [OF sr] t(1)])
       (use t nn ready_frame_sel(7) [OF fr] in \<open>simp_all add: blocked_tcb_def\<close>)
  then show ?thesis unfolding s' by (rule system_invI)
qed

context fifo_wait_object
begin

lemma block_keeps:
  assumes sys: "system_rel img s Q W R xs ys" and run: "running s" and p: "wptr s obj \<noteq> None"
    and on: "\<And>n k u. blocked_on (blocked_tcb n k reason x u) = Some obj"
    and enq: "enqueue (current_tcb s) (cpsid s) = Some s1" and b: "block_enter timeout reason x (cpsie s1) = Some (r, s')"
  shows "system_inv img s'"
proof -
  obtain t where t: "tcbs s (current_tcb s) = Some t" "state t = TASK_STATE_RUNNING" "runnable t"
    and nn: "current_tcb s \<noteq> idle_tcb s" "current_tcb s \<noteq> NULL" by (rule runningE [OF run sys])
  obtain ht T s2 where enq': "enqueue (current_tcb s) (cpsid s) = Some (set_wptr obj ht (s\<lparr>tcbs := T, primask := True\<rparr>))"
    and b': "block_enter timeout reason x (set_wptr obj ht (s\<lparr>tcbs := T, primask := False\<rparr>)) = Some (None, s2)"
    and s2: "sched_inv s2 (Q(unat (prio_bucket t) := remove1 (current_tcb s) (Q (unat (prio_bucket t)))))"
      "waits_inv s2 (W(obj := W obj @ [current_tcb s]))" "same_env s s2" "current_tcb s2 = current_tcb s"
    and links: "same_but_links ((tcbs s)(current_tcb s \<mapsto> blocked_tcb (s_rtos_tick_count s) timeout reason x t)) (tcbs s2)"
    by (rule block_waits [OF system_relD(5,2) [OF sys] p refl t(1,3) on refl refl])
  have s1: "s1 = set_wptr obj ht (s\<lparr>tcbs := T, primask := True\<rparr>)" using enq enq' by simp
  have "cpsie s1 = set_wptr obj ht (s\<lparr>tcbs := T, primask := False\<rparr>)" unfolding s1 by (simp add: cpsie_def)
  then have "s' = s2" using b b' by simp
  moreover have "system_rel img s2 (Q(unat (prio_bucket t) := remove1 (current_tcb s) (Q (unat (prio_bucket t)))))
      (W(obj := W obj @ [current_tcb s])) R xs ys"
    by (rule system_step [OF sys s2 links t(1)]) (use t nn in \<open>simp_all add: blocked_tcb_def\<close>)
  ultimately show ?thesis using system_invI by blast
qed

end

lemma wptr_more2 [simp]:
  "wptr (s\<lparr>stack_mem := M\<rparr>) w = wptr s w" "wptr (s\<lparr>s_rtos_tick_count := k\<rparr>) w = wptr s w"
  "wptr (s\<lparr>current_tcb := c\<rparr>) w = wptr s w"
  by (rule wptr_cong; simp)+

lemma wptr_sem_upd:
  assumes "semaphores s m = Some x" and "sem_wait_head y = sem_wait_head x" and "sem_wait_tail y = sem_wait_tail x"
  shows "wptr (s\<lparr>semaphores := (semaphores s)(m \<mapsto> y)\<rparr>) w = wptr s w"
  using assms by (cases w) (auto simp: wptr_def access_defs fetch_def)

lemma wptr_queue_upd:
  assumes "msg_queues s q = Some x" and "send_wait_head y = send_wait_head x" and "send_wait_tail y = send_wait_tail x"
    and "recv_wait_head y = recv_wait_head x" and "recv_wait_tail y = recv_wait_tail x"
  shows "wptr (s\<lparr>msg_queues := (msg_queues s)(q \<mapsto> y)\<rparr>) w = wptr s w"
  using assms by (cases w) (auto simp: wptr_def access_defs fetch_def)

lemma sem_wait_keeps:
  assumes sys: "system_rel img s Q W R xs ys" and run: "running s" and call: "semaphore_wait sem n s = Some (r, s')"
  shows "system_inv img s'"
proof (cases "sem = NULL")
  case True
  then show ?thesis using call sys
    by (auto simp: semaphore_wait_def blocking_call_def semaphore_wait_attempt_def intro: system_invI)
next
  case False
  have nn: "current_tcb s \<noteq> NULL" by (rule runningE [OF run sys])
  obtain x where x: "semaphores s sem = Some x"
    using call False nn
    by (auto simp: semaphore_wait_def blocking_call_def semaphore_wait_attempt_def Let_def bind_eq_Some_conv cpsid_def get_sem_def
        fetch_eq_Some_iff)
  show ?thesis
  proof (cases "sem_count x > 0")
    case True
    then have "s' = s\<lparr>semaphores := (semaphores s)(sem \<mapsto> x\<lparr>sem_count := sem_count x - 1\<rparr>), primask := False\<rparr>"
      using call False nn x
      by (simp add: semaphore_wait_def blocking_call_def semaphore_wait_attempt_def Let_def cpsid_def cpsie_def)
    then have "system_rel img s' Q W R xs ys"
      by (intro system_same [OF sys]) (simp_all add: wptr_sem_upd [OF x])
    then show ?thesis by (rule system_invI)
  next
    case zero: False
    have p: "wptr s (SemQ sem) \<noteq> None" using x False by (simp add: wptr_def get_sem_def fetch_def)
    obtain s1 where "sem_wait_enqueue sem (current_tcb s) (cpsid s) = Some s1"
      and "block_enter n BLOCK_SEMAPHORE sem (cpsie s1) = Some (r, s')"
      using call False nn x zero
      by (auto simp: semaphore_wait_def blocking_call_def semaphore_wait_attempt_def Let_def bind_eq_Some_conv cpsid_def)
    then show ?thesis
      by (rule sem_q.block_keeps [OF sys run p, rotated]) (simp add: blocked_on_def wait_obj_of_def)
  qed
qed

lemma sem_post_as_wake:
  assumes x: "semaphores s sem = Some x" and sem: "sem \<noteq> NULL" and room: "sem_count x < max_count x"
  defines "s1 \<equiv> s\<lparr>semaphores := (semaphores s)(sem \<mapsto> x\<lparr>sem_count := sem_count x + 1\<rparr>), primask := True\<rparr>"
  assumes wake: "do {
      (t, s) \<leftarrow> sem_wait_pop_head sem s1;
      if t \<noteq> NULL then do {
        s \<leftarrow> upd_tcb t woken s; (_, s) \<leftarrow> scheduler_add_task t s; Some (scheduler_mark_reschedule s)
      } else Some s } = Some s2"
  shows "semaphore_post sem s = Some (RTOS_OK, scheduler_mark_reschedule (cpsie s2))"
proof -
  obtain t s3 where pop: "sem_wait_pop_head sem s1 = Some (t, s3)"
    and rest: "(if t \<noteq> NULL then do {
        s \<leftarrow> upd_tcb t woken s3; (_, s) \<leftarrow> scheduler_add_task t s; Some (scheduler_mark_reschedule s)
      } else Some s3) = Some s2"
    using wake by (auto simp: bind_eq_Some_conv)
  show ?thesis
  proof (cases "t = NULL")
    case True
    then show ?thesis using assms(1-3) pop rest
      by (simp add: semaphore_post_def Let_def cpsid_def s1_def not_le)
  next
    case False
    then obtain s4 k s5 where "upd_tcb t woken s3 = Some s4" "scheduler_add_task t s4 = Some (k, s5)"
      "s2 = scheduler_mark_reschedule s5" using rest by (auto simp: bind_eq_Some_conv)
    then show ?thesis using assms(1-3) pop False
      by (simp add: semaphore_post_def Let_def cpsid_def cpsie_def s1_def not_le woken_def [abs_def] scheduler_mark_reschedule_def)
  qed
qed

lemma sem_post_keeps:
  assumes sys: "system_rel img s Q W R xs ys" and call: "semaphore_post sem s = Some (r, s')"
  shows "system_inv img s'"
proof (cases "sem = NULL")
  case True
  then show ?thesis using call sys by (auto simp: semaphore_post_def intro: system_invI)
next
  case False
  obtain x where x: "semaphores s sem = Some x"
    using call False by (auto simp: semaphore_post_def Let_def bind_eq_Some_conv cpsid_def get_sem_def fetch_eq_Some_iff)
  show ?thesis
  proof (cases "sem_count x < max_count x")
    case False
    then have "s' = s\<lparr>primask := False\<rparr>" using call \<open>sem \<noteq> NULL\<close> x
      by (simp add: semaphore_post_def Let_def cpsid_def cpsie_def not_less)
    then have "system_rel img s' Q W R xs ys" by (intro system_same [OF sys]) simp_all
    then show ?thesis by (rule system_invI)
  next
    case True
    let ?s1 = "s\<lparr>semaphores := (semaphores s)(sem \<mapsto> x\<lparr>sem_count := sem_count x + 1\<rparr>), primask := True\<rparr>"
    have sys1: "system_rel img ?s1 Q W R xs ys" by (rule system_same [OF sys]) (simp_all add: wptr_sem_upd [OF x])
    have p: "wptr ?s1 (SemQ sem) \<noteq> None" using False by (simp add: wptr_def get_sem_def fetch_def)
    obtain s2 Q' where wake: "do {
        (t, s) \<leftarrow> sem_wait_pop_head sem ?s1;
        if t \<noteq> NULL then do {
          s \<leftarrow> upd_tcb t woken s; (_, s) \<leftarrow> scheduler_add_task t s; Some (scheduler_mark_reschedule s)
        } else Some s } = Some s2"
      and sys2: "system_rel img s2 Q' (W(SemQ sem := tl (W (SemQ sem)))) R xs ys"
      by (rule sem_q.wake_waits [OF sys1 p])
    have "s' = scheduler_mark_reschedule (cpsie s2)" using sem_post_as_wake [OF x False True wake] call by simp
    then have "system_rel img s' Q' (W(SemQ sem := tl (W (SemQ sem)))) R xs ys"
      by (intro system_same [OF sys2]) (simp_all add: scheduler_mark_reschedule_def cpsie_def)
    then show ?thesis by (rule system_invI)
  qed
qed

lemma queue_wptr: "msg_queues s q = Some x \<Longrightarrow> q \<noteq> NULL \<Longrightarrow> wptr s (SendQ q) \<noteq> None \<and> wptr s (RecvQ q) \<noteq> None"
  by (simp add: wptr_def get_queue_def fetch_def)

lemma wake_head_keeps:
  assumes sys: "system_rel img s Q W R xs ys" and w: "w = SendQ q \<or> w = RecvQ q" and p: "wptr s w \<noteq> None"
    and wake: "wake_head w s = Some s'"
  shows "\<exists>Q' W'. system_rel img s' Q' W' R xs ys"
  using w
proof
  assume w: "w = SendQ q"
  obtain s1 Q' where "wake_head w s = Some s1" and "system_rel img s1 Q' (W(SendQ q := tl (W (SendQ q)))) R xs ys"
    unfolding w wake_head_woken by (rule send_q.wake_waits [OF sys p [unfolded w]])
  then show ?thesis using wake by auto
next
  assume w: "w = RecvQ q"
  obtain s1 Q' where "wake_head w s = Some s1" and "system_rel img s1 Q' (W(RecvQ q := tl (W (RecvQ q)))) R xs ys"
    unfolding w wake_head_woken by (rule recv_q.wake_waits [OF sys p [unfolded w]])
  then show ?thesis using wake by auto
qed

text \<open>The branch of a queue call that moves a message: indices and bytes, then the wake-up.\<close>

lemma queue_move_keeps:
  assumes sys: "system_rel img s Q W R xs ys" and x: "msg_queues s q = Some x" and q: "q \<noteq> NULL"
    and y: "send_wait_head y = send_wait_head x" "send_wait_tail y = send_wait_tail x"
      "recv_wait_head y = recv_wait_head x" "recv_wait_tail y = recv_wait_tail x"
    and w: "w = SendQ q \<or> w = RecvQ q"
    and wake: "wake_head w (s\<lparr>msg_queues := (msg_queues s)(q \<mapsto> y), ram := B, primask := True\<rparr>) = Some s1"
  shows "system_inv img (cpsie s1)"
proof -
  let ?s = "s\<lparr>msg_queues := (msg_queues s)(q \<mapsto> y), ram := B, primask := True\<rparr>"
  have sys1: "system_rel img ?s Q W R xs ys" by (rule system_same [OF sys]) (simp_all add: wptr_queue_upd [OF x y])
  have "msg_queues ?s q = Some y" by simp
  then have "wptr ?s w \<noteq> None" using queue_wptr q w by blast
  then obtain Q' W' where "system_rel img s1 Q' W' R xs ys" using wake_head_keeps [OF sys1 w _ wake] by blast
  then have "system_rel img (cpsie s1) Q' W' R xs ys" by (rule system_same) (simp_all add: cpsie_def)
  then show ?thesis by (rule system_invI)
qed

lemma send_keeps:
  assumes sys: "system_rel img s Q W R xs ys" and run: "running s" and call: "msg_queue_send q m n s = Some (r, s')"
  shows "system_inv img s'"
proof (cases "q = NULL \<or> m = NULL")
  case True
  then show ?thesis using call sys
    by (auto simp: msg_queue_send_def blocking_call_def msg_queue_send_attempt_def intro: system_invI)
next
  case False
  have nn: "current_tcb s \<noteq> NULL" by (rule runningE [OF run sys])
  note defs = msg_queue_send_def blocking_call_def msg_queue_send_attempt_def Let_def
  obtain x where x: "msg_queues s q = Some x"
    using call False nn by (auto simp: defs bind_eq_Some_conv cpsid_def get_queue_def fetch_eq_Some_iff)
  show ?thesis
  proof (cases "q_count x < depth x")
    case True
    then obtain B s1 where "wake_head (RecvQ q) (s\<lparr>msg_queues := (msg_queues s)(q \<mapsto>
        x\<lparr>q_tail := (q_tail x + 1) mod depth x, q_count := q_count x + 1\<rparr>), ram := B, primask := True\<rparr>) = Some s1"
      and s': "s' = cpsie s1"
      using call False nn x by (auto simp: defs bind_eq_Some_conv cpsid_def)
    from this(1) show ?thesis unfolding s' by (rule queue_move_keeps [OF sys x, rotated 6]) (use False in simp_all)
  next
    case full: False
    obtain s1 where "queue_enqueue (SendQ q) (current_tcb s) (cpsid s) = Some s1"
      and "block_enter n BLOCK_MSG_SEND q (cpsie s1) = Some (r, s')"
      using call False nn x full by (auto simp: defs bind_eq_Some_conv cpsid_def)
    then show ?thesis
      by (rule send_q.block_keeps [OF sys run _, rotated 2]) (use queue_wptr [OF x] False in \<open>simp_all add: blocked_on_def wait_obj_of_def\<close>)
  qed
qed

lemma recv_keeps:
  assumes sys: "system_rel img s Q W R xs ys" and run: "running s" and call: "msg_queue_recv q m n s = Some (r, s')"
  shows "system_inv img s'"
proof (cases "q = NULL \<or> m = NULL")
  case True
  then show ?thesis using call sys
    by (auto simp: msg_queue_recv_def blocking_call_def msg_queue_recv_attempt_def intro: system_invI)
next
  case False
  have nn: "current_tcb s \<noteq> NULL" by (rule runningE [OF run sys])
  note defs = msg_queue_recv_def blocking_call_def msg_queue_recv_attempt_def Let_def
  obtain x where x: "msg_queues s q = Some x"
    using call False nn by (auto simp: defs bind_eq_Some_conv cpsid_def get_queue_def fetch_eq_Some_iff)
  show ?thesis
  proof (cases "q_count x > 0")
    case True
    then obtain B s1 where "wake_head (SendQ q) (s\<lparr>msg_queues := (msg_queues s)(q \<mapsto>
        x\<lparr>q_head := (q_head x + 1) mod depth x, q_count := q_count x - 1\<rparr>), ram := B, primask := True\<rparr>) = Some s1"
      and s': "s' = cpsie s1"
      using call False nn x by (auto simp: defs bind_eq_Some_conv cpsid_def)
    from this(1) show ?thesis unfolding s' by (rule queue_move_keeps [OF sys x, rotated 6]) (use False in simp_all)
  next
    case none: False
    obtain s1 where "queue_enqueue (RecvQ q) (current_tcb s) (cpsid s) = Some s1"
      and "block_enter n BLOCK_MSG_RECV q (cpsie s1) = Some (r, s')"
      using call False nn x none by (auto simp: defs bind_eq_Some_conv cpsid_def)
    then show ?thesis
      by (rule recv_q.block_keeps [OF sys run _, rotated 2]) (use queue_wptr [OF x] False in \<open>simp_all add: blocked_on_def wait_obj_of_def\<close>)
  qed
qed

text \<open>When a blocked caller runs again it returns the timeout or starts its call over.\<close>

lemma resume_cases:
  assumes run: "running s" and call: "blocking_resume att n reason x s = Some (r, s')"
  shows "s' = s \<or> blocking_call att n reason x s = Some (r, s')"
  using assms by (auto simp: blocking_resume_def block_spin_def bind_eq_Some_conv running_def get_tcb_def fetch_eq_Some_iff
      split: if_splits)

section \<open>Creation and deletion\<close>

lemma create_returns:
  assumes sys: "system_rel img s Q W R xs ys" and img: "image_ok img" and hi: "unat stack_sz + 30 < 2 ^ 32"
  shows "\<exists>a s'. task_create img f prio stack_sz nm s = Some (a, s') \<and> system_inv img s'"
proof -
  note inv = system_relD(1) [OF sys] and win = system_relD(2) [OF sys]
  have tsz: "unat (sizeof_TCB img) + 15 < 2 ^ 32" using img by (simp add: image_ok_def)
  let ?sz = "(stack_sz + 7) AND NOT 7"
  have usz: "unat ?sz + 15 < 2 ^ 32" using hi by (subst unat_align8) simp_all
  obtain p s1 where a1: "heap_alloc (sizeof_TCB img) s = Some (p, s1)" by (rule heap_alloc_returns [OF task_invD(2) [OF inv] tsz])
  obtain q s2 where a2: "heap_alloc ?sz s1 = Some (q, s2)"
    using heap_alloc_result [OF task_invD(2) [OF inv] tsz a1] heap_alloc_returns [OF _ usz] task_invD(2) [OF inv] by metis
  show ?thesis
  proof (cases "f = NULL \<or> unat stack_sz < 256 \<or> 31 \<le> length (remove1 (idle_tcb s) R) \<or> p = NULL \<or> q = NULL")
    case True
    then obtain s3 xs' where s3: "task_create img f prio stack_sz nm s = Some (NULL, s3)" "heap_frame s s3"
        "heap_inv (heap_pool img) s3 xs' ys"
      using task_create_fails [OF inv tsz hi, of f prio nm] a1 a2 by blast
    note fs = heap_frame_sel [OF s3(2)]
    have "waits_inv s3 W" by (rule waits_inv_cong [OF win fs(10,1)])
    then have "system_rel img s3 Q W R xs' ys"
      using task_inv_heap [OF inv s3(2,3)] system_relD(3,4) [OF sys] by (simp add: system_rel_def idle_runs_def fs)
    then show ?thesis using s3(1) by (auto intro: system_invI)
  next
    case False
    have "length (remove1 (idle_tcb s) R) = length R - 1" using task_invD(7) [OF inv] by (simp add: length_remove1)
    then have cnt: "length R < 32" using False by auto
    have pre: "f \<noteq> NULL" "256 \<le> unat stack_sz" "p \<noteq> NULL" "q \<noteq> NULL" using False by auto
    obtain s3 xs' n m t where s3: "task_create img f prio stack_sz nm s = Some (p, s3)"
        "task_inv img s3 (Q(unat (prio_bucket_of prio) := Q (unat (prio_bucket_of prio)) @ [p])) (R @ [p]) xs'
          ((q - 8, m) # (p - 8, n) # ys)"
        "waits_inv s3 W" "idle_tcb s3 = idle_tcb s" "current_tcb s3 = current_tcb s"
      and same: "\<forall>a. a \<noteq> p \<longrightarrow> map_option erase_links (tcbs s3 a) = map_option erase_links (tcbs s a)"
      by (rule task_create_outcome [OF inv win pre(1,2) hi cnt tsz a1 pre(3) a2 pre(4)])
    have "idle_tcb s \<noteq> p" using task_inv_registry_distinct [OF s3(2)] task_invD(7) [OF inv] by auto
    then have "map_option erase_links (tcbs s3 (idle_tcb s)) = map_option erase_links (tcbs s (idle_tcb s))" using same by blast
    moreover obtain i where "tcbs s (idle_tcb s) = Some i" "runnable i" using system_relD(4) [OF sys] by (auto simp: idle_runs_def)
    ultimately have "idle_runs s3" using s3(4) by (auto simp: idle_runs_def runnable_def dest!: erase_links_eqD)
    then have "system_rel img s3 (Q(unat (prio_bucket_of prio) := Q (unat (prio_bucket_of prio)) @ [p])) W (R @ [p]) xs'
          ((q - 8, m) # (p - 8, n) # ys)"
      using s3 system_relD(3) [OF sys] by (auto simp: system_rel_def)
    then show ?thesis using s3(1) by (auto intro: system_invI)
  qed
qed

lemma create_keeps:
  assumes "system_rel img s Q W R xs ys" and "image_ok img" and "unat stack_sz + 30 < 2 ^ 32"
    and "task_create img f prio stack_sz nm s = Some (a, s')"
  shows "system_inv img s'"
  using create_returns [OF assms(1-3), of f prio nm] assms(4) by auto

lemma delete_keeps:
  assumes sys: "system_rel img s Q W R xs ys" and t: "tcbs s a = Some t" "state t \<noteq> TASK_STATE_TERMINATED"
    and call: "task_delete a s = Some (r, s')"
  shows "system_inv img s'"
proof (cases "a = idle_tcb s \<or> a = current_tcb s")
  case True
  then have "s' = s" using call sched_inv_nonnull [OF system_relD(5) [OF sys] t(1)] by (auto simp: task_delete_def split: if_splits)
  then show ?thesis using sys by (auto intro: system_invI)
next
  case False
  note inv = system_relD(1) [OF sys]
  have mem: "a \<in> set R" using task_invD(6) [OF inv] t by blast
  have ne: "a \<noteq> idle_tcb s" "a \<noteq> current_tcb s" using False by auto
  obtain s1 xs' n m v where del: "task_delete a s = Some (RTOS_OK, s1)"
      "task_inv img s1 (Q(unat (prio_bucket t) := remove1 a (Q (unat (prio_bucket t))))) (remove1 a R) xs'
        (filter (\<lambda>b. fst b \<noteq> a - 8 \<and> fst b \<noteq> stack_base t - 8) ys)"
      "waits_inv s1 (\<lambda>w. removeAll a (W w))"
    and l: "same_but_links ((tcbs s)(a \<mapsto> v)) (tcbs s1)"
    and f: "idle_tcb s1 = idle_tcb s" "current_tcb s1 = current_tcb s"
    by (rule task_delete_outcome [OF inv system_relD(2) [OF sys] mem ne t(1)])
  obtain i where i: "((tcbs s)(a \<mapsto> v)) (idle_tcb s) = Some i" "runnable i"
    using system_relD(4) [OF sys] ne(1) by (auto simp: idle_runs_def)
  obtain r1 w1 where "tcbs s1 (idle_tcb s) = Some (i\<lparr>next_ready := r1, mutex_wait_next := w1\<rparr>)"
    by (rule same_but_links_Some [OF l i(1)])
  then have "idle_runs s1" using i(2) f(1) by (simp add: idle_runs_def runnable_def)
  moreover have "current_tcb s1 = NULL \<or> current_tcb s1 \<in> set (remove1 a R)"
    using system_relD(3) [OF sys] ne(2) f(2) by auto
  ultimately have "system_rel img s1 (Q(unat (prio_bucket t) := remove1 a (Q (unat (prio_bucket t))))) (\<lambda>w. removeAll a (W w))
      (remove1 a R) xs' (filter (\<lambda>b. fst b \<noteq> a - 8 \<and> fst b \<noteq> stack_base t - 8) ys)"
    using del by (simp add: system_rel_def)
  then show ?thesis using del(1) call by (auto intro: system_invI)
qed

section \<open>Ticks and context switches\<close>

text \<open>Timer callbacks may call kernel services, as long as they keep the invariant.\<close>

definition safe_callbacks :: "image \<Rightarrow> callbacks \<Rightarrow> bool" where
  "safe_callbacks img cb \<longleftrightarrow> (\<forall>f arg s s'. cb f arg s = Some s' \<longrightarrow> system_inv img s \<longrightarrow> system_inv img s')"

lemma system_inv_timer:
  "system_inv img s \<Longrightarrow> system_inv img (s\<lparr>sw_timers := S\<rparr>)" "system_inv img s \<Longrightarrow> system_inv img (s\<lparr>timer_list := p\<rparr>)"
  unfolding system_inv_def [of img s] by (auto intro!: system_invI [OF system_same])

lemma wake_delayed_returns:
  assumes sys: "system_rel img s Q W R xs ys"
  obtains s' Q' W' where "rtos_wake_delayed s = Some s'" and "system_rel img s' Q' W' R xs ys" and "calm s' = calm s"
    and "same_life (tcbs s) (tcbs s')"
proof -
  let ?now = "s_rtos_tick_count s"
  note inv = system_relD(1) [OF sys]
  have live: "\<forall>a \<in> set R. tcbs s a \<noteq> None" using task_invD(6) [OF inv] by blast
  have reg: "0 + unat (task_registry_count s) \<le> length (task_registry s)"
    "take (unat (task_registry_count s)) (drop 0 (task_registry s)) = R"
    using task_invD(3) [OF inv] by (simp_all add: registry_def)
  obtain s1 where s1: "wake_loop ?now 0 (unat (task_registry_count s)) s = Some s1"
      "sched_inv s1 (wake_ready ?now s R Q)" "waits_inv s1 (wake_waits ?now s R W)"
    and links: "same_but_links (wake_tcbs ?now s R) (tcbs s1)" and cs: "calm s1 = calm s"
    using wake_loop_refines [OF system_relD(5,2) [OF sys] reg task_inv_registry_distinct [OF inv] live] by blast
  have life: "same_life (tcbs s) (wake_tcbs ?now s R)"
    unfolding same_life_def wake_tcbs_def due_def overdue_def
    by (auto simp: tick_woken_def woken_def mutex_timed_out_def sem_timed_out_def split: option.splits block_reason_t.splits)
  with calm_sel [OF cs] have "system_rel img s1 (wake_ready ?now s R Q) (wake_waits ?now s R W) R xs ys"
    by (intro system_links [OF sys s1(2,3) same_env_calm [OF cs] _ links]) (auto simp: wake_tcbs_def due_def)
  moreover have "rtos_wake_delayed s = Some s1" using s1(1) by (simp add: rtos_wake_delayed_def)
  ultimately show thesis using that cs same_life_trans [OF life same_life_links [OF links]] by blast
qed

lemma wake_delayed_keeps:
  assumes sys: "system_rel img s Q W R xs ys" and call: "rtos_wake_delayed s = Some s'"
  shows "system_inv img s'"
proof -
  obtain s1 Q' W' where "rtos_wake_delayed s = Some s1" "system_rel img s1 Q' W' R xs ys" by (rule wake_delayed_returns [OF sys])
  then show ?thesis using call by (auto intro: system_invI)
qed

lemma stack_check_state:
  "stack_check_loop i k s = Some (h, s') \<Longrightarrow>
   \<exists>n v. s' = s\<lparr>g_rtos_stack_overflow_task_name := n, g_rtos_stack_overflow_canary := v\<rparr>"
proof (induction k arbitrary: i)
  case 0
  then show ?case
    by (intro exI [of _ "g_rtos_stack_overflow_task_name s"] exI [of _ "g_rtos_stack_overflow_canary s"]) simp
next
  case (Suc k)
  obtain a where a: "arr_get (task_registry s) i = Some a" using Suc.prems by (auto simp: bind_eq_Some_conv)
  show ?case
  proof (cases "stack_check_loop (Suc i) k s = Some (h, s')")
    case True
    then show ?thesis by (rule Suc.IH)
  next
    case False
    then obtain t where t: "get_tcb s a = Some t" using Suc.prems a by (auto simp: bind_eq_Some_conv split: if_splits)
    have "s' = s\<lparr>g_rtos_stack_overflow_task_name := name t, g_rtos_stack_overflow_canary := stack_mem s (stack_base t)\<rparr>"
      using Suc.prems a t False by (simp add: Let_def split: if_splits)
    then show ?thesis by blast
  qed
qed

lemma stack_check_keeps:
  assumes "system_inv img s" and "rtos_stack_check_all s = Some (h, s')"
  shows "system_inv img s'"
proof -
  obtain n v where s': "s' = s\<lparr>g_rtos_stack_overflow_task_name := n, g_rtos_stack_overflow_canary := v\<rparr>"
    using stack_check_state assms(2) unfolding rtos_stack_check_all_def by blast
  obtain Q W R xs ys where "system_rel img s Q W R xs ys" using assms(1) by (auto simp: system_inv_def)
  then have "system_rel img s' Q W R xs ys"
  proof (rule system_same)
    show "wptr s' w = wptr s w" for w by (rule wptr_cong) (simp_all add: s')
  qed (simp_all add: s' same_env_def)
  then show ?thesis by (rule system_invI)
qed

lemma time_slice_step:
  assumes sys: "system_rel img s Q W R xs ys" and call: "scheduler_time_slice_tick s = Some s'"
  shows "system_rel img s' Q W R xs ys"
proof -
  have cur: "current_ok s"
    using system_relD(3) [OF sys] task_invD(6) [OF system_relD(1) [OF sys]] by (auto simp: current_ok_def live_tcb_def)
  obtain s1 where s1: "scheduler_time_slice_tick s = Some s1" "sched_inv s1 Q" "waits_inv s1 W"
    by (rule time_slice_keeps [OF system_relD(5,2) [OF sys] cur])
  obtain T j where eq: "scheduler_time_slice_tick s = Some (s\<lparr>tcbs := T, icsr := j\<rparr>)"
    and T: "T = tcbs s \<or> (\<exists>t n. tcbs s (current_tcb s) = Some t \<and> T = (tcbs s)(current_tcb s \<mapsto> t\<lparr>time_slice_counter := n\<rparr>))"
    by (rule time_slice_refines [OF system_relD(5) [OF sys] cur])
  have s': "s' = s\<lparr>tcbs := T, icsr := j\<rparr>" "s' = s1" using call eq s1(1) by simp_all
  show ?thesis
  proof (rule system_links [OF sys s1(2,3) [folded s'(2)]])
    show "same_life (tcbs s) T" using T by (auto simp: same_life_def)
    show "\<exists>j. T (idle_tcb s) = Some j \<and> runnable j" if "tcbs s (idle_tcb s) = Some i" "runnable i" for i
      using T that by (auto simp: runnable_def)
  qed (simp_all add: s'(1))
qed

lemma SysTick_keeps:
  assumes sys: "system_inv img s" and cb: "safe_callbacks img cb" and call: "SysTick_Handler cb s = Some (h, s')"
  shows "system_inv img s'"
proof -
  obtain s1 s2 s3 where s1: "rtos_wake_delayed (rtos_tick_increment s) = Some s1"
    and s2: "sw_timer_tick_process cb s1 = Some s2" and s3: "rtos_stack_check_all s2 = Some (h, s3)"
    and s': "(if h then Some (True, s3) else do { s \<leftarrow> scheduler_time_slice_tick s3; Some (False, scheduler_mark_reschedule s) }) = Some (h, s')"
    using call by (auto simp: SysTick_Handler_def Let_def bind_eq_Some_conv split: if_splits)
  obtain Q W R xs ys where "system_rel img s Q W R xs ys" using sys by (auto simp: system_inv_def)
  then have "system_rel img (rtos_tick_increment s) Q W R xs ys"
    by (rule system_same) (simp_all add: rtos_tick_increment_def)
  then have "system_inv img s1" using s1 by (rule wake_delayed_keeps)
  then have "system_inv img s2"
    using tick_loop_keeps [where P = "system_inv img", OF s2 [unfolded sw_timer_tick_process_def]] system_inv_timer cb
    unfolding safe_callbacks_def by blast
  then have i3: "system_inv img s3" using s3 by (rule stack_check_keeps)
  show ?thesis
  proof (cases h)
    case True
    then show ?thesis using s' i3 by simp
  next
    case False
    then obtain s4 where s4: "scheduler_time_slice_tick s3 = Some s4" "s' = scheduler_mark_reschedule s4"
      using s' by (auto simp: bind_eq_Some_conv)
    obtain Q W R xs ys where "system_rel img s3 Q W R xs ys" using i3 by (auto simp: system_inv_def)
    then have "system_rel img s4 Q W R xs ys" using s4(1) by (rule time_slice_step)
    then have "system_rel img s' Q W R xs ys" by (rule system_same) (simp_all add: s4(2) scheduler_mark_reschedule_def)
    then show ?thesis by (rule system_invI)
  qed
qed

text \<open>Selecting the next task.\<close>

lemma system_queued: "system_rel img s Q W R xs ys \<Longrightarrow> queued Q \<noteq> {}"
proof -
  assume sys: "system_rel img s Q W R xs ys"
  obtain i where i: "tcbs s (idle_tcb s) = Some i" "runnable i" using system_relD(4) [OF sys] by (auto simp: idle_runs_def)
  have "idle_tcb s \<in> set (Q (unat (prio_bucket i)))"
    using placed_runnable [OF sched_inv_placed [OF system_relD(5) [OF sys] i(1)] i(2)] .
  moreover have "unat (prio_bucket i) < RTOS_NUM_PRIORITIES" using system_relD(5) [OF sys] i(1) by simp
  ultimately show "queued Q \<noteq> {}" using queuedI by blast
qed

lemma demoted_life: "same_life (tcbs s) (demoted s)"
proof -
  have "stack_base (demote t) = stack_base t" "state (demote t) = TASK_STATE_TERMINATED \<longleftrightarrow> state t = TASK_STATE_TERMINATED" for t
    by (simp_all add: demote_def)
  then show ?thesis by (simp add: same_life_def demoted_def option.map_comp comp_def)
qed

lemma demoted_wait: "wait_link (demoted s) = wait_link (tcbs s)"
  by (auto simp: wait_link_def demoted_def option.map_comp comp_def)

lemma runnable_demote [simp]: "runnable (demote t) = runnable t"
  by (auto simp: demote_def runnable_def)

lemma blocked_on_demote [simp]: "blocked_on (demote t) = blocked_on t"
  by (auto simp: demote_def blocked_on_def wait_obj_of_def split: block_reason_t.split)

lemma get_next_keeps:
  assumes sys: "system_rel img s Q W R xs ys"
  obtains p s' t where "p < RTOS_NUM_PRIORITIES" and "Q p \<noteq> []" and "\<forall>q < p. Q q = []"
    and "scheduler_get_next s = Some (hd (Q p), s')" and "current_tcb s' = hd (Q p)" and "hd (Q p) \<noteq> NULL"
    and "system_rel img s' (Q(p := rotate1 (Q p))) W R xs ys" and "tcbs s' (hd (Q p)) = Some t" and "state t = TASK_STATE_RUNNING"
    and "idle_tcb s' = idle_tcb s"
proof -
  note inv = system_relD(5) [OF sys] and win = system_relD(2) [OF sys] and tinv = system_relD(1) [OF sys]
  have cur: "current_ok s"
    using system_relD(3) [OF sys] task_invD(6) [OF tinv] by (auto simp: current_ok_def live_tcb_def)
  obtain p where p: "p < RTOS_NUM_PRIORITIES" "Q p \<noteq> []" "\<forall>q < p. Q q = []"
    using least_bucket [OF sched_inv_rel [OF inv] system_queued [OF sys]] by blast
  let ?a = "hd (Q p)"
  obtain s1 where s1: "scheduler_get_next s = Some (?a, s1)" "sched_inv s1 (Q(p := rotate1 (Q p)))" "current_tcb s1 = ?a"
    by (rule get_next_inv [OF inv cur p])
  obtain t rh where eq: "scheduler_get_next s = Some (?a,
        s\<lparr>tcbs := (demoted s)(?a \<mapsto> t\<lparr>state := TASK_STATE_RUNNING, time_slice_counter := 0\<rparr>), ready_head := rh, current_tcb := ?a\<rparr>)"
    and t: "demoted s ?a = Some t" and nn: "?a \<noteq> NULL"
    by (rule get_next_refines [OF sched_inv_rel [OF inv] cur p])
  let ?v = "t\<lparr>state := TASK_STATE_RUNNING, time_slice_counter := 0\<rparr>"
  let ?T = "(demoted s)(?a \<mapsto> ?v)"
  have s1_eq: "s1 = s\<lparr>tcbs := ?T, ready_head := rh, current_tcb := ?a\<rparr>" using s1(1) eq by simp
  have mem: "?a \<in> set R" using task_inv_queued [OF tinv] queuedI [OF p(1), of ?a Q] p(2) by auto
  obtain u where u: "tcbs s ?a = Some u" using demoted_Some t by (auto simp: demoted_def split: if_splits)
  have ru: "runnable u" using sched_inv_queued [OF inv u p(1)] p(2) by simp
  have tu: "t = u \<or> t = demote u" using t u by (auto simp: demoted_def split: if_splits)
  then have rt: "runnable t" using ru by (auto simp: demote_def runnable_def)
  have life: "same_life (tcbs s) ?T"
    by (rule same_life_trans [OF demoted_life same_life_upd [where T = "demoted s", OF t]]) (use rt in \<open>auto simp: runnable_def\<close>)
  have ptr: "wptr s1 w = wptr s w" for w by (rule wptr_cong) (simp_all add: s1_eq)
  have "wait_link (tcbs s1) = wait_link (demoted s)" using t by (auto simp: s1_eq wait_link_def)
  then have wl: "wait_link (tcbs s1) = wait_link (tcbs s)" by (simp add: demoted_wait)
  have bl: "(\<exists>v. tcbs s1 a = Some v \<and> blocked_on v = Some w) \<longleftrightarrow> (\<exists>v. tcbs s a = Some v \<and> blocked_on v = Some w)" for a w
  proof (cases "a = ?a")
    case True
    then show ?thesis using u ru by (auto simp: s1_eq blocked_on_def runnable_def split: if_splits)
  qed (auto simp: s1_eq demoted_def)
  have "waits_inv s1 W"
    using win waiters_of_cong [OF _ ptr wl] unfolding waits_inv_def ptr bl by blast
  then have "system_rel img s1 (Q(p := rotate1 (Q p))) W R xs ys"
  proof (rule system_links [OF sys s1(2) _ _ _ _ life])
    show "\<exists>j. ?T (idle_tcb s) = Some j \<and> runnable j" if i: "tcbs s (idle_tcb s) = Some i" "runnable i" for i
    proof -
      obtain j where "demoted s (idle_tcb s) = Some j" "runnable j" using i
        by (cases "idle_tcb s = current_tcb s \<and> idle_tcb s \<noteq> NULL") (auto simp: demoted_def)
      then show ?thesis by (cases "idle_tcb s = ?a") (auto simp: runnable_def)
    qed
  qed (use mem in \<open>simp_all add: s1_eq\<close>)
  then show thesis using that [OF p s1(1,3) nn, of ?v] by (simp add: s1_eq)
qed

lemma save_context_keeps:
  assumes sys: "system_rel img s Q W R xs ys"
  obtains s' where "save_context c s = Some s'" and "system_rel img s' Q W R xs ys" and "idle_tcb s' = idle_tcb s"
proof (cases "psp c = 0 \<or> current_tcb s = NULL")
  case True
  let ?s = "if psp c = 0 then s else s\<lparr>stack_mem := store_words (psp c - 32) (r4_r11 c) (stack_mem s)\<rparr>"
  have "save_context c s = Some ?s" using True by (auto simp: save_context_def Let_def)
  moreover have "system_rel img ?s Q W R xs ys" using sys by (simp add: system_same [OF sys])
  ultimately show thesis by (rule that) simp
next
  case False
  then have "current_tcb s \<in> set R" using system_relD(3) [OF sys] by blast
  then obtain t where t: "tcbs s (current_tcb s) = Some t" "state t \<noteq> TASK_STATE_TERMINATED"
    using task_invD(6) [OF system_relD(1) [OF sys]] by blast
  let ?v = "t\<lparr>stack_ptr := psp c - 32\<rparr>"
  let ?T = "(tcbs s)(current_tcb s \<mapsto> ?v)"
  let ?s = "s\<lparr>tcbs := ?T, stack_mem := store_words (psp c - 32) (r4_r11 c) (stack_mem s)\<rparr>"
  have run: "save_context c s = Some ?s" using save_context_eq [OF t(1)] False by blast
  note inv = system_relD(5) [OF sys] and win = system_relD(2) [OF sys]
  have "placed Q (current_tcb s) ?v" by (rule placed_states [OF sched_inv_placed [OF inv t(1)]]) (simp_all add: runnable_def)
  then have "sched_inv (s\<lparr>tcbs := ?T\<rparr>) Q" by (intro sched_inv_tcb_upd [OF inv t(1)]) simp
  then have inv': "sched_inv ?s Q" using sched_inv_cong [of ?s "s\<lparr>tcbs := ?T\<rparr>" Q] by simp
  have ptr: "wptr ?s w = wptr s w" for w by (rule wptr_cong) simp_all
  have wl: "wait_link (tcbs ?s) = wait_link (tcbs s)" using t by (auto simp: wait_link_def)
  have bl: "(\<exists>v. tcbs ?s a = Some v \<and> blocked_on v = Some w) \<longleftrightarrow> (\<exists>v. tcbs s a = Some v \<and> blocked_on v = Some w)" for a w
    using t(1) by (auto simp: blocked_on_def wait_obj_of_def split: block_reason_t.split)
  have "waits_inv ?s W"
    using win waiters_of_cong [OF _ ptr wl] unfolding waits_inv_def ptr bl by blast
  then have "system_rel img ?s Q W R xs ys"
  proof (rule system_links [OF sys inv'])
    show "same_life (tcbs s) ?T" using t by (auto simp: same_life_def)
    show "\<exists>j. ?T (idle_tcb s) = Some j \<and> runnable j" if "tcbs s (idle_tcb s) = Some i" "runnable i" for i
      using that t(1) by (auto simp: runnable_def)
  qed simp_all
  with run show thesis by (rule that) simp
qed

lemma PendSV_keeps:
  assumes sys: "system_rel img s Q W R xs ys"
  obtains p c' s' where "PendSV_Handler c s = Some (c', s')" and "p < RTOS_NUM_PRIORITIES" and "Q p \<noteq> []"
    and "\<forall>q < p. Q q = []" and "current_tcb s' = hd (Q p)" and "system_rel img s' (Q(p := rotate1 (Q p))) W R xs ys"
    and "\<exists>t. tcbs s' (current_tcb s') = Some t \<and> state t = TASK_STATE_RUNNING" and "idle_tcb s' = idle_tcb s"
proof -
  have "system_rel img (cpsid s) Q W R xs ys" by (rule system_same [OF sys]) (simp_all add: cpsid_def)
  then obtain s1 where s1: "save_context c (cpsid s) = Some s1" "system_rel img s1 Q W R xs ys" "idle_tcb s1 = idle_tcb (cpsid s)"
    by (rule save_context_keeps)
  obtain p s2 t where p: "p < RTOS_NUM_PRIORITIES" "Q p \<noteq> []" "\<forall>q < p. Q q = []"
    and s2: "scheduler_get_next s1 = Some (hd (Q p), s2)" "current_tcb s2 = hd (Q p)" "hd (Q p) \<noteq> NULL"
      "system_rel img s2 (Q(p := rotate1 (Q p))) W R xs ys"
    and t: "tcbs s2 (hd (Q p)) = Some t" "state t = TASK_STATE_RUNNING" "idle_tcb s2 = idle_tcb s1"
    by (rule get_next_keeps [OF s1(2)])
  have "saved_sp s2 (hd (Q p)) = Some (stack_ptr t)" using t by (simp add: saved_sp_def)
  from restore_context_eq [OF this s2(3), of c]
  have "PendSV_Handler c s = Some (c\<lparr>r4_r11 := read_words (stack_mem s2) (stack_ptr t) 8, psp := stack_ptr t + 32\<rparr>, cpsie s2)"
    using s1(1) s2(1) by (simp add: PendSV_Handler_def Let_def)
  moreover have "system_rel img (cpsie s2) (Q(p := rotate1 (Q p))) W R xs ys"
    by (rule system_same [OF s2(4)]) (simp_all add: cpsie_def)
  ultimately show thesis using that [OF _ p] s2(2) t s1(3) by (simp add: cpsie_def cpsid_def)
qed

lemma SVC_keeps:
  assumes sys: "system_rel img s Q W R xs ys" and call: "SVC_Handler c s = Some (c', s')"
  shows "system_inv img s'"
proof -
  obtain p s2 where s2: "scheduler_get_next s = Some (hd (Q p), s2)" "system_rel img s2 (Q(p := rotate1 (Q p))) W R xs ys"
    by (rule get_next_keeps [OF sys])
  then have "s' = cpsie s2" using call by (auto simp: SVC_Handler_def bind_eq_Some_conv)
  then have "system_rel img s' (Q(p := rotate1 (Q p))) W R xs ys"
    by (intro system_same [OF s2(2)]) (simp_all add: cpsie_def)
  then show ?thesis by (rule system_invI)
qed

section \<open>Initialisation and timers\<close>

lemma insert_sorted_keeps:
  assumes "insert_sorted t s = Some s'" and "system_inv img s"
  shows "system_inv img s'"
  using assms
  by (auto simp: insert_sorted_def bind_eq_Some_conv split: if_splits
      dest!: upd_timer_keeps [where P = "system_inv img", OF _ _ system_inv_timer(1)] intro: system_inv_timer(2))

lemma new_object_waits:
  assumes win: "waits_inv s W" and T: "tcbs s' = tcbs s" and p: "\<And>w. wptr s' w = (if w \<in> N then Some (NULL, NULL) else wptr s w)"
    and new: "\<And>w. w \<in> N \<Longrightarrow> wptr s w = None"
  shows "waits_inv s' (\<lambda>w. if w \<in> N then [] else W w)"
proof -
  have no: "\<nexists>t. tcbs s a = Some t \<and> blocked_on t = Some w" if "w \<in> N" for a w
    using waits_inv_mem [OF win] new [OF that] by blast
  have "waiters_of s' w (if w \<in> N then [] else W w)" if "wptr s' w \<noteq> None" for w
    using that p [of w] T waits_inv_list [OF win, of w] by (cases "w \<in> N") (auto simp: waiters_of_def)
  moreover have "wptr s' w \<noteq> None \<and> a \<in> set (if w \<in> N then [] else W w) \<longleftrightarrow> (\<exists>t. tcbs s a = Some t \<and> blocked_on t = Some w)" for w a
    using no [of w a] win p [of w] unfolding waits_inv_def by (cases "w \<in> N") auto
  ultimately show ?thesis unfolding waits_inv_def T by blast
qed

lemma sem_init_keeps:
  assumes sys: "system_rel img s Q W R xs ys" and new: "semaphores s sem = None" and call: "semaphore_init sem n m s = (st, s')"
  shows "system_inv img s'"
proof (cases "s' = s")
  case True
  then show ?thesis using sys by (auto intro: system_invI)
next
  case False
  then have s': "s' = s\<lparr>semaphores := (semaphores s)(sem \<mapsto>
      \<lparr>sem_count = n, max_count = m, sem_wait_head = NULL, sem_wait_tail = NULL\<rparr>)\<rparr>" and nn: "sem \<noteq> NULL"
    using call by (auto simp: semaphore_init_def split: if_splits)
  have "waits_inv s' (\<lambda>w. if w \<in> {SemQ sem} then [] else W w)"
    by (rule new_object_waits [OF system_relD(2) [OF sys]])
       (use nn new in \<open>auto simp: s' wptr_def access_defs fetch_def split: wait_obj.split\<close>)
  moreover have "sched_inv s' Q" using system_relD(5) [OF sys] by (simp add: s')
  ultimately have "system_rel img s' Q (\<lambda>w. if w \<in> {SemQ sem} then [] else W w) R xs ys"
    by (intro system_quiet [OF sys]) (simp_all add: s')
  then show ?thesis by (rule system_invI)
qed

lemma queue_init_keeps:
  assumes sys: "system_rel img s Q W R xs ys" and new: "msg_queues s q = None" and call: "msg_queue_init q b n d s = (st, s')"
  shows "system_inv img s'"
proof (cases "s' = s")
  case True
  then show ?thesis using sys by (auto intro: system_invI)
next
  case False
  then have s': "s' = s\<lparr>msg_queues := (msg_queues s)(q \<mapsto>
      \<lparr>buffer = b, msg_size = n, depth = d, q_head = 0, q_tail = 0, q_count = 0,
       send_wait_head = NULL, send_wait_tail = NULL, recv_wait_head = NULL, recv_wait_tail = NULL\<rparr>)\<rparr>" and nn: "q \<noteq> NULL"
    using call by (auto simp: msg_queue_init_def split: if_splits)
  have "waits_inv s' (\<lambda>w. if w \<in> {SendQ q, RecvQ q} then [] else W w)"
    by (rule new_object_waits [OF system_relD(2) [OF sys]])
       (use nn new in \<open>auto simp: s' wptr_def access_defs fetch_def split: wait_obj.split\<close>)
  moreover have "sched_inv s' Q" using system_relD(5) [OF sys] by (simp add: s')
  ultimately have "system_rel img s' Q (\<lambda>w. if w \<in> {SendQ q, RecvQ q} then [] else W w) R xs ys"
    by (intro system_quiet [OF sys]) (simp_all add: s')
  then show ?thesis by (rule system_invI)
qed

lemma resume_keeps:
  assumes sys: "system_rel img s Q W R xs ys" and run: "running s" and call: "blocking_resume att n reason x s = Some (r, s')"
    and keeps: "blocking_call att n reason x s = Some (r, s') \<Longrightarrow> system_inv img s'"
  shows "system_inv img s'"
  using resume_cases [OF run call] keeps sys by (auto intro: system_invI)

lemma timer_keeps:
  assumes sys: "system_inv img s"
  shows "sw_timer_start_once a n f arg s = Some (st, s') \<Longrightarrow> system_inv img s'"
    and "sw_timer_start_periodic a n f arg s = Some (st, s') \<Longrightarrow> system_inv img s'"
    and "sw_timer_stop a s = Some s' \<Longrightarrow> system_inv img s'"
proof -
  note upd = upd_timer_keeps [where P = "system_inv img", OF _ _ system_inv_timer(1)]
  show "sw_timer_start_once a n f arg s = Some (st, s') \<Longrightarrow> system_inv img s'"
    using sys by (auto simp: sw_timer_start_once_def Let_def bind_eq_Some_conv split: if_splits
        dest!: insert_sorted_keeps [OF _ system_inv_timer(1)])
  show "sw_timer_start_periodic a n f arg s = Some (st, s') \<Longrightarrow> system_inv img s'"
    using sys by (auto simp: sw_timer_start_periodic_def Let_def bind_eq_Some_conv split: if_splits
        dest!: insert_sorted_keeps [OF _ system_inv_timer(1)])
  show "sw_timer_stop a s = Some s' \<Longrightarrow> system_inv img s'"
    using sys by (auto simp: sw_timer_stop_def bind_eq_Some_conv split: if_splits option.splits
        dest: upd intro: system_inv_timer(2))
qed

lemma task_init_system:
  assumes "boot s" and "image_ok img" and "task_init img s = Some (RTOS_OK, s0)"
  shows "system_inv img s0"
proof -
  let ?p = "heap_pool img + 8"
  obtain s' n where s': "task_init img s = Some (RTOS_OK, s')" "idle_tcb s' = ?p" "current_tcb s' = NULL"
      "waits_inv s' (\<lambda>_. [])" "task_inv img s' ((\<lambda>_. [])(7 := [?p])) [?p]
        (alloc_rest (sizeof_TCB img) [] (heap_pool img) RTOS_HEAP_POOL_SIZE) [(heap_pool img, n)]"
    and sr: "same_but_ready [?p \<mapsto> idle_tcb_init img] (tcbs s')"
    by (rule task_init_refines [OF assms(1,2)])
  have "[?p \<mapsto> idle_tcb_init img] ?p = Some (idle_tcb_init img)" by simp
  then obtain r where "tcbs s' ?p = Some ((idle_tcb_init img)\<lparr>next_ready := r\<rparr>)" by (rule same_but_ready_Some [OF sr])
  then have "idle_runs s'" using s'(2) by (simp add: idle_runs_def runnable_def idle_tcb_init_def)
  then have "system_rel img s' ((\<lambda>_. [])(7 := [?p])) (\<lambda>_. []) [?p]
      (alloc_rest (sizeof_TCB img) [] (heap_pool img) RTOS_HEAP_POOL_SIZE) [(heap_pool img, n)]"
    using s' by (simp add: system_rel_def)
  then show ?thesis using s'(1) assms(3) by (auto intro: system_invI)
qed

end
