(* ===== verification/Rtos_Typed.thy ===== *)
theory Rtos_Typed
  imports Rtos_Context
begin

unbundle bit_operations_syntax

text \<open>
  The type invariant of the kernel state: what each record satisfies by itself, whatever the
  lists say. Every operation keeps it, also where the lists become inconsistent: the lemmas
  have no other hypothesis than that the operation returns.
\<close>

section \<open>Well-formed records\<close>

definition typed_tcb :: "TCB_t \<Rightarrow> bool" where
  "typed_tcb t \<longleftrightarrow> length (name t) = RTOS_TASK_NAME_MAX \<and> prio_bucket t = prio_bucket_of (priority t)"

definition typed_mutex :: "mutex_t \<Rightarrow> bool" where
  "typed_mutex x \<longleftrightarrow> (locked x \<longleftrightarrow> owner x \<noteq> NULL)"

definition typed_sem :: "semaphore_t \<Rightarrow> bool" where
  "typed_sem x \<longleftrightarrow> sem_count x \<le> max_count x"

definition typed_queue :: "msg_queue_t \<Rightarrow> bool" where
  "typed_queue x \<longleftrightarrow> q_count x \<le> depth x \<and> q_head x < depth x \<and> q_tail x < depth x"

definition every :: "('a \<Rightarrow> 'b \<Rightarrow> bool) \<Rightarrow> ('a \<rightharpoonup> 'b) \<Rightarrow> bool" where
  "every P M \<longleftrightarrow> (\<forall>a x. M a = Some x \<longrightarrow> P a x)"

text \<open>Only the current task is running, and the arrays have their declared lengths.\<close>

definition typed :: "kernel \<Rightarrow> bool" where
  "typed s \<longleftrightarrow> every (\<lambda>a t. a \<noteq> NULL \<and> typed_tcb t \<and> (state t = TASK_STATE_RUNNING \<longrightarrow> a = current_tcb s)) (tcbs s)
     \<and> every (\<lambda>_. typed_mutex) (mutexes s) \<and> every (\<lambda>_. typed_sem) (semaphores s) \<and> every (\<lambda>_. typed_queue) (msg_queues s)
     \<and> length (ready_head s) = RTOS_NUM_PRIORITIES \<and> length (task_registry s) = unat RTOS_MAX_TASKS + 1"

text \<open>
  While \<open>scheduler_rebucket_task\<close> moves a task, its bucket does not fit its priority: \<open>X\<close> holds
  the tasks that are being moved, with their priorities; \<open>c\<close> is the current task.
\<close>

definition typed_at :: "(addr \<rightharpoonup> u8) \<Rightarrow> addr \<Rightarrow> addr \<Rightarrow> TCB_t \<Rightarrow> bool" where
  "typed_at X c a t \<longleftrightarrow> a \<noteq> NULL \<and> length (name t) = RTOS_TASK_NAME_MAX
     \<and> (case X a of None \<Rightarrow> prio_bucket t = prio_bucket_of (priority t) | Some p \<Rightarrow> priority t = p)
     \<and> (state t = TASK_STATE_RUNNING \<longrightarrow> a = c)"

definition typed_but :: "(addr \<rightharpoonup> u8) \<Rightarrow> kernel \<Rightarrow> bool" where
  "typed_but X s \<longleftrightarrow> every (typed_at X (current_tcb s)) (tcbs s)
     \<and> every (\<lambda>_. typed_mutex) (mutexes s) \<and> every (\<lambda>_. typed_sem) (semaphores s) \<and> every (\<lambda>_. typed_queue) (msg_queues s)
     \<and> length (ready_head s) = RTOS_NUM_PRIORITIES \<and> length (task_registry s) = unat RTOS_MAX_TASKS + 1"

lemma typed_but_none: "typed s = typed_but Map.empty s"
  by (simp add: typed_def typed_but_def typed_tcb_def typed_at_def [abs_def] conj_assoc)

lemma everyD: "every P M \<Longrightarrow> M a = Some x \<Longrightarrow> P a x"
  by (simp add: every_def)

lemma every_upd: "every P M \<Longrightarrow> P a x \<Longrightarrow> every P (M(a \<mapsto> x))"
  by (simp add: every_def)

lemma modify_every: "modify a f M = Some M' \<Longrightarrow> every P M \<Longrightarrow> (\<And>x. M a = Some x \<Longrightarrow> P a x \<Longrightarrow> P a (f x)) \<Longrightarrow> every P M'"
  by (auto simp: modify_eq_Some_iff intro!: every_upd dest: everyD)

lemma typed_but_more [simp]:
  "typed_but X (s\<lparr>primask := p\<rparr>) = typed_but X s" "typed_but X (s\<lparr>icsr := q\<rparr>) = typed_but X s"
  "typed_but X (s\<lparr>ram := B\<rparr>) = typed_but X s" "typed_but X (s\<lparr>stack_mem := M\<rparr>) = typed_but X s"
  "typed_but X (s\<lparr>s_rtos_tick_count := k\<rparr>) = typed_but X s" "typed_but X (s\<lparr>sw_timers := S\<rparr>) = typed_but X s"
  "typed_but X (s\<lparr>timer_list := l\<rparr>) = typed_but X s" "typed_but X (s\<lparr>heap_blocks := H\<rparr>) = typed_but X s"
  "typed_but X (s\<lparr>free_list := l\<rparr>) = typed_but X s" "typed_but X (s\<lparr>heap_ready := b\<rparr>) = typed_but X s"
  "typed_but X (s\<lparr>task_registry_count := n\<rparr>) = typed_but X s" "typed_but X (s\<lparr>idle_tcb := i\<rparr>) = typed_but X s"
  "typed_but X (cpsid s) = typed_but X s" "typed_but X (cpsie s) = typed_but X s"
  "typed_but X (scheduler_mark_reschedule s) = typed_but X s"
  "typed_but X (s\<lparr>g_rtos_stack_overflow_task_name := nm\<rparr>) = typed_but X s"
  "typed_but X (s\<lparr>g_rtos_stack_overflow_canary := v\<rparr>) = typed_but X s"
  by (simp_all add: typed_but_def cpsid_def cpsie_def scheduler_mark_reschedule_def)

lemma typed_but_ready [simp]: "typed_but X s \<Longrightarrow> arr_set i a (ready_head s) = Some rh \<Longrightarrow> typed_but X (s\<lparr>ready_head := rh\<rparr>)"
  by (auto simp: typed_but_def arr_set_def split: if_splits)

lemma upd_tcb_typed:
  assumes "upd_tcb a f s = Some s'" and "typed_but X s"
    and "\<And>t. typed_at X (current_tcb s) a t \<Longrightarrow> typed_at X (current_tcb s) a (f t)"
  shows "typed_but X s'"
proof -
  obtain M where M: "modify a f (tcbs s) = Some M" and s': "s' = s\<lparr>tcbs := M\<rparr>" using assms(1) by (auto simp: upd_tcb_def)
  have "every (typed_at X (current_tcb s)) M" by (rule modify_every [OF M]) (use assms(2,3) in \<open>auto simp: typed_but_def\<close>)
  then show ?thesis using assms(2) by (simp add: typed_but_def s')
qed

lemma upd_mutex_typed:
  assumes "upd_mutex m f s = Some s'" and "typed_but X s" and "\<And>x. typed_mutex x \<Longrightarrow> typed_mutex (f x)"
  shows "typed_but X s'"
proof -
  obtain M where M: "modify m f (mutexes s) = Some M" and s': "s' = s\<lparr>mutexes := M\<rparr>" using assms(1) by (auto simp: upd_mutex_def)
  have "every (\<lambda>_. typed_mutex) M" by (rule modify_every [OF M]) (use assms(2,3) in \<open>auto simp: typed_but_def\<close>)
  then show ?thesis using assms(2) by (simp add: typed_but_def s')
qed

lemma upd_sem_typed:
  assumes "upd_sem m f s = Some s'" and "typed_but X s" and "\<And>x. semaphores s m = Some x \<Longrightarrow> typed_sem x \<Longrightarrow> typed_sem (f x)"
  shows "typed_but X s'"
proof -
  obtain M where M: "modify m f (semaphores s) = Some M" and s': "s' = s\<lparr>semaphores := M\<rparr>" using assms(1) by (auto simp: upd_sem_def)
  have "every (\<lambda>_. typed_sem) M" by (rule modify_every [OF M]) (use assms(2,3) in \<open>auto simp: typed_but_def\<close>)
  then show ?thesis using assms(2) by (simp add: typed_but_def s')
qed

lemma upd_queue_typed:
  assumes "upd_queue q f s = Some s'" and "typed_but X s" and "\<And>x. msg_queues s q = Some x \<Longrightarrow> typed_queue x \<Longrightarrow> typed_queue (f x)"
  shows "typed_but X s'"
proof -
  obtain M where M: "modify q f (msg_queues s) = Some M" and s': "s' = s\<lparr>msg_queues := M\<rparr>" using assms(1) by (auto simp: upd_queue_def)
  have "every (\<lambda>_. typed_queue) M" by (rule modify_every [OF M]) (use assms(2,3) in \<open>auto simp: typed_but_def\<close>)
  then show ?thesis using assms(2) by (simp add: typed_but_def s')
qed

text \<open>The fields of a control block that have no part in the invariant.\<close>

lemma typed_at_more [simp]:
  "typed_at X c a (t\<lparr>next_ready := v\<rparr>) = typed_at X c a t" "typed_at X c a (t\<lparr>mutex_wait_next := v\<rparr>) = typed_at X c a t"
  "typed_at X c a (t\<lparr>blocked_on_mutex := v\<rparr>) = typed_at X c a t" "typed_at X c a (t\<lparr>stack_ptr := v\<rparr>) = typed_at X c a t"
  "typed_at X c a (t\<lparr>block_reason := br\<rparr>) = typed_at X c a t" "typed_at X c a (t\<lparr>block_object := v\<rparr>) = typed_at X c a t"
  "typed_at X c a (t\<lparr>block_wake_status := st\<rparr>) = typed_at X c a t" "typed_at X c a (t\<lparr>wake_time := w\<rparr>) = typed_at X c a t"
  "typed_at X c a (t\<lparr>time_slice_counter := k\<rparr>) = typed_at X c a t" "typed_at X c a (t\<lparr>base_priority := b\<rparr>) = typed_at X c a t"
  "typed_at X c a (t\<lparr>stack_base := v\<rparr>) = typed_at X c a t" "typed_at X c a (t\<lparr>stack_size := z\<rparr>) = typed_at X c a t"
  "typed_at X c a (t\<lparr>task_func := v\<rparr>) = typed_at X c a t"
  by (simp_all add: typed_at_def split: option.split)

lemma typed_at_state [simp]: "typed_at X c a t \<Longrightarrow> st = TASK_STATE_RUNNING \<longrightarrow> a = c \<Longrightarrow> typed_at X c a (t\<lparr>state := st\<rparr>)"
  by (cases "X a") (simp_all add: typed_at_def)

lemma typed_at_prio [simp]: "typed_at Map.empty c a t \<Longrightarrow> typed_at Map.empty c a (t\<lparr>prio_bucket := prio_bucket_of p, priority := p\<rparr>)"
  by (simp add: typed_at_def)

lemma typed_at_moving [simp]: "X a = Some p \<Longrightarrow> typed_at X c a (t\<lparr>prio_bucket := b\<rparr>) = typed_at X c a t"
  by (simp add: typed_at_def)

lemma typed_but_get: "typed_but X s \<Longrightarrow> tcbs s a = Some t \<Longrightarrow> typed_at X (current_tcb s) a t"
  by (rule everyD [where P = "typed_at X (current_tcb s)" and M = "tcbs s"]) (simp_all add: typed_but_def)

lemma typed_but_tcb: "typed_but X s \<Longrightarrow> typed_at X (current_tcb s) a v \<Longrightarrow> typed_but X (s\<lparr>tcbs := (tcbs s)(a \<mapsto> v)\<rparr>)"
  using every_upd [of "typed_at X (current_tcb s)" "tcbs s" a v] by (simp add: typed_but_def)

lemma typed_records [simp]:
  "typed_mutex (x\<lparr>wait_head := h\<rparr>) = typed_mutex x" "typed_mutex (x\<lparr>wait_tail := h\<rparr>) = typed_mutex x"
  "typed_sem (y\<lparr>sem_wait_head := h\<rparr>) = typed_sem y" "typed_sem (y\<lparr>sem_wait_tail := h\<rparr>) = typed_sem y"
  "typed_queue (z\<lparr>send_wait_head := h\<rparr>) = typed_queue z" "typed_queue (z\<lparr>send_wait_tail := h\<rparr>) = typed_queue z"
  "typed_queue (z\<lparr>recv_wait_head := h\<rparr>) = typed_queue z" "typed_queue (z\<lparr>recv_wait_tail := h\<rparr>) = typed_queue z"
  by (simp_all add: typed_mutex_def typed_sem_def typed_queue_def)

section \<open>Scheduler\<close>

lemma ring_insert_typed: "ring_insert b a s = Some s' \<Longrightarrow> typed_but X s \<Longrightarrow> typed_but X s'"
  by (auto simp: ring_insert_def split: if_splits bind_splits dest!: upd_tcb_typed)

lemma add_typed: "scheduler_add_task a s = Some (r, s') \<Longrightarrow> typed_but X s \<Longrightarrow> typed_but X s'"
  by (auto simp: scheduler_add_task_def split: if_splits bind_splits dest!: upd_tcb_typed ring_insert_typed)

lemma remove_typed: "scheduler_remove_task a s = Some s' \<Longrightarrow> typed_but X s \<Longrightarrow> typed_but X s'"
  by (auto simp: scheduler_remove_task_def split: if_splits bind_splits option.splits dest!: upd_tcb_typed)

text \<open>A task leaves the rings of its old bucket and enters those of the bucket of its priority.\<close>

lemma every_mono: "every P M \<Longrightarrow> (\<And>a x. M a = Some x \<Longrightarrow> P a x \<Longrightarrow> P' a x) \<Longrightarrow> every P' M"
  by (simp add: every_def)

lemma typed_but_insert:
  assumes "typed_but Map.empty s" and "tcbs s a = Some t"
  shows "typed_but [a \<mapsto> priority t] s"
proof -
  have "every (typed_at [a \<mapsto> priority t] (current_tcb s)) (tcbs s)"
    by (rule every_mono [where P = "typed_at Map.empty (current_tcb s)"]) (use assms in \<open>auto simp: typed_but_def typed_at_def\<close>)
  then show ?thesis using assms(1) by (simp add: typed_but_def)
qed

lemma typed_but_moved:
  assumes upd: "upd_tcb a (\<lambda>t. t\<lparr>prio_bucket := prio_bucket_of p\<rparr>) s = Some s'" and ty: "typed_but [a \<mapsto> p] s"
  shows "typed_but Map.empty s'"
proof -
  obtain t where t: "tcbs s a = Some t" and s': "s' = s\<lparr>tcbs := (tcbs s)(a \<mapsto> t\<lparr>prio_bucket := prio_bucket_of p\<rparr>)\<rparr>"
    using upd by (auto simp: upd_tcb_def modify_eq_Some_iff)
  have ev: "every (typed_at [a \<mapsto> p] (current_tcb s)) (tcbs s)" using ty by (simp add: typed_but_def)
  have "every (typed_at Map.empty (current_tcb s)) ((tcbs s)(a \<mapsto> t\<lparr>prio_bucket := prio_bucket_of p\<rparr>))"
    unfolding every_def using everyD [OF ev] everyD [OF ev t]
    by (auto simp: typed_at_def split: if_splits) (metis option.case(1))+
  then show ?thesis using ty by (simp add: typed_but_def s')
qed

lemma rebucket_typed:
  assumes call: "scheduler_rebucket_task a old (prio_bucket_of p) s = Some s'" and ty: "typed_but Map.empty s"
    and t: "tcbs s a = Some t" "priority t = p"
  shows "typed_but Map.empty s'"
proof (cases "s' = s")
  case False
  have tp: "typed_but [a \<mapsto> p] s" using typed_but_insert [OF ty t(1)] t(2) by simp
  show ?thesis
  proof (cases "state t = TASK_STATE_READY")
    case True
    then obtain s1 s2 s3 r where s1: "upd_tcb a (\<lambda>t. t\<lparr>prio_bucket := old\<rparr>) s = Some s1" and s2: "scheduler_remove_task a s1 = Some s2"
      and s3: "upd_tcb a (\<lambda>t. t\<lparr>prio_bucket := prio_bucket_of p\<rparr>) s2 = Some s3" and s': "scheduler_add_task a s3 = Some (r, s')"
      using call False t(1) by (auto simp: scheduler_rebucket_task_def get_tcb_def fetch_eq_Some_iff split: if_splits bind_splits)
    have "typed_but [a \<mapsto> p] s1" by (rule upd_tcb_typed [OF s1 tp]) simp
    then have "typed_but [a \<mapsto> p] s2" by (rule remove_typed [OF s2])
    then show ?thesis using add_typed [OF s'] typed_but_moved [OF s3] by blast
  next
    case False
    then have "upd_tcb a (\<lambda>t. t\<lparr>prio_bucket := prio_bucket_of p\<rparr>) s = Some s'"
      using call \<open>s' \<noteq> s\<close> t(1) by (auto simp: scheduler_rebucket_task_def get_tcb_def fetch_eq_Some_iff split: if_splits bind_splits)
    then show ?thesis using tp by (rule typed_but_moved)
  qed
qed (use ty in simp)

lemma apply_pi_typed: "apply_pi m s = Some s' \<Longrightarrow> typed_but Map.empty s \<Longrightarrow> typed_but Map.empty s'"
  by (auto simp: apply_pi_def Let_def upd_tcb_def modify_eq_Some_iff split: if_splits bind_splits
      elim!: rebucket_typed intro!: typed_but_tcb dest: typed_but_get)

lemma restore_typed: "restore_owner_priority a s = Some s' \<Longrightarrow> typed_but Map.empty s \<Longrightarrow> typed_but Map.empty s'"
  by (auto simp: restore_owner_priority_def Let_def upd_tcb_def modify_eq_Some_iff get_tcb_def fetch_eq_Some_iff split: if_splits bind_splits
      elim!: rebucket_typed intro!: typed_but_tcb dest: typed_but_get)

lemma time_slice_typed: "scheduler_time_slice_tick s = Some s' \<Longrightarrow> typed_but X s \<Longrightarrow> typed_but X s'"
  by (auto simp: scheduler_time_slice_tick_def Let_def split: if_splits bind_splits dest!: upd_tcb_typed)

section \<open>Blocking and the wait lists\<close>

lemma block_enter_typed: "block_enter n reason x s = Some (r, s') \<Longrightarrow> typed_but X s \<Longrightarrow> typed_but X s'"
  by (auto simp: block_enter_def block_prepare_def block_commit_def Let_def split: if_splits bind_splits
      dest!: upd_tcb_typed remove_typed)

lemma blocking_call_typed:
  assumes "blocking_call att n reason x s = Some (r, s')" and "typed_but X s" and "\<And>r s'. att s = Some (r, s') \<Longrightarrow> typed_but X s'"
  shows "typed_but X s'"
  using assms by (auto simp: blocking_call_def split: bind_splits option.splits dest!: block_enter_typed)

lemma blocking_resume_typed:
  assumes "blocking_resume att n reason x s = Some (r, s')" and "typed_but X s" and "\<And>r s'. att s = Some (r, s') \<Longrightarrow> typed_but X s'"
  shows "typed_but X s'"
  using assms by (auto simp: blocking_resume_def split: bind_splits option.splits if_splits dest: blocking_call_typed)

lemma wait_list_typed:
  "mutex_wait_enqueue_tail m t s = Some s' \<Longrightarrow> typed_but X s \<Longrightarrow> typed_but X s'"
  "mutex_wait_unlink m t s = Some s' \<Longrightarrow> typed_but X s \<Longrightarrow> typed_but X s'"
  "wait_pop_highest m s = Some (a, s') \<Longrightarrow> typed_but X s \<Longrightarrow> typed_but X s'"
  "sem_wait_enqueue m t s = Some s' \<Longrightarrow> typed_but X s \<Longrightarrow> typed_but X s'"
  "sem_wait_unlink m t s = Some s' \<Longrightarrow> typed_but X s \<Longrightarrow> typed_but X s'"
  "sem_wait_pop_head m s = Some (a, s') \<Longrightarrow> typed_but X s \<Longrightarrow> typed_but X s'"
  by (auto simp: mutex_wait_enqueue_tail_def mutex_wait_unlink_def wait_pop_highest_def sem_wait_enqueue_def sem_wait_unlink_def
      sem_wait_pop_head_def Let_def split: if_splits bind_splits option.splits dest!: upd_tcb_typed upd_mutex_typed upd_sem_typed)

lemma chain_typed:
  "tcb_enqueue_tail ht t T = Some (ht', T') \<Longrightarrow> every (typed_at X c) T \<Longrightarrow> every (typed_at X c) T'"
  "tcb_unlink ht t T = Some (ht', T') \<Longrightarrow> every (typed_at X c) T \<Longrightarrow> every (typed_at X c) T'"
  "tcb_pop_head ht T = Some (a, ht', T') \<Longrightarrow> every (typed_at X c) T \<Longrightarrow> every (typed_at X c) T'"
  by (auto simp: tcb_enqueue_tail_def tcb_unlink_def tcb_pop_head_def Let_def split: if_splits bind_splits option.splits
      dest!: modify_every [where P = "typed_at X c"])

lemma every_map_option: "every P M \<Longrightarrow> (\<And>x. P a x \<Longrightarrow> P a (f x)) \<Longrightarrow> every P (M(a := map_option f (M a)))"
  by (auto simp: every_def)

lemma set_wptr_typed: "typed_but X s \<Longrightarrow> every (typed_at X (current_tcb s)) T \<Longrightarrow> typed_but X (set_wptr w ht (s\<lparr>tcbs := T\<rparr>))"
  by (cases w) (auto simp: set_wptr_def typed_but_def intro!: every_map_option)

lemma typed_but_tcbs: "typed_but X s \<Longrightarrow> every (typed_at X (current_tcb s)) (tcbs s)"
  by (simp add: typed_but_def)

lemma queue_list_typed:
  "queue_enqueue w t s = Some s' \<Longrightarrow> typed_but X s \<Longrightarrow> typed_but X s'"
  "queue_unlink w t s = Some s' \<Longrightarrow> typed_but X s \<Longrightarrow> typed_but X s'"
  "queue_pop_head w s = Some (a, s') \<Longrightarrow> typed_but X s \<Longrightarrow> typed_but X s'"
  by (auto simp: queue_enqueue_def queue_unlink_def queue_pop_head_def split: bind_splits
      intro!: set_wptr_typed dest!: chain_typed dest: typed_but_tcbs)

lemmas list_typed = upd_tcb_typed add_typed remove_typed wait_list_typed queue_list_typed

lemma wake_head_typed: "wake_head w s = Some s' \<Longrightarrow> typed_but X s \<Longrightarrow> typed_but X s'"
  by (auto simp: wake_head_def split: if_splits bind_splits dest!: list_typed)

lemma wake_timeout_typed:
  "mutex_wake_timeout t s = Some s' \<Longrightarrow> typed_but X s \<Longrightarrow> typed_but X s'"
  "semaphore_wake_timeout t s = Some s' \<Longrightarrow> typed_but X s \<Longrightarrow> typed_but X s'"
  "msgqueue_wake_timeout t s = Some s' \<Longrightarrow> typed_but X s \<Longrightarrow> typed_but X s'"
  by (auto simp: mutex_wake_timeout_def semaphore_wake_timeout_def msgqueue_wake_timeout_def Let_def
      split: if_splits bind_splits dest!: list_typed)

lemma detach_typed: "detach_blocked_task t s = Some s' \<Longrightarrow> typed_but X s \<Longrightarrow> typed_but X s'"
  by (auto simp: detach_blocked_task_def mutex_detach_waiter_def semaphore_detach_waiter_def msgqueue_detach_waiter_def
      split: if_splits bind_splits dest!: list_typed)

section \<open>Mutexes, semaphores and queues\<close>

lemma init_typed:
  "mutex_init m s = (st, s') \<Longrightarrow> typed_but X s \<Longrightarrow> typed_but X s'"
  "semaphore_init m n k s = (st, s') \<Longrightarrow> typed_but X s \<Longrightarrow> typed_but X s'"
  "msg_queue_init q b n d s = (st, s') \<Longrightarrow> typed_but X s \<Longrightarrow> typed_but X s'"
  by (auto simp: mutex_init_def semaphore_init_def msg_queue_init_def typed_but_def typed_mutex_def typed_sem_def typed_queue_def
      not_less word_gt_0 split: if_splits intro!: every_upd)

lemma lock_attempt_typed: "mutex_lock_attempt m s = Some (r, s') \<Longrightarrow> typed_but Map.empty s \<Longrightarrow> typed_but Map.empty s'"
  by (auto simp: mutex_lock_attempt_def Let_def split: if_splits bind_splits
      dest!: list_typed apply_pi_typed upd_mutex_typed) (auto simp: typed_mutex_def cpsid_def)

lemma unlock_typed: "mutex_unlock m s = Some (r, s') \<Longrightarrow> typed_but Map.empty s \<Longrightarrow> typed_but Map.empty s'"
  by (auto simp: mutex_unlock_def Let_def split: if_splits bind_splits
      dest!: list_typed restore_typed upd_mutex_typed) (auto simp: typed_mutex_def)

text \<open>Taking and giving a unit, putting and getting a message.\<close>

lemma word_pred_le: "x \<le> y \<Longrightarrow> 0 < x \<Longrightarrow> x - 1 \<le> y" for x y :: u32
  by (simp add: word_le_nat_alt unat_minus_one word_gt_0)

lemma word_mod_below: "x < d \<Longrightarrow> y mod d < d" for x y d :: u32
  by (simp add: word_less_nat_alt unat_mod)

lemma typed_sem_upd [simp]:
  "typed_sem x \<Longrightarrow> 0 < sem_count x \<Longrightarrow> typed_sem (x\<lparr>sem_count := sem_count x - 1\<rparr>)"
  "\<not> max_count x \<le> sem_count x \<Longrightarrow> typed_sem (x\<lparr>sem_count := sem_count x + 1\<rparr>)"
  by (simp_all add: typed_sem_def word_pred_le inc_le not_le)

lemma typed_queue_upd [simp]:
  "typed_queue x \<Longrightarrow> q_count x < depth x \<Longrightarrow> typed_queue (x\<lparr>q_tail := (q_tail x + 1) mod depth x, q_count := q_count x + 1\<rparr>)"
  "typed_queue x \<Longrightarrow> 0 < q_count x \<Longrightarrow> typed_queue (x\<lparr>q_head := (q_head x + 1) mod depth x, q_count := q_count x - 1\<rparr>)"
  by (auto simp: typed_queue_def intro: word_pred_le inc_le word_mod_below)

lemma sem_attempt_typed: "semaphore_wait_attempt m s = Some (r, s') \<Longrightarrow> typed_but X s \<Longrightarrow> typed_but X s'"
  by (auto simp: semaphore_wait_attempt_def Let_def cpsid_def get_sem_def fetch_eq_Some_iff split: if_splits bind_splits
      simp del: upd_sem_Some dest!: list_typed upd_sem_typed)

lemma sem_post_typed: "semaphore_post m s = Some (r, s') \<Longrightarrow> typed_but X s \<Longrightarrow> typed_but X s'"
  by (auto simp: semaphore_post_def Let_def cpsid_def get_sem_def fetch_eq_Some_iff split: if_splits bind_splits
      simp del: upd_sem_Some dest!: list_typed upd_sem_typed)

lemma send_attempt_typed: "msg_queue_send_attempt q m s = Some (r, s') \<Longrightarrow> typed_but X s \<Longrightarrow> typed_but X s'"
  by (auto simp: msg_queue_send_attempt_def Let_def cpsid_def get_queue_def fetch_eq_Some_iff split: if_splits bind_splits
      simp del: upd_queue_Some dest!: list_typed wake_head_typed upd_queue_typed)

lemma recv_attempt_typed: "msg_queue_recv_attempt q m s = Some (r, s') \<Longrightarrow> typed_but X s \<Longrightarrow> typed_but X s'"
  by (auto simp: msg_queue_recv_attempt_def Let_def cpsid_def get_queue_def fetch_eq_Some_iff split: if_splits bind_splits
      simp del: upd_queue_Some dest!: list_typed wake_head_typed upd_queue_typed)

section \<open>Heap and tasks\<close>

lemma upd_blk_typed: "upd_blk p f s = Some s' \<Longrightarrow> typed_but X s' = typed_but X s"
  by (auto simp: upd_blk_def)

lemma heap_typed:
  "heap_alloc n s = Some (p, s') \<Longrightarrow> typed_but X s' = typed_but X s"
  "heap_free p s = Some s' \<Longrightarrow> typed_but X s' = typed_but X s"
  by (auto simp: heap_alloc_def heap_free_def remove_from_list_def prepend_free_def coalesce_forward_def Let_def upd_blk_typed
      split: if_splits bind_splits option.splits)

lemma arr_set_length: "arr_set i x xs = Some ys \<Longrightarrow> length ys = length xs"
  by (auto simp: arr_set_def split: if_splits)

lemma registry_shift_length: "registry_shift R j k = Some R' \<Longrightarrow> length R' = length R"
  by (induction R j k rule: registry_shift.induct) (auto simp: arr_set_length split: bind_splits)

lemma registry_typed:
  "registry_add a s = Some s' \<Longrightarrow> typed_but X s \<Longrightarrow> typed_but X s'"
  "registry_remove a s = Some s' \<Longrightarrow> typed_but X s \<Longrightarrow> typed_but X s'"
  by (auto simp: registry_add_def registry_remove_def Let_def typed_but_def arr_set_length registry_shift_length
      split: if_splits bind_splits option.splits)

lemma build_typed: "task_build_common img a f s = Some (r, s') \<Longrightarrow> typed_but X s \<Longrightarrow> typed_but X s'"
  by (auto simp: task_build_common_def Let_def case_prod_beta split: if_splits bind_splits dest!: upd_tcb_typed)

lemma typed_zero [simp]: "a \<noteq> NULL \<Longrightarrow> typed_at Map.empty c a zero_tcb"
  by (simp add: typed_at_def zero_tcb_def prio_bucket_of_def)

lemma typed_at_name [simp]: "typed_at X c a t \<Longrightarrow> length nm = RTOS_TASK_NAME_MAX \<Longrightarrow> typed_at X c a (t\<lparr>name := nm\<rparr>)"
  by (cases "X a") (simp_all add: typed_at_def)

text \<open>The new control block: cleared, filled in, named.\<close>

lemma new_tcb_typed:
  assumes "upd_tcb a (\<lambda>t. t\<lparr>stack_base := stk, stack_size := sz, priority := p, prio_bucket := prio_bucket_of p\<rparr>)
      (s\<lparr>tcbs := (tcbs s)(a \<mapsto> zero_tcb)\<rparr>) = Some s1"
    and "upd_tcb a (\<lambda>t. t\<lparr>name := (if nm \<noteq> NULL then read_bytes (ram s1) nm (RTOS_TASK_NAME_MAX - 1) @ [0] else 0 # tl (name t))\<rparr>) s1 = Some s2"
    and "typed_but Map.empty s"
  shows "typed_but Map.empty s2"
proof -
  have a: "a \<noteq> NULL" using assms(1) by (auto simp: upd_tcb_def modify_eq_Some_iff)
  let ?u = "zero_tcb\<lparr>stack_base := stk, stack_size := sz, priority := p, prio_bucket := prio_bucket_of p\<rparr>"
  let ?nm = "if nm \<noteq> NULL then read_bytes (ram s1) nm (RTOS_TASK_NAME_MAX - 1) @ [0] else 0 # tl (name ?u)"
  have s1: "s1 = s\<lparr>tcbs := (tcbs s)(a \<mapsto> ?u)\<rparr>" using assms(1) a by simp
  then have s2: "s2 = s\<lparr>tcbs := (tcbs s)(a \<mapsto> ?u\<lparr>name := ?nm\<rparr>)\<rparr>" using assms(2) a by auto
  have "typed_at Map.empty (current_tcb s) a (?u\<lparr>name := ?nm\<rparr>)"
    using a by (simp add: typed_at_def zero_tcb_def RTOS_TASK_NAME_MAX_def read_bytes_def)
  then show ?thesis unfolding s2 by (rule typed_but_tcb [OF assms(3)])
qed

lemma create_typed:
  assumes call: "task_create img f prio sz nm s = Some (a, s')" and ty: "typed_but Map.empty s"
  shows "typed_but Map.empty s'"
proof (cases "s' = s")
  case False
  let ?sz = "(sz + 7) AND NOT 7"
  from call False obtain p s1 q s2 where s1: "heap_alloc (sizeof_TCB img) s = Some (p, s1)" and s2: "heap_alloc ?sz s1 = Some (q, s2)"
    by (auto simp: task_create_def Let_def bind_eq_Some_conv split: if_splits)
  have ty2: "typed_but Map.empty s2" using ty heap_typed(1) [OF s1] heap_typed(1) [OF s2] by simp
  show ?thesis
  proof (cases "p = NULL \<or> q = NULL")
    case True
    then have "do { s \<leftarrow> heap_free p s2; heap_free q s } = Some s'"
      using call False s1 s2 by (auto simp: task_create_def Let_def bind_eq_Some_conv split: if_splits)
    then show ?thesis using ty2 by (auto simp: heap_typed bind_eq_Some_conv)
  next
    case live: False
    from call False s1 s2 live obtain s3 s4 s5 st where
      s3: "upd_tcb p (\<lambda>t. t\<lparr>stack_base := q, stack_size := ?sz, priority := prio, prio_bucket := prio_bucket_of prio\<rparr>)
        (s2\<lparr>tcbs := (tcbs s2)(p \<mapsto> zero_tcb)\<rparr>) = Some s3"
      and s4: "upd_tcb p (\<lambda>t. t\<lparr>name := (if nm \<noteq> NULL then read_bytes (ram s3) nm (RTOS_TASK_NAME_MAX - 1) @ [0] else 0 # tl (name t))\<rparr>) s3 = Some s4"
      and s5: "task_build_common img p f s4 = Some (st, s5)"
      and rest: "(if st \<noteq> RTOS_OK then do { s \<leftarrow> heap_free q s5; s \<leftarrow> heap_free p s; Some (NULL, s) }
        else do {
          s \<leftarrow> upd_tcb p (\<lambda>t. t\<lparr>state := TASK_STATE_READY\<rparr>) s5;
          (st, s) \<leftarrow> scheduler_add_task p s;
          if st \<noteq> RTOS_OK then do { s \<leftarrow> heap_free q s; s \<leftarrow> heap_free p s; Some (NULL, s) }
          else do { s \<leftarrow> registry_add p s; Some (p, s) }
        }) = Some (a, s')"
      unfolding task_create_def Let_def
      by (auto simp del: upd_tcb_Some simp: bind_eq_Some_conv split: if_splits)
    have "typed_but Map.empty s5" by (rule build_typed [OF s5 new_tcb_typed [OF s3 s4 ty2]])
    then show ?thesis using rest
      by (auto simp: heap_typed split: if_splits bind_splits dest!: upd_tcb_typed add_typed registry_typed)
  qed
qed (use ty in simp)

lemma delete_typed: "task_delete a s = Some (r, s') \<Longrightarrow> typed_but Map.empty s \<Longrightarrow> typed_but Map.empty s'"
  by (auto simp: task_delete_def Let_def heap_typed split: if_splits bind_splits
      dest!: detach_typed list_typed registry_typed)

section \<open>Ticks, context switches and the start\<close>

lemma wake_one_typed: "wake_one now a s = Some s' \<Longrightarrow> typed_but X s \<Longrightarrow> typed_but X s'"
  by (auto simp: wake_one_def split: if_splits bind_splits dest!: list_typed wake_timeout_typed)

lemma wake_loop_typed: "wake_loop now i k s = Some s' \<Longrightarrow> typed_but X s \<Longrightarrow> typed_but X s'"
  by (induction now i k s rule: wake_loop.induct) (auto split: bind_splits dest: wake_one_typed)

lemma stack_check_typed: "stack_check_loop i k s = Some (h, s') \<Longrightarrow> typed_but X s \<Longrightarrow> typed_but X s'"
  by (induction i k s rule: stack_check_loop.induct) (auto simp: Let_def split: if_splits bind_splits)

text \<open>Callbacks of software timers may call services; what they call is theirs to keep typed.\<close>

definition typed_callbacks :: "callbacks \<Rightarrow> bool" where
  "typed_callbacks cb \<longleftrightarrow> (\<forall>f arg s s'. cb f arg s = Some s' \<longrightarrow> typed s \<longrightarrow> typed s')"

lemma SysTick_typed:
  assumes call: "SysTick_Handler cb s = Some (h, s')" and ty: "typed s" and cb: "typed_callbacks cb"
  shows "typed s'"
proof -
  from call obtain s1 s2 s3 where s1: "rtos_wake_delayed (rtos_tick_increment s) = Some s1"
    and s2: "sw_timer_tick_process cb s1 = Some s2" and s3: "rtos_stack_check_all s2 = Some (h, s3)"
    and s': "(if h then Some (True, s3) else do { s \<leftarrow> scheduler_time_slice_tick s3; Some (False, scheduler_mark_reschedule s) }) = Some (h, s')"
    by (auto simp: SysTick_Handler_def Let_def bind_eq_Some_conv split: if_splits)
  have "typed s1" using s1 ty
    by (auto simp: typed_but_none rtos_wake_delayed_def rtos_tick_increment_def dest: wake_loop_typed)
  then have "typed s2"
    using tick_loop_keeps [where P = typed, OF s2 [unfolded sw_timer_tick_process_def]] cb
    unfolding typed_callbacks_def by (auto simp: typed_but_none)
  then have "typed s3" using s3 by (auto simp: typed_but_none rtos_stack_check_all_def dest: stack_check_typed)
  then show ?thesis using s' by (auto simp: typed_but_none split: if_splits bind_splits dest: time_slice_typed)
qed

text \<open>
  Selecting a task: first no task is running (\<open>NULL\<close> in place of the current task says so), then
  the selected one is, and it is the current one.
\<close>

lemma demote_typed:
  assumes ty: "typed_but Map.empty s"
    and call: "(if current_tcb s \<noteq> NULL then do {
        t \<leftarrow> get_tcb s (current_tcb s);
        if state t = TASK_STATE_RUNNING then upd_tcb (current_tcb s) (\<lambda>t. t\<lparr>state := TASK_STATE_READY\<rparr>) s else Some s
      } else Some s) = Some s1"
  shows "typed_but Map.empty (s1\<lparr>current_tcb := NULL\<rparr>)"
proof -
  have ev: "every (typed_at Map.empty (current_tcb s)) (tcbs s)" using ty by (rule typed_but_tcbs)
  have "every (typed_at Map.empty NULL) (tcbs s1)"
  proof (cases "\<exists>t. tcbs s (current_tcb s) = Some t \<and> state t = TASK_STATE_RUNNING")
    case True
    then obtain t where t: "tcbs s (current_tcb s) = Some t" "state t = TASK_STATE_RUNNING" by blast
    then have "current_tcb s \<noteq> NULL" using everyD [OF ev t(1)] by (simp add: typed_at_def)
    then have s1: "s1 = s\<lparr>tcbs := (tcbs s)(current_tcb s \<mapsto> t\<lparr>state := TASK_STATE_READY\<rparr>)\<rparr>" using call t by simp
    have "typed_at Map.empty NULL a u" if "tcbs s1 a = Some u" for a u
      using that everyD [OF ev t(1)] everyD [OF ev, of a u] by (auto simp: s1 typed_at_def split: if_splits)
    then show ?thesis by (simp add: every_def)
  next
    case False
    then have s1: "s1 = s" using call by (auto simp: get_tcb_def fetch_eq_Some_iff split: if_splits bind_splits)
    have "typed_at Map.empty NULL a u" if "tcbs s a = Some u" for a u
      using that everyD [OF ev, of a u] False by (auto simp: typed_at_def)
    then show ?thesis by (simp add: every_def s1)
  qed
  moreover have "mutexes s1 = mutexes s" "semaphores s1 = semaphores s" "msg_queues s1 = msg_queues s" "ready_head s1 = ready_head s"
    "task_registry s1 = task_registry s"
    using call by (auto simp: upd_tcb_def split: if_splits bind_splits)
  ultimately show ?thesis using ty by (simp add: typed_but_def)
qed

lemma promote_typed:
  assumes upd: "upd_tcb a (\<lambda>t. t\<lparr>state := TASK_STATE_RUNNING, time_slice_counter := 0\<rparr>) s = Some s'"
    and ty: "typed_but Map.empty (s\<lparr>current_tcb := NULL\<rparr>)"
  shows "typed_but Map.empty (s'\<lparr>current_tcb := a\<rparr>)"
proof -
  obtain t where t: "tcbs s a = Some t" and s': "s' = s\<lparr>tcbs := (tcbs s)(a \<mapsto> t\<lparr>state := TASK_STATE_RUNNING, time_slice_counter := 0\<rparr>)\<rparr>"
    using upd by (auto simp: upd_tcb_def modify_eq_Some_iff)
  have ev: "every (typed_at Map.empty NULL) (tcbs s)" using ty by (simp add: typed_but_def)
  have "typed_at Map.empty a b u" if "tcbs s' b = Some u" for b u
    using that everyD [OF ev t] everyD [OF ev, of b u] by (auto simp: s' typed_at_def split: if_splits)
  then have "every (typed_at Map.empty a) (tcbs s')" by (simp add: every_def)
  then show ?thesis using ty by (simp add: typed_but_def s')
qed

lemma get_next_typed:
  assumes call: "scheduler_get_next s = Some (a, s')" and ty: "typed_but Map.empty s"
  shows "typed_but Map.empty s'"
proof -
  from call obtain s1 where s1: "(if current_tcb s \<noteq> NULL then do {
        t \<leftarrow> get_tcb s (current_tcb s);
        if state t = TASK_STATE_RUNNING then upd_tcb (current_tcb s) (\<lambda>t. t\<lparr>state := TASK_STATE_READY\<rparr>) s else Some s
      } else Some s) = Some s1"
    and rest: "(case scan_ready (ready_head s1) 0 of
       Some p \<Rightarrow> do {
         sel \<leftarrow> arr_get (ready_head s1) p;
         t \<leftarrow> get_tcb s1 sel;
         rh \<leftarrow> arr_set p (next_ready t) (ready_head s1);
         s \<leftarrow> upd_tcb sel (\<lambda>t. t\<lparr>state := TASK_STATE_RUNNING, time_slice_counter := 0\<rparr>) (s1\<lparr>ready_head := rh\<rparr>);
         Some (sel, s\<lparr>current_tcb := sel\<rparr>)
       }
     | None \<Rightarrow>
         if idle_tcb s1 \<noteq> NULL then do {
           s \<leftarrow> upd_tcb (idle_tcb s1) (\<lambda>t. t\<lparr>state := TASK_STATE_RUNNING, time_slice_counter := 0\<rparr>) s1;
           Some (idle_tcb s, s\<lparr>current_tcb := idle_tcb s\<rparr>)
         } else None) = Some (a, s')"
    unfolding scheduler_get_next_def Let_def bind_eq_Some_conv by blast
  have ty1: "typed_but Map.empty (s1\<lparr>current_tcb := NULL\<rparr>)" using ty s1 by (rule demote_typed)
  show ?thesis
  proof (cases "scan_ready (ready_head s1) 0")
    case None
    then obtain s2 where s2: "upd_tcb (idle_tcb s1) (\<lambda>t. t\<lparr>state := TASK_STATE_RUNNING, time_slice_counter := 0\<rparr>) s1 = Some s2"
      and s': "s' = s2\<lparr>current_tcb := idle_tcb s2\<rparr>" using rest by (auto split: if_splits bind_splits)
    have "idle_tcb s2 = idle_tcb s1" using s2 by (auto simp: upd_tcb_def)
    then show ?thesis using promote_typed [OF s2 ty1] s' by simp
  next
    case (Some p)
    then obtain rh b s2 where rh: "arr_set p b (ready_head s1) = Some rh"
      and s2: "upd_tcb a (\<lambda>t. t\<lparr>state := TASK_STATE_RUNNING, time_slice_counter := 0\<rparr>) (s1\<lparr>ready_head := rh\<rparr>) = Some s2"
      and s': "s' = s2\<lparr>current_tcb := a\<rparr>" using rest by (auto simp del: upd_tcb_Some split: bind_splits)
    have "typed_but Map.empty (s1\<lparr>current_tcb := NULL, ready_head := rh\<rparr>)"
      by (rule typed_but_ready [OF ty1, of p b]) (simp add: rh)
    then show ?thesis using promote_typed [OF s2] s' by simp
  qed
qed

lemma save_context_typed: "save_context c s = Some s' \<Longrightarrow> typed_but X s \<Longrightarrow> typed_but X s'"
  by (auto simp: save_context_def Let_def split: if_splits dest!: upd_tcb_typed)

lemma switch_typed:
  "SVC_Handler c s = Some (c', s') \<Longrightarrow> typed s \<Longrightarrow> typed s'"
  "PendSV_Handler c s = Some (c', s') \<Longrightarrow> typed s \<Longrightarrow> typed s'"
  by (auto simp: typed_but_none SVC_Handler_def PendSV_Handler_def Let_def split: bind_splits dest!: get_next_typed save_context_typed)

lemma timer_typed:
  "sw_timer_start_once a n f arg s = Some (st, s') \<Longrightarrow> typed s' = typed s"
  "sw_timer_start_periodic a n f arg s = Some (st, s') \<Longrightarrow> typed s' = typed s"
  "sw_timer_stop a s = Some s' \<Longrightarrow> typed s' = typed s"
  by (auto simp: typed_but_none sw_timer_start_once_def sw_timer_start_periodic_def sw_timer_stop_def insert_sorted_def upd_timer_def Let_def
      split: if_splits bind_splits option.splits)

text \<open>After \<open>task_init\<close> there is one control block, that of the idle task.\<close>

lemma idle_tcb_typed:
  assumes upd: "upd_tcb p (\<lambda>t. t\<lparr>stack_base := b, stack_size := n, priority := 255, prio_bucket := of_nat (RTOS_NUM_PRIORITIES - 1),
      name := idle_name @ drop 5 (name t)\<rparr>) (s\<lparr>tcbs := (tcbs s)(p \<mapsto> zero_tcb)\<rparr>) = Some s'"
    and ty: "typed_but Map.empty s"
  shows "typed_but Map.empty s'"
proof -
  let ?u = "zero_tcb\<lparr>stack_base := b, stack_size := n, priority := 255, prio_bucket := of_nat (RTOS_NUM_PRIORITIES - 1),
      name := idle_name @ drop 5 (name zero_tcb)\<rparr>"
  have p: "p \<noteq> NULL" using upd by (auto simp: upd_tcb_def modify_eq_Some_iff)
  then have s': "s' = s\<lparr>tcbs := (tcbs s)(p \<mapsto> ?u)\<rparr>" using upd by simp
  have "typed_at Map.empty (current_tcb s) p ?u"
    using p by (simp add: typed_at_def zero_tcb_def idle_name_def RTOS_TASK_NAME_MAX_def prio_bucket_of_def RTOS_NUM_PRIORITIES_def)
  then show ?thesis unfolding s' by (rule typed_but_tcb [OF ty])
qed

lemma task_init_typed:
  assumes boot: "boot s" and call: "task_init img s = Some (r, s')"
  shows "typed s'"
proof -
  define s0 where "s0 = (scheduler_init (sw_timer_init (heap_init (heap_pool img) s)))\<lparr>task_registry_count := 0\<rparr>"
  have ty0: "typed_but Map.empty s0" using boot
    by (simp add: s0_def boot_def typed_but_def every_def RTOS_MAX_TASKS_def scheduler_init_def sw_timer_init_def heap_init_def)
  obtain p s1 where s1: "heap_alloc (sizeof_TCB img) s0 = Some (p, s1)"
    using call by (auto simp: task_init_def Let_def bind_eq_Some_conv s0_def)
  have ty1: "typed_but Map.empty (s1\<lparr>idle_tcb := p\<rparr>)" using ty0 heap_typed(1) [OF s1] by simp
  show ?thesis
  proof (cases "p = NULL")
    case True
    then show ?thesis using call s1 ty1 by (auto simp: task_init_def Let_def s0_def typed_but_none)
  next
    case False
    then obtain s2 where s2: "upd_tcb p (\<lambda>t. t\<lparr>stack_base := idle_stack_words img, stack_size := RTOS_IDLE_STACK_SIZE,
        priority := 255, prio_bucket := of_nat (RTOS_NUM_PRIORITIES - 1), name := idle_name @ drop 5 (name t)\<rparr>)
        (s1\<lparr>idle_tcb := p, tcbs := (tcbs s1)(p \<mapsto> zero_tcb)\<rparr>) = Some s2"
      and rest: "do {
        (st, s) \<leftarrow> task_build_common img p (idle_task_fn img) s2;
        if st \<noteq> RTOS_OK then Some (RTOS_ERR_STATE, s)
        else do {
          s \<leftarrow> upd_tcb p (\<lambda>t. t\<lparr>state := TASK_STATE_READY\<rparr>) s;
          (st, s) \<leftarrow> scheduler_add_task p s;
          if st \<noteq> RTOS_OK then Some (RTOS_ERR_STATE, s) else do { s \<leftarrow> registry_add p s; Some (RTOS_OK, s) }
        } } = Some (r, s')"
      using call s1 unfolding task_init_def Let_def s0_def by (auto simp: bind_eq_Some_conv)
    have "typed_but Map.empty s2" by (rule idle_tcb_typed [OF _ ty1]) (use s2 in simp)
    then show ?thesis using rest
      by (auto simp: typed_but_none split: if_splits bind_splits dest!: build_typed upd_tcb_typed add_typed registry_typed)
  qed
qed

end
