(* ===== verification/Rtos_Locking.thy ===== *)
theory Rtos_Locking
  imports Rtos_Invariant Rtos_Typed
begin

unbundle bit_operations_syntax

text \<open>
  Mutexes in the whole system. Locking and unlocking keep the invariant of the system under two
  conditions that the code does not check: the owner of a locked mutex is a task that exists
  (\<open>lockable\<close>), and a task that unlocks is in the ready ring of its base priority (\<open>unboosted\<close>). The
  type invariant supplies the rest: a locked mutex has an owner, and no task but the current
  one is running.
\<close>

definition lockable :: "kernel \<Rightarrow> addr \<Rightarrow> bool" where
  "lockable s m \<longleftrightarrow> m = NULL \<or> (\<exists>mx. mutexes s m = Some mx \<and>
     (locked mx \<longrightarrow> (\<exists>t. tcbs s (owner mx) = Some t \<and> state t \<noteq> TASK_STATE_TERMINATED)))"

definition unboosted :: "kernel \<Rightarrow> bool" where
  "unboosted s \<longleftrightarrow> (\<forall>t. tcbs s (current_tcb s) = Some t \<longrightarrow> prio_bucket_of (base_priority t) = prio_bucket t)"

section \<open>Changes of a mutex and of a control block\<close>

lemma wptr_mutex_upd:
  assumes "mutexes s m = Some x"
  shows "wptr (s\<lparr>mutexes := (mutexes s)(m \<mapsto> y)\<rparr>) w =
    (if w = MutexQ m \<and> m \<noteq> NULL then Some (wait_head y, wait_tail y) else wptr s w)"
  using assms by (cases w) (auto simp: wptr_def access_defs fetch_def)

lemma blocked_on_boost [simp]: "blocked_on (boost hp t) = blocked_on t" "stack_base (boost hp t) = stack_base t"
  by (auto simp: boost_def blocked_on_def wait_obj_of_def split: block_reason_t.split)

lemma blocked_on_unboost [simp]:
  "blocked_on (unboost t) = blocked_on t" "stack_base (unboost t) = stack_base t" "state (unboost t) = state t"
  "mutex_wait_next (unboost t) = mutex_wait_next t" "runnable (unboost t) = runnable t"
  by (auto simp: unboost_def blocked_on_def wait_obj_of_def runnable_def split: block_reason_t.split)

section \<open>Initialisation\<close>

lemma mutex_init_keeps:
  assumes sys: "system_rel img s Q W R xs ys" and new: "mutexes s m = None" and call: "mutex_init m s = (st, s')"
  shows "system_inv img s'"
proof (cases "s' = s")
  case True
  then show ?thesis using sys by (auto intro: system_invI)
next
  case False
  then have s': "s' = s\<lparr>mutexes := (mutexes s)(m \<mapsto> \<lparr>locked = False, owner = NULL, wait_head = NULL, wait_tail = NULL\<rparr>)\<rparr>" and nn: "m \<noteq> NULL"
    using call by (auto simp: mutex_init_def split: if_splits)
  have "waits_inv s' (\<lambda>w. if w \<in> {MutexQ m} then [] else W w)"
    by (rule new_object_waits [OF system_relD(2) [OF sys]])
       (use nn new in \<open>auto simp: s' wptr_def access_defs fetch_def split: wait_obj.split\<close>)
  moreover have "sched_inv s' Q" using system_relD(5) [OF sys] by (simp add: s')
  ultimately have "system_rel img s' Q (\<lambda>w. if w \<in> {MutexQ m} then [] else W w) R xs ys"
    by (intro system_quiet [OF sys]) (simp_all add: s' same_env_def)
  then show ?thesis by (rule system_invI)
qed

section \<open>Locking\<close>

text \<open>The caller takes a free mutex.\<close>

lemma lock_free_keeps:
  assumes sys: "system_rel img s Q W R xs ys" and t: "tcbs s (current_tcb s) = Some t" "runnable t" and mx: "mutexes s m = Some mx"
    and s': "s' = s\<lparr>tcbs := (tcbs s)(current_tcb s \<mapsto> t\<lparr>blocked_on_mutex := NULL\<rparr>),
      mutexes := (mutexes s)(m \<mapsto> mx\<lparr>locked := True, owner := current_tcb s\<rparr>), primask := False\<rparr>"
  shows "system_rel img s' Q W R xs ys"
proof (rule system_step [OF sys, where a = "current_tcb s" and v = "t\<lparr>blocked_on_mutex := NULL\<rparr>"])
  let ?v = "t\<lparr>blocked_on_mutex := NULL\<rparr>"
  have "placed Q (current_tcb s) ?v"
    by (rule placed_states [OF sched_inv_placed [OF system_relD(5) [OF sys] t(1)]]) (simp_all add: runnable_def)
  then have "sched_inv (s\<lparr>tcbs := (tcbs s)(current_tcb s \<mapsto> ?v)\<rparr>) Q" by (intro sched_inv_tcb_upd [OF system_relD(5) [OF sys] t(1)]) simp
  then show "sched_inv s' Q" by (simp add: s')
  have ptr: "wptr s' w = wptr s w" for w
  proof -
    have "wptr s' w = wptr (s\<lparr>mutexes := (mutexes s)(m \<mapsto> mx\<lparr>locked := True, owner := current_tcb s\<rparr>)\<rparr>) w"
      by (rule wptr_cong) (simp_all add: s')
    then show ?thesis using mx by (auto simp: wptr_mutex_upd [OF mx]) (simp_all add: wptr_def get_mutex_def)
  qed
  show "waits_inv s' W"
  proof (rule waits_inv_tcb [OF system_relD(2) [OF sys] t(1) _ _ ptr])
    show "tcbs s' = (tcbs s)(current_tcb s \<mapsto> ?v)" by (simp add: s')
  qed (simp_all add: blocked_on_def wait_obj_of_def split: block_reason_t.split)
qed (use t in \<open>auto simp: s' same_env_def runnable_def\<close>)

text \<open>
  The control blocks after a contended lock: the caller \<open>c\<close> joins the tasks \<open>A\<close> in the list, the owner
  is boosted and perhaps moved, the caller becomes \<open>v\<close> and leaves its ring.
\<close>

lemma lock_links:
  assumes cf: "chain_frame A (S(c \<mapsto> t1)) T" and c: "c \<in> A" and To: "T ow = Some (ot\<lparr>mutex_wait_next := rw\<rparr>)" and ne: "ow \<noteq> c"
    and sr: "same_but_ready (T(ow \<mapsto> boost hp (ot\<lparr>mutex_wait_next := rw\<rparr>))) T1" "same_but_ready (T1(c \<mapsto> u)) T2"
    and uv: "erase_links v = erase_links u"
  shows "same_but_links (S(ow \<mapsto> boost hp ot, c \<mapsto> v)) T2" and "y \<notin> A \<Longrightarrow> wait_link T2 y = wait_link S y"
proof -
  have wt: "same_but_wait (S(c \<mapsto> t1)) T" using cf by (simp add: chain_frame_def)
  have "same_but_links (S(c \<mapsto> t1, ow \<mapsto> boost hp ot, c \<mapsto> v)) (T1(c \<mapsto> u))"
    by (intro same_but_links_upd same_but_links_trans [OF _ same_but_links_ready [OF sr(1)]] same_but_links_wait [OF wt] uv)
       (simp add: boost_def)
  then show "same_but_links (S(ow \<mapsto> boost hp ot, c \<mapsto> v)) T2"
    using same_but_links_trans [OF _ same_but_links_ready [OF sr(2)]] ne by (simp add: fun_upd_twist)
  assume y: "y \<notin> A"
  then have yc: "y \<noteq> c" using c by auto
  have "wait_link T2 y = wait_link T1 y" using same_but_ready_wait_link [OF sr(2)] yc by (simp add: wait_link_def)
  also have "\<dots> = wait_link T y" using same_but_ready_wait_link [OF sr(1)] To by (simp add: wait_link_def)
  also have "\<dots> = wait_link S y" using cf y yc by (simp add: chain_frame_def wait_link_def)
  finally show "wait_link T2 y = wait_link S y" .
qed

text \<open>The caller queues behind the owner, which inherits its priority, and blocks.\<close>

lemma lock_blocks_frame:
  assumes sys: "system_rel img s Q W R xs ys" and run: "running s" and ty: "typed s"
    and mx: "mutexes s m = Some mx" and m: "m \<noteq> NULL" and lk: "locked mx" and other: "owner mx \<noteq> current_tcb s"
    and ow: "tcbs s (owner mx) = Some ot" and t: "tcbs s (current_tcb s) = Some t"
  obtains s' Q' ht hp where "mutex_lock m n s = Some (None, s')" and "sched_inv s' Q'"
    and "waiters_of s' (MutexQ m) (W (MutexQ m) @ [current_tcb s])"
    and "same_but_links ((tcbs s)(owner mx \<mapsto> boost hp ot,
        current_tcb s \<mapsto> blocked_tcb (s_rtos_tick_count s) n BLOCK_MUTEX m (t\<lparr>blocked_on_mutex := m\<rparr>))) (tcbs s')"
    and "\<And>y. y \<notin> insert (current_tcb s) (set (W (MutexQ m))) \<Longrightarrow> wait_link (tcbs s') y = wait_link (tcbs s) y"
    and "\<And>w. wptr s' w = wptr (s\<lparr>mutexes := (mutexes s)(m \<mapsto> set_waiters ht mx)\<rparr>) w"
    and "same_env s s'" and "current_tcb s' = current_tcb s"
proof -
  let ?c = "current_tcb s" and ?xs = "W (MutexQ m)" and ?t1 = "t\<lparr>blocked_on_mutex := m\<rparr>"
  let ?hp = "Min (prio_at (tcbs s) ` set (?xs @ [?c]))"
  note inv = system_relD(5) [OF sys] and win = system_relD(2) [OF sys]
  have r: "runnable t" using run t by (auto simp: running_def runnable_def)
  have p: "wptr s (MutexQ m) \<noteq> None" using mx m by (simp add: wptr_def get_mutex_def)
  have w: "mutex_waiters s m ?xs" unfolding mutex_waiters_obj by (rule waits_inv_list [OF win p])
  have new: "?c \<notin> set ?xs" by (rule waits_inv_running [OF win t r p])
  have st: "state ot \<noteq> TASK_STATE_RUNNING" using ty ow other by (auto simp: typed_def every_def)
  obtain s1 Q1 ht T rw where a: "mutex_lock_attempt m s = Some (None, s1)" and inv1: "sched_inv s1 Q1"
    and w1: "mutex_waiters s1 m (?xs @ [?c])" and cf: "chain_frame (insert ?c (set ?xs)) ((tcbs s)(?c \<mapsto> ?t1)) T"
    and To: "T (owner mx) = Some (ot\<lparr>mutex_wait_next := rw\<rparr>)"
    and fr1: "ready_frame (s\<lparr>tcbs := T(owner mx \<mapsto> boost ?hp (ot\<lparr>mutex_wait_next := rw\<rparr>)),
        mutexes := (mutexes s)(m \<mapsto> set_waiters ht mx), primask := False\<rparr>) s1"
    by (rule mutex_lock_attempt_contended [OF inv refl t mx lk other ow st w new refl])
  note sel1 = ready_frame_sel [OF fr1]
  let ?T1 = "T(owner mx \<mapsto> boost ?hp (ot\<lparr>mutex_wait_next := rw\<rparr>))"
  obtain r1 where Tc: "T ?c = Some (?t1\<lparr>mutex_wait_next := r1\<rparr>)"
    using same_but_wait_Some [of "(tcbs s)(?c \<mapsto> ?t1)" T ?c] cf by (auto simp: chain_frame_def)
  obtain r2 where t1: "tcbs s1 ?c = Some (?t1\<lparr>mutex_wait_next := r1, next_ready := r2\<rparr>)"
    using ready_frame_tcb [OF fr1, of ?c] Tc other by auto
  let ?u = "?t1\<lparr>mutex_wait_next := r1, next_ready := r2\<rparr>"
  let ?b = "blocked_tcb (s_rtos_tick_count s1) n BLOCK_MUTEX m"
  have cur1: "current_tcb s1 = ?c" "s_rtos_tick_count s1 = s_rtos_tick_count s" using sel1 by simp_all
  have ru: "runnable ?u" using r by (simp add: runnable_def)
  obtain s' where b: "block_enter n BLOCK_MUTEX m s1 = Some (None, s')"
    and inv': "sched_inv s' (Q1(unat (prio_bucket ?u) := remove1 ?c (Q1 (unat (prio_bucket ?u)))))"
    and fr: "ready_frame (s1\<lparr>tcbs := (tcbs s1)(?c \<mapsto> ?b ?u), icsr := 0x10000000, primask := False\<rparr>) s'"
    by (rule block_enter_inv [OF inv1 t1 cur1(1) ru])
  note sel = ready_frame_sel [OF fr]
  have sr: "same_but_ready ?T1 (tcbs s1)" "same_but_ready ((tcbs s1)(?c \<mapsto> ?b ?u)) (tcbs s')"
    using fr1 fr by (auto simp: ready_frame_def)
  have "erase_links (?b ?t1) = erase_links (?b ?u)" by (simp add: blocked_tcb_def erase_links_def)
  note l = lock_links [OF cf _ To other sr this]
  have "waiters_of s' (MutexQ m) (?xs @ [?c])"
    unfolding mutex_waiters_obj [symmetric]
    by (rule mutex_waiters_link [OF w1]) (use ready_frame_wait_link [OF fr] sel t1 in simp_all)
  moreover have "wptr s' w = wptr (s\<lparr>mutexes := (mutexes s)(m \<mapsto> set_waiters ht mx)\<rparr>) w" for w
    by (rule wptr_cong) (simp_all add: sel sel1)
  moreover have "mutex_lock m n s = Some (None, s')" using a b by (simp add: mutex_lock_def blocking_call_def)
  moreover have "same_env s s'" by (simp add: same_env_def sel sel1)
  ultimately show thesis
    using that [of s' _ ?hp ht] inv' l cur1 sel(7) by simp
qed

lemma lock_blocks_keeps:
  assumes sys: "system_rel img s Q W R xs ys" and run: "running s" and ty: "typed s"
    and mx: "mutexes s m = Some mx" and m: "m \<noteq> NULL" and lk: "locked mx" and other: "owner mx \<noteq> current_tcb s"
    and ow: "tcbs s (owner mx) = Some ot"
  obtains s' where "mutex_lock m n s = Some (None, s')" and "system_inv img s'"
proof -
  let ?c = "current_tcb s" and ?w = "MutexQ m"
  obtain t where t: "tcbs s ?c = Some t" "state t = TASK_STATE_RUNNING" "runnable t" and nn: "?c \<noteq> idle_tcb s"
    by (rule runningE [OF run sys])
  let ?b = "blocked_tcb (s_rtos_tick_count s) n BLOCK_MUTEX m (t\<lparr>blocked_on_mutex := m\<rparr>)"
  obtain s' Q' ht hp where s': "mutex_lock m n s = Some (None, s')" "sched_inv s' Q'" "waiters_of s' ?w (W ?w @ [?c])"
    and links: "same_but_links ((tcbs s)(owner mx \<mapsto> boost hp ot, ?c \<mapsto> ?b)) (tcbs s')"
    and link: "\<And>y. y \<notin> insert ?c (set (W ?w)) \<Longrightarrow> wait_link (tcbs s') y = wait_link (tcbs s) y"
    and ptr: "\<And>w. wptr s' w = wptr (s\<lparr>mutexes := (mutexes s)(m \<mapsto> set_waiters ht mx)\<rparr>) w"
    and env: "same_env s s'" "current_tcb s' = ?c"
    by (rule lock_blocks_frame [where n = n, OF sys run ty mx m lk other ow t(1)]) (rule that)
  note win = system_relD(2) [OF sys]
  have p: "wptr s ?w \<noteq> None" using mx m by (simp add: wptr_def get_mutex_def)
  let ?s0 = "s\<lparr>tcbs := (tcbs s)(owner mx \<mapsto> boost hp ot)\<rparr>"
  have ptr0: "wptr ?s0 w = wptr s w" for w by (rule wptr_cong) simp_all
  have win0: "waits_inv ?s0 W" by (rule waits_inv_tcb [OF win ow]) (simp_all add: ptr0)
  have "waits_inv s' (W(?w := W ?w @ [?c]))"
  proof (rule waits_inv_enter [OF win0])
    show "same_but_links ((tcbs ?s0)(?c \<mapsto> ?b)) (tcbs s')" using links by simp
    show "wptr s' w = wptr ?s0 w" if "w \<noteq> ?w" for w using that by (simp add: ptr0 ptr wptr_mutex_upd [OF mx])
    show "wait_link (tcbs s') y = wait_link (tcbs ?s0) y" if "y \<notin> insert ?c (set (W ?w))" for y
      using link [OF that] ow by (simp add: wait_link_def)
  qed (use t other p s'(3) in \<open>auto simp: ptr0 blocked_on_def wait_obj_of_def\<close>)
  then have "system_rel img s' Q' (W(?w := W ?w @ [?c])) R xs ys"
  proof (rule system_links [OF sys s'(2) _ env(1) _ links])
    show "same_life (tcbs s) ((tcbs s)(owner mx \<mapsto> boost hp ot, ?c \<mapsto> ?b))"
      using ow t by (auto simp: same_life_def blocked_tcb_def)
    show "\<exists>j. ((tcbs s)(owner mx \<mapsto> boost hp ot, ?c \<mapsto> ?b)) (idle_tcb s) = Some j \<and> runnable j"
      if "tcbs s (idle_tcb s) = Some i" "runnable i" for i using that nn ow by auto
  qed (use env in simp)
  then show thesis using that s'(1) system_invI by blast
qed

lemma lock_returns:
  assumes sys: "system_rel img s Q W R xs ys" and run: "running s" and ty: "typed s" and h: "lockable s m"
  shows "\<exists>r s'. mutex_lock m n s = Some (r, s') \<and> system_inv img s'"
proof (cases "m = NULL")
  case True
  then show ?thesis using sys by (auto simp: mutex_lock_def blocking_call_def mutex_lock_attempt_def intro: system_invI)
next
  case m: False
  let ?c = "current_tcb s"
  obtain t where t: "tcbs s ?c = Some t" "runnable t" and nn: "?c \<noteq> NULL" by (rule runningE [OF run sys])
  obtain mx where mx: "mutexes s m = Some mx" and ow: "locked mx \<Longrightarrow> \<exists>ot. tcbs s (owner mx) = Some ot"
    using h m by (auto simp: lockable_def)
  note defs = mutex_lock_def blocking_call_def mutex_lock_attempt_def Let_def cpsid_def cpsie_def
  consider (own) "locked mx" "owner mx = ?c" | (free) "\<not> locked mx" | (wait) "locked mx" "owner mx \<noteq> ?c" by blast
  then show ?thesis
  proof cases
    case own
    then have "mutex_lock m n s = Some (Some RTOS_OK, s\<lparr>primask := False\<rparr>)" using m nn mx by (simp add: defs)
    moreover have "system_rel img (s\<lparr>primask := False\<rparr>) Q W R xs ys" by (rule system_same [OF sys]) simp_all
    ultimately show ?thesis using system_invI by blast
  next
    case free
    then have "mutex_lock m n s = Some (Some RTOS_OK, s\<lparr>tcbs := (tcbs s)(?c \<mapsto> t\<lparr>blocked_on_mutex := NULL\<rparr>),
        mutexes := (mutexes s)(m \<mapsto> mx\<lparr>locked := True, owner := ?c\<rparr>), primask := False\<rparr>)" using m nn mx t(1) by (simp add: defs)
    then show ?thesis using lock_free_keeps [OF sys t mx refl] system_invI by blast
  next
    case wait
    then obtain ot where "tcbs s (owner mx) = Some ot" using ow by blast
    then show ?thesis using lock_blocks_keeps [OF sys run ty mx m wait] by metis
  qed
qed

section \<open>Unlocking\<close>

lemma unlock_free_keeps:
  assumes sys: "system_rel img s Q W R xs ys" and t: "tcbs s (current_tcb s) = Some t" "runnable t" and mx: "mutexes s m = Some mx"
    and base: "prio_bucket_of (base_priority t) = prio_bucket t"
    and s': "s' = s\<lparr>tcbs := (tcbs s)(current_tcb s \<mapsto> unboost t),
      mutexes := (mutexes s)(m \<mapsto> mx\<lparr>locked := False, owner := NULL\<rparr>), icsr := 0x10000000, primask := False\<rparr>"
  shows "system_rel img s' Q W R xs ys"
proof (rule system_step [OF sys, where a = "current_tcb s" and v = "unboost t"])
  have "placed Q (current_tcb s) (unboost t)"
    using sched_inv_placed [OF system_relD(5) [OF sys] t(1)] base by (auto simp: placed_def unboost_def runnable_def)
  then have "sched_inv (s\<lparr>tcbs := (tcbs s)(current_tcb s \<mapsto> unboost t)\<rparr>) Q"
    using sched_inv_tcb_upd [OF system_relD(5) [OF sys] t(1), of "unboost t"] by (simp add: unboost_def)
  then show "sched_inv s' Q" by (simp add: s')
  have ptr: "wptr s' w = wptr s w" for w
  proof -
    have "wptr s' w = wptr (s\<lparr>mutexes := (mutexes s)(m \<mapsto> mx\<lparr>locked := False, owner := NULL\<rparr>)\<rparr>) w"
      by (rule wptr_cong) (simp_all add: s')
    then show ?thesis using mx by (auto simp: wptr_mutex_upd [OF mx]) (simp_all add: wptr_def get_mutex_def)
  qed
  show "waits_inv s' W" by (rule waits_inv_tcb [OF system_relD(2) [OF sys] t(1) _ _ ptr]) (simp_all add: s')
qed (use t in \<open>auto simp: s' same_env_def runnable_def\<close>)

lemma unlock_handoff_keeps:
  assumes sys: "system_rel img s Q W R xs ys" and run: "running s" and mx: "mutexes s m = Some mx" and m: "m \<noteq> NULL"
    and lk: "locked mx" "owner mx = current_tcb s" and t: "tcbs s (current_tcb s) = Some t"
    and base: "prio_bucket_of (base_priority t) = prio_bucket t" and ne: "W (MutexQ m) \<noteq> []"
  obtains s' where "mutex_unlock m s = Some (RTOS_OK, s')" and "system_inv img s'"
proof -
  let ?c = "current_tcb s" and ?w = "MutexQ m" and ?xs = "W (MutexQ m)"
  note inv = system_relD(5) [OF sys] and win = system_relD(2) [OF sys]
  have rt: "state t = TASK_STATE_RUNNING" "?c \<noteq> idle_tcb s" using run t by (auto simp: running_def)
  then have r: "runnable t" by (simp add: runnable_def)
  have p: "wptr s ?w \<noteq> None" using mx m by (simp add: wptr_def get_mutex_def)
  have w: "mutex_waiters s m ?xs" unfolding mutex_waiters_obj by (rule waits_inv_list [OF win p])
  have new: "?c \<notin> set ?xs" by (rule waits_inv_running [OF win t r p])
  define b where "b = arg_min_list (prio_at (tcbs s)) ?xs"
  have "b \<in> set ?xs" unfolding b_def using ne by (rule arg_min_list_in)
  then obtain u where u: "tcbs s b = Some u" "blocked_on u = Some ?w" using waits_inv_blocked [OF win p] by blast
  have blk: "\<not> runnable u" "state u = TASK_STATE_BLOCKED" using u(2) by (auto simp: blocked_on_def runnable_def split: if_splits)
  obtain s' ht T rw where s': "mutex_unlock m s = Some (RTOS_OK, s')"
      "ready_rel s' (Q(unat (prio_bucket u) := Q (unat (prio_bucket u)) @ [b]))"
      "prio_bucket_of (base_priority t) = prio_bucket t \<longrightarrow> sched_inv s' (Q(unat (prio_bucket u) := Q (unat (prio_bucket u)) @ [b]))" "mutex_waiters s' m (remove1 b ?xs)"
    and bx: "b \<in> set ?xs" and cf: "chain_frame (set ?xs) ((tcbs s)(?c \<mapsto> unboost t)) T" and b2: "T b = Some (u\<lparr>mutex_wait_next := rw\<rparr>)"
    and fr: "ready_frame (s\<lparr>tcbs := T(b \<mapsto> handed_over (u\<lparr>mutex_wait_next := rw\<rparr>)),
        mutexes := (mutexes s)(m \<mapsto> (set_waiters ht mx)\<lparr>owner := b, locked := True\<rparr>), icsr := 0x10000000, primask := False\<rparr>) s'"
    by (rule unlock_handoff_frame [OF inv refl t rt(1) mx lk w ne new b_def u(1) blk(1)])
  note sel = ready_frame_sel [OF fr]
  have sr: "same_but_ready (T(b \<mapsto> handed_over (u\<lparr>mutex_wait_next := rw\<rparr>))) (tcbs s')" using fr by (auto simp: ready_frame_def)
  have links: "same_but_links ((tcbs s)(?c \<mapsto> unboost t, b \<mapsto> handed_over u)) (tcbs s')"
    by (rule same_but_links_trans [OF same_but_links_upd [OF same_but_links_wait] same_but_links_ready [OF sr]])
       (use cf in \<open>simp_all add: chain_frame_def handed_over_def erase_links_def\<close>)
  have ptr: "wptr s' w = (if w = ?w then Some ht else wptr s w)" for w
  proof -
    have "wptr s' w = wptr (s\<lparr>mutexes := (mutexes s)(m \<mapsto> (set_waiters ht mx)\<lparr>owner := b, locked := True\<rparr>)\<rparr>) w"
      by (rule wptr_cong) (simp_all add: sel)
    then show ?thesis using m by (simp add: wptr_mutex_upd [OF mx])
  qed
  let ?s0 = "s\<lparr>tcbs := (tcbs s)(?c \<mapsto> unboost t)\<rparr>"
  have ptr0: "wptr ?s0 w = wptr s w" for w by (rule wptr_cong) simp_all
  have win0: "waits_inv ?s0 W" by (rule waits_inv_tcb [OF win t]) (simp_all add: ptr0)
  have "waits_inv s' (W(?w := remove1 b ?xs))"
  proof (rule waits_inv_leave [OF win0])
    show "same_but_links ((tcbs ?s0)(b \<mapsto> handed_over u)) (tcbs s')" using links by simp
    fix y assume y: "y \<notin> set ?xs"
    then have "T y = ((tcbs s)(?c \<mapsto> unboost t)) y" "y \<noteq> b" using cf bx by (auto simp: chain_frame_def)
    then show "wait_link (tcbs s') y = wait_link (tcbs ?s0) y" using same_but_ready_wait_link [OF sr] by (simp add: wait_link_def)
  qed (use bx p s'(4) mutex_waiters_obj in \<open>auto simp: ptr0 ptr handed_over_def blocked_on_def\<close>)
  moreover have "same_env s s'" by (simp add: same_env_def sel)
  ultimately have "system_rel img s' (Q(unat (prio_bucket u) := Q (unat (prio_bucket u)) @ [b])) (W(?w := remove1 b ?xs)) R xs ys"
  proof (rule system_links [OF sys s'(3) [rule_format, OF base] _ _ _ links])
    show "same_life (tcbs s) ((tcbs s)(?c \<mapsto> unboost t, b \<mapsto> handed_over u))"
      using t u(1) blk(2) by (auto simp: same_life_def handed_over_def)
    show "\<exists>j. ((tcbs s)(?c \<mapsto> unboost t, b \<mapsto> handed_over u)) (idle_tcb s) = Some j \<and> runnable j"
      if "tcbs s (idle_tcb s) = Some i" "runnable i" for i using that rt(2) u(1) blk(1) by (auto simp: runnable_def handed_over_def)
  qed (simp add: sel)
  then show thesis using that s'(1) system_invI by blast
qed

lemma unlock_returns:
  assumes sys: "system_rel img s Q W R xs ys" and run: "running s" and base: "unboosted s" and h: "m = NULL \<or> mutexes s m \<noteq> None"
  shows "\<exists>r s'. mutex_unlock m s = Some (r, s') \<and> system_inv img s'"
proof (cases "m = NULL \<or> ownership s m \<noteq> Some (True, current_tcb s)")
  case True
  then have "mutex_unlock m s = Some (if m = NULL then RTOS_ERR_PARAM else RTOS_ERR_OWNER, s)"
    using h by (auto simp: mutex_unlock_def ownership_def Let_def)
  then show ?thesis using sys system_invI by blast
next
  case False
  let ?c = "current_tcb s"
  obtain t where t: "tcbs s ?c = Some t" "state t = TASK_STATE_RUNNING" "runnable t" and nn: "?c \<noteq> NULL" by (rule runningE [OF run sys])
  obtain mx where mx: "mutexes s m = Some mx" "locked mx" "owner mx = ?c" and m: "m \<noteq> NULL" using False by (auto simp: ownership_def)
  have b: "prio_bucket_of (base_priority t) = prio_bucket t" using base t(1) by (simp add: unboosted_def)
  have p: "wptr s (MutexQ m) \<noteq> None" using mx m by (simp add: wptr_def get_mutex_def)
  show ?thesis
  proof (cases "W (MutexQ m) = []")
    case True
    then have "mutex_waiters s m []" using waits_inv_list [OF system_relD(2) [OF sys] p] by (simp add: mutex_waiters_obj)
    from mutex_unlock_free [OF refl t(1) nn t(2) mx this] unlock_free_keeps [OF sys t(1,3) mx(1) b refl]
    show ?thesis using system_invI by blast
  next
    case False
    show ?thesis by (rule unlock_handoff_keeps [OF sys run mx(1) m mx(2,3) t(1) b False]) blast
  qed
qed

end
