(* ===== verification/Rtos_Kernel.thy ===== *)
theory Rtos_Kernel
  imports Rtos_Locking
begin

unbundle bit_operations_syntax

text \<open>
  The kernel as a transition system. A step is a call of the running task, a tick, or a
  context switch. Every step keeps the invariant of the system and the types of its records,
  so they hold in every reachable state, and in every reachable state a context switch finds a
  task to run.
\<close>

section \<open>The transition system\<close>

text \<open>
  What can happen: the running task, never the idle task, calls a service or continues a
  blocking call, the tick interrupt is served, or the processor switches context. Services
  that do not block are also called by \<^verbatim>\<open>main\<close> before the kernel starts. Objects are initialised
  before anyone uses them, and a handle given to \<open>task_delete\<close> is that of a task that exists; so is
  the owner of a mutex when another task locks it. A task whose priority is boosted across
  buckets does not unlock: \<open>mutex_unlock_stale_ring\<close> shows what would happen.
\<close>

definition may_call :: "kernel \<Rightarrow> bool" where
  "may_call s \<longleftrightarrow> running s \<or> current_tcb s = NULL"

inductive kernel_step :: "image \<Rightarrow> callbacks \<Rightarrow> kernel \<Rightarrow> kernel \<Rightarrow> bool" for img cb where
  yield: "running s \<Longrightarrow> kernel_step img cb s (task_yield s)"
| delay: "running s \<Longrightarrow> task_delay n s = Some (r, s') \<Longrightarrow> kernel_step img cb s s'"
| create: "may_call s \<Longrightarrow> unat sz + 30 < 2 ^ 32 \<Longrightarrow> task_create img f prio sz nm s = Some (a, s') \<Longrightarrow> kernel_step img cb s s'"
| delete: "may_call s \<Longrightarrow> tcbs s a = Some t \<Longrightarrow> state t \<noteq> TASK_STATE_TERMINATED \<Longrightarrow> task_delete a s = Some (st, s') \<Longrightarrow>
    kernel_step img cb s s'"
| sem_init: "may_call s \<Longrightarrow> semaphores s sem = None \<Longrightarrow> semaphore_init sem n m s = (st, s') \<Longrightarrow> kernel_step img cb s s'"
| sem_wait: "running s \<Longrightarrow> semaphore_wait sem n s = Some (r, s') \<Longrightarrow> kernel_step img cb s s'"
| sem_resume: "running s \<Longrightarrow> semaphore_wait_resume sem n s = Some (r, s') \<Longrightarrow> kernel_step img cb s s'"
| sem_post: "may_call s \<Longrightarrow> semaphore_post sem s = Some (st, s') \<Longrightarrow> kernel_step img cb s s'"
| queue_init: "may_call s \<Longrightarrow> msg_queues s q = None \<Longrightarrow> msg_queue_init q b n d s = (st, s') \<Longrightarrow> kernel_step img cb s s'"
| send: "running s \<Longrightarrow> msg_queue_send q m n s = Some (r, s') \<Longrightarrow> kernel_step img cb s s'"
| send_resume: "running s \<Longrightarrow> msg_queue_send_resume q m n s = Some (r, s') \<Longrightarrow> kernel_step img cb s s'"
| recv: "running s \<Longrightarrow> msg_queue_recv q m n s = Some (r, s') \<Longrightarrow> kernel_step img cb s s'"
| recv_resume: "running s \<Longrightarrow> msg_queue_recv_resume q m n s = Some (r, s') \<Longrightarrow> kernel_step img cb s s'"
| mutex_init: "may_call s \<Longrightarrow> mutexes s m = None \<Longrightarrow> mutex_init m s = (st, s') \<Longrightarrow> kernel_step img cb s s'"
| lock: "running s \<Longrightarrow> lockable s m \<Longrightarrow> mutex_lock m n s = Some (r, s') \<Longrightarrow> kernel_step img cb s s'"
| lock_resume: "running s \<Longrightarrow> lockable s m \<Longrightarrow> mutex_lock_resume m n s = Some (r, s') \<Longrightarrow> kernel_step img cb s s'"
| unlock: "running s \<Longrightarrow> unboosted s \<Longrightarrow> mutex_unlock m s = Some (st, s') \<Longrightarrow> kernel_step img cb s s'"
| timer_once: "may_call s \<Longrightarrow> sw_timer_start_once a n f arg s = Some (st, s') \<Longrightarrow> kernel_step img cb s s'"
| timer_periodic: "may_call s \<Longrightarrow> sw_timer_start_periodic a n f arg s = Some (st, s') \<Longrightarrow> kernel_step img cb s s'"
| timer_stop: "may_call s \<Longrightarrow> sw_timer_stop a s = Some s' \<Longrightarrow> kernel_step img cb s s'"
| tick: "SysTick_Handler cb s = Some (False, s') \<Longrightarrow> kernel_step img cb s s'"
| start: "SVC_Handler c s = Some (c', s') \<Longrightarrow> kernel_step img cb s s'"
| switch: "PendSV_Handler c s = Some (c', s') \<Longrightarrow> kernel_step img cb s s'"

text \<open>The step relation without the two conditions on mutexes: any task may lock and unlock as it likes.\<close>

inductive free_step :: "image \<Rightarrow> callbacks \<Rightarrow> kernel \<Rightarrow> kernel \<Rightarrow> bool" for img cb where
  step: "kernel_step img cb s s' \<Longrightarrow> free_step img cb s s'"
| lock: "mutex_lock m n s = Some (r, s') \<Longrightarrow> free_step img cb s s'"
| lock_resume: "mutex_lock_resume m n s = Some (r, s') \<Longrightarrow> free_step img cb s s'"
| unlock: "mutex_unlock m s = Some (st, s') \<Longrightarrow> free_step img cb s s'"

inductive_cases free_stepE: "free_step img cb s s'"

lemma lock_keeps:
  assumes "system_rel img s Q W R xs ys" and "running s" and "typed s" and "lockable s m" and "mutex_lock m n s = Some (r, s')"
  shows "system_inv img s'"
  using lock_returns [OF assms(1-4), of n] assms(5) by auto

lemma unlock_keeps:
  assumes "system_rel img s Q W R xs ys" and "running s" and "unboosted s" and "mutex_unlock m s = Some (r, s')"
  shows "system_inv img s'"
proof -
  have "m = NULL \<or> mutexes s m \<noteq> None" using assms(4) by (cases "mutexes s m") (auto simp: mutex_unlock_def get_mutex_def fetch_def split: if_splits)
  from unlock_returns [OF assms(1-3) this] assms(4) show ?thesis by auto
qed

lemma kernel_step_keeps:
  assumes step: "kernel_step img cb s s'" and inv: "system_inv img s" and ty: "typed s"
    and img: "image_ok img" and cb: "safe_callbacks img cb"
  shows "system_inv img s'"
proof -
  obtain Q W R xs ys where sys: "system_rel img s Q W R xs ys" using inv by (auto simp: system_inv_def)
  note resume = resume_keeps [OF sys]
  show ?thesis using step
  proof cases
    case yield
    then show ?thesis using yield_keeps [OF sys] system_invI by blast
  next
    case (sem_resume sem n r)
    then show ?thesis using resume sem_wait_keeps [OF sys] unfolding semaphore_wait_resume_def semaphore_wait_def by blast
  next
    case (send_resume q m n r)
    then show ?thesis using resume send_keeps [OF sys] unfolding msg_queue_send_resume_def msg_queue_send_def by blast
  next
    case (recv_resume q m n r)
    then show ?thesis using resume recv_keeps [OF sys] unfolding msg_queue_recv_resume_def msg_queue_recv_def by blast
  next
    case (lock_resume m n r)
    then show ?thesis using resume lock_keeps [OF sys _ ty] unfolding mutex_lock_resume_def mutex_lock_def by blast
  next
    case (switch c c')
    obtain p c1 s1 where "PendSV_Handler c s = Some (c1, s1)" "system_rel img s1 (Q(p := rotate1 (Q p))) W R xs ys"
      by (rule PendSV_keeps [OF sys])
    then show ?thesis using switch system_invI by auto
  qed (blast intro: delay_keeps [OF sys] create_keeps [OF sys img] delete_keeps [OF sys] sem_init_keeps [OF sys]
        sem_wait_keeps [OF sys] sem_post_keeps [OF sys] queue_init_keeps [OF sys] send_keeps [OF sys] recv_keeps [OF sys]
        mutex_init_keeps [OF sys] lock_keeps [OF sys _ ty] unlock_keeps [OF sys]
        timer_keeps [OF inv] SysTick_keeps [OF inv cb] SVC_keeps [OF sys])+
qed

lemma blocking_typed:
  assumes ty: "typed s"
  shows "mutex_lock m n s = Some (r, s') \<Longrightarrow> typed s'" and "mutex_lock_resume m n s = Some (r, s') \<Longrightarrow> typed s'"
    and "semaphore_wait m n s = Some (r, s') \<Longrightarrow> typed s'" and "semaphore_wait_resume m n s = Some (r, s') \<Longrightarrow> typed s'"
    and "msg_queue_send m b n s = Some (r, s') \<Longrightarrow> typed s'" and "msg_queue_send_resume m b n s = Some (r, s') \<Longrightarrow> typed s'"
    and "msg_queue_recv m b n s = Some (r, s') \<Longrightarrow> typed s'" and "msg_queue_recv_resume m b n s = Some (r, s') \<Longrightarrow> typed s'"
proof -
  note ty = ty [unfolded typed_but_none]
  note call = blocking_call_typed [OF _ ty, folded typed_but_none] and resume = blocking_resume_typed [OF _ ty, folded typed_but_none]
  note attempt = lock_attempt_typed [OF _ ty, folded typed_but_none] sem_attempt_typed [OF _ ty, folded typed_but_none]
    send_attempt_typed [OF _ ty, folded typed_but_none] recv_attempt_typed [OF _ ty, folded typed_but_none]
  show "mutex_lock m n s = Some (r, s') \<Longrightarrow> typed s'" unfolding mutex_lock_def by (erule call) (erule attempt)
  show "mutex_lock_resume m n s = Some (r, s') \<Longrightarrow> typed s'" unfolding mutex_lock_resume_def by (erule resume) (erule attempt)
  show "semaphore_wait m n s = Some (r, s') \<Longrightarrow> typed s'" unfolding semaphore_wait_def by (erule call) (erule attempt)
  show "semaphore_wait_resume m n s = Some (r, s') \<Longrightarrow> typed s'" unfolding semaphore_wait_resume_def by (erule resume) (erule attempt)
  show "msg_queue_send m b n s = Some (r, s') \<Longrightarrow> typed s'" unfolding msg_queue_send_def by (erule call) (erule attempt)
  show "msg_queue_send_resume m b n s = Some (r, s') \<Longrightarrow> typed s'" unfolding msg_queue_send_resume_def by (erule resume) (erule attempt)
  show "msg_queue_recv m b n s = Some (r, s') \<Longrightarrow> typed s'" unfolding msg_queue_recv_def by (erule call) (erule attempt)
  show "msg_queue_recv_resume m b n s = Some (r, s') \<Longrightarrow> typed s'" unfolding msg_queue_recv_resume_def by (erule resume) (erule attempt)
qed

lemma other_typed:
  assumes ty: "typed s"
  shows "typed (task_yield s)" and "task_delay n s = Some (r, s') \<Longrightarrow> typed s'"
    and "task_create img f prio sz nm s = Some (a, s') \<Longrightarrow> typed s'" and "task_delete a s = Some (st, s') \<Longrightarrow> typed s'"
    and "mutex_init m s = (st, s') \<Longrightarrow> typed s'" and "semaphore_init m n k s = (st, s') \<Longrightarrow> typed s'"
    and "msg_queue_init m a n k s = (st, s') \<Longrightarrow> typed s'" and "mutex_unlock m s = Some (st, s') \<Longrightarrow> typed s'"
    and "semaphore_post m s = Some (st, s') \<Longrightarrow> typed s'"
  using ty unfolding typed_but_none
  by (auto simp: task_yield_def task_delay_def split: if_splits
      dest: block_enter_typed create_typed delete_typed init_typed unlock_typed sem_post_typed)

lemma kernel_step_typed:
  assumes "kernel_step img cb s s'" and ty: "typed s" and cb: "typed_callbacks cb"
  shows "typed s'"
  using assms(1)
proof cases
  case yield
  then show ?thesis using other_typed(1) [OF ty] by simp
qed (auto intro: blocking_typed [OF ty] other_typed [OF ty] timer_typed [THEN iffD2, OF _ ty] switch_typed [OF _ ty] SysTick_typed [OF _ ty cb])

text \<open>
  C1. The invariant of the system. From a reset, after \<open>task_init\<close>, whatever services the tasks
  call and however ticks and context switches fall between the calls, the kernel's data
  structures stay consistent: every task that can run is in the ready ring of its priority
  and nowhere else, every blocked task is in the wait list of the object it is blocked on and
  nowhere else, every task is registered and owns its heap blocks, heap blocks do not overlap,
  the running task is registered and the idle task can run. Valid use is assumed: objects are
  initialised once, a task that is deleted exists, a stack size does not wrap when it is rounded,
  timer callbacks themselves keep the invariant; the owner of a mutex that is locked has not been
  deleted (\<open>lockable\<close>), and a task that unlocks is in the ring of its base priority (\<open>unboosted\<close>).
\<close>

theorem system_invariant:
  assumes "boot s" and img: "image_ok img" and cb: "safe_callbacks img cb" "typed_callbacks cb"
    and "task_init img s = Some (RTOS_OK, s0)" and run: "(kernel_step img cb)\<^sup>*\<^sup>* s0 s'"
  shows "system_inv img s'"
proof -
  have "system_inv img s' \<and> typed s'" using run
  proof (induction rule: rtranclp_induct)
    case base
    show ?case using task_init_system [OF assms(1,2,5)] task_init_typed [OF assms(1,5)] by simp
  next
    case (step s1 s2)
    then show ?case using kernel_step_keeps [OF step.hyps(2) _ _ img cb(1)] kernel_step_typed [OF step.hyps(2) _ cb(2)] by blast
  qed
  then show ?thesis by simp
qed

text \<open>
  C9. Types. From a reset, after \<open>task_init\<close>, whatever services the tasks call, mutexes locked and
  unlocked in any way included, every record of the kernel stays well formed: the bucket of a task
  is that of its priority and its name fills its array, a mutex is locked exactly when it has an
  owner, a semaphore never exceeds its maximum, the count of a queue never exceeds its depth and its
  indices lie inside its buffer, the arrays keep their lengths, and no task but the current one is
  running.
\<close>

theorem kernel_typed:
  assumes "boot s" and cb: "typed_callbacks cb" and "task_init img s = Some (r, s0)" and run: "(free_step img cb)\<^sup>*\<^sup>* s0 s'"
  shows "typed s'"
  using run
proof (induction rule: rtranclp_induct)
  case base
  show ?case using assms(1,3) by (rule task_init_typed)
next
  case (step s1 s2)
  from step.hyps(2) show ?case
    by (rule free_stepE) (use step.IH in \<open>auto intro: kernel_step_typed [OF _ _ cb] blocking_typed other_typed\<close>)
qed

text \<open>
  C3. A context switch always succeeds. In every state that satisfies the invariant, hence in
  every reachable state, \<open>PendSV_Handler\<close> runs to its end, the invariant still holds and the task
  it dispatches is running and at least as urgent as every other task that could run.
\<close>

theorem dispatch_always_succeeds:
  assumes inv: "system_inv img s"
  shows "\<exists>c' s' t. PendSV_Handler c s = Some (c', s') \<and> system_inv img s'
    \<and> tcbs s' (current_tcb s') = Some t \<and> state t = TASK_STATE_RUNNING
    \<and> (\<forall>a u. tcbs s a = Some u \<longrightarrow> runnable u \<longrightarrow> prio_bucket t \<le> prio_bucket u)"
proof -
  obtain Q W R xs ys where sys: "system_rel img s Q W R xs ys" using inv by (auto simp: system_inv_def)
  obtain p c' s' where run: "PendSV_Handler c s = Some (c', s')"
    and p: "p < RTOS_NUM_PRIORITIES" "Q p \<noteq> []" "\<forall>q < p. Q q = []" "current_tcb s' = hd (Q p)"
    and sys': "system_rel img s' (Q(p := rotate1 (Q p))) W R xs ys"
    and "\<exists>t. tcbs s' (current_tcb s') = Some t \<and> state t = TASK_STATE_RUNNING"
    by (rule PendSV_keeps [OF sys])
  then obtain t where t: "tcbs s' (hd (Q p)) = Some t" "state t = TASK_STATE_RUNNING" by auto
  have "hd (Q p) \<in> set ((Q(p := rotate1 (Q p))) p)" using p(2) by simp
  then have "p = unat (prio_bucket t)" using sched_inv_queued [OF system_relD(5) [OF sys'] t(1) p(1)] by blast
  moreover have "\<not> unat (prio_bucket u) < p" if "tcbs s a = Some u" "runnable u" for a u
    using placed_runnable [OF sched_inv_placed [OF system_relD(5) [OF sys] that(1)] that(2)] p(3) by fastforce
  ultimately have "prio_bucket t \<le> prio_bucket u" if "tcbs s a = Some u" "runnable u" for a u
    using that by (simp add: word_le_nat_alt not_less)
  then show ?thesis using run system_invI [OF sys'] t p(4) by auto
qed

section \<open>Sample run\<close>

lemma idle_callbacks_safe: "safe_callbacks img idle_callbacks" "typed_callbacks idle_callbacks"
  by (simp_all add: safe_callbacks_def typed_callbacks_def idle_callbacks_def)

theorem system_invariant_witness:
  "\<exists>s s1 c' s2. task_init sample_image blank_kernel = Some (RTOS_OK, s)
     \<and> task_create sample_image 0x08001001 100 512 0 s = Some (0x20001068, s1)
     \<and> PendSV_Handler sample_cpu s1 = Some (c', s2) \<and> system_inv sample_image s2"
proof -
  obtain s n where s: "task_init sample_image blank_kernel = Some (RTOS_OK, s)" "current_tcb s = 0" "waits_inv s (\<lambda>_. [])"
    and inv: "task_inv sample_image s ((\<lambda>_. [])(7 := [0x20001008])) [0x20001008] ([] @ (0x20001060, 32672) # []) [(0x20001000, n)]"
    by (rule sample_started)
  obtain s1 s2 where a: "heap_alloc (sizeof_TCB sample_image) s = Some (0x20001068, s1)"
    "heap_alloc ((512 + 7) AND NOT 7) s1 = Some (0x200010C8, s2)" by (rule sample_allocs [OF inv])
  have tsz: "unat (sizeof_TCB sample_image) + 15 < 2 ^ 32" by (simp add: sample_image_def)
  obtain s3 where s3: "task_create sample_image 0x08001001 100 512 0 s = Some (0x20001068, s3)"
    by (rule task_create_outcome [OF inv s(3) _ _ _ _ tsz a(1) _ a(2), of "0x08001001" 100 0]) simp_all
  note pre = sample_image_ok(2,1) idle_callbacks_safe s(1)
  have "kernel_step sample_image idle_callbacks s s3"
    by (rule kernel_step.create [OF _ _ s3]) (simp_all add: may_call_def s(2))
  then have r3: "(kernel_step sample_image idle_callbacks)\<^sup>*\<^sup>* s s3" by blast
  obtain c' s4 where s4: "PendSV_Handler sample_cpu s3 = Some (c', s4)"
  proof -
    obtain Q W R xs ys where "system_rel sample_image s3 Q W R xs ys"
      using kernel_step_keeps [OF \<open>kernel_step sample_image idle_callbacks s s3\<close>
          task_init_system [OF sample_image_ok(2,1) s(1)] task_init_typed [OF sample_image_ok(2) s(1)] sample_image_ok(1) idle_callbacks_safe(1)]
      by (auto simp: system_inv_def)
    then show thesis by (rule PendSV_keeps [where c = sample_cpu]) (rule that)
  qed
  then have "kernel_step sample_image idle_callbacks s3 s4" by (rule kernel_step.switch)
  with r3 have "(kernel_step sample_image idle_callbacks)\<^sup>*\<^sup>* s s4" by (rule rtranclp.rtrancl_into_rtrancl)
  with system_invariant [OF pre] s3 s4 s(1) show ?thesis by blast
qed

theorem dispatch_always_succeeds_witness:
  "\<exists>s c' s' t. task_init sample_image blank_kernel = Some (RTOS_OK, s)
     \<and> PendSV_Handler sample_cpu s = Some (c', s') \<and> tcbs s' (current_tcb s') = Some t \<and> state t = TASK_STATE_RUNNING"
proof -
  obtain s where s: "task_init sample_image blank_kernel = Some (RTOS_OK, s)" by (rule sample_started)
  have "system_inv sample_image s" by (rule task_init_system [OF sample_image_ok(2,1) s])
  from dispatch_always_succeeds [OF this, of sample_cpu] s show ?thesis by blast
qed

theorem kernel_typed_witness:
  "\<exists>s c' s'. task_init sample_image blank_kernel = Some (RTOS_OK, s) \<and> PendSV_Handler sample_cpu s = Some (c', s') \<and> typed s'"
proof -
  obtain s where s: "task_init sample_image blank_kernel = Some (RTOS_OK, s)" by (rule sample_started)
  obtain Q W R xs ys where "system_rel sample_image s Q W R xs ys"
    using task_init_system [OF sample_image_ok(2,1) s] by (auto simp: system_inv_def)
  then obtain c' s' where s': "PendSV_Handler sample_cpu s = Some (c', s')" by (rule PendSV_keeps [where c = sample_cpu])
  then have "free_step sample_image idle_callbacks s s'" by (intro free_step.step kernel_step.switch)
  then have "(free_step sample_image idle_callbacks)\<^sup>*\<^sup>* s s'" by blast
  with kernel_typed [OF sample_image_ok(2) idle_callbacks_safe(2) s] s s' show ?thesis by blast
qed

end
