(* ===== verification/Rtos_Progress.thy ===== *)
theory Rtos_Progress
  imports Rtos_Kernel
begin

unbundle bit_operations_syntax

text \<open>
  The services of the kernel are total. \<open>Rtos_Kernel\<close> shows that a service that returns keeps
  the invariant of the system; here a call with valid arguments is shown to return: it never
  dereferences an address without an object, leaves an array or walks a list without end.
  \<open>request\<close> lists what can be asked of the kernel, \<open>serve\<close> is the service that answers, and
  \<open>allowed\<close> says which arguments the documentation of the service admits.
\<close>

section \<open>Requests\<close>

datatype request =
    Yield
  | Delay u32
  | Create addr u8 u32 addr
  | Delete addr
  | Sem_init addr u32 u32
  | Sem_wait addr u32
  | Sem_resume addr u32
  | Sem_post addr
  | Queue_init addr addr u32 u32
  | Send addr addr u32
  | Send_resume addr addr u32
  | Recv addr addr u32
  | Recv_resume addr addr u32
  | Mutex_init addr
  | Lock addr u32
  | Lock_resume addr u32
  | Unlock addr
  | Timer_once addr u32 addr addr
  | Timer_periodic addr u32 addr addr
  | Timer_stop addr
  | Tick
  | Switch cpu

fun serve :: "image \<Rightarrow> callbacks \<Rightarrow> request \<Rightarrow> kernel \<Rightarrow> kernel option" where
  "serve img cb Yield s = Some (task_yield s)"
| "serve img cb (Delay n) s = map_option snd (task_delay n s)"
| "serve img cb (Create f prio sz nm) s = map_option snd (task_create img f prio sz nm s)"
| "serve img cb (Delete a) s = map_option snd (task_delete a s)"
| "serve img cb (Sem_init sem n m) s = Some (snd (semaphore_init sem n m s))"
| "serve img cb (Sem_wait sem n) s = map_option snd (semaphore_wait sem n s)"
| "serve img cb (Sem_resume sem n) s = map_option snd (semaphore_wait_resume sem n s)"
| "serve img cb (Sem_post sem) s = map_option snd (semaphore_post sem s)"
| "serve img cb (Queue_init q b n d) s = Some (snd (msg_queue_init q b n d s))"
| "serve img cb (Send q m n) s = map_option snd (msg_queue_send q m n s)"
| "serve img cb (Send_resume q m n) s = map_option snd (msg_queue_send_resume q m n s)"
| "serve img cb (Recv q m n) s = map_option snd (msg_queue_recv q m n s)"
| "serve img cb (Recv_resume q m n) s = map_option snd (msg_queue_recv_resume q m n s)"
| "serve img cb (Mutex_init m) s = Some (snd (mutex_init m s))"
| "serve img cb (Lock m n) s = map_option snd (mutex_lock m n s)"
| "serve img cb (Lock_resume m n) s = map_option snd (mutex_lock_resume m n s)"
| "serve img cb (Unlock m) s = map_option snd (mutex_unlock m s)"
| "serve img cb (Timer_once a n f arg) s = map_option snd (sw_timer_start_once a n f arg s)"
| "serve img cb (Timer_periodic a n f arg) s = map_option snd (sw_timer_start_periodic a n f arg s)"
| "serve img cb (Timer_stop a) s = sw_timer_stop a s"
| "serve img cb Tick s = (case SysTick_Handler cb s of Some (False, s') \<Rightarrow> Some s' | _ \<Rightarrow> None)"
| "serve img cb (Switch c) s = map_option snd (PendSV_Handler c s)"

text \<open>
  A handle is \<open>NULL\<close> or names an object that exists; the buffer of a message does not overlap
  the slot it is copied to or from; a timer that is started is not in the timer list. A tick is allowed when no timer is due, since what a timer
  does is up to its callback, and when no stack has overflowed, since the handler then spins.
\<close>

definition sem_handle :: "kernel \<Rightarrow> addr \<Rightarrow> bool" where
  "sem_handle s sem \<longleftrightarrow> sem = NULL \<or> semaphores s sem \<noteq> None"

definition send_handle :: "kernel \<Rightarrow> addr \<Rightarrow> addr \<Rightarrow> bool" where
  "send_handle s q m \<longleftrightarrow> q = NULL \<or> m = NULL
     \<or> (\<exists>x. msg_queues s q = Some x \<and> \<not> regions_overlap (buffer x + q_tail x * msg_size x) m (msg_size x))"

definition recv_handle :: "kernel \<Rightarrow> addr \<Rightarrow> addr \<Rightarrow> bool" where
  "recv_handle s q m \<longleftrightarrow> q = NULL \<or> m = NULL
     \<or> (\<exists>x. msg_queues s q = Some x \<and> \<not> regions_overlap m (buffer x + q_head x * msg_size x) (msg_size x))"

definition timer_idle :: "kernel \<Rightarrow> addr \<Rightarrow> bool" where
  "timer_idle s a \<longleftrightarrow> (\<exists>ts. timers s ts \<and> a \<notin> set ts)"

definition canaries_intact :: "kernel \<Rightarrow> bool" where
  "canaries_intact s \<longleftrightarrow> (\<forall>a t. tcbs s a = Some t \<longrightarrow> state t \<noteq> TASK_STATE_TERMINATED \<longrightarrow> stack_intact s a)"

fun allowed :: "request \<Rightarrow> kernel \<Rightarrow> bool" where
  "allowed Yield s = running s"
| "allowed (Delay n) s = running s"
| "allowed (Create f prio sz nm) s = (may_call s \<and> unat sz + 30 < 2 ^ 32)"
| "allowed (Delete a) s = (may_call s \<and> (\<exists>t. tcbs s a = Some t \<and> state t \<noteq> TASK_STATE_TERMINATED))"
| "allowed (Sem_init sem n m) s = (may_call s \<and> semaphores s sem = None)"
| "allowed (Sem_wait sem n) s = (running s \<and> sem_handle s sem)"
| "allowed (Sem_resume sem n) s = (running s \<and> sem_handle s sem)"
| "allowed (Sem_post sem) s = (may_call s \<and> sem_handle s sem)"
| "allowed (Queue_init q b n d) s = (may_call s \<and> msg_queues s q = None)"
| "allowed (Send q m n) s = (running s \<and> send_handle s q m)"
| "allowed (Send_resume q m n) s = (running s \<and> send_handle s q m)"
| "allowed (Recv q m n) s = (running s \<and> recv_handle s q m)"
| "allowed (Recv_resume q m n) s = (running s \<and> recv_handle s q m)"
| "allowed (Mutex_init m) s = (may_call s \<and> mutexes s m = None)"
| "allowed (Lock m n) s = (running s \<and> lockable s m)"
| "allowed (Lock_resume m n) s = (running s \<and> lockable s m)"
| "allowed (Unlock m) s = (running s \<and> unboosted s \<and> (m = NULL \<or> mutexes s m \<noteq> None))"
| "allowed (Timer_once a n f arg) s = (may_call s \<and> timer_idle s a)"
| "allowed (Timer_periodic a n f arg) s = (may_call s \<and> timer_idle s a)"
| "allowed (Timer_stop a) s = (may_call s \<and> (\<exists>ts. timers s ts))"
| "allowed Tick s = (timer_due (s_rtos_tick_count s + 1) s = Some False \<and> canaries_intact s)"
| "allowed (Switch c) s = True"

section \<open>Blocking services\<close>

text \<open>The two ways through a blocking call: the attempt answers, or the caller joins a list and blocks.\<close>

lemma delay_returns:
  assumes sys: "system_rel img s Q W R xs ys" and run: "running s"
  shows "\<exists>r s'. task_delay n s = Some (r, s')"
proof (cases "n = 0")
  case False
  obtain t where t: "tcbs s (current_tcb s) = Some t" "runnable t" and nn: "current_tcb s \<noteq> NULL" by (rule runningE [OF run sys])
  obtain s1 where "block_enter n BLOCK_DELAY NULL s = Some (None, s1)"
    by (rule block_enter_inv [OF system_relD(5) [OF sys] t(1) refl t(2)])
  then show ?thesis using False nn by (simp add: task_delay_def)
qed (simp add: task_delay_def)

context fifo_wait_object
begin

lemma block_returns:
  assumes sys: "system_rel img s Q W R xs ys" and run: "running s" and p: "wptr s obj \<noteq> None"
    and on: "\<And>n k u. blocked_on (blocked_tcb n k reason x u) = Some obj"
  obtains s1 s' where "enqueue (current_tcb s) (cpsid s) = Some s1" and "block_enter timeout reason x (cpsie s1) = Some (None, s')"
proof -
  obtain t where t: "tcbs s (current_tcb s) = Some t" "runnable t" by (rule runningE [OF run sys])
  obtain ht T s2 where enq: "enqueue (current_tcb s) (cpsid s) = Some (set_wptr obj ht (s\<lparr>tcbs := T, primask := True\<rparr>))"
    and b: "block_enter timeout reason x (set_wptr obj ht (s\<lparr>tcbs := T, primask := False\<rparr>)) = Some (None, s2)"
    by (rule block_waits [OF system_relD(5,2) [OF sys] p refl t on refl refl])
  have "cpsie (set_wptr obj ht (s\<lparr>tcbs := T, primask := True\<rparr>)) = set_wptr obj ht (s\<lparr>tcbs := T, primask := False\<rparr>)"
    by (simp add: cpsie_def)
  then show thesis using that [OF enq] b by simp
qed

end

lemma resume_returns:
  assumes sys: "system_rel img s Q W R xs ys" and run: "running s"
    and call: "\<exists>r s'. blocking_call att n reason x s = Some (r, s')"
  shows "\<exists>r s'. blocking_resume att n reason x s = Some (r, s')"
proof -
  obtain t where "tcbs s (current_tcb s) = Some t" "state t = TASK_STATE_RUNNING" "current_tcb s \<noteq> NULL" by (rule runningE [OF run sys])
  then show ?thesis using call by (simp add: blocking_resume_def block_spin_def)
qed

lemma sem_wait_returns:
  assumes sys: "system_rel img s Q W R xs ys" and run: "running s" and h: "sem_handle s sem"
  shows "\<exists>r s'. semaphore_wait sem n s = Some (r, s')"
proof (cases "sem = NULL")
  case False
  then obtain x where x: "semaphores s sem = Some x" using h by (auto simp: sem_handle_def)
  have nn: "current_tcb s \<noteq> NULL" by (rule runningE [OF run sys])
  have p: "wptr s (SemQ sem) \<noteq> None" using x False by (simp add: wptr_def get_sem_def fetch_def)
  obtain s1 s' where "sem_wait_enqueue sem (current_tcb s) (cpsid s) = Some s1"
    and "block_enter n BLOCK_SEMAPHORE sem (cpsie s1) = Some (None, s')"
    by (rule sem_q.block_returns [OF sys run p, of BLOCK_SEMAPHORE sem n]) (simp_all add: blocked_on_def wait_obj_of_def)
  then show ?thesis using False nn x
    by (simp add: semaphore_wait_def blocking_call_def semaphore_wait_attempt_def Let_def cpsid_def)
qed (simp add: semaphore_wait_def blocking_call_def semaphore_wait_attempt_def)

lemma sem_post_returns:
  assumes sys: "system_rel img s Q W R xs ys" and h: "sem_handle s sem"
  shows "\<exists>r s'. semaphore_post sem s = Some (r, s')"
proof (cases "sem = NULL")
  case False
  then obtain x where x: "semaphores s sem = Some x" using h by (auto simp: sem_handle_def)
  show ?thesis
  proof (cases "sem_count x < max_count x")
    case True
    let ?s1 = "s\<lparr>semaphores := (semaphores s)(sem \<mapsto> x\<lparr>sem_count := sem_count x + 1\<rparr>), primask := True\<rparr>"
    have sys1: "system_rel img ?s1 Q W R xs ys" by (rule system_same [OF sys]) (simp_all add: wptr_sem_upd [OF x])
    have p: "wptr ?s1 (SemQ sem) \<noteq> None" using False by (simp add: wptr_def get_sem_def fetch_def)
    obtain s2 where "do {
        (t, s) \<leftarrow> sem_wait_pop_head sem ?s1;
        if t \<noteq> NULL then do {
          s \<leftarrow> upd_tcb t woken s; (_, s) \<leftarrow> scheduler_add_task t s; Some (scheduler_mark_reschedule s)
        } else Some s } = Some s2"
      by (rule sem_q.wake_waits [OF sys1 p])
    then show ?thesis using sem_post_as_wake [OF x False True] by blast
  qed (use False x in \<open>simp add: semaphore_post_def Let_def cpsid_def not_less\<close>)
qed (simp add: semaphore_post_def)

section \<open>Message queues\<close>

lemma wake_head_returns:
  assumes sys: "system_rel img s Q W R xs ys" and x: "msg_queues s q = Some x" and q: "q \<noteq> NULL"
    and y: "send_wait_head y = send_wait_head x" "send_wait_tail y = send_wait_tail x"
      "recv_wait_head y = recv_wait_head x" "recv_wait_tail y = recv_wait_tail x"
    and w: "w = SendQ q \<or> w = RecvQ q"
  shows "\<exists>s1. wake_head w (s\<lparr>msg_queues := (msg_queues s)(q \<mapsto> y), ram := B, primask := True\<rparr>) = Some s1"
proof -
  let ?s = "s\<lparr>msg_queues := (msg_queues s)(q \<mapsto> y), ram := B, primask := True\<rparr>"
  have sys1: "system_rel img ?s Q W R xs ys" by (rule system_same [OF sys]) (simp_all add: wptr_queue_upd [OF x y])
  have p: "wptr ?s (SendQ q) \<noteq> None" "wptr ?s (RecvQ q) \<noteq> None" using queue_wptr [of ?s q y] q by simp_all
  have "wake_head (SendQ q) ?s \<noteq> None" unfolding wake_head_woken by (rule send_q.wake_waits [OF sys1 p(1)]) simp
  moreover have "wake_head (RecvQ q) ?s \<noteq> None" unfolding wake_head_woken by (rule recv_q.wake_waits [OF sys1 p(2)]) simp
  ultimately show ?thesis using w by blast
qed

lemma send_returns:
  assumes sys: "system_rel img s Q W R xs ys" and run: "running s" and h: "send_handle s q m"
  shows "\<exists>r s'. msg_queue_send q m n s = Some (r, s')"
proof (cases "q = NULL \<or> m = NULL")
  case False
  note defs = msg_queue_send_def blocking_call_def msg_queue_send_attempt_def Let_def cpsid_def
  have nn: "current_tcb s \<noteq> NULL" by (rule runningE [OF run sys])
  obtain x where x: "msg_queues s q = Some x" and clear: "\<not> regions_overlap (buffer x + q_tail x * msg_size x) m (msg_size x)"
    using h False by (auto simp: send_handle_def)
  show ?thesis
  proof (cases "q_count x < depth x")
    case True
    obtain B where B: "memcpy (buffer x + q_tail x * msg_size x) m (msg_size x) (ram s) = Some B" using clear by (auto simp: memcpy_def)
    obtain s1 where "wake_head (RecvQ q) (s\<lparr>msg_queues := (msg_queues s)(q \<mapsto>
        x\<lparr>q_tail := (q_tail x + 1) mod depth x, q_count := q_count x + 1\<rparr>), ram := B, primask := True\<rparr>) = Some s1"
      using wake_head_returns [OF sys x, of "x\<lparr>q_tail := (q_tail x + 1) mod depth x, q_count := q_count x + 1\<rparr>" "RecvQ q" B] False by auto
    then show ?thesis using False nn x True B by (simp add: defs)
  next
    case full: False
    obtain s1 s' where "queue_enqueue (SendQ q) (current_tcb s) (cpsid s) = Some s1"
      and "block_enter n BLOCK_MSG_SEND q (cpsie s1) = Some (None, s')"
      by (rule send_q.block_returns [OF sys run, of q BLOCK_MSG_SEND q n])
         (use queue_wptr [OF x] False in \<open>simp_all add: blocked_on_def wait_obj_of_def\<close>)
    then show ?thesis using False nn x full by (simp add: defs)
  qed
qed (auto simp: msg_queue_send_def blocking_call_def msg_queue_send_attempt_def)

lemma recv_returns:
  assumes sys: "system_rel img s Q W R xs ys" and run: "running s" and h: "recv_handle s q m"
  shows "\<exists>r s'. msg_queue_recv q m n s = Some (r, s')"
proof (cases "q = NULL \<or> m = NULL")
  case False
  note defs = msg_queue_recv_def blocking_call_def msg_queue_recv_attempt_def Let_def cpsid_def
  have nn: "current_tcb s \<noteq> NULL" by (rule runningE [OF run sys])
  obtain x where x: "msg_queues s q = Some x" and clear: "\<not> regions_overlap m (buffer x + q_head x * msg_size x) (msg_size x)"
    using h False by (auto simp: recv_handle_def)
  show ?thesis
  proof (cases "q_count x > 0")
    case True
    obtain B where B: "memcpy m (buffer x + q_head x * msg_size x) (msg_size x) (ram s) = Some B" using clear by (auto simp: memcpy_def)
    obtain s1 where "wake_head (SendQ q) (s\<lparr>msg_queues := (msg_queues s)(q \<mapsto>
        x\<lparr>q_head := (q_head x + 1) mod depth x, q_count := q_count x - 1\<rparr>), ram := B, primask := True\<rparr>) = Some s1"
      using wake_head_returns [OF sys x, of "x\<lparr>q_head := (q_head x + 1) mod depth x, q_count := q_count x - 1\<rparr>" "SendQ q" B] False by auto
    then show ?thesis using False nn x True B by (simp add: defs)
  next
    case none: False
    obtain s1 s' where "queue_enqueue (RecvQ q) (current_tcb s) (cpsid s) = Some s1"
      and "block_enter n BLOCK_MSG_RECV q (cpsie s1) = Some (None, s')"
      by (rule recv_q.block_returns [OF sys run, of q BLOCK_MSG_RECV q n])
         (use queue_wptr [OF x] False in \<open>simp_all add: blocked_on_def wait_obj_of_def\<close>)
    then show ?thesis using False nn x none by (simp add: defs)
  qed
qed (auto simp: msg_queue_recv_def blocking_call_def msg_queue_recv_attempt_def)

section \<open>Creation, deletion and ticks\<close>

lemma delete_returns:
  assumes sys: "system_rel img s Q W R xs ys" and t: "tcbs s a = Some t" "state t \<noteq> TASK_STATE_TERMINATED"
  shows "\<exists>r s'. task_delete a s = Some (r, s')"
proof (cases "a = idle_tcb s \<or> a = current_tcb s")
  case False
  note inv = system_relD(1) [OF sys]
  have mem: "a \<in> set R" using task_invD(6) [OF inv] t by blast
  have ne: "a \<noteq> idle_tcb s" "a \<noteq> current_tcb s" using False by auto
  obtain s1 where "task_delete a s = Some (RTOS_OK, s1)" by (rule task_delete_outcome [OF inv system_relD(2) [OF sys] mem ne t(1)])
  then show ?thesis by blast
qed (auto simp: task_delete_def)

lemma stack_check_passes:
  assumes "system_rel img s Q W R xs ys" and "canaries_intact s"
  shows "rtos_stack_check_all s = Some (False, s)"
proof -
  note inv = system_relD(1) [OF assms(1)]
  have R: "\<forall>a \<in> set R. \<exists>t. tcbs s a = Some t \<and> state t \<noteq> TASK_STATE_TERMINATED" using task_invD(6) [OF inv] by blast
  then have "\<forall>a \<in> set R. a \<noteq> NULL \<and> tcbs s a \<noteq> None" using sched_inv_nonnull [OF task_invD(1) [OF inv]] by blast
  note eq = stack_check_all_eq [OF task_invD(3) [OF inv] this]
  have none: "dropWhile (stack_intact s) R = []" using R assms(2) by (auto simp: canaries_intact_def)
  show ?thesis unfolding eq none by simp
qed

lemma canaries_intact_life:
  assumes "canaries_intact s" and life: "same_life (tcbs s) (tcbs s')" and "stack_mem s' = stack_mem s"
  shows "canaries_intact s'"
  unfolding canaries_intact_def
proof (intro allI impI)
  fix a t assume t: "tcbs s' a = Some t" "state t \<noteq> TASK_STATE_TERMINATED"
  then obtain u where u: "tcbs s a = Some u" "stack_base t = stack_base u" "state u \<noteq> TASK_STATE_TERMINATED"
    using life unfolding same_life_def by (cases "tcbs s a") (auto dest: spec [of _ a])
  then have "stack_intact s a" using assms(1) by (simp add: canaries_intact_def)
  then show "stack_intact s' a" using t(1) u(1,2) assms(3) by (simp add: stack_intact_def)
qed

lemma SysTick_returns:
  assumes sys: "system_rel img s Q W R xs ys" and t: "timer_due (s_rtos_tick_count s + 1) s = Some False"
    and ok: "canaries_intact s"
  shows "\<exists>s'. SysTick_Handler cb s = Some (False, s')"
proof -
  have "system_rel img (rtos_tick_increment s) Q W R xs ys"
    by (rule system_same [OF sys]) (simp_all add: rtos_tick_increment_def)
  then obtain s1 Q1 W1 where s1: "rtos_wake_delayed (rtos_tick_increment s) = Some s1" "system_rel img s1 Q1 W1 R xs ys"
      "calm s1 = calm (rtos_tick_increment s)" "same_life (tcbs (rtos_tick_increment s)) (tcbs s1)"
    by (rule wake_delayed_returns)
  note sel = calm_sel [OF s1(3)]
  have "timer_due (rtos_get_tick s1) s1 = Some False"
    using t sel by (auto simp: timer_due_def get_timer_def rtos_get_tick_def rtos_tick_increment_def split: if_splits)
  then have s2: "sw_timer_tick_process cb s1 = Some s1"
    by (simp add: sw_timer_tick_process_def tick_loop.simps [of cb _ s1])
  have "canaries_intact s1" by (rule canaries_intact_life [OF ok]) (use s1(4) sel in \<open>simp_all add: rtos_tick_increment_def\<close>)
  then have s3: "rtos_stack_check_all s1 = Some (False, s1)" by (rule stack_check_passes [OF s1(2)])
  have cur: "current_ok s1"
    using system_relD(3) [OF s1(2)] task_invD(6) [OF system_relD(1) [OF s1(2)]] by (auto simp: current_ok_def live_tcb_def)
  obtain s4 where "scheduler_time_slice_tick s1 = Some s4" by (rule time_slice_keeps [OF system_relD(5,2) [OF s1(2)] cur])
  then show ?thesis using s1(1) s2 s3 by (simp add: SysTick_Handler_def Let_def)
qed

section \<open>Timers\<close>

lemma timer_start_returns:
  assumes "timer_idle s a"
  shows "\<exists>st s'. sw_timer_start_once a n f arg s = Some (st, s')" and "\<exists>st s'. sw_timer_start_periodic a n f arg s = Some (st, s')"
proof -
  obtain ts where ts: "timers s ts" "a \<notin> set ts" using assms by (auto simp: timer_idle_def)
  have run: "\<exists>st s'. do { s \<leftarrow> insert_sorted a (s\<lparr>sw_timers := (sw_timers s)(a \<mapsto> x)\<rparr>); Some (RTOS_OK, s) } = Some (st, s')"
    if a: "a \<noteq> NULL" "active x" for x
    using start_refines [OF ts(1) a(1) ts(2) a(2)] by (metis bind.bind_lunit)
  show "\<exists>st s'. sw_timer_start_once a n f arg s = Some (st, s')" "\<exists>st s'. sw_timer_start_periodic a n f arg s = Some (st, s')"
    by (simp_all add: sw_timer_start_once_def sw_timer_start_periodic_def Let_def run)
qed

lemma timer_stop_returns:
  assumes ts: "timers s ts"
  shows "\<exists>s'. sw_timer_stop a s = Some s'"
  using sw_timer_stop_removes [OF ts, of a] by (cases "a = NULL") (auto simp: sw_timer_stop_def)

section \<open>Every allowed request is served\<close>

lemma serve_step:
  assumes "serve img cb r s = Some s'" and "allowed r s"
  shows "kernel_step img cb s s'"
  using assms
  by (cases r) (auto intro: kernel_step.intros prod.collapse [symmetric] split: option.splits bool.splits)

lemma serve_returns:
  assumes inv: "system_inv img s" and ty: "typed s" and img: "image_ok img" and ok: "allowed r s"
  shows "\<exists>s'. serve img cb r s = Some s'"
proof -
  obtain Q W R xs ys where sys: "system_rel img s Q W R xs ys" using inv by (auto simp: system_inv_def)
  show ?thesis
  proof (cases r)
    case (Sem_resume sem n)
    then show ?thesis
      using ok resume_returns [OF sys _ sem_wait_returns [OF sys, of sem n, unfolded semaphore_wait_def]]
      by (auto simp: semaphore_wait_resume_def)
  next
    case (Send_resume q m n)
    then show ?thesis
      using ok resume_returns [OF sys _ send_returns [OF sys, of q m n, unfolded msg_queue_send_def]]
      by (auto simp: msg_queue_send_resume_def)
  next
    case (Recv_resume q m n)
    then show ?thesis
      using ok resume_returns [OF sys _ recv_returns [OF sys, of q m n, unfolded msg_queue_recv_def]]
      by (auto simp: msg_queue_recv_resume_def)
  next
    case (Lock m n)
    then show ?thesis using ok lock_returns [OF sys _ ty, of m n] by auto
  next
    case (Lock_resume m n)
    then show ?thesis
      using ok resume_returns [OF sys, of "mutex_lock_attempt m" n BLOCK_MUTEX m] lock_returns [OF sys _ ty, of m n, unfolded mutex_lock_def]
      by (auto simp: mutex_lock_resume_def)
  next
    case (Unlock m)
    then show ?thesis using ok unlock_returns [OF sys, of m] by auto
  next
    case (Timer_once a n f arg)
    then show ?thesis using ok timer_start_returns(1) [of s a n f arg] by auto
  next
    case (Timer_periodic a n f arg)
    then show ?thesis using ok timer_start_returns(2) [of s a n f arg] by auto
  next
    case (Timer_stop a)
    then show ?thesis using ok timer_stop_returns [of s _ a] by auto
  next
    case (Switch c)
    obtain c' s' where "PendSV_Handler c s = Some (c', s')" by (rule PendSV_keeps [OF sys])
    then show ?thesis by (simp add: Switch)
  next
    case (Delay n)
    then show ?thesis using ok delay_returns [OF sys, of n] by auto
  next
    case (Create f prio sz nm)
    then show ?thesis using ok create_returns [OF sys img, of sz f prio nm] by auto
  next
    case (Delete a)
    then show ?thesis using ok delete_returns [OF sys, of a] by auto
  next
    case (Sem_wait sem n)
    then show ?thesis using ok sem_wait_returns [OF sys, of sem n] by auto
  next
    case (Sem_post sem)
    then show ?thesis using ok sem_post_returns [OF sys, of sem] by auto
  next
    case (Send q m n)
    then show ?thesis using ok send_returns [OF sys, of q m n] by auto
  next
    case (Recv q m n)
    then show ?thesis using ok recv_returns [OF sys, of q m n] by auto
  next
    case Tick
    then show ?thesis using ok SysTick_returns [OF sys, of cb] by auto
  qed simp_all
qed

text \<open>A sequence of requests, each allowed in the state the earlier ones lead to.\<close>

fun serve_all :: "image \<Rightarrow> callbacks \<Rightarrow> request list \<Rightarrow> kernel \<Rightarrow> kernel option" where
  "serve_all img cb [] s = Some s"
| "serve_all img cb (r # rs) s = do { s \<leftarrow> serve img cb r s; serve_all img cb rs s }"

fun allowed_all :: "image \<Rightarrow> callbacks \<Rightarrow> request list \<Rightarrow> kernel \<Rightarrow> bool" where
  "allowed_all img cb [] s = True"
| "allowed_all img cb (r # rs) s =
     (allowed r s \<and> (case serve img cb r s of None \<Rightarrow> True | Some s' \<Rightarrow> allowed_all img cb rs s'))"

lemma serve_all_returns:
  assumes "image_ok img" and "safe_callbacks img cb" and "typed_callbacks cb"
  shows "system_inv img s \<Longrightarrow> typed s \<Longrightarrow> allowed_all img cb rs s \<Longrightarrow> \<exists>s'. serve_all img cb rs s = Some s' \<and> system_inv img s'"
proof (induction rs arbitrary: s)
  case (Cons r rs)
  obtain s1 where s1: "serve img cb r s = Some s1" using serve_returns [OF Cons.prems(1,2) assms(1)] Cons.prems(3) by auto
  have step: "kernel_step img cb s s1" using serve_step [OF s1] Cons.prems(3) by simp
  have "system_inv img s1" "typed s1"
    using kernel_step_keeps [OF step Cons.prems(1,2) assms(1,2)] kernel_step_typed [OF step Cons.prems(2) assms(3)] by simp_all
  then show ?case using Cons.IH [of s1] Cons.prems(3) s1 by simp
qed simp


section \<open>Sample run\<close>


end
