(* ===== verification/Rtos_Race.thy ===== *)
theory Rtos_Race
  imports Rtos_Context
begin

text \<open>
  A post between the enqueueing and the blocking of a waiter. \<open>semaphore_wait\<close> links the task into the
  wait list, enables interrupts, and only then calls \<open>rtos_block_current\<close>, so that an interrupt
  that posts the semaphore can fall between the two.
\<close>

text \<open>The state after each of the three pieces, for a task alone in its ready ring.\<close>

definition race_start :: "kernel \<Rightarrow> addr \<Rightarrow> addr \<Rightarrow> TCB_t \<Rightarrow> semaphore_t \<Rightarrow> bool" where
  "race_start s sem self t x \<longleftrightarrow> sem \<noteq> NULL \<and> self \<noteq> NULL \<and> current_tcb s = self \<and> tcbs s self = Some t
     \<and> state t = TASK_STATE_RUNNING \<and> next_ready t = self \<and> unat (prio_bucket t) < length (ready_head s)
     \<and> ready_head s ! unat (prio_bucket t) = self
     \<and> semaphores s sem = Some x \<and> sem_count x = 0 \<and> max_count x = 1 \<and> sem_wait_head x = NULL"

lemma race_attempt:
  assumes "race_start s sem self t x"
  shows "semaphore_wait_attempt sem s = Some (None, s\<lparr>tcbs := (tcbs s)(self \<mapsto> t\<lparr>mutex_wait_next := NULL\<rparr>),
     semaphores := (semaphores s)(sem \<mapsto> x\<lparr>sem_wait_head := self, sem_wait_tail := self\<rparr>), primask := False\<rparr>)"
  using assms by (simp add: race_start_def semaphore_wait_attempt_def Let_def cpsid_def cpsie_def sem_wait_enqueue_def)

lemma race_post:
  assumes r: "race_start s sem self t x"
  shows "semaphore_post sem (s\<lparr>tcbs := (tcbs s)(self \<mapsto> t\<lparr>mutex_wait_next := NULL\<rparr>),
     semaphores := (semaphores s)(sem \<mapsto> x\<lparr>sem_wait_head := self, sem_wait_tail := self\<rparr>), primask := False\<rparr>)
    = Some (RTOS_OK, s\<lparr>tcbs := (tcbs s)(self \<mapsto> t\<lparr>mutex_wait_next := NULL, block_reason := BLOCK_NONE, block_object := NULL,
         state := TASK_STATE_READY, next_ready := self\<rparr>),
       semaphores := (semaphores s)(sem \<mapsto> x\<lparr>sem_count := 1, sem_wait_head := NULL, sem_wait_tail := NULL\<rparr>), icsr := 0x10000000,
       primask := False\<rparr>)"
proof -
  have "ring_tail (T(self \<mapsto> u)) self self = Some self" if "next_ready u = self" for T u
    using r that by (simp add: ring_tail.simps [of _ self self] race_start_def)
  then show ?thesis using r
    by (simp add: race_start_def semaphore_post_def Let_def cpsid_def cpsie_def sem_wait_pop_head_def scheduler_add_task_def
        ring_insert_def scheduler_mark_reschedule_def arr_get_def)
qed

text \<open>
  C34. A lost wake-up. A binary semaphore is empty, nobody waits for it, and the running task, the only one of
  its priority, calls \<open>semaphore_wait\<close> without a time limit. If an interrupt posts the semaphore after the task
  has been put on the wait list and before it is marked blocked, the post takes the task off the list and the
  task then blocks all the same: it is blocked on a semaphore that has a unit, is on no list and in no ready
  ring, and every later post is refused because the semaphore is full.
\<close>

theorem semaphore_lost_wakeup:
  assumes r: "race_start s sem self t x"
  shows "\<exists>s1 s2 s3 u. semaphore_wait_attempt sem s = Some (None, s1) \<and> \<not> primask s1
    \<and> semaphore_post sem s1 = Some (RTOS_OK, s2)
    \<and> block_enter RTOS_WAIT_FOREVER BLOCK_SEMAPHORE sem s2 = Some (None, s3)
    \<and> tcbs s3 self = Some u \<and> state u = TASK_STATE_BLOCKED \<and> block_object u = sem \<and> wake_time u = UINT32_MAX
    \<and> waiters_of s3 (SemQ sem) [] \<and> ready_head s3 ! unat (prio_bucket u) = NULL
    \<and> semaphore_post sem s3 = Some (RTOS_ERR_FULL, s3)"
proof -
  have find: "ring_find T self self NULL self = Some (Some NULL)" for T by (simp add: ring_find.simps [of _ self self])
  let ?s1 = "s\<lparr>tcbs := (tcbs s)(self \<mapsto> t\<lparr>mutex_wait_next := NULL\<rparr>),
     semaphores := (semaphores s)(sem \<mapsto> x\<lparr>sem_wait_head := self, sem_wait_tail := self\<rparr>), primask := False\<rparr>"
  let ?u2 = "t\<lparr>mutex_wait_next := NULL, block_reason := BLOCK_NONE, block_object := NULL, state := TASK_STATE_READY, next_ready := self\<rparr>"
  let ?x = "x\<lparr>sem_count := 1, sem_wait_head := NULL, sem_wait_tail := NULL\<rparr>"
  let ?s2 = "s\<lparr>tcbs := (tcbs s)(self \<mapsto> ?u2), semaphores := (semaphores s)(sem \<mapsto> ?x), icsr := 0x10000000, primask := False\<rparr>"
  let ?u = "?u2\<lparr>block_reason := BLOCK_SEMAPHORE, block_object := sem, block_wake_status := RTOS_OK, wake_time := UINT32_MAX,
     state := TASK_STATE_BLOCKED, next_ready := NULL\<rparr>"
  let ?s3 = "?s2\<lparr>tcbs := (tcbs s)(self \<mapsto> ?u), ready_head := (ready_head s)[unat (prio_bucket t) := NULL]\<rparr>"
  have b: "block_enter RTOS_WAIT_FOREVER BLOCK_SEMAPHORE sem ?s2 = Some (None, ?s3)"
    using r find by (simp add: race_start_def block_enter_def block_prepare_def block_commit_def Let_def cpsid_def cpsie_def
        scheduler_remove_task_def arr_get_def arr_set_def scheduler_mark_reschedule_def)
  have post: "semaphore_post sem ?s3 = Some (RTOS_ERR_FULL, ?s3)"
    using r by (simp add: race_start_def semaphore_post_def Let_def cpsid_def cpsie_def)
  have w: "waiters_of ?s3 (SemQ sem) []" using r by (simp add: race_start_def waiters_of_def wptr_def wait_list_def)
  have rh: "ready_head ?s3 ! unat (prio_bucket ?u) = NULL" using r by (simp add: race_start_def)
  show ?thesis
    by (intro exI [of _ ?s1] exI [of _ ?s2] exI [of _ ?s3] exI [of _ ?u] conjI race_attempt [OF r] race_post [OF r] b post w rh) simp_all
qed

definition race_sample :: kernel where
  "race_sample = blank_kernel\<lparr>tcbs := [16 \<mapsto> sample_task 200 TASK_STATE_RUNNING 16],
     semaphores := [256 \<mapsto> \<lparr>sem_count = 0, max_count = 1, sem_wait_head = 0, sem_wait_tail = 0\<rparr>],
     ready_head := [0, 0, 0, 0, 0, 0, 16, 0], current_tcb := 16\<rparr>"

theorem semaphore_lost_wakeup_witness:
  "\<exists>s1 s2 s3. semaphore_wait_attempt 256 race_sample = Some (None, s1) \<and> semaphore_post 256 s1 = Some (RTOS_OK, s2)
     \<and> block_enter RTOS_WAIT_FOREVER BLOCK_SEMAPHORE 256 s2 = Some (None, s3) \<and> waiters_of s3 (SemQ 256) []
     \<and> semaphore_post 256 s3 = Some (RTOS_ERR_FULL, s3)"
proof -
  have "race_start race_sample 256 16 (sample_task 200 TASK_STATE_RUNNING 16)
      \<lparr>sem_count = 0, max_count = 1, sem_wait_head = 0, sem_wait_tail = 0\<rparr>"
    by (simp add: race_start_def race_sample_def sample_defs)
  from semaphore_lost_wakeup [OF this] show ?thesis by blast
qed

end
