(* ===== verification/Rtos_Syscalls.thy ===== *)
theory Rtos_Syscalls
  imports Rtos_Context
begin

unbundle bit_operations_syntax

text \<open>
  The stubs of \<^verbatim>\<open>src/platform/syscalls.c\<close> on which the C library rests: \<open>sbrk\<close>, which moves the
  end of the library's heap, and the two versions of \<open>write\<close>, over semihosting in the emulator
  and over USART2 on the board. The linker's symbols, the debugger behind the breakpoint and the
  transmitter behind the USART registers are parameters.
\<close>

section \<open>The end of the library's heap\<close>

text \<open>
  \<open>heap_end\<close> is the static variable of \<open>sbrk\<close>. It lies in \<^verbatim>\<open>.bss\<close>, which the start-up code does not
  clear (\<^verbatim>\<open>Rtos_Startup\<close>), so that its first value is whatever the memory holds; \<open>sbrk\<close> takes a null
  pointer for the linker's \<^verbatim>\<open>_end\<close>.
\<close>

record libc =
  heap_end :: addr
  errno :: u32

definition ENOMEM :: u32 where "ENOMEM = 12"

definition sbrk :: "addr \<Rightarrow> addr \<Rightarrow> u32 \<Rightarrow> libc \<Rightarrow> addr \<times> libc" where
  "sbrk end_sym estack incr l =
     (let l = (if heap_end l = NULL then l\<lparr>heap_end := end_sym\<rparr> else l);
          prev = heap_end l
      in if heap_end l + incr > estack - 4096 then (- 1, l\<lparr>errno := ENOMEM\<rparr>)
         else (prev, l\<lparr>heap_end := heap_end l + incr\<rparr>))"

text \<open>The break: where the next block starts.\<close>

definition break_of :: "addr \<Rightarrow> libc \<Rightarrow> addr" where
  "break_of end_sym l = (if heap_end l = NULL then end_sym else heap_end l)"

text \<open>Requests in sequence; the blocks that were granted, with their sizes.\<close>

fun sbrk_run :: "addr \<Rightarrow> addr \<Rightarrow> u32 list \<Rightarrow> libc \<Rightarrow> (addr \<times> u32) list \<times> libc" where
  "sbrk_run end_sym estack [] l = ([], l)"
| "sbrk_run end_sym estack (n # ns) l =
     (let (p, l) = sbrk end_sym estack n l; (bs, l) = sbrk_run end_sym estack ns l
      in (if p = - 1 then bs else (p, n) # bs, l))"

text \<open>Memory where the library's heap can grow: the break cannot wrap by a request below \<open>2 ^ 31\<close>.\<close>

definition heap_area :: "addr \<Rightarrow> addr \<Rightarrow> bool" where
  "heap_area end_sym estack \<longleftrightarrow> end_sym \<noteq> NULL \<and> unat end_sym + 4096 \<le> unat estack \<and> unat estack < 2 ^ 31"

definition break_ok :: "addr \<Rightarrow> addr \<Rightarrow> addr \<Rightarrow> bool" where
  "break_ok end_sym estack b \<longleftrightarrow> unat end_sym \<le> unat b \<and> unat b + 4096 \<le> unat estack"

lemma minus_one: "unat (- 1 :: u32) = 2 ^ 32 - 1"
  by (simp add: unsigned_minus_1_eq_mask mask_eq_exp_minus_1)

lemma heap_area_limit: "heap_area end_sym estack \<Longrightarrow> unat (estack - 4096) = unat estack - 4096"
  by (subst unat_sub) (simp_all add: heap_area_def word_le_nat_alt)

lemma sbrk_cases:
  assumes area: "heap_area end_sym estack" and ok: "break_ok end_sym estack (break_of end_sym l)" and n: "unat n < 2 ^ 31"
  obtains (granted) l' where "sbrk end_sym estack n l = (break_of end_sym l, l')" and "errno l' = errno l"
      and "unat (break_of end_sym l') = unat (break_of end_sym l) + unat n" and "break_ok end_sym estack (break_of end_sym l')"
      and "break_of end_sym l \<noteq> - 1"
    | (refused) l' where "sbrk end_sym estack n l = (- 1, l')" and "errno l' = ENOMEM"
      and "break_of end_sym l' = break_of end_sym l" and "unat estack < unat (break_of end_sym l) + unat n + 4096"
proof -
  let ?b = "break_of end_sym l"
  have lt: "unat ?b + unat n < 2 ^ 32" using area ok n by (simp add: heap_area_def break_ok_def)
  then have sum: "unat (?b + n) = unat ?b + unat n" by (subst unat_plus_simple [THEN iffD1]) (simp_all add: no_olen_add_nat)
  have nz: "?b + n \<noteq> NULL" using sum area ok by (auto simp: heap_area_def break_ok_def unat_eq_zero dest: arg_cong [of _ _ unat])
  have m1: "?b \<noteq> - 1" using ok area by (auto simp: break_ok_def heap_area_def minus_one)
  have run: "sbrk end_sym estack n l = (if ?b + n > estack - 4096 then (- 1, l\<lparr>heap_end := ?b, errno := ENOMEM\<rparr>)
      else (?b, l\<lparr>heap_end := ?b + n\<rparr>))"
    by (cases l) (simp add: sbrk_def Let_def break_of_def)
  have cmp: "?b + n > estack - 4096 \<longleftrightarrow> unat estack < unat ?b + unat n + 4096"
    using area sum heap_area_limit [OF area] by (auto simp: word_less_nat_alt heap_area_def)
  show thesis
  proof (cases "?b + n > estack - 4096")
    case True
    have "break_of end_sym (l\<lparr>heap_end := ?b, errno := ENOMEM\<rparr>) = ?b" by (simp add: break_of_def)
    then show thesis using refused [of "l\<lparr>heap_end := ?b, errno := ENOMEM\<rparr>"] run cmp True by simp
  next
    case False
    have "break_of end_sym (l\<lparr>heap_end := ?b + n\<rparr>) = ?b + n" using nz by (simp add: break_of_def)
    then show thesis using granted [of "l\<lparr>heap_end := ?b + n\<rparr>"] run cmp False m1 sum ok by (simp add: break_ok_def)
  qed
qed

text \<open>The blocks follow one another from \<open>b\<close> to \<open>e\<close>.\<close>

fun blocks_from :: "nat \<Rightarrow> (addr \<times> u32) list \<Rightarrow> nat \<Rightarrow> bool" where
  "blocks_from b [] e = (b = e)"
| "blocks_from b ((p, n) # bs) e = (unat p = b \<and> blocks_from (b + unat n) bs e)"

lemma blocks_from_mono: "blocks_from b bs e \<Longrightarrow> b \<le> e"
  by (induction b bs e rule: blocks_from.induct) auto

lemma blocks_from_le: "blocks_from b bs e \<Longrightarrow> (p, n) \<in> set bs \<Longrightarrow> b \<le> unat p \<and> unat p + unat n \<le> e"
proof (induction b bs e rule: blocks_from.induct)
  case (2 b q m bs e)
  have "b + unat m \<le> e" using 2(2) blocks_from_mono by auto
  then show ?case using 2 by auto
qed simp

lemma blocks_from_apart:
  "blocks_from b bs e \<Longrightarrow> i < j \<Longrightarrow> j < length bs \<Longrightarrow> unat (fst (bs ! i)) + unat (snd (bs ! i)) \<le> unat (fst (bs ! j))"
proof (induction b bs e arbitrary: i j rule: blocks_from.induct)
  case (2 b q m bs e)
  obtain k where j: "j = Suc k" "k < length bs" using 2(3,4) by (cases j) auto
  show ?case
  proof (cases i)
    case 0
    have "(fst (bs ! k), snd (bs ! k)) \<in> set bs" using j(2) by simp
    then have "b + unat m \<le> unat (fst (bs ! k))" using blocks_from_le 2(2) by fastforce
    then show ?thesis using 0 j(1) 2(2) by simp
  next
    case (Suc i')
    then show ?thesis using 2 j by simp
  qed
qed simp

lemma sint_nonneg_unat:
  assumes "0 \<le> sint (n :: u32)"
  shows "unat n < 2 ^ 31"
proof -
  have "\<not> bit n 31" using assms by (simp add: sint_uint bit_uint_iff)
  then have "take_bit 31 n = n" by (intro bit_word_eqI) (auto simp: bit_simps less_Suc_eq numeral_eq_Suc)
  then have "unat n = take_bit 31 (unat n)" by (metis unsigned_take_bit_eq)
  then show ?thesis by (metis take_bit_nat_less_exp)
qed

lemma sbrk_run_blocks:
  assumes "heap_area end_sym estack" and "\<forall>n \<in> set ns. unat n < 2 ^ 31"
    and "break_ok end_sym estack (break_of end_sym l)" and "sbrk_run end_sym estack ns l = (bs, l')"
  shows "blocks_from (unat (break_of end_sym l)) bs (unat (break_of end_sym l')) \<and> break_ok end_sym estack (break_of end_sym l')"
  using assms(2-4)
proof (induction ns arbitrary: l bs)
  case (Cons n ns)
  obtain p l1 cs where l1: "sbrk end_sym estack n l = (p, l1)" "sbrk_run end_sym estack ns l1 = (cs, l')"
    and bs: "bs = (if p = - 1 then cs else (p, n) # cs)"
    using Cons.prems(3) by (auto simp: Let_def split: prod.splits)
  have n: "unat n < 2 ^ 31" using Cons.prems(1) by simp
  show ?case using assms(1) Cons.prems(2) n
  proof (cases rule: sbrk_cases)
    case (granted l2)
    then show ?thesis using Cons.IH [of l1 cs] Cons.prems(1) l1 bs by auto
  next
    case (refused l2)
    then show ?thesis using Cons.IH [of l1 cs] Cons.prems(1,2) l1 bs by auto
  qed
qed simp

text \<open>
  C33. The library's heap. If the break lies between the linker's \<^verbatim>\<open>_end\<close> and 4096 bytes below the top
  of the main stack, as it does when \<open>heap_end\<close> starts as a null pointer, then any sequence of requests
  with increments that are not negative (below \<open>2 ^ 31\<close>) is granted blocks in that area only, from
  the break on, and no two of them overlap; each begins where the one before it ends, and the
  break stays in the area. Negative increments are not covered, for they can leave it.
\<close>

theorem sbrk_blocks_disjoint:
  assumes area: "heap_area end_sym estack" and ns: "\<forall>n \<in> set ns. 0 \<le> sint n"
    and start: "heap_end l = NULL \<or> break_ok end_sym estack (heap_end l)"
    and run: "sbrk_run end_sym estack ns l = (bs, l')"
  shows "blocks_from (unat (break_of end_sym l)) bs (unat (break_of end_sym l')) \<and> break_ok end_sym estack (break_of end_sym l')
    \<and> (\<forall>(p, n) \<in> set bs. unat end_sym \<le> unat p \<and> unat p + unat n + 4096 \<le> unat estack)
    \<and> (\<forall>j < length bs. \<forall>i < j. unat (fst (bs ! i)) + unat (snd (bs ! i)) \<le> unat (fst (bs ! j)))"
proof -
  have small: "\<forall>n \<in> set ns. unat n < 2 ^ 31" using ns sint_nonneg_unat by blast
  have b: "break_ok end_sym estack (break_of end_sym l)"
    using start area by (auto simp: break_of_def heap_area_def break_ok_def)
  note bf = sbrk_run_blocks [OF area small b run, THEN conjunct1] and ok = sbrk_run_blocks [OF area small b run, THEN conjunct2]
  have "unat end_sym \<le> unat p \<and> unat p + unat n + 4096 \<le> unat estack" if "(p, n) \<in> set bs" for p n
    using blocks_from_le [OF bf that] ok b by (simp add: break_ok_def)
  then show ?thesis using bf ok blocks_from_apart [OF bf] by blast
qed

text \<open>
  A request that does not fit. \<open>sbrk\<close> refuses a request exactly when granting it would leave less
  than 4096 bytes for the main stack; the break stays and \<^verbatim>\<open>errno\<close> is set.
\<close>

theorem sbrk_refuses:
  assumes "heap_area end_sym estack" and "break_ok end_sym estack (break_of end_sym l)" and "unat n < 2 ^ 31"
  shows "fst (sbrk end_sym estack n l) = - 1 \<longleftrightarrow> unat estack < unat (break_of end_sym l) + unat n + 4096"
    and "fst (sbrk end_sym estack n l) = - 1 \<Longrightarrow> break_of end_sym (snd (sbrk end_sym estack n l)) = break_of end_sym l
      \<and> errno (snd (sbrk end_sym estack n l)) = ENOMEM"
  using assms by (cases rule: sbrk_cases; auto simp: break_ok_def)+

text \<open>
  Giving memory back is not checked against \<^verbatim>\<open>_end\<close>: a negative increment moves the break into
  the static data, and the next block is granted there.
\<close>

theorem sbrk_below_end:
  assumes "heap_area end_sym estack" and "heap_end l = NULL" and "0 < unat k" and "unat k < unat end_sym"
  shows "\<exists>l'. sbrk end_sym estack (- k) l = (end_sym, l') \<and> unat (break_of end_sym l') < unat end_sym"
proof -
  have sub: "unat (end_sym - k) = unat end_sym - unat k" using assms(4) by (intro unat_sub) (simp add: word_le_nat_alt)
  then have nz: "end_sym - k \<noteq> NULL" using assms(4) by (auto dest: arg_cong [of _ _ unat])
  have "\<not> end_sym - k > estack - 4096"
    using assms(1) sub heap_area_limit [OF assms(1)] by (auto simp: word_less_nat_alt heap_area_def)
  then have "sbrk end_sym estack (- k) l = (end_sym, l\<lparr>heap_end := end_sym - k\<rparr>)" using assms(2) by (simp add: sbrk_def)
  then show ?thesis using sub nz assms(3,4) by (simp add: break_of_def)
qed

section \<open>Output\<close>

text \<open>
  Over semihosting: the arguments of the request and the breakpoint that hands them to the
  debugger, \<open>host\<close>, with the operation number in \<^verbatim>\<open>r0\<close>. Its answer is not read.
\<close>

record semihost_args =
  fh :: u32
  buf :: addr
  len :: u32

definition semihost_sys_write :: "(u32 \<Rightarrow> semihost_args \<Rightarrow> 'h \<Rightarrow> 'h) \<Rightarrow> addr \<Rightarrow> u32 \<Rightarrow> 'h \<Rightarrow> u32 \<times> 'h" where
  "semihost_sys_write host b n h = (n, host 5 \<lparr>fh = 1, buf = b, len = n\<rparr> h)"

definition write_semihost :: "(u32 \<Rightarrow> semihost_args \<Rightarrow> 'h \<Rightarrow> 'h) \<Rightarrow> u32 \<Rightarrow> addr \<Rightarrow> u32 \<Rightarrow> 'h \<Rightarrow> u32 \<times> 'h" where
  "write_semihost host fd p n h = (if p = NULL \<or> sint n \<le> 0 then (0, h) else semihost_sys_write host p n h)"

text \<open>
  Over USART2: the peripheral's state, the status register read from it, a step of the
  peripheral between two reads, and what a store into the data register does. Byte \<open>i\<close> of the
  buffer is \<open>M (p + i)\<close>.
\<close>

record 'd usart =
  USART2_SR :: "'d \<Rightarrow> u32"
  usart_step :: "'d \<Rightarrow> 'd"
  USART2_DR :: "u32 \<Rightarrow> 'd \<Rightarrow> 'd"

definition txe :: "'d usart \<Rightarrow> 'd \<Rightarrow> bool" where
  "txe u d \<longleftrightarrow> USART2_SR u d AND push_bit 7 1 \<noteq> 0"

definition usart2_putc :: "'d usart \<Rightarrow> u8 \<Rightarrow> 'd \<Rightarrow> 'd option" where
  "usart2_putc u c d = do { d \<leftarrow> poll (usart_step u) (txe u) d; Some (USART2_DR u (ucast c) d) }"

fun put_loop :: "'d usart \<Rightarrow> (addr \<Rightarrow> u8) \<Rightarrow> addr \<Rightarrow> nat \<Rightarrow> nat \<Rightarrow> 'd \<Rightarrow> 'd option" where
  "put_loop u M p i 0 d = Some d"
| "put_loop u M p i (Suc k) d = do { d \<leftarrow> usart2_putc u (M (p + of_nat i)) d; put_loop u M p (Suc i) k d }"

definition write_usart :: "'d usart \<Rightarrow> (addr \<Rightarrow> u8) \<Rightarrow> u32 \<Rightarrow> addr \<Rightarrow> u32 \<Rightarrow> 'd \<Rightarrow> (u32 \<times> 'd) option" where
  "write_usart u M fd p n d =
     (if p = NULL \<or> sint n \<le> 0 then Some (0, d)
      else do { d \<leftarrow> put_loop u M p 0 (nat (sint n)) d; Some (n, d) })"

text \<open>
  The transmitter as its manual describes it: its register becomes empty after some time,
  and a store into the empty register sends one character. \<open>sent\<close> is what was sent so far; a
  store into a full register would lose a character, and nothing is assumed about it.
\<close>

definition usart_documented :: "'d usart \<Rightarrow> ('d \<Rightarrow> u32 list) \<Rightarrow> bool" where
  "usart_documented u sent \<longleftrightarrow> (\<forall>d. \<exists>n. txe u ((usart_step u ^^ n) d)) \<and> (\<forall>d. sent (usart_step u d) = sent d)
     \<and> (\<forall>d v. txe u d \<longrightarrow> sent (USART2_DR u v d) = sent d @ [v])"

lemma poll_txe:
  assumes doc: "usart_documented u sent"
  obtains d' where "poll (usart_step u) (txe u) d = Some d'" and "txe u d'" and "sent d' = sent d"
proof -
  have "sent ((usart_step u ^^ m) d) = sent d" for m using doc by (induction m) (simp_all add: usart_documented_def)
  moreover obtain n where "txe u ((usart_step u ^^ n) d)" using doc unfolding usart_documented_def by blast
  from poll_returns [where ready = "txe u", OF this] obtain m where "poll (usart_step u) (txe u) d = Some ((usart_step u ^^ m) d)"
    and "txe u ((usart_step u ^^ m) d)" by blast
  ultimately show thesis by (intro that [of "(usart_step u ^^ m) d"]) simp_all
qed

lemma put_loop_sends:
  assumes "usart_documented u sent"
  shows "\<exists>d'. put_loop u M p i k d = Some d' \<and> sent d' = sent d @ map (\<lambda>j. ucast (M (p + of_nat j))) [i..<i + k]"
proof (induction k arbitrary: i d)
  case (Suc k)
  obtain d1 where d1: "poll (usart_step u) (txe u) d = Some d1" "txe u d1" "sent d1 = sent d" by (rule poll_txe [OF assms])
  let ?d = "USART2_DR u (ucast (M (p + of_nat i))) d1"
  have "sent ?d = sent d @ [ucast (M (p + of_nat i))]" using assms d1(2,3) by (simp add: usart_documented_def)
  moreover have "[i..<i + Suc k] = i # [Suc i..<Suc i + k]" by (simp add: upt_rec)
  ultimately show ?case using Suc.IH [of "Suc i" ?d] d1(1) by (auto simp: usart2_putc_def)
qed simp

text \<open>
  Output over USART2. For a transmitter that behaves as documented, \<open>write\<close> returns, and it
  returns the number of bytes asked for after sending exactly these bytes in their order, none
  of them lost to a full transmit register. A null pointer or a length that is not positive
  sends nothing and returns 0.
\<close>

theorem write_usart_sends:
  assumes "usart_documented u sent"
  shows "\<exists>d'. write_usart u M fd p n d = Some (if p = NULL \<or> sint n \<le> 0 then 0 else n, d')
    \<and> sent d' = sent d @ (if p = NULL then [] else map (\<lambda>j. ucast (M (p + of_nat j))) [0..<nat (sint n)])"
  using put_loop_sends [OF assms, of M p 0 "nat (sint n)" d] by (auto simp: write_usart_def)

text \<open>
  Output over semihosting makes at most one request, for the bytes given, and reports all of them
  as written whatever the debugger answers.
\<close>

theorem write_semihost_request:
  "write_semihost host fd p n h =
     (if p \<noteq> NULL \<and> 0 < sint n then (n, host 5 \<lparr>fh = 1, buf = p, len = n\<rparr> h) else (0, h))"
  by (auto simp: write_semihost_def semihost_sys_write_def)

section \<open>Samples\<close>

theorem sbrk_blocks_disjoint_witness:
  "sbrk_run 0x2000C000 0x20020000 [0x100, 0x20000, 0x40] \<lparr>heap_end = 0, errno = 0\<rparr>
     = ([(0x2000C000, 0x100), (0x2000C100, 0x40)], \<lparr>heap_end = 0x2000C140, errno = 12\<rparr>)
   \<and> blocks_from 0x2000C000 [(0x2000C000, 0x100), (0x2000C100, 0x40)] 0x2000C140"
proof -
  have run: "sbrk_run 0x2000C000 0x20020000 [0x100, 0x20000, 0x40] \<lparr>heap_end = 0, errno = 0\<rparr>
     = ([(0x2000C000, 0x100), (0x2000C100, 0x40)], \<lparr>heap_end = 0x2000C140, errno = 12\<rparr>)"
    by (simp add: sbrk_def ENOMEM_def)
  show ?thesis using sbrk_blocks_disjoint [OF _ _ _ run] run by (simp add: heap_area_def break_of_def)
qed

text \<open>
  A transmitter that is busy for one step after each character: its state is the characters
  sent and whether it is busy, and a character stored while it is busy is lost.
\<close>

definition slow_usart :: "(u32 list \<times> bool) usart" where
  "slow_usart = \<lparr>USART2_SR = (\<lambda>(_, busy). if busy then 0 else 0x80), usart_step = (\<lambda>(vs, _). (vs, False)),
     USART2_DR = (\<lambda>v (vs, busy). (if busy then vs else vs @ [v], True))\<rparr>"

lemma slow_usart_documented: "usart_documented slow_usart fst"
proof -
  have "txe slow_usart ((usart_step slow_usart ^^ 1) d)" for d by (cases d) (simp add: txe_def slow_usart_def)
  then have "\<forall>d. \<exists>n. txe slow_usart ((usart_step slow_usart ^^ n) d)" by blast
  then show ?thesis by (auto simp: usart_documented_def txe_def slow_usart_def)
qed

theorem write_usart_sends_witness:
  "\<exists>d'. write_usart slow_usart ((\<lambda>_. 0)(100 := 79, 101 := 75)) 1 100 2 ([], True) = Some (2, d') \<and> fst d' = [79, 75]"
proof -
  have "[0..<2] = [0, 1 :: nat]" by (simp add: upt_rec)
  then show ?thesis
    using write_usart_sends [OF slow_usart_documented, of "(\<lambda>_. 0)(100 := 79, 101 := 75)" 1 100 2 "([], True)"] by simp
qed

end
