(* ===== verification/Rtos_Examples.thy ===== *)
theory Rtos_Examples
  imports Rtos_Context
begin

unbundle bit_operations_syntax

text \<open>
  The applications under \<^verbatim>\<open>examples\<close>: what their \<^verbatim>\<open>main\<close> functions do from reset to the first task.
  Each initialises the kernel, creates its tasks, spinning if that fails, and starts the
  scheduler. The addresses of the task functions, of their names and of the mutexes are the
  linker's choice and therefore parameters.
\<close>

section \<open>The programs\<close>

text \<open>A call of \<open>task_create\<close>: function, priority, size of the stack, name.\<close>

type_synonym task_spec = "addr \<times> u8 \<times> u32 \<times> addr"

text \<open>The calls one after the other; \<open>False\<close>: one failed and the program spins.\<close>

fun create_tasks :: "image \<Rightarrow> task_spec list \<Rightarrow> kernel \<Rightarrow> (bool \<times> kernel) option" where
  "create_tasks img [] s = Some (True, s)"
| "create_tasks img ((f, prio, sz, nm) # ts) s = do {
     (a, s) \<leftarrow> task_create img f prio sz nm s;
     if a = NULL then Some (False, s) else create_tasks img ts s
   }"

partial_function (option) start_loop ::
    "(soc \<Rightarrow> soc) \<Rightarrow> bool \<Rightarrow> cpu \<Rightarrow> soc \<Rightarrow> kernel \<Rightarrow> (cpu \<times> soc \<times> kernel) option" where
  "start_loop hw qemu c p s = do {
     (r, c, p, s) \<leftarrow> rtos_start hw qemu c p s;
     case r of None \<Rightarrow> Some (c, p, s) | Some _ \<Rightarrow> start_loop hw qemu c p s
   }"

text \<open>How a \<^verbatim>\<open>main\<close> function ends: spinning after a failure, or with the first task running.\<close>

datatype outcome = Spins kernel | Runs cpu soc kernel

definition start_app :: "(soc \<Rightarrow> soc) \<Rightarrow> bool \<Rightarrow> cpu \<Rightarrow> soc \<Rightarrow> bool \<Rightarrow> kernel \<Rightarrow> outcome option" where
  "start_app hw qemu c p ok s =
     (if \<not> ok then Some (Spins s)
      else do { (c, p, s) \<leftarrow> start_loop hw qemu c p s; Some (Runs c p s) })"

definition sched_demo_main ::
    "image \<Rightarrow> addr \<Rightarrow> addr \<Rightarrow> (soc \<Rightarrow> soc) \<Rightarrow> bool \<Rightarrow> cpu \<Rightarrow> soc \<Rightarrow> kernel \<Rightarrow> outcome option" where
  "sched_demo_main img worker nm hw qemu c p s = do {
     (st, s) \<leftarrow> task_init img s;
     if st \<noteq> RTOS_OK then Some (Spins s)
     else do {
       (ok, s) \<leftarrow> create_tasks img [(worker, 32, 512, nm)] s;
       start_app hw qemu c p ok s
     }
   }"

text \<open>The variables the mutex demo shows to the debugger.\<close>

record demo =
  g_demo_phase :: u32
  g_last_event :: "u8 list"

definition mutex_demo_main ::
    "image \<Rightarrow> addr \<Rightarrow> addr \<times> addr \<times> addr \<Rightarrow> addr \<times> addr \<times> addr \<Rightarrow>
     (soc \<Rightarrow> soc) \<Rightarrow> bool \<Rightarrow> cpu \<Rightarrow> soc \<Rightarrow> demo \<Rightarrow> kernel \<Rightarrow> (demo \<times> outcome) option" where
  "mutex_demo_main img g_shared_mutex = (\<lambda>(task_low, task_medium, task_high) (L, M, H) hw qemu c p d s. do {
     (st, s) \<leftarrow> task_init img s;
     if st \<noteq> RTOS_OK then Some (d, Spins s)
     else do {
       let (_, s) = mutex_init g_shared_mutex s;
       let d = d\<lparr>g_demo_phase := 0, g_last_event := (g_last_event d)[0 := 0]\<rparr>;
       (ok, s) \<leftarrow> create_tasks img [(task_low, 200, 1024, L), (task_medium, 96, 1024, M), (task_high, 32, 1024, H)] s;
       r \<leftarrow> start_app hw qemu c p ok s;
       Some (d, r)
     }
   })"

text \<open>Ten tasks; entry \<open>i\<close> of the list of functions is \<^verbatim>\<open>stress_t\<close>\<open>i\<close>.\<close>

definition stress_prios :: "u8 list" where
  "stress_prios = [32, 32, 64, 64, 64, 96, 96, 128, 128, 160]"

definition stress_test_main ::
    "image \<Rightarrow> addr \<Rightarrow> addr list \<Rightarrow> addr list \<Rightarrow> (soc \<Rightarrow> soc) \<Rightarrow> bool \<Rightarrow> cpu \<Rightarrow> soc \<Rightarrow> kernel \<Rightarrow> outcome option" where
  "stress_test_main img g_contended_mutex stress_t T hw qemu c p s = do {
     (st, s) \<leftarrow> task_init img s;
     if st \<noteq> RTOS_OK then Some (Spins s)
     else do {
       let (_, s) = mutex_init g_contended_mutex s;
       (ok, s) \<leftarrow> create_tasks img (map (\<lambda>i. (stress_t ! i, stress_prios ! i, 768, T ! i)) [0..<10]) s;
       start_app hw qemu c p ok s
     }
   }"

section \<open>Creating tasks while the heap has room\<close>

definition fn_at :: "kernel \<Rightarrow> addr \<rightharpoonup> addr" where
  "fn_at s a = map_option task_func (tcbs s a)"

lemma same_but_ready_fn:
  assumes "same_but_ready T T'"
  shows "map_option task_func (T' a) = map_option task_func (T a)"
proof (cases "T a")
  case None
  then show ?thesis using same_but_ready_None [OF assms, of a] by simp
next
  case (Some t)
  then obtain r where "T' a = Some (t\<lparr>next_ready := r\<rparr>)" by (rule same_but_ready_Some [OF assms])
  then show ?thesis using Some by simp
qed

lemma free_chain_unique: "free_chain H p xs \<Longrightarrow> free_chain H p ys \<Longrightarrow> xs = ys"
proof (induction xs arbitrary: p ys)
  case Nil
  then show ?case by (cases ys) (auto simp: free_chain_Cons)
next
  case (Cons x xs)
  then show ?case by (cases x; cases ys) (auto simp: free_chain_Cons)
qed

text \<open>One free block that is large enough: an allocation takes its front.\<close>

lemma alloc_front:
  assumes inv: "heap_inv pool s [(b, n)] ys" and sz: "sz \<noteq> 0" "unat sz + 15 < 2 ^ 32" and room: "unat sz + 31 \<le> unat n"
  obtains s' m where "heap_alloc sz s = Some (b + 8, s')" and "b + 8 \<noteq> NULL"
    and "heap_inv pool s' [(b + alloc_total sz, n - alloc_total sz)] ((b, m) # ys)"
    and "unat (n - alloc_total sz) = unat n - unat (alloc_total sz)"
  using inv sz(2)
proof (cases rule: heap_alloc_cases)
  case fail
  then show ?thesis using room alloc_total_bounds(2) [OF sz(2,1)] sz(1) by (simp add: word_less_nat_alt)
next
  case (fit us a m vs s')
  then have eq: "us = []" "vs = []" "a = b" "m = n" by (cases us; simp)+
  have sub: "unat (n - alloc_total sz) = unat n - unat (alloc_total sz)"
    using alloc_total_bounds(2) [OF sz(2,1)] room by (intro unat_sub) (simp add: word_le_nat_alt)
  then have "16 \<le> n - alloc_total sz" using alloc_total_bounds(2) [OF sz(2,1)] room by (simp add: word_le_nat_alt)
  then show ?thesis using that [of s'] fit sub eq by (simp add: alloc_rest_def)
qed

lemma create_with_room:
  assumes inv: "task_inv img s Q R [(b, n)] ys" and win: "waits_inv s W" and img: "image_ok img"
    and f: "f \<noteq> NULL" and sz: "256 \<le> unat sz" "unat sz + 30 < 2 ^ 32" and cnt: "length R < 32"
    and room: "unat (sizeof_TCB img) + unat sz + 60 \<le> unat n"
  obtains p s' b' n' ys' where "task_create img f prio sz nm s = Some (p, s')" and "p \<noteq> NULL" and "p \<notin> set R"
    and "task_inv img s' (Q(unat (prio_bucket_of prio) := Q (unat (prio_bucket_of prio)) @ [p])) (R @ [p]) [(b', n')] ys'"
    and "waits_inv s' W" and "idle_tcb s' = idle_tcb s" and "current_tcb s' = current_tcb s"
    and "fn_at s' = (fn_at s)(p \<mapsto> f)" and "unat n \<le> unat n' + unat (sizeof_TCB img) + unat sz + 30"
proof -
  let ?sz = "(sz + 7) AND NOT 7"
  have tsz: "sizeof_TCB img \<noteq> 0" "unat (sizeof_TCB img) + 15 < 2 ^ 32" using img by (simp_all add: image_ok_def)
  have u: "unat ?sz = (unat sz + 7) div 8 * 8" using sz(2) by (intro unat_align8) simp
  have usz: "unat ?sz \<noteq> 0" "unat ?sz + 15 < 2 ^ 32" "unat ?sz \<le> unat sz + 7" "8 dvd unat ?sz" using sz u by simp_all
  have nz: "?sz \<noteq> 0" using usz(1) by auto
  obtain s1 m1 where a1: "heap_alloc (sizeof_TCB img) s = Some (b + 8, s1)" "b + 8 \<noteq> NULL"
    and h1: "heap_inv (heap_pool img) s1 [(b + alloc_total (sizeof_TCB img), n - alloc_total (sizeof_TCB img))] ((b, m1) # ys)"
    and n1: "unat (n - alloc_total (sizeof_TCB img)) = unat n - unat (alloc_total (sizeof_TCB img))"
    by (rule alloc_front [OF task_invD(2) [OF inv] tsz]) (use room in simp)
  let ?b1 = "b + alloc_total (sizeof_TCB img)" and ?n1 = "n - alloc_total (sizeof_TCB img)"
  have t1: "unat (alloc_total (sizeof_TCB img)) \<le> unat (sizeof_TCB img) + 15" by (rule alloc_total_bounds(2) [OF tsz(2,1)])
  obtain s2 m2 where a2: "heap_alloc ?sz s1 = Some (?b1 + 8, s2)" "?b1 + 8 \<noteq> NULL"
    and h2: "heap_inv (heap_pool img) s2 [(?b1 + alloc_total ?sz, ?n1 - alloc_total ?sz)] ((?b1, m2) # (b, m1) # ys)"
    and n2: "unat (?n1 - alloc_total ?sz) = unat ?n1 - unat (alloc_total ?sz)"
    by (rule alloc_front [OF h1 nz usz(2)]) (use room n1 t1 usz(3) in simp)
  have t2: "unat (alloc_total ?sz) = unat ?sz + 8" unfolding unat_alloc_total [OF usz(2)] using usz(4) by auto
  obtain s' xs' k m where cre: "task_create img f prio sz nm s = Some (b + 8, s')"
      "task_inv img s' (Q(unat (prio_bucket_of prio) := Q (unat (prio_bucket_of prio)) @ [b + 8])) (R @ [b + 8]) xs'
        ((?b1 + 8 - 8, m) # (b + 8 - 8, k) # ys)" "waits_inv s' W"
    and sr: "same_but_ready ((tcbs s)(b + 8 \<mapsto> created_tcb img f prio ?sz (?b1 + 8) (name_bytes s2 nm))) (tcbs s')"
    and keep: "idle_tcb s' = idle_tcb s" "current_tcb s' = current_tcb s" "heap_blocks s' = heap_blocks s2" "free_list s' = free_list s2"
    by (rule task_create_refines [OF inv win f sz cnt tsz(2) a1 a2])
  have "xs' = [(?b1 + alloc_total ?sz, ?n1 - alloc_total ?sz)]"
    using task_invD(2) [OF cre(2)] h2 keep(3,4) by (auto simp: heap_inv_def intro: free_chain_unique)
  moreover have "fn_at s' = (fn_at s)(b + 8 \<mapsto> f)"
    by (rule ext) (use same_but_ready_fn [OF sr] in \<open>simp add: fn_at_def created_tcb_def\<close>)
  moreover have "b + 8 \<notin> set R" using task_inv_registry_distinct [OF cre(2)] by simp
  ultimately show thesis using that [OF cre(1) a1(2)] cre(2,3) keep n1 n2 t1 t2 usz(3) room by auto
qed

text \<open>The functions of the tasks a list of calls puts into the ring of a bucket, in order.\<close>

definition fns_in :: "task_spec list \<Rightarrow> nat \<Rightarrow> addr list" where
  "fns_in ts b = [f. (f, prio, sz, nm) \<leftarrow> ts, unat (prio_bucket_of prio) = b]"

definition specs_ok :: "task_spec list \<Rightarrow> bool" where
  "specs_ok ts \<longleftrightarrow> (\<forall>(f, prio, sz, nm) \<in> set ts. f \<noteq> NULL \<and> 256 \<le> unat sz \<and> unat sz + 30 < 2 ^ 32)"

definition memory_for :: "image \<Rightarrow> task_spec list \<Rightarrow> nat" where
  "memory_for img ts = (\<Sum>(f, prio, sz, nm) \<leftarrow> ts. unat (sizeof_TCB img) + unat sz + 60)"

lemma create_tasks_refines:
  assumes "task_inv img s Q R [(b, n)] ys" and "waits_inv s W" and "image_ok img" and "specs_ok ts"
    and "length R + length ts \<le> 32" and "memory_for img ts \<le> unat n"
  shows "\<exists>s' Q' R' xs' ys'. create_tasks img ts s = Some (True, s') \<and> task_inv img s' Q' R' xs' ys'
    \<and> idle_tcb s' = idle_tcb s \<and> current_tcb s' = current_tcb s
    \<and> (\<forall>b < RTOS_NUM_PRIORITIES. map (fn_at s') (Q' b) = map (fn_at s) (Q b) @ map Some (fns_in ts b))"
  using assms
proof (induction ts arbitrary: s Q R b n ys)
  case Nil
  then show ?case by (intro exI [of _ s] exI [of _ Q] exI [of _ R]) (auto simp: fns_in_def)
next
  case (Cons t ts)
  obtain f prio sz nm where t: "t = (f, prio, sz, nm)" by (cases t)
  have pre: "f \<noteq> NULL" "256 \<le> unat sz" "unat sz + 30 < 2 ^ 32" "length R < 32" "unat (sizeof_TCB img) + unat sz + 60 \<le> unat n"
    using Cons.prems(4-6) by (auto simp: t specs_ok_def memory_for_def)
  obtain p s1 b1 n1 ys1 where cre: "task_create img f prio sz nm s = Some (p, s1)" "p \<noteq> NULL" "p \<notin> set R"
    and inv1: "task_inv img s1 (Q(unat (prio_bucket_of prio) := Q (unat (prio_bucket_of prio)) @ [p])) (R @ [p]) [(b1, n1)] ys1"
      "waits_inv s1 W" and keep: "idle_tcb s1 = idle_tcb s" "current_tcb s1 = current_tcb s"
    and fn: "fn_at s1 = (fn_at s)(p \<mapsto> f)" and n1: "unat n \<le> unat n1 + unat (sizeof_TCB img) + unat sz + 30"
    by (rule create_with_room [OF Cons.prems(1-3) pre])
  let ?Q1 = "Q(unat (prio_bucket_of prio) := Q (unat (prio_bucket_of prio)) @ [p])"
  have "specs_ok ts" "length (R @ [p]) + length ts \<le> 32" "memory_for img ts \<le> unat n1"
    using Cons.prems(4-6) n1 by (auto simp: t specs_ok_def memory_for_def)
  from Cons.IH [OF inv1 Cons.prems(3) this]
  obtain s' Q' R' xs' ys' where s': "create_tasks img ts s1 = Some (True, s')" "task_inv img s' Q' R' xs' ys'"
      "idle_tcb s' = idle_tcb s1" "current_tcb s' = current_tcb s1"
    and Q': "\<forall>b < RTOS_NUM_PRIORITIES. map (fn_at s') (Q' b) = map (fn_at s1) (?Q1 b) @ map Some (fns_in ts b)" by blast
  have "map (fn_at s') (Q' c) = map (fn_at s) (Q c) @ map Some (fns_in (t # ts) c)" if c: "c < RTOS_NUM_PRIORITIES" for c
  proof -
    have "p \<notin> set (Q c)" using task_inv_queued [OF Cons.prems(1)] queuedI [OF c, of p Q] cre(3) by blast
    then have "map (fn_at s1) (Q c) = map (fn_at s) (Q c)" by (auto simp: fn)
    then show ?thesis using Q' c by (auto simp: fns_in_def t fn)
  qed
  then show ?case using s' cre(1,2) keep by (auto simp: t)
qed

section \<open>The first task\<close>

lemma get_next_fn:
  assumes inv: "sched_inv s Q" and cur: "current_ok s" and q: "queued Q \<noteq> {}" and get: "scheduler_get_next s = Some (a, s')"
  shows "fn_at s' = fn_at s"
proof -
  obtain p where p: "p < RTOS_NUM_PRIORITIES" "Q p \<noteq> []" "\<forall>q < p. Q q = []"
    using least_bucket [OF sched_inv_rel [OF inv] q] by blast
  obtain t rh where "scheduler_get_next s = Some (hd (Q p),
      s\<lparr>tcbs := (demoted s)(hd (Q p) \<mapsto> t\<lparr>state := TASK_STATE_RUNNING, time_slice_counter := 0\<rparr>),
        ready_head := rh, current_tcb := hd (Q p)\<rparr>)"
    and t: "demoted s (hd (Q p)) = Some t"
    by (rule get_next_refines [OF sched_inv_rel [OF inv] cur p])
  then have T: "tcbs s' = (demoted s)(hd (Q p) \<mapsto> t\<lparr>state := TASK_STATE_RUNNING, time_slice_counter := 0\<rparr>)" using get by simp
  have "task_func (demote u) = task_func u" for u by (simp add: demote_def)
  then have d: "map_option task_func (demoted s x) = map_option task_func (tcbs s x)" for x
    by (simp add: demoted_def option.map_comp comp_def)
  show ?thesis by (rule ext) (use t d [of "hd (Q p)"] in \<open>simp add: fn_at_def T d\<close>)
qed

lemma clock_recorded:
  "SystemInitClock hw qemu p = Some p1 \<Longrightarrow> SystemCoreClock p1 = (if qemu then 16000000 else 168000000)"
  by (auto simp: SystemInitClock_def Let_def bind_eq_Some_conv split: if_splits)

lemma rtos_start_svc:
  "rtos_start hw qemu c p s = Some (None, c', p', s') \<Longrightarrow> SVC_Handler c (cpsie s) = Some (c', s')"
  by (auto simp: rtos_start_def Let_def bind_eq_Some_conv case_prod_beta split: if_splits)

lemma app_runs:
  assumes inv: "task_inv img s Q R xs ys" and cur: "current_tcb s = NULL" and clk: "SystemInitClock hw qemu p = Some p1"
    and b: "b < RTOS_NUM_PRIORITIES" and fs: "\<forall>c < RTOS_NUM_PRIORITIES. map (fn_at s) (Q c) = map Some (F c)"
    and F: "F b = f # fs" "\<forall>c < b. F c = []"
  shows "\<exists>c' p' s'. start_app hw qemu c p True s = Some (Runs c' p' s') \<and> fn_at s' (current_tcb s') = Some f"
proof -
  note sinv = task_invD(1) [OF inv]
  have idle: "idle_tcb s \<noteq> NULL" using task_invD(6,7) [OF inv] sched_inv_nonnull [OF sinv] by blast
  have Q: "Q c = [] \<longleftrightarrow> F c = []" if "c < RTOS_NUM_PRIORITIES" for c using fs that by (metis Nil_is_map_conv)
  have q: "queued Q \<noteq> {}" using Q [OF b] F(1) b queuedI [OF b, of "hd (Q b)" Q] by auto
  have "SystemCoreClock p1 div RTOS_TICK_RATE_HZ = (if qemu then 16000 else 168000)"
    using clock_recorded [OF clk] by (simp add: RTOS_TICK_RATE_HZ_def)
  then have ticks: "1 \<le> unat (SystemCoreClock p1 div RTOS_TICK_RATE_HZ)" "unat (SystemCoreClock p1 div RTOS_TICK_RATE_HZ) \<le> 2 ^ 24"
    by simp_all
  obtain d c' p' s' where run: "rtos_start hw qemu c p s = Some (None, c', p', s')"
    and d: "d < RTOS_NUM_PRIORITIES" "Q d \<noteq> []" "\<forall>q < d. Q q = []" "current_tcb s' = hd (Q d)"
    using rtos_start_dispatches [OF sinv idle cur q clk ticks, of c] by blast
  have "d = b" using d(1-3) Q F b by (metis linorder_neqE_nat list.distinct(1))
  then have "fn_at s (current_tcb s') = Some f" using fs b F(1) d(2,4) by (cases "Q b") auto
  moreover have "fn_at s' = fn_at s"
  proof -
    obtain a s1 where "scheduler_get_next (cpsie s) = Some (a, s1)" and s': "s' = cpsie s1"
      using rtos_start_svc [OF run] by (auto simp: SVC_Handler_def bind_eq_Some_conv)
    then have "fn_at s1 = fn_at (cpsie s)"
      using sinv cur by (intro get_next_fn [OF _ _ q]) (simp_all add: cpsie_def current_ok_def)
    then show ?thesis by (simp add: s' fn_at_def cpsie_def fun_eq_iff)
  qed
  moreover have "start_loop hw qemu c p s = Some (c', p', s')" using run by (simp add: start_loop.simps [of hw qemu c p s])
  ultimately show ?thesis by (simp add: start_app_def)
qed

text \<open>Before the tasks are created a program may initialise a mutex.\<close>

lemma mutex_init_early:
  assumes inv: "task_inv img s Q R xs ys" and win: "waits_inv s (\<lambda>_. [])" and call: "mutex_init m s = (st, s')"
  shows "task_inv img s' Q R xs ys" and "waits_inv s' (\<lambda>_. [])" and "current_tcb s' = current_tcb s" and "fn_at s' = fn_at s"
proof -
  obtain M where s': "s' = s\<lparr>mutexes := M\<rparr>"
    and M: "M = mutexes s \<or> M = (mutexes s)(m \<mapsto> \<lparr>locked = False, owner = NULL, wait_head = NULL, wait_tail = NULL\<rparr>)"
    using call by (cases "m = NULL") (auto simp: mutex_init_def intro: that [of "mutexes s"])
  show "current_tcb s' = current_tcb s" "fn_at s' = fn_at s" by (simp_all add: s' fn_at_def fun_eq_iff)
  have tb: "task_blocks s' = task_blocks s" by (rule ext) (simp add: task_blocks_def s')
  have "heap_inv (heap_pool img) s' = heap_inv (heap_pool img) s" "registry s' = registry s"
    by (intro ext, simp add: heap_inv_def registry_def s')+
  then show "task_inv img s' Q R xs ys" using inv unfolding task_inv_def tb by (auto simp: s')
  have ptr: "wptr s' w = wptr s w \<or> wptr s' w = Some (NULL, NULL)" for w
    using M by (cases w) (auto simp: s' wptr_def access_defs fetch_def)
  have "waiters_of s' w []" if "wptr s' w \<noteq> None" for w
    using that ptr [of w] waits_inv_list [OF win, of w] by (auto simp: waiters_of_def s')
  then show "waits_inv s' (\<lambda>_. [])" using win by (auto simp: waits_inv_def s')
qed

lemma app_starts:
  assumes b: "boot s" and img: "image_ok img" "unat (sizeof_TCB img) \<le> 256" and clk: "SystemInitClock hw qemu p \<noteq> None"
    and s1: "s1 = s0 \<or> (\<exists>m st. mutex_init m s0 = (st, s1))" and init: "task_init img s = Some (RTOS_OK, s0)"
    and ts: "specs_ok ts" "length ts \<le> 31" "memory_for img ts \<le> 32000"
    and F: "k < 7" "fns_in ts k = f # fs" "\<forall>c < k. fns_in ts c = []"
  shows "\<exists>c' p' s'. do { (ok, s) \<leftarrow> create_tasks img ts s1; start_app hw qemu c p ok s } = Some (Runs c' p' s')
    \<and> fn_at s' (current_tcb s') = Some f"
proof -
  let ?i = "heap_pool img + 8" and ?t = "alloc_total (sizeof_TCB img)"
  let ?Q = "(\<lambda>_. [])(7 := [?i]) :: ready_queues"
  have tsz: "sizeof_TCB img \<noteq> 0" "unat (sizeof_TCB img) + 15 < 2 ^ 32" using img by (simp_all add: image_ok_def)
  have t: "unat ?t \<le> 271" using alloc_total_bounds(2) [OF tsz(2,1)] img(2) by simp
  then have n: "unat (RTOS_HEAP_POOL_SIZE - ?t) = 32768 - unat ?t"
    by (subst unat_sub) (simp_all add: word_le_nat_alt RTOS_HEAP_POOL_SIZE_def)
  then have rest: "alloc_rest (sizeof_TCB img) [] (heap_pool img) RTOS_HEAP_POOL_SIZE
      = [(heap_pool img + ?t, RTOS_HEAP_POOL_SIZE - ?t)]"
    using t by (simp add: alloc_rest_def word_le_nat_alt)
  obtain s0' m where "task_init img s = Some (RTOS_OK, s0')" "current_tcb s0' = NULL" "waits_inv s0' (\<lambda>_. [])"
      "task_inv img s0' ?Q [?i] [(heap_pool img + ?t, RTOS_HEAP_POOL_SIZE - ?t)] [(heap_pool img, m)]"
    and sr: "same_but_ready [?i \<mapsto> idle_tcb_init img] (tcbs s0')"
    by (rule task_init_refines [OF b img(1), unfolded rest])
  then have s0: "current_tcb s0 = NULL" "waits_inv s0 (\<lambda>_. [])"
      "task_inv img s0 ?Q [?i] [(heap_pool img + ?t, RTOS_HEAP_POOL_SIZE - ?t)] [(heap_pool img, m)]" "s0' = s0"
    using init by auto
  have "fn_at s0 ?i = Some (idle_task_fn img)" using same_but_ready_fn [OF sr, of ?i] s0(4)
    by (simp add: fn_at_def idle_tcb_init_def created_tcb_def)
  then have i1: "fn_at s1 ?i = Some (idle_task_fn img)" and cur1: "current_tcb s1 = NULL" and win1: "waits_inv s1 (\<lambda>_. [])"
    and inv1: "task_inv img s1 ?Q [?i] [(heap_pool img + ?t, RTOS_HEAP_POOL_SIZE - ?t)] [(heap_pool img, m)]"
    using s1 s0 mutex_init_early [OF s0(3,2)] by auto
  have room: "length [?i] + length ts \<le> 32" "memory_for img ts \<le> unat (RTOS_HEAP_POOL_SIZE - ?t)" using ts(2,3) n t by simp_all
  obtain s2 Q2 R2 xs2 ys2 where s2: "create_tasks img ts s1 = Some (True, s2)" "task_inv img s2 Q2 R2 xs2 ys2"
      "current_tcb s2 = current_tcb s1"
    and Q2: "\<forall>c < RTOS_NUM_PRIORITIES. map (fn_at s2) (Q2 c) = map (fn_at s1) (?Q c) @ map Some (fns_in ts c)"
    using create_tasks_refines [OF inv1 win1 img(1) ts(1)] room by blast
  define G where "G c = (if c = 7 then [idle_task_fn img] else []) @ fns_in ts c" for c
  have "\<forall>c < RTOS_NUM_PRIORITIES. map (fn_at s2) (Q2 c) = map Some (G c)" using Q2 i1 by (auto simp: G_def)
  moreover have "G k = f # fs" "\<forall>c < k. G c = []" using F by (auto simp: G_def)
  moreover obtain p1 where "SystemInitClock hw qemu p = Some p1" using clk by auto
  moreover have "k < RTOS_NUM_PRIORITIES" using F(1) by (simp add: RTOS_NUM_PRIORITIES_def)
  ultimately show ?thesis using app_runs [OF s2(2), of hw qemu p p1 k G f fs c] s2(1,3) cur1 by simp
qed

text \<open>
  C32. The examples start. From a reset, when the clock set-up returns and a control block takes at
  most 256 bytes, the \<^verbatim>\<open>main\<close> function of each example creates all its tasks and starts the
  scheduler; none of them ends in a spin. The first task to run is \<^verbatim>\<open>worker\<close> of the scheduling
  demo, the high-priority task of the mutex demo, which was created last, and \<^verbatim>\<open>stress_t0\<close> of
  the stress test.
\<close>

theorem examples_start:
  assumes b: "boot s" and img: "image_ok img" "unat (sizeof_TCB img) \<le> 256" and clk: "SystemInitClock hw qemu p \<noteq> None"
    and fns: "worker \<noteq> NULL" "task_low \<noteq> NULL" "task_medium \<noteq> NULL" "task_high \<noteq> NULL"
      "length stress_t = 10" "NULL \<notin> set stress_t"
  shows "(\<exists>c' p' s'. sched_demo_main img worker nm hw qemu c p s = Some (Runs c' p' s')
      \<and> fn_at s' (current_tcb s') = Some worker)
    \<and> (\<exists>d' c' p' s'. mutex_demo_main img g (task_low, task_medium, task_high) nms hw qemu c p d s = Some (d', Runs c' p' s')
      \<and> g_demo_phase d' = 0 \<and> fn_at s' (current_tcb s') = Some task_high)
    \<and> (\<exists>c' p' s'. stress_test_main img g stress_t T hw qemu c p s = Some (Runs c' p' s')
      \<and> fn_at s' (current_tcb s') = Some (stress_t ! 0))"
    (is "?sched \<and> ?mutex \<and> ?stress")
proof (intro conjI)
  obtain s0 n where init: "task_init img s = Some (RTOS_OK, s0)" by (rule task_init_refines [OF b img(1)])
  note starts = app_starts [OF b img clk _ init]
  show ?sched
    using starts [of s0 "[(worker, 32, 512, nm)]" 1 worker "[]" c] fns(1) img(2)
    by (simp add: sched_demo_main_def init specs_ok_def memory_for_def fns_in_def unat_prio_bucket_of)
  obtain L M H where nms: "nms = (L, M, H)" by (cases nms)
  obtain st s1 where s1: "mutex_init g s0 = (st, s1)" by (cases "mutex_init g s0")
  let ?m = "[(task_low, 200, 1024, L), (task_medium, 96, 1024, M), (task_high, 32, 1024, H)]"
  have "specs_ok ?m" "length ?m \<le> 31" "memory_for img ?m \<le> 32000" "fns_in ?m 1 = [task_high]" "\<forall>c < 1. fns_in ?m c = []"
    using fns(2-4) img(2) by (simp_all add: specs_ok_def memory_for_def fns_in_def unat_prio_bucket_of)
  then obtain c' p' s' where "do { (ok, s) \<leftarrow> create_tasks img ?m s1; start_app hw qemu c p ok s } = Some (Runs c' p' s')"
    and "fn_at s' (current_tcb s') = Some task_high"
    using starts [of s1 ?m 1 task_high "[]" c] s1 by auto
  moreover from this(1) have "mutex_demo_main img g (task_low, task_medium, task_high) nms hw qemu c p d s
      = Some (d\<lparr>g_demo_phase := 0, g_last_event := (g_last_event d)[0 := 0]\<rparr>, Runs c' p' s')"
    by (auto simp: mutex_demo_main_def nms init s1 bind_eq_Some_conv simp del: create_tasks.simps)
  ultimately show ?mutex by auto
  let ?ts = "map (\<lambda>i. (stress_t ! i, stress_prios ! i, 768, T ! i)) [0..<10]"
  have up: "[0..<10] = [0, 1, 2, 3, 4, 5, 6, 7, 8, 9 :: nat]" by (simp add: upt_rec)
  have "stress_t ! i \<noteq> NULL" if "i < 10" for i using nth_mem [of i stress_t] fns(5,6) that by metis
  then have "specs_ok ?ts" by (auto simp: specs_ok_def)
  moreover have "length ?ts \<le> 31" by simp
  moreover have "memory_for img ?ts \<le> 32000" using img(2) by (simp add: memory_for_def up)
  moreover have "fns_in ?ts 1 = [stress_t ! 0, stress_t ! 1]" "\<forall>c < 1. fns_in ?ts c = []"
    by (simp_all add: fns_in_def up stress_prios_def unat_prio_bucket_of)
  ultimately show ?stress
    using starts [of s1 ?ts 1 "stress_t ! 0" "[stress_t ! 1]" c] s1 by (auto simp: stress_test_main_def init)
qed

theorem examples_start_witness:
  "\<exists>d' c' p' s'. mutex_demo_main sample_image 0x2000A000 (0x08001001, 0x08001101, 0x08001201) (0, 0, 0) id True
       sample_cpu sample_soc \<lparr>g_demo_phase = 3, g_last_event = replicate 64 0\<rparr> blank_kernel = Some (d', Runs c' p' s')
     \<and> fn_at s' (current_tcb s') = Some 0x08001201"
proof -
  have "unat (sizeof_TCB sample_image) \<le> 256" by (simp add: sample_image_def)
  moreover have "SystemInitClock id True sample_soc \<noteq> None" by (simp add: SystemInitClock_def)
  ultimately show ?thesis
    using examples_start [OF sample_image_ok(2,1), of id True sample_soc "0x08001001" "0x08001001" "0x08001101" "0x08001201"
        "replicate 10 0x08001001" 0 sample_cpu "0x2000A000" "(0, 0, 0)" "\<lparr>g_demo_phase = 3, g_last_event = replicate 64 0\<rparr>" "[]"] by auto
qed

end
