(* ===== verification/Rtos_Apps.thy ===== *)
theory Rtos_Apps
  imports Rtos_Examples
begin

unbundle bit_operations_syntax

text \<open>
  The tasks of the examples. A task body is a straight-line prologue and an endless loop over
  kernel calls and updates of variables the debugger shows: a \<open>program\<close>. \<open>app_step\<close> interleaves the
  tasks of an application with ticks and context switches; the main result is that the mutex
  keeps the tasks out of each other's critical sections, whatever the interleaving.
\<close>

section \<open>Task bodies\<close>

text \<open>
  \<open>Event\<close> is a call of \<^verbatim>\<open>snprintf\<close> on \<^verbatim>\<open>g_last_event\<close>: a text, and if there is a second one, the
  priority of the running task between the two. \<open>Spin\<close> is a busy wait.
\<close>

datatype cmd =
    Lock
  | Unlock
  | Delay u32
  | Yield
  | Spin u32
  | Count nat
  | Phase u32
  | Event string "string option"

record program =
  intro :: "cmd list"
  body :: "cmd list"

definition worker :: program where
  "worker = \<lparr>intro = [], body = [Delay 100, Yield]\<rparr>"

definition task_low :: program where
  "task_low = \<lparr>intro = [], body = [
     Lock, Phase 1, Event ''L: locked, pri='' (Some ''''),
     Spin 50000,
     Phase 2, Event ''L: in CS pri='' (Some '' (expect boost if H blocked)''),
     Unlock, Phase 3, Event ''L: unlocked pri='' (Some ''''),
     Delay 100]\<rparr>"

definition task_medium :: program where
  "task_medium = \<lparr>intro = [], body = [Event ''M: run pri='' (Some ''''), Spin 10000, Delay 5]\<rparr>"

definition task_high :: program where
  "task_high = \<lparr>intro = [Delay 60], body = [
     Event ''H: lock attempt pri='' (Some ''''), Lock, Event ''H: got lock'' None, Unlock, Delay 100]\<rparr>"

definition stress_body :: "nat \<Rightarrow> program" where
  "stress_body task_id = \<lparr>intro = [], body = [
     Lock, Count task_id, Spin 1000, Unlock, Delay (1 + of_nat task_id mod 5)]\<rparr>"

text \<open>The tasks \<^verbatim>\<open>stress_t0\<close> to \<^verbatim>\<open>stress_t9\<close>.\<close>

definition stress_tasks :: "nat \<Rightarrow> program" where
  "stress_tasks i = [stress_body 0, stress_body 1, stress_body 2, stress_body 3, stress_body 4,
     stress_body 5, stress_body 6, stress_body 7, stress_body 8, stress_body 9] ! i"

section \<open>Running a task\<close>

text \<open>
  \<open>pos w i\<close> is where task \<open>i\<close> stands in its program; \<open>waiting w i\<close>: it is inside the blocking call
  there.
\<close>

record world =
  kern :: kernel
  g_mutex_acquisition_count :: "u32 list"
  demo_vars :: demo
  pos :: "nat \<Rightarrow> nat"
  waiting :: "nat \<Rightarrow> bool"

fun decimal :: "nat \<Rightarrow> string" where
  "decimal n = (if n < 10 then [char_of (48 + n)] else decimal (n div 10) @ [char_of (48 + n mod 10)])"

text \<open>\<^verbatim>\<open>snprintf\<close> into a buffer: what fits, and a terminating zero.\<close>

definition put_string :: "string \<Rightarrow> u8 list \<Rightarrow> u8 list" where
  "put_string str b = (let n = min (length str) (length b - 1)
     in map of_char (take n str) @ [0] @ drop (n + 1) b)"

text \<open>A command from its beginning; \<open>True\<close>: it is complete, \<open>False\<close>: the task has blocked in it.\<close>

fun exec_cmd :: "addr \<Rightarrow> cmd \<Rightarrow> world \<Rightarrow> (bool \<times> world) option" where
  "exec_cmd m Lock w = do { (r, s) \<leftarrow> mutex_lock m RTOS_WAIT_FOREVER (kern w); Some (r \<noteq> None, w\<lparr>kern := s\<rparr>) }"
| "exec_cmd m Unlock w = do { (_, s) \<leftarrow> mutex_unlock m (kern w); Some (True, w\<lparr>kern := s\<rparr>) }"
| "exec_cmd m (Delay n) w = do { (r, s) \<leftarrow> task_delay n (kern w); Some (r \<noteq> None, w\<lparr>kern := s\<rparr>) }"
| "exec_cmd m Yield w = Some (True, w\<lparr>kern := task_yield (kern w)\<rparr>)"
| "exec_cmd m (Spin n) w = Some (True, w)"
| "exec_cmd m (Count i) w = do {
     c \<leftarrow> arr_get (g_mutex_acquisition_count w) i;
     cs \<leftarrow> arr_set i (c + 1) (g_mutex_acquisition_count w);
     Some (True, w\<lparr>g_mutex_acquisition_count := cs\<rparr>)
   }"
| "exec_cmd m (Phase p) w = Some (True, w\<lparr>demo_vars := (demo_vars w)\<lparr>g_demo_phase := p\<rparr>\<rparr>)"
| "exec_cmd m (Event pre suf) w = do {
     t \<leftarrow> get_tcb (kern w) (current_tcb (kern w));
     let str = (case suf of None \<Rightarrow> pre | Some z \<Rightarrow> pre @ decimal (unat (priority t)) @ z);
     Some (True, w\<lparr>demo_vars := (demo_vars w)\<lparr>g_last_event := put_string str (g_last_event (demo_vars w))\<rparr>\<rparr>)
   }"

text \<open>The rest of a blocking command, when its task runs again.\<close>

fun resume_cmd :: "addr \<Rightarrow> cmd \<Rightarrow> world \<Rightarrow> (bool \<times> world) option" where
  "resume_cmd m Lock w = do { (r, s) \<leftarrow> mutex_lock_resume m RTOS_WAIT_FOREVER (kern w); Some (r \<noteq> None, w\<lparr>kern := s\<rparr>) }"
| "resume_cmd m (Delay n) w = do { r \<leftarrow> block_spin (current_tcb (kern w)) (kern w); Some (r \<noteq> None, w) }"
| "resume_cmd m c w = Some (True, w)"

definition next_pos :: "program \<Rightarrow> nat \<Rightarrow> nat" where
  "next_pos P p = (if Suc p = length (intro P @ body P) then length (intro P) else Suc p)"

definition task_step :: "addr \<Rightarrow> (nat \<Rightarrow> program) \<Rightarrow> nat \<Rightarrow> world \<Rightarrow> world option" where
  "task_step m P i w = do {
     c \<leftarrow> arr_get (intro (P i) @ body (P i)) (pos w i);
     (done, w) \<leftarrow> (if waiting w i then resume_cmd m c w else exec_cmd m c w);
     Some (w\<lparr>pos := (if done then (pos w)(i := next_pos (P i) (pos w i)) else pos w), waiting := (waiting w)(i := \<not> done)\<rparr>)
   }"

inductive app_step :: "addr \<Rightarrow> (nat \<Rightarrow> program) \<Rightarrow> (nat \<Rightarrow> addr) \<Rightarrow> nat \<Rightarrow> callbacks \<Rightarrow> world \<Rightarrow> world \<Rightarrow> bool"
  for m P tcb n cb where
  run: "i < n \<Longrightarrow> current_tcb (kern w) = tcb i \<Longrightarrow> task_step m P i w = Some w' \<Longrightarrow> app_step m P tcb n cb w w'"
| tick: "SysTick_Handler cb (kern w) = Some (False, s') \<Longrightarrow> app_step m P tcb n cb w (w\<lparr>kern := s'\<rparr>)"
| switch: "PendSV_Handler c (kern w) = Some (c', s') \<Longrightarrow> app_step m P tcb n cb w (w\<lparr>kern := s'\<rparr>)"

section \<open>Waits without a time limit\<close>

text \<open>
  No task has a time limit on a mutex: nobody ever gets the status \<open>RTOS_ERR_TIMEOUT\<close>. Nothing
  is known here about the ready rings, which an unlock can leave inconsistent.
\<close>

definition untimed_tcb :: "TCB_t \<Rightarrow> bool" where
  "untimed_tcb t \<longleftrightarrow> block_wake_status t \<noteq> RTOS_ERR_TIMEOUT
     \<and> (block_reason t = BLOCK_NONE \<or> block_reason t = BLOCK_DELAY \<or> wake_time t = UINT32_MAX)"

definition untimed :: "kernel \<Rightarrow> bool" where
  "untimed s \<longleftrightarrow> timer_list s = NULL \<and> (\<forall>a t. tcbs s a = Some t \<longrightarrow> untimed_tcb t)"

lemma untimed_upd [simp]:
  "untimed (s\<lparr>primask := p\<rparr>) = untimed s" "untimed (s\<lparr>icsr := q\<rparr>) = untimed s" "untimed (s\<lparr>ready_head := rh\<rparr>) = untimed s"
  "untimed (s\<lparr>mutexes := M\<rparr>) = untimed s" "untimed (s\<lparr>stack_mem := S\<rparr>) = untimed s" "untimed (s\<lparr>current_tcb := a\<rparr>) = untimed s"
  "untimed (s\<lparr>s_rtos_tick_count := k\<rparr>) = untimed s" "untimed (cpsid s) = untimed s" "untimed (cpsie s) = untimed s"
  "untimed (scheduler_mark_reschedule s) = untimed s"
  by (simp_all add: untimed_def cpsid_def cpsie_def scheduler_mark_reschedule_def)

lemma upd_tcb_untimed:
  "upd_tcb a f s = Some s' \<Longrightarrow> untimed s \<Longrightarrow> (\<And>t. untimed_tcb t \<Longrightarrow> untimed_tcb (f t)) \<Longrightarrow> untimed s'"
  by (auto simp: upd_tcb_def modify_eq_Some_iff untimed_def split: if_splits)

lemma upd_mutex_untimed: "upd_mutex m f s = Some s' \<Longrightarrow> untimed s' = untimed s"
  by (auto simp: upd_mutex_def)

lemma untimed_tcb_upd [simp]:
  "untimed_tcb (t\<lparr>next_ready := a\<rparr>) = untimed_tcb t" "untimed_tcb (t\<lparr>mutex_wait_next := a\<rparr>) = untimed_tcb t"
  "untimed_tcb (t\<lparr>state := st\<rparr>) = untimed_tcb t" "untimed_tcb (t\<lparr>prio_bucket := p\<rparr>) = untimed_tcb t"
  "untimed_tcb (t\<lparr>priority := q\<rparr>) = untimed_tcb t" "untimed_tcb (t\<lparr>blocked_on_mutex := a\<rparr>) = untimed_tcb t"
  "untimed_tcb (t\<lparr>stack_ptr := a\<rparr>) = untimed_tcb t" "untimed_tcb (t\<lparr>time_slice_counter := k\<rparr>) = untimed_tcb t"
  by (simp_all add: untimed_tcb_def)

lemma ring_insert_untimed: "ring_insert b a s = Some s' \<Longrightarrow> untimed s \<Longrightarrow> untimed s'"
  by (auto simp: ring_insert_def split: if_splits bind_splits dest!: upd_tcb_untimed)

lemma add_untimed: "scheduler_add_task a s = Some (r, s') \<Longrightarrow> untimed s \<Longrightarrow> untimed s'"
  by (auto simp: scheduler_add_task_def split: if_splits bind_splits dest!: upd_tcb_untimed ring_insert_untimed)

lemma remove_untimed: "scheduler_remove_task a s = Some s' \<Longrightarrow> untimed s \<Longrightarrow> untimed s'"
  by (auto simp: scheduler_remove_task_def split: if_splits bind_splits option.splits dest!: upd_tcb_untimed)

lemma rebucket_untimed: "scheduler_rebucket_task a b c s = Some s' \<Longrightarrow> untimed s \<Longrightarrow> untimed s'"
  by (auto simp: scheduler_rebucket_task_def split: if_splits bind_splits dest!: upd_tcb_untimed add_untimed remove_untimed)

lemma apply_pi_untimed: "apply_pi m s = Some s' \<Longrightarrow> untimed s \<Longrightarrow> untimed s'"
  by (auto simp: apply_pi_def Let_def split: if_splits bind_splits dest!: upd_tcb_untimed rebucket_untimed)

lemma restore_untimed: "restore_owner_priority a s = Some s' \<Longrightarrow> untimed s \<Longrightarrow> untimed s'"
  by (auto simp: restore_owner_priority_def Let_def split: if_splits bind_splits dest!: upd_tcb_untimed rebucket_untimed)

lemma pop_highest_untimed: "wait_pop_highest m s = Some (a, s') \<Longrightarrow> untimed s \<Longrightarrow> untimed s'"
  by (auto simp: wait_pop_highest_def upd_mutex_untimed split: if_splits bind_splits dest!: upd_tcb_untimed)

lemma enqueue_untimed: "mutex_wait_enqueue_tail m t s = Some s' \<Longrightarrow> untimed s \<Longrightarrow> untimed s'"
  by (auto simp: mutex_wait_enqueue_tail_def upd_mutex_untimed split: if_splits bind_splits dest!: upd_tcb_untimed)

lemma lock_attempt_untimed: "mutex_lock_attempt m s = Some (r, s') \<Longrightarrow> untimed s \<Longrightarrow> untimed s'"
  by (auto simp: mutex_lock_attempt_def Let_def upd_mutex_untimed split: if_splits bind_splits
      dest!: upd_tcb_untimed enqueue_untimed apply_pi_untimed)

lemma block_enter_untimed:
  assumes "block_enter n reason x s = Some (r, s')" and "untimed s" and "reason = BLOCK_DELAY \<or> n = RTOS_WAIT_FOREVER"
  shows "untimed s'"
proof (cases "current_tcb s = NULL")
  case True
  then show ?thesis using assms by (simp add: block_enter_def)
next
  case False
  let ?v = "\<lambda>t. t\<lparr>block_reason := reason, block_object := x, block_wake_status := RTOS_OK\<rparr>"
  obtain t where t: "tcbs s (current_tcb s) = Some t"
    using assms(1) False by (auto simp: block_enter_def block_prepare_def upd_tcb_def modify_eq_Some_iff split: bind_splits)
  let ?s = "s\<lparr>tcbs := (tcbs s)(current_tcb s \<mapsto> (?v t)\<lparr>wake_time := wake_tick (s_rtos_tick_count s) n, state := TASK_STATE_BLOCKED\<rparr>),
     primask := True\<rparr>"
  obtain s2 where s2: "scheduler_remove_task (current_tcb s) ?s = Some s2" and s': "s' = scheduler_mark_reschedule (cpsie s2)"
    using assms(1) False t
    by (auto simp: block_enter_def block_prepare_def block_commit_def Let_def wake_tick_def RTOS_WAIT_FOREVER_def rtos_get_tick_def
        cpsid_def upd_tcb_def modify_eq_Some_iff split: bind_splits if_splits)
  have "untimed ?s" using assms(2,3) t
    by (auto simp: untimed_def untimed_tcb_def wake_tick_def RTOS_WAIT_FOREVER_def split: if_splits)
  then show ?thesis using remove_untimed [OF s2] by (simp add: s')
qed

lemma lock_untimed: "mutex_lock m RTOS_WAIT_FOREVER s = Some (r, s') \<Longrightarrow> untimed s \<Longrightarrow> untimed s'"
  by (auto simp: mutex_lock_def blocking_call_def split: bind_splits option.splits
      dest!: lock_attempt_untimed block_enter_untimed)

lemma lock_resume_untimed: "mutex_lock_resume m RTOS_WAIT_FOREVER s = Some (r, s') \<Longrightarrow> untimed s \<Longrightarrow> untimed s'"
  by (auto simp: mutex_lock_resume_def blocking_resume_def mutex_lock_def [symmetric] split: bind_splits option.splits if_splits
      dest!: lock_untimed)

lemma untimed_woken [simp]:
  "untimed_tcb t \<Longrightarrow> untimed_tcb (t\<lparr>state := st, block_reason := BLOCK_NONE, block_object := a\<rparr>)"
  "untimed_tcb t \<Longrightarrow> untimed_tcb (t\<lparr>state := st, blocked_on_mutex := b, block_reason := BLOCK_NONE, block_object := a\<rparr>)"
  by (simp_all add: untimed_tcb_def)

lemma unlock_untimed: "mutex_unlock m s = Some (r, s') \<Longrightarrow> untimed s \<Longrightarrow> untimed s'"
  by (auto simp: mutex_unlock_def Let_def upd_mutex_untimed split: if_splits bind_splits
      dest!: restore_untimed pop_highest_untimed add_untimed upd_tcb_untimed)

text \<open>What ticks and context switches do: they keep \<open>untimed\<close> and the owner of every mutex.\<close>

lemma wake_one_keeps:
  assumes "wake_one now a s = Some s'" and "untimed s"
  shows "untimed s' \<and> ownership s' = ownership s"
proof (cases "s' = s")
  case False
  then obtain t where t: "tcbs s a = Some t" "a \<noteq> NULL" "wake_time t \<noteq> UINT32_MAX" "block_reason t \<noteq> BLOCK_NONE"
    using assms(1) by (auto simp: wake_one_def get_tcb_def fetch_eq_Some_iff split: if_splits bind_splits)
  then have "block_reason t = BLOCK_DELAY" using assms(2) by (auto simp: untimed_def untimed_tcb_def)
  then obtain s1 r where s1: "upd_tcb a (\<lambda>t. t\<lparr>block_reason := BLOCK_NONE, block_object := NULL, state := TASK_STATE_READY\<rparr>) s = Some s1"
    and s': "scheduler_add_task a s1 = Some (r, s')"
    using assms(1) t False by (auto simp: wake_one_def split: if_splits bind_splits)
  have "untimed s1" by (rule upd_tcb_untimed [OF s1 assms(2)]) (simp add: untimed_tcb_def)
  then show ?thesis using add_untimed [OF s'] ownership_core [OF add_core [OF s']] ownership_core [OF upd_tcb_core [OF s1]] by simp
qed (use assms in simp)

lemma wake_loop_keeps: "wake_loop now i k s = Some s' \<Longrightarrow> untimed s \<Longrightarrow> untimed s' \<and> ownership s' = ownership s"
proof (induction k arbitrary: i s)
  case (Suc k)
  then obtain a s1 where s1: "wake_one now a s = Some s1" "wake_loop now (Suc i) k s1 = Some s'" by (auto split: bind_splits)
  then show ?case using Suc.IH [OF s1(2)] wake_one_keeps [OF s1(1) Suc.prems(2)] by simp
qed simp

lemma stack_check_loop_keeps: "stack_check_loop i k s = Some (h, s') \<Longrightarrow> untimed s \<Longrightarrow> untimed s' \<and> ownership s' = ownership s"
proof (induction k arbitrary: i)
  case (Suc k)
  then show ?case by (auto simp: Let_def untimed_def ownership_def fun_eq_iff split: if_splits bind_splits)
qed simp

lemma ownership_upd2 [simp]:
  "ownership (s\<lparr>icsr := q\<rparr>) = ownership s" "ownership (s\<lparr>ready_head := rh\<rparr>) = ownership s"
  "ownership (s\<lparr>current_tcb := a\<rparr>) = ownership s" "ownership (s\<lparr>stack_mem := S\<rparr>) = ownership s"
  "ownership (s\<lparr>s_rtos_tick_count := k\<rparr>) = ownership s" "ownership (cpsid s) = ownership s" "ownership (cpsie s) = ownership s"
  "ownership (scheduler_mark_reschedule s) = ownership s"
  by (simp_all add: ownership_def fun_eq_iff cpsid_def cpsie_def scheduler_mark_reschedule_def)

lemma time_slice_untimed: "scheduler_time_slice_tick s = Some s' \<Longrightarrow> untimed s \<Longrightarrow> untimed s'"
  by (auto simp: scheduler_time_slice_tick_def Let_def split: if_splits bind_splits dest!: upd_tcb_untimed)

lemma time_slice_owner: "scheduler_time_slice_tick s = Some s' \<Longrightarrow> ownership s' = ownership s"
  by (auto simp: scheduler_time_slice_tick_def Let_def split: if_splits bind_splits dest!: upd_tcb_core [THEN ownership_core])

lemma SysTick_keeps_owner:
  assumes call: "SysTick_Handler cb s = Some (h, s')" and u: "untimed s"
  shows "untimed s' \<and> ownership s' = ownership s"
proof -
  obtain s1 s2 s3 where s1: "rtos_wake_delayed (rtos_tick_increment s) = Some s1"
    and s2: "sw_timer_tick_process cb s1 = Some s2" and s3: "rtos_stack_check_all s2 = Some (h, s3)"
    and s': "(if h then Some (True, s3) else do { s \<leftarrow> scheduler_time_slice_tick s3; Some (False, scheduler_mark_reschedule s) }) = Some (h, s')"
    using call by (auto simp: SysTick_Handler_def Let_def bind_eq_Some_conv split: if_splits)
  have k1: "untimed s1 \<and> ownership s1 = ownership s"
    using wake_loop_keeps [OF s1 [unfolded rtos_wake_delayed_def]] u by (simp add: rtos_tick_increment_def)
  then have "s2 = s1" using s2 by (simp add: sw_timer_tick_process_def tick_loop.simps [of cb _ s1] timer_due_def untimed_def)
  then have k3: "untimed s3 \<and> ownership s3 = ownership s"
    using stack_check_loop_keeps [OF s3 [unfolded rtos_stack_check_all_def]] k1 by simp
  then show ?thesis using s' time_slice_untimed time_slice_owner by (auto split: if_splits bind_splits)
qed

lemma get_next_untimed: "scheduler_get_next s = Some (a, s') \<Longrightarrow> untimed s \<Longrightarrow> untimed s'"
  by (auto simp: scheduler_get_next_def Let_def split: if_splits bind_splits option.splits dest!: upd_tcb_untimed)

lemma get_next_owner: "scheduler_get_next s = Some (a, s') \<Longrightarrow> ownership s' = ownership s"
  by (auto simp: scheduler_get_next_def Let_def split: if_splits bind_splits option.splits dest!: upd_tcb_core [THEN ownership_core])

lemma save_context_owner:
  "save_context c s = Some s' \<Longrightarrow> ownership s' = ownership s"
  by (auto simp: save_context_def Let_def split: if_splits dest!: upd_tcb_core [THEN ownership_core])

lemma save_context_untimed: "save_context c s = Some s' \<Longrightarrow> untimed s \<Longrightarrow> untimed s'"
  by (auto simp: save_context_def Let_def split: if_splits dest!: upd_tcb_untimed)

lemma PendSV_keeps_owner:
  assumes "PendSV_Handler c s = Some (c', s')" and "untimed s"
  shows "untimed s' \<and> ownership s' = ownership s"
proof -
  obtain s1 a s2 where s1: "save_context c (cpsid s) = Some s1" "scheduler_get_next s1 = Some (a, s2)" "s' = cpsie s2"
    using assms(1) by (auto simp: PendSV_Handler_def Let_def bind_eq_Some_conv)
  then show ?thesis
    using assms(2) save_context_untimed [OF s1(1)] save_context_owner [OF s1(1)] get_next_untimed [OF s1(2)] get_next_owner [OF s1(2)]
    by simp
qed

section \<open>Ownership and the calls of the tasks\<close>

lemma block_enter_owner: "block_enter n reason x s = Some (r, s') \<Longrightarrow> ownership s' = ownership s"
  by (auto simp: block_enter_def block_prepare_def block_commit_def Let_def split: if_splits bind_splits
      dest!: upd_tcb_core [THEN ownership_core] remove_core [THEN ownership_core])

text \<open>A lock without a time limit that returns has made its caller the owner.\<close>

lemma lock_attempt_status: "mutex_lock_attempt m s = Some (Some st, s') \<Longrightarrow> m \<noteq> NULL \<Longrightarrow> current_tcb s \<noteq> NULL \<Longrightarrow> st = RTOS_OK"
  by (auto simp: mutex_lock_attempt_def Let_def split: if_splits bind_splits)

definition lock_effect :: "addr \<Rightarrow> bool \<Rightarrow> kernel \<Rightarrow> kernel \<Rightarrow> bool" where
  "lock_effect m done s s' \<longleftrightarrow> (if \<not> done then ownership s' m = ownership s m
     else (ownership s m = Some (True, current_tcb s) \<or> (\<exists>a. ownership s m = Some (False, a)))
       \<and> ownership s' m = Some (True, current_tcb s))"

lemma enqueue_current: "mutex_wait_enqueue_tail m t s = Some s' \<Longrightarrow> current_tcb s' = current_tcb s"
  by (auto simp: mutex_wait_enqueue_tail_def upd_mutex_def split: if_splits bind_splits dest!: upd_tcb_core [THEN sched_core_sel(5)])

lemma lock_call_effect:
  assumes call: "mutex_lock m n s = Some (r, s')" and nn: "m \<noteq> NULL" "current_tcb s \<noteq> NULL"
  shows "lock_effect m (r \<noteq> None) s s'"
proof -
  obtain r1 s1 where a: "mutex_lock_attempt m s = Some (r1, s1)"
    and rest: "(case r1 of Some st \<Rightarrow> Some (Some st, s1) | None \<Rightarrow> block_enter n BLOCK_MUTEX m s1) = Some (r, s')"
    using call by (auto simp: mutex_lock_def blocking_call_def bind_eq_Some_conv)
  show ?thesis
  proof (cases r1)
    case (Some st)
    then show ?thesis using rest lock_attempt_status [OF a [unfolded Some] nn] lock_attempt_ownership [OF a]
      by (auto simp: lock_effect_def)
  next
    case None
    have "current_tcb s1 = current_tcb s"
      using a None nn by (auto simp: mutex_lock_attempt_def Let_def cpsid_def cpsie_def split: if_splits bind_splits
          dest!: upd_tcb_core [THEN sched_core_sel(5)] enqueue_current apply_pi_core [THEN sched_core_sel(5)])
    then have "r = None" using rest None nn(2) by (auto simp: block_enter_def split: bind_splits)
    then show ?thesis using rest None block_enter_owner lock_attempt_ownership [OF a] by (auto simp: lock_effect_def)
  qed
qed

lemma lock_resume_effect:
  assumes call: "mutex_lock_resume m n s = Some (r, s')" and nn: "m \<noteq> NULL" "current_tcb s \<noteq> NULL" and u: "untimed s"
  shows "lock_effect m (r \<noteq> None) s s'"
proof -
  obtain t where t: "tcbs s (current_tcb s) = Some t"
    using call by (auto simp: mutex_lock_resume_def blocking_resume_def block_spin_def get_tcb_def fetch_eq_Some_iff bind_eq_Some_conv)
  have "block_wake_status t \<noteq> RTOS_ERR_TIMEOUT" using u t by (auto simp: untimed_def untimed_tcb_def)
  then have "(r = None \<and> s' = s) \<or> mutex_lock m n s = Some (r, s')"
    using call t nn by (auto simp: mutex_lock_resume_def mutex_lock_def blocking_resume_def block_spin_def split: if_splits)
  then show ?thesis using lock_call_effect [OF _ nn, of n r s'] by (auto simp: lock_effect_def)
qed

lemma unlock_effect:
  assumes "mutex_unlock m s = Some (r, s')" and "ownership s m \<noteq> Some (True, current_tcb s)"
  shows "s' = s"
  using assms by (auto simp: mutex_unlock_def Let_def ownership_def get_mutex_def fetch_eq_Some_iff split: if_splits bind_splits)

section \<open>The state the examples start in\<close>

lemma heap_frame_untimed: "heap_frame s s' \<Longrightarrow> untimed s' = untimed s"
  by (auto simp: heap_frame_def untimed_def)

lemma untimed_new [simp]: "untimed s \<Longrightarrow> untimed_tcb t \<Longrightarrow> untimed (s\<lparr>tcbs := (tcbs s)(a \<mapsto> t)\<rparr>)"
  by (simp add: untimed_def)

lemma untimed_zero [simp]: "untimed_tcb zero_tcb"
  by (simp add: untimed_tcb_def zero_tcb_def)

lemma untimed_tcb_more [simp]:
  "untimed_tcb (t\<lparr>stack_base := a\<rparr>) = untimed_tcb t" "untimed_tcb (t\<lparr>stack_size := z\<rparr>) = untimed_tcb t"
  "untimed_tcb (t\<lparr>name := nm\<rparr>) = untimed_tcb t" "untimed_tcb (t\<lparr>base_priority := q\<rparr>) = untimed_tcb t"
  "untimed_tcb (t\<lparr>task_func := f\<rparr>) = untimed_tcb t"
  by (simp_all add: untimed_tcb_def)

lemma build_untimed: "task_build_common img a f s = Some (r, s') \<Longrightarrow> untimed s \<Longrightarrow> untimed s'"
  by (auto simp: task_build_common_def Let_def case_prod_beta untimed_tcb_def split: if_splits bind_splits dest!: upd_tcb_untimed)

lemma registry_add_untimed: "registry_add a s = Some s' \<Longrightarrow> untimed s' = untimed s"
  by (auto simp: registry_add_def untimed_def split: if_splits bind_splits)

lemmas heap_untimed = heap_alloc_frame [THEN heap_frame_untimed] heap_free_frame [THEN heap_frame_untimed]

lemma create_untimed: "task_create img f prio sz nm s = Some (a, s') \<Longrightarrow> untimed s \<Longrightarrow> untimed s'"
  by (auto simp: task_create_def Let_def split: if_splits bind_splits
      dest!: heap_untimed upd_tcb_untimed build_untimed add_untimed registry_add_untimed)

lemma create_tasks_untimed: "create_tasks img ts s = Some (ok, s') \<Longrightarrow> untimed s \<Longrightarrow> untimed s'"
  by (induction img ts s rule: create_tasks.induct) (auto split: bind_splits if_splits dest: create_untimed)

lemma init_untimed:
  assumes "task_init img s = Some (st, s')" and "boot s"
  shows "untimed s'"
proof -
  let ?s = "(scheduler_init (sw_timer_init (heap_init (heap_pool img) s)))\<lparr>task_registry_count := 0\<rparr>"
  have u: "untimed (s1\<lparr>idle_tcb := p\<rparr>) = untimed s1" for s1 p by (simp add: untimed_def)
  have "untimed ?s" using assms(2) by (simp add: untimed_def boot_def scheduler_init_def sw_timer_init_def heap_init_def)
  then show ?thesis using assms(1)
    by (auto simp: task_init_def Let_def u split: if_splits bind_splits
        dest!: heap_untimed upd_tcb_untimed build_untimed add_untimed registry_add_untimed)
qed

lemma start_loop_untimed:
  assumes "start_loop hw qemu c p s = Some (c', p', s')" and "untimed s"
  shows "untimed s'"
proof -
  have step: "untimed s1" if "rtos_start hw qemu c p s = Some (r, c1, p1, s1)" "untimed s" for hw qemu c p s r c1 p1 s1
    using that by (auto simp: rtos_start_def Let_def case_prod_beta SVC_Handler_def split: if_splits bind_splits dest!: get_next_untimed)
  have "untimed s \<longrightarrow> untimed (snd (snd (c', p', s')))"
    by (rule start_loop.raw_induct [OF _ assms(1), where P = "\<lambda>_ _ _ _ s y. untimed s \<longrightarrow> untimed (snd (snd y))"])
       (auto split: bind_splits option.splits dest: step)
  then show ?thesis using assms(2) by simp
qed

text \<open>The examples start with no time limit on any wait.\<close>

theorem examples_untimed:
  assumes "boot s"
  shows "mutex_demo_main img g fs nms hw qemu c p d s = Some (d', Runs c' p' s') \<Longrightarrow> untimed s'"
    and "stress_test_main img g stress_t T hw qemu c p s = Some (Runs c' p' s') \<Longrightarrow> untimed s'"
proof -
  have m: "untimed (snd (mutex_init g s1)) = untimed s1" for s1 by (simp add: mutex_init_def)
  show "mutex_demo_main img g fs nms hw qemu c p d s = Some (d', Runs c' p' s') \<Longrightarrow> untimed s'"
    using assms by (cases fs; cases nms)
      (auto simp: mutex_demo_main_def start_app_def Let_def case_prod_beta m split: if_splits bind_splits simp del: create_tasks.simps
        dest!: start_loop_untimed create_tasks_untimed dest: init_untimed)
  show "stress_test_main img g stress_t T hw qemu c p s = Some (Runs c' p' s') \<Longrightarrow> untimed s'"
    using assms
    by (auto simp: stress_test_main_def start_app_def Let_def case_prod_beta m split: if_splits bind_splits simp del: create_tasks.simps
        dest!: start_loop_untimed create_tasks_untimed dest: init_untimed)
qed

section \<open>Critical sections\<close>

text \<open>Position \<open>p\<close> of a program is inside when the last lock or unlock before it is a lock.\<close>

fun locked_after :: "bool \<Rightarrow> cmd list \<Rightarrow> bool" where
  "locked_after b [] = b"
| "locked_after b (Lock # cs) = locked_after True cs"
| "locked_after b (Unlock # cs) = locked_after False cs"
| "locked_after b (c # cs) = locked_after b cs"

definition inside :: "program \<Rightarrow> nat \<Rightarrow> bool" where
  "inside P p = locked_after False (take p (intro P @ body P))"

text \<open>The prologue and every round of the loop end outside.\<close>

definition balanced :: "program \<Rightarrow> bool" where
  "balanced P \<longleftrightarrow> \<not> locked_after False (intro P) \<and> \<not> locked_after False (intro P @ body P)"

lemma locked_after_append: "locked_after b (cs @ ds) = locked_after (locked_after b cs) ds"
  by (induction b cs rule: locked_after.induct) simp_all

lemma locked_after_one: "locked_after b [c] = (if c = Lock then True else if c = Unlock then False else b)"
  by (cases c) simp_all

lemma inside_next:
  assumes bal: "balanced P" and c: "arr_get (intro P @ body P) p = Some c"
  shows "inside P (next_pos P p) \<Longrightarrow> (c = Lock \<or> inside P p) \<and> c \<noteq> Unlock"
proof -
  assume ins: "inside P (next_pos P p)"
  have p: "p < length (intro P @ body P)" and cp: "(intro P @ body P) ! p = c" using c by (simp_all add: arr_get_def split: if_splits)
  have "Suc p \<noteq> length (intro P @ body P)"
  proof
    assume e: "Suc p = length (intro P @ body P)"
    then have "inside P (length (intro P))" using ins by (simp add: next_pos_def)
    then show False using bal by (simp add: inside_def balanced_def)
  qed
  then have "inside P (Suc p)" using ins by (simp add: next_pos_def split: if_splits)
  then show ?thesis unfolding inside_def take_Suc_conv_app_nth [OF p] cp locked_after_append locked_after_one
    by (auto split: if_splits)
qed

definition app_inv :: "addr \<Rightarrow> (nat \<Rightarrow> program) \<Rightarrow> (nat \<Rightarrow> addr) \<Rightarrow> nat \<Rightarrow> world \<Rightarrow> bool" where
  "app_inv m P tcb n w \<longleftrightarrow> untimed (kern w)
     \<and> (\<forall>i < n. inside (P i) (pos w i) \<longrightarrow> ownership (kern w) m = Some (True, tcb i))"

lemma delay_untimed: "task_delay k s = Some (r, s') \<Longrightarrow> untimed s \<Longrightarrow> untimed s'"
  by (auto simp: task_delay_def split: if_splits dest!: block_enter_untimed)

lemma delay_owner: "task_delay k s = Some (r, s') \<Longrightarrow> ownership s' = ownership s"
  by (auto simp: task_delay_def split: if_splits dest!: block_enter_owner)

lemma cmd_frame:
  assumes "(if wt then resume_cmd m c w else exec_cmd m c w) = Some (done, w')"
  shows "pos w' = pos w \<and> waiting w' = waiting w"
  using assms by (cases c; cases wt) (auto simp: Let_def bind_eq_Some_conv)

lemma cmd_untimed:
  assumes "(if wt then resume_cmd m c w else exec_cmd m c w) = Some (done, w')" and "untimed (kern w)"
  shows "untimed (kern w')"
  using assms
  by (cases c; cases wt)
     (auto simp: Let_def bind_eq_Some_conv task_yield_def
       dest: lock_untimed lock_resume_untimed unlock_untimed delay_untimed)

lemma cmd_owner:
  assumes "(if wt then resume_cmd m c w else exec_cmd m c w) = Some (done, w')" and "c \<noteq> Lock" and "c \<noteq> Unlock"
  shows "ownership (kern w') = ownership (kern w)"
  using assms by (cases c; cases wt) (auto simp: Let_def bind_eq_Some_conv task_yield_def dest: delay_owner)

lemma cmd_lock:
  assumes "(if wt then resume_cmd m Lock w else exec_cmd m Lock w) = Some (done, w')"
    and "m \<noteq> NULL" and "current_tcb (kern w) \<noteq> NULL" and "untimed (kern w)"
  shows "lock_effect m done (kern w) (kern w')"
  using assms by (cases wt) (auto simp: bind_eq_Some_conv dest: lock_call_effect lock_resume_effect)

lemma cmd_unlock:
  assumes "(if wt then resume_cmd m Unlock w else exec_cmd m Unlock w) = Some (done, w')"
    and "ownership (kern w) m \<noteq> Some (True, current_tcb (kern w))"
  shows "kern w' = kern w"
  using assms by (cases wt) (auto simp: bind_eq_Some_conv dest: unlock_effect)

lemma cmd_unlock_done: "(if wt then resume_cmd m Unlock w else exec_cmd m Unlock w) = Some (d, w') \<Longrightarrow> d"
  by (cases wt) (auto simp: bind_eq_Some_conv)

lemma task_step_inv:
  assumes step: "task_step m P i w = Some w'" and cur: "current_tcb (kern w) = tcb i" and i: "i < n"
    and inv: "app_inv m P tcb n w" and P: "\<forall>j < n. balanced (P j)" and inj: "inj_on tcb {..<n}"
    and nn: "m \<noteq> NULL" "tcb i \<noteq> NULL"
  shows "app_inv m P tcb n w'"
proof -
  obtain c d w1 where c: "arr_get (intro (P i) @ body (P i)) (pos w i) = Some c"
    and run: "(if waiting w i then resume_cmd m c w else exec_cmd m c w) = Some (d, w1)"
    and w': "w' = w1\<lparr>pos := (if d then (pos w1)(i := next_pos (P i) (pos w1 i)) else pos w1), waiting := (waiting w1)(i := \<not> d)\<rparr>"
    using step by (auto simp: task_step_def bind_eq_Some_conv)
  have u: "untimed (kern w)" and own: "\<And>j. j < n \<Longrightarrow> inside (P j) (pos w j) \<Longrightarrow> ownership (kern w) m = Some (True, tcb j)"
    using inv by (simp_all add: app_inv_def)
  have pw: "pos w1 = pos w" using cmd_frame [OF run] by simp
  have cn: "current_tcb (kern w) \<noteq> NULL" using cur nn(2) by simp
  have own1: "ownership (kern w1) m = Some (True, tcb j)" if j: "j < n" "inside (P j) (pos w' j)" for j
  proof -
    have pj: "pos w' j = (if j = i \<and> d then next_pos (P i) (pos w i) else pos w j)" by (simp add: w' pw)
    show ?thesis
    proof (cases "c = Lock")
      case True
      have eff: "lock_effect m d (kern w) (kern w1)" by (rule cmd_lock [OF run [unfolded True] nn(1) cn u])
      show ?thesis
      proof (cases "j = i \<and> d")
        case False
        then have "pos w' j = pos w j" using pj by auto
        then have "ownership (kern w) m = Some (True, tcb j)" using own j by simp
        moreover from this have "d \<Longrightarrow> tcb j = tcb i" using eff cur by (auto simp: lock_effect_def)
        then have "\<not> d" using False inj_onD [OF inj, of j i] i j(1) by auto
        ultimately show ?thesis using eff by (simp add: lock_effect_def)
      qed (use eff cur in \<open>simp add: lock_effect_def\<close>)
    next
      case False
      have ij: "c \<noteq> Unlock \<and> inside (P i) (pos w i)" if "j = i" "d"
        using inside_next [OF _ c] P i j(2) pj that False by simp
      then have ow: "ownership (kern w) m = Some (True, tcb j)" using own j pj i by (cases "j = i \<and> d") auto
      show ?thesis
      proof (cases "c = Unlock")
        case True
        then have "j \<noteq> i" using ij cmd_unlock_done [OF run [unfolded True]] by blast
        then have "tcb j \<noteq> tcb i" using inj i j(1) by (auto dest: inj_onD)
        then show ?thesis using cmd_unlock [OF run [unfolded True]] ow cur by simp
      qed (use False cmd_owner [OF run] ow in simp)
    qed
  qed
  show ?thesis using own1 cmd_untimed [OF run u] by (simp add: app_inv_def w')
qed

lemma app_step_inv:
  assumes "app_step m P tcb n cb w w'" and inv: "app_inv m P tcb n w"
    and P: "\<forall>j < n. balanced (P j)" "inj_on tcb {..<n}" "m \<noteq> NULL" "\<forall>j < n. tcb j \<noteq> NULL"
  shows "app_inv m P tcb n w'"
  using assms(1)
proof cases
  case (run i)
  then show ?thesis using task_step_inv [OF _ _ _ inv P(1,2,3)] P(4) by blast
next
  case (tick s')
  then show ?thesis using SysTick_keeps_owner inv by (auto simp: app_inv_def)
next
  case (switch c c' s')
  then show ?thesis using PendSV_keeps_owner inv by (auto simp: app_inv_def)
qed

text \<open>The tasks of the three examples.\<close>

definition demo_tasks :: "nat \<Rightarrow> program" where
  "demo_tasks i = [task_low, task_medium, task_high] ! i"

lemma examples_balanced: "i < 10 \<Longrightarrow> balanced (stress_tasks i)" "i < 3 \<Longrightarrow> balanced (demo_tasks i)" "balanced worker"
  by (auto simp: balanced_def stress_body_def stress_tasks_def demo_tasks_def task_low_def task_medium_def task_high_def worker_def
      eval_nat_numeral less_Suc_eq)

text \<open>
  C8. Critical sections. However the tasks of the stress test or of the mutex demo, ticks and
  context switches are interleaved, at most one task at a time is between its \<open>mutex_lock\<close> and
  its \<open>mutex_unlock\<close>, and that task owns the mutex. This holds although an unlock can leave the
  ready rings inconsistent and although the tasks ignore the status of their calls.
\<close>

theorem critical_sections_exclusive:
  assumes P: "P = stress_tasks \<and> n = 10 \<or> P = demo_tasks \<and> n = 3"
    and tcb: "inj_on tcb {..<n}" "\<forall>i < n. tcb i \<noteq> NULL" and m: "m \<noteq> NULL"
    and start: "untimed (kern w)" "\<forall>i < n. pos w i = 0" and run: "(app_step m P tcb n cb)\<^sup>*\<^sup>* w w'"
    and i: "i < n" "inside (P i) (pos w' i)"
  shows "ownership (kern w') m = Some (True, tcb i) \<and> (\<forall>j < n. inside (P j) (pos w' j) \<longrightarrow> j = i)"
proof -
  have bal: "\<forall>j < n. balanced (P j)" using P examples_balanced by auto
  have "app_inv m P tcb n w" using start by (simp add: app_inv_def inside_def)
  with run have "app_inv m P tcb n w'"
    by (induction rule: rtranclp_induct) (blast intro: app_step_inv [OF _ _ bal tcb(1) m tcb(2)])+
  then have own: "ownership (kern w') m = Some (True, tcb j)" if "j < n" "inside (P j) (pos w' j)" for j
    using that by (simp add: app_inv_def)
  have "j = i" if "j < n" "inside (P j) (pos w' j)" for j
    using own [OF that] own [OF i] inj_onD [OF tcb(1), of j i] that(1) i(1) by simp
  then show ?thesis using own [OF i] by blast
qed

section \<open>Sample run\<close>

definition app_sample :: world where
  "app_sample = \<lparr>kern = blank_kernel\<lparr>tcbs := [16 \<mapsto> sample_task 200 TASK_STATE_RUNNING 16],
       mutexes := [256 \<mapsto> \<lparr>locked = False, owner = 0, wait_head = 0, wait_tail = 0\<rparr>], current_tcb := 16\<rparr>,
     g_mutex_acquisition_count = replicate 10 0, demo_vars = \<lparr>g_demo_phase = 0, g_last_event = replicate 64 0\<rparr>,
     pos = (\<lambda>_. 0), waiting = (\<lambda>_. False)\<rparr>"

definition app_tcbs :: "addr list" where
  "app_tcbs = [16, 32, 48, 64, 80, 96, 112, 128, 144, 160]"

theorem critical_sections_exclusive_witness:
  "\<exists>w. (app_step 256 stress_tasks (\<lambda>i. app_tcbs ! i) 10 idle_callbacks)\<^sup>*\<^sup>* app_sample w
     \<and> inside (stress_tasks 0) (pos w 0) \<and> ownership (kern w) 256 = Some (True, app_tcbs ! 0)"
proof -
  obtain w where step: "task_step 256 stress_tasks 0 app_sample = Some w" and p: "pos w 0 = 1"
    by (simp add: task_step_def stress_tasks_def stress_body_def app_sample_def arr_get_def mutex_lock_def blocking_call_def mutex_lock_attempt_def
        Let_def cpsid_def cpsie_def next_pos_def RTOS_WAIT_FOREVER_def)
  have "current_tcb (kern app_sample) = app_tcbs ! 0" by (simp add: app_sample_def app_tcbs_def)
  then have run: "(app_step 256 stress_tasks (\<lambda>i. app_tcbs ! i) 10 idle_callbacks)\<^sup>*\<^sup>* app_sample w"
    using app_step.run [OF _ _ step, of 10 "\<lambda>i. app_tcbs ! i" idle_callbacks] by auto
  have ins: "inside (stress_tasks 0) (pos w 0)" by (simp add: p inside_def stress_tasks_def stress_body_def)
  have "inj_on (\<lambda>i. app_tcbs ! i) {..<10}" by (rule inj_on_nth) (simp_all add: app_tcbs_def)
  moreover have "app_tcbs ! i \<noteq> NULL" if "i < 10" for i
    using that nth_mem [of i app_tcbs] by (auto simp: app_tcbs_def)
  moreover have "untimed (kern app_sample)" by (simp add: app_sample_def untimed_def untimed_tcb_def sample_defs blank_kernel_def)
  moreover have "pos app_sample i = 0" for i by (simp add: app_sample_def)
  ultimately show ?thesis
    using critical_sections_exclusive [of stress_tasks 10 "\<lambda>i. app_tcbs ! i" 256 app_sample idle_callbacks w 0] run ins by auto
qed

end
