(* ===== verification/Rtos_Startup.thy ===== *)
theory Rtos_Startup
  imports Rtos_Context
begin

text \<open>
  The reset handler of \<^verbatim>\<open>platform/stm32f4/startup_stm32f407xx.s\<close>, one function per instruction it
  uses: it sets the main stack pointer, copies the initial values of \<^verbatim>\<open>.data\<close> from flash, is meant to
  clear \<^verbatim>\<open>.bss\<close>, and calls \<open>main\<close>; and the vector table. The addresses of the sections are the linker's:
  parameters.
\<close>

section \<open>Machine\<close>

record section_syms =
  sidata :: addr
  sdata :: addr
  edata :: addr
  sbss :: addr
  ebss :: addr
  estack :: addr

text \<open>The flags are those the two conditional branches read; \<open>words\<close> is memory by words.\<close>

record machine =
  r0 :: u32
  r1 :: u32
  r2 :: u32
  r3 :: u32
  msp :: u32
  control :: u32
  flag_n :: bool
  flag_z :: bool
  flag_v :: bool
  words :: "addr \<Rightarrow> u32"

text \<open>The flags after \<^verbatim>\<open>subs\<close>; \<^verbatim>\<open>movs\<close> with an immediate sets N and Z and leaves V alone.\<close>

definition sub_flags :: "u32 \<Rightarrow> u32 \<Rightarrow> machine \<Rightarrow> machine" where
  "sub_flags x y c = c\<lparr>flag_n := bit (x - y) 31, flag_z := (x - y = 0),
     flag_v := (bit x 31 \<noteq> bit y 31 \<and> bit (x - y) 31 \<noteq> bit x 31)\<rparr>"

definition mov_flags :: "u32 \<Rightarrow> machine \<Rightarrow> machine" where
  "mov_flags x c = c\<lparr>flag_n := bit x 31, flag_z := (x = 0)\<rparr>"

definition cond_le :: "machine \<Rightarrow> bool" where
  "cond_le c \<longleftrightarrow> flag_z c \<or> flag_n c \<noteq> flag_v c"

definition cond_gt :: "machine \<Rightarrow> bool" where
  "cond_gt c \<longleftrightarrow> \<not> flag_z c \<and> flag_n c = flag_v c"

text \<open>\<^verbatim>\<open>ldr r3, [r0], #4; str r3, [r1], #4; subs r2, r2, #4\<close>\<close>

definition copy_body :: "machine \<Rightarrow> machine" where
  "copy_body c =
     (let c = c\<lparr>r3 := words c (r0 c), r0 := r0 c + 4\<rparr>;
          c = c\<lparr>words := (words c)(r1 c := r3 c), r1 := r1 c + 4\<rparr>
      in (sub_flags (r2 c) 4 c)\<lparr>r2 := r2 c - 4\<rparr>)"

text \<open>\<^verbatim>\<open>str r2, [r0], #4; subs r1, r1, #4\<close>\<close>

definition bss_body :: "machine \<Rightarrow> machine" where
  "bss_body c =
     (let c = c\<lparr>words := (words c)(r0 c := r2 c), r0 := r0 c + 4\<rparr>
      in (sub_flags (r1 c) 4 c)\<lparr>r1 := r1 c - 4\<rparr>)"

section \<open>Branches compare as signed numbers\<close>

lemma signed_wrap:
  fixes k :: int
  assumes "- (2 ^ 32) \<le> k" and "k < 2 ^ 32"
  shows "signed_take_bit 31 k = (if k < - (2 ^ 31) then k + 2 ^ 32 else if 2 ^ 31 \<le> k then k - 2 ^ 32 else k)"
proof -
  have "signed_take_bit 31 k = (k + 2 ^ 31) mod 2 ^ 32 - 2 ^ 31"
    by (simp add: signed_take_bit_eq_take_bit_shift take_bit_eq_mod)
  moreover have "(k + 2 ^ 31) mod 2 ^ 32 = (k + 2 ^ 31 + 2 ^ 32) mod 2 ^ 32" "(k + 2 ^ 31) mod 2 ^ 32 = (k + 2 ^ 31 - 2 ^ 32) mod 2 ^ 32"
    by (simp_all only: mod_add_self2 minus_mod_self2)
  moreover have "j mod 2 ^ 32 = j" if "0 \<le> j" "j < 2 ^ 32" for j :: int using that by (rule mod_pos_pos_trivial)
  ultimately show ?thesis using assms by auto
qed

lemma sub_flags_signed:
  fixes x y :: u32
  shows "cond_gt (sub_flags x y c) \<longleftrightarrow> sint y < sint x" "cond_le (sub_flags x y c) \<longleftrightarrow> sint x \<le> sint y"
proof -
  have neg: "bit w 31 \<longleftrightarrow> sint w < 0" for w :: u32 using bit_last_iff [of w] by simp
  have rng: "- (2 ^ 31) \<le> sint w" "sint w < 2 ^ 31" for w :: u32 using sint_ge [of w] sint_lt [of w] by simp_all
  have "sint (x - y) = signed_take_bit 31 (sint x - sint y)" by (simp add: sint_word_ariths(2))
  then have d: "sint (x - y) = (if sint x - sint y < - (2 ^ 31) then sint x - sint y + 2 ^ 32
      else if 2 ^ 31 \<le> sint x - sint y then sint x - sint y - 2 ^ 32 else sint x - sint y)"
    using rng [of x] rng [of y] by (subst (asm) signed_wrap) simp_all
  have z: "x = y \<longleftrightarrow> sint x = sint y" by (auto intro: signed_word_eqI)
  show "cond_gt (sub_flags x y c) \<longleftrightarrow> sint y < sint x" "cond_le (sub_flags x y c) \<longleftrightarrow> sint x \<le> sint y"
    using rng [of x] rng [of y] d by (auto simp: cond_gt_def cond_le_def sub_flags_def neg z split: if_splits)
qed

lemma cond_upd [simp]:
  "cond_gt (c\<lparr>r1 := x\<rparr>) = cond_gt c" "cond_gt (c\<lparr>r2 := x\<rparr>) = cond_gt c"
  "cond_le (c\<lparr>r1 := x\<rparr>) = cond_le c" "cond_le (c\<lparr>r2 := x\<rparr>) = cond_le c"
  by (simp_all add: cond_gt_def cond_le_def)

lemma sint_minus_4:
  fixes w :: u32
  assumes "4 < sint w"
  shows "sint (w - 4) = sint w - 4"
proof -
  have "sint (w - 4) = signed_take_bit 31 (sint w - 4)" by (simp add: sint_word_ariths(2))
  then show ?thesis using assms sint_lt [of w] by (subst (asm) signed_wrap) simp_all
qed

lemma copy_body_fields:
  "r0 (copy_body c) = r0 c + 4" "r1 (copy_body c) = r1 c + 4" "r2 (copy_body c) = r2 c - 4"
  "words (copy_body c) = (words c)(r1 c := words c (r0 c))" "msp (copy_body c) = msp c" "control (copy_body c) = control c"
  "cond_gt (copy_body c) \<longleftrightarrow> 4 < sint (r2 c)"
  by (simp_all add: copy_body_def Let_def sub_flags_signed) (simp_all add: sub_flags_def)

lemma bss_body_fields: "r1 (bss_body c) = r1 c - 4" "cond_gt (bss_body c) \<longleftrightarrow> 4 < sint (r1 c)"
  by (simp_all add: bss_body_def Let_def sub_flags_signed)

section \<open>The handler\<close>

function copy_loop :: "machine \<Rightarrow> machine" where
  "copy_loop c = (let c = copy_body c in if cond_gt c then copy_loop c else c)"
  by pat_completeness auto

termination copy_loop
  by (relation "measure (\<lambda>c. nat (sint (r2 c)))") (auto simp: copy_body_fields sint_minus_4)

function bss_loop :: "machine \<Rightarrow> machine" where
  "bss_loop c = (let c = bss_body c in if cond_gt c then bss_loop c else c)"
  by pat_completeness auto

termination bss_loop
  by (relation "measure (\<lambda>c. nat (sint (r1 c)))") (auto simp: bss_body_fields sint_minus_4)

declare copy_loop.simps [simp del] bss_loop.simps [simp del]

text \<open>The machine when the handler calls \<open>main\<close>; \<^verbatim>\<open>SystemInit\<close>, which it calls first, is empty.\<close>

definition Reset_Handler :: "section_syms \<Rightarrow> machine \<Rightarrow> machine" where
  "Reset_Handler k c =
     (let c = c\<lparr>r0 := estack k\<rparr>;
          c = c\<lparr>msp := r0 c\<rparr>;
          c = mov_flags 0 (c\<lparr>r0 := 0\<rparr>);
          c = c\<lparr>control := r0 c\<rparr>;
          c = c\<lparr>r0 := sidata k\<rparr>;
          c = c\<lparr>r1 := sdata k\<rparr>;
          c = c\<lparr>r2 := edata k\<rparr>;
          c = (sub_flags (r2 c) (r1 c) c)\<lparr>r2 := r2 c - r1 c\<rparr>;
          c = (if cond_le c then c else copy_loop c);
          c = c\<lparr>r0 := sbss k\<rparr>;
          c = c\<lparr>r1 := ebss k\<rparr>;
          c = (sub_flags (r1 c) (r0 c) c)\<lparr>r1 := r1 c - r0 c\<rparr>;
          c = mov_flags 0 (c\<lparr>r2 := 0\<rparr>);
          c = (if cond_le c then c else bss_loop c)
      in c)"

section \<open>Vectors\<close>

text \<open>A word of the table is zero or the address of a symbol.\<close>

datatype vector_word = Word_0 | Symbol string

definition g_pfnVectors :: "vector_word list" where
  "g_pfnVectors =
     [Symbol ''_estack'', Symbol ''Reset_Handler'', Symbol ''NMI_Handler'', Symbol ''HardFault_Handler'',
      Symbol ''MemManage_Handler'', Symbol ''BusFault_Handler'', Symbol ''UsageFault_Handler'',
      Word_0, Word_0, Word_0, Word_0,
      Symbol ''SVCall_Handler'', Symbol ''DebugMon_Handler'', Word_0, Symbol ''PendSV_Handler'', Symbol ''SysTick_Handler'']
     @ replicate 82 (Symbol ''Default_Handler'')"

definition weak_symbols :: "string list" where
  "weak_symbols =
     [''NMI_Handler'', ''HardFault_Handler'', ''MemManage_Handler'', ''BusFault_Handler'', ''UsageFault_Handler'',
      ''SVCall_Handler'', ''DebugMon_Handler'', ''PendSV_Handler'', ''SysTick_Handler'']"

text \<open>What the linker makes of a word: a weak symbol is \<^verbatim>\<open>Default_Handler\<close> unless another file defines it.\<close>

fun link_word :: "string list \<Rightarrow> vector_word \<Rightarrow> vector_word" where
  "link_word strong Word_0 = Word_0"
| "link_word strong (Symbol x) =
     (if x \<in> set weak_symbols \<and> x \<notin> set strong then Symbol ''Default_Handler'' else Symbol x)"

text \<open>
  \<^verbatim>\<open>context_switch.s\<close> and \<^verbatim>\<open>system.c\<close> define three of the weak symbols, so the supervisor call, PendSV and
  SysTick reach the kernel, and every other exception stops in \<^verbatim>\<open>Default_Handler\<close>. The table has 98
  words; the comment on its second part announces 80 interrupts.
\<close>

lemma vectors_linked:
  assumes strong: "set strong \<inter> set weak_symbols = {''SVCall_Handler'', ''PendSV_Handler'', ''SysTick_Handler''}"
  shows "map (link_word strong) g_pfnVectors =
      [Symbol ''_estack'', Symbol ''Reset_Handler''] @ replicate 5 (Symbol ''Default_Handler'') @ replicate 4 Word_0
      @ [Symbol ''SVCall_Handler'', Symbol ''Default_Handler'', Word_0, Symbol ''PendSV_Handler'', Symbol ''SysTick_Handler'']
      @ replicate 82 (Symbol ''Default_Handler'')" and "length g_pfnVectors = 98"
proof -
  have kernel: "link_word strong (Symbol x) = Symbol x" if "x \<in> {''SVCall_Handler'', ''PendSV_Handler'', ''SysTick_Handler''}" for x
    using strong that by auto
  have default: "link_word strong (Symbol x) = Symbol ''Default_Handler''"
    if "x \<in> set weak_symbols" "x \<notin> {''SVCall_Handler'', ''PendSV_Handler'', ''SysTick_Handler''}" for x
    using strong that by auto
  have other: "link_word strong (Symbol x) = Symbol x" if "x \<notin> set weak_symbols" for x using that by simp
  have five: "replicate 5 y = [y, y, y, y, y]" "replicate 4 y = [y, y, y, y]" for y :: vector_word by (simp_all add: numeral_eq_Suc)
  show "map (link_word strong) g_pfnVectors =
      [Symbol ''_estack'', Symbol ''Reset_Handler''] @ replicate 5 (Symbol ''Default_Handler'') @ replicate 4 Word_0
      @ [Symbol ''SVCall_Handler'', Symbol ''Default_Handler'', Word_0, Symbol ''PendSV_Handler'', Symbol ''SysTick_Handler'']
      @ replicate 82 (Symbol ''Default_Handler'')"
    by (simp add: g_pfnVectors_def kernel default other weak_symbols_def five del: link_word.simps(2))
qed (simp add: g_pfnVectors_def)

section \<open>Copying\<close>

text \<open>\<open>n\<close> words from \<open>src\<close> to \<open>dst\<close>, in ascending order.\<close>

fun copy_words :: "nat \<Rightarrow> addr \<Rightarrow> addr \<Rightarrow> (addr \<Rightarrow> u32) \<Rightarrow> addr \<Rightarrow> u32" where
  "copy_words 0 src dst M = M"
| "copy_words (Suc n) src dst M = copy_words n (src + 4) (dst + 4) (M(dst := M src))"

lemma copy_loop_words:
  assumes "sint (r2 c) = 4 * int (Suc n)"
  shows "words (copy_loop c) = copy_words (Suc n) (r0 c) (r1 c) (words c) \<and> msp (copy_loop c) = msp c \<and> control (copy_loop c) = control c"
  using assms
proof (induction n arbitrary: c)
  case 0
  then show ?case by (simp add: copy_loop.simps [of c] copy_body_fields Let_def)
next
  case (Suc n)
  then have eq: "copy_loop c = copy_loop (copy_body c)" by (simp add: copy_loop.simps [of c] copy_body_fields)
  have "sint (r2 (copy_body c)) = 4 * int (Suc n)" using Suc.prems by (simp add: copy_body_fields sint_minus_4)
  from Suc.IH [OF this] show ?case by (simp only: eq copy_body_fields copy_words.simps)
qed

lemma copy_words_outside:
  "(\<And>i. i < n \<Longrightarrow> a \<noteq> dst + of_nat (4 * i)) \<Longrightarrow> copy_words n src dst M a = M a"
proof (induction n arbitrary: src dst M)
  case (Suc n)
  have "a \<noteq> dst" using Suc.prems [of 0] by simp
  have "a \<noteq> dst + 4 + of_nat (4 * i)" if "i < n" for i
    using Suc.prems [of "Suc i"] that by (simp add: algebra_simps)
  then have "copy_words n (src + 4) (dst + 4) (M(dst := M src)) a = (M(dst := M src)) a" by (rule Suc.IH)
  then show ?case using \<open>a \<noteq> dst\<close> by simp
qed simp

lemma copy_words_inside:
  assumes "\<forall>i < n. \<forall>j < n. src + of_nat (4 * i) \<noteq> dst + of_nat (4 * j)"
    and "inj_on (\<lambda>i. dst + of_nat (4 * i)) {..<n}" and "i < n"
  shows "copy_words n src dst M (dst + of_nat (4 * i)) = M (src + of_nat (4 * i))"
  using assms
proof (induction n arbitrary: src dst M i)
  case (Suc n)
  have shift: "x + of_nat (4 * Suc k) = x + 4 + of_nat (4 * k)" for x :: addr and k by (simp add: algebra_simps)
  have inj: "dst + of_nat (4 * k) \<noteq> dst + of_nat (4 * l)" if "k < Suc n" "l < Suc n" "k \<noteq> l" for k l
    using inj_onD [OF Suc.prems(2), of k l] that by auto
  have apart: "src + of_nat (4 * k) \<noteq> dst + of_nat (4 * l)" if "k < Suc n" "l < Suc n" for k l
    using Suc.prems(1) that by blast
  show ?case
  proof (cases i)
    case 0
    have "copy_words n (src + 4) (dst + 4) (M(dst := M src)) dst = (M(dst := M src)) dst"
    proof (rule copy_words_outside)
      fix k assume "k < n"
      then show "dst \<noteq> dst + 4 + of_nat (4 * k)" using inj [of 0 "Suc k"] unfolding shift by simp
    qed
    then show ?thesis using 0 by simp
  next
    case i: (Suc j)
    have "\<forall>k < n. \<forall>l < n. src + 4 + of_nat (4 * k) \<noteq> dst + 4 + of_nat (4 * l)"
      using apart [of "Suc k" "Suc l" for k l] unfolding shift by simp
    moreover have "inj_on (\<lambda>k. dst + 4 + of_nat (4 * k)) {..<n}"
      using inj [of "Suc k" "Suc l" for k l] unfolding shift by (intro inj_onI) blast
    ultimately have "copy_words n (src + 4) (dst + 4) (M(dst := M src)) (dst + 4 + of_nat (4 * j))
        = (M(dst := M src)) (src + 4 + of_nat (4 * j))"
      using Suc.prems(3) i by (intro Suc.IH) simp_all
    moreover have "src + 4 + of_nat (4 * j) \<noteq> dst" using apart [of "Suc j" 0] Suc.prems(3) i unfolding shift by simp
    ultimately show ?thesis unfolding i shift by simp
  qed
qed simp

section \<open>What the handler leaves in memory\<close>

text \<open>
  The layout of \<^verbatim>\<open>linker.ld\<close>: flash below RAM, RAM in the lower half of the address space, \<^verbatim>\<open>.bss\<close> behind
  \<^verbatim>\<open>.data\<close>, the sections aligned.
\<close>

definition linked :: "section_syms \<Rightarrow> bool" where
  "linked k \<longleftrightarrow> unat (sidata k) + (unat (edata k) - unat (sdata k)) \<le> unat (sdata k)
     \<and> unat (sdata k) \<le> unat (edata k) \<and> unat (edata k) \<le> unat (sbss k) \<and> unat (sbss k) \<le> unat (ebss k) \<and> unat (ebss k) < 2 ^ 31
     \<and> 4 dvd unat (edata k) - unat (sdata k)"

definition data_words :: "section_syms \<Rightarrow> nat" where
  "data_words k = (unat (edata k) - unat (sdata k)) div 4"

lemma sint_small:
  fixes w :: u32
  assumes "unat w < 2 ^ 31"
  shows "sint w = int (unat w)"
proof -
  have "uint w < 2 ^ 31" using of_nat_less_iff [where 'a = int, THEN iffD2, OF assms] by simp
  moreover have "- (2 ^ 31) \<le> uint w" by (rule order.trans [of _ 0]) simp_all
  ultimately have "signed_take_bit 31 (uint w) = uint w" by (intro signed_take_bit_int_eq_self)
  then show ?thesis by (simp add: sint_uint)
qed

lemma unat_offset: "unat x + m < 2 ^ 32 \<Longrightarrow> unat (x + of_nat m) = unat x + m" for x :: u32
  by (simp add: unat_word_ariths unat_of_nat)

lemma linked_words:
  assumes "linked k" and "i < data_words k"
  shows "unat (sdata k + of_nat (4 * i)) = unat (sdata k) + 4 * i" "unat (sidata k + of_nat (4 * i)) = unat (sidata k) + 4 * i"
    "unat (sdata k) + 4 * i < unat (edata k)" "unat (sidata k) + 4 * i < unat (sdata k)"
proof -
  show l: "unat (sdata k) + 4 * i < unat (edata k)" "unat (sidata k) + 4 * i < unat (sdata k)"
    using assms by (auto simp: linked_def data_words_def)
  then show "unat (sdata k + of_nat (4 * i)) = unat (sdata k) + 4 * i" "unat (sidata k + of_nat (4 * i)) = unat (sidata k) + 4 * i"
    using assms(1) by (intro unat_offset; simp add: linked_def)+
qed

lemma Reset_Handler_words:
  assumes "linked k"
  shows "words (Reset_Handler k c) = copy_words (data_words k) (sidata k) (sdata k) (words c)
    \<and> msp (Reset_Handler k c) = estack k \<and> control (Reset_Handler k c) = 0"
proof -
  have le: "cond_le (mov_flags 0 d)" for d by (simp add: cond_le_def mov_flags_def)
  let ?c = "(mov_flags 0 (c\<lparr>r0 := 0, msp := estack k\<rparr>))\<lparr>control := 0, r0 := sidata k, r1 := sdata k, r2 := edata k\<rparr>"
  let ?d = "(sub_flags (edata k) (sdata k) ?c)\<lparr>r2 := edata k - sdata k\<rparr>"
  have run: "words (Reset_Handler k c) = words (if cond_le ?d then ?d else copy_loop ?d)"
    "msp (Reset_Handler k c) = msp (if cond_le ?d then ?d else copy_loop ?d)"
    "control (Reset_Handler k c) = control (if cond_le ?d then ?d else copy_loop ?d)"
    by (simp_all add: Reset_Handler_def Let_def le del: cond_upd) (simp_all add: mov_flags_def sub_flags_def)
  have d: "words ?d = words c" "msp ?d = estack k" "control ?d = 0" "r0 ?d = sidata k" "r1 ?d = sdata k" "r2 ?d = edata k - sdata k"
    by (simp_all add: mov_flags_def sub_flags_def)
  have s: "sint (edata k) = int (unat (edata k))" "sint (sdata k) = int (unat (sdata k))"
    using assms by (simp_all add: sint_small linked_def)
  show ?thesis
  proof (cases "data_words k")
    case 0
    then have "unat (edata k) \<le> unat (sdata k)" using assms by (auto simp: data_words_def linked_def)
    then have "cond_le ?d" unfolding cond_upd sub_flags_signed s of_nat_le_iff .
    then show ?thesis using run d 0 by simp
  next
    case (Suc n)
    have "unat (edata k - sdata k) = unat (edata k) - unat (sdata k)"
      using assms by (intro unat_sub) (simp add: linked_def word_le_nat_alt)
    moreover have len: "unat (edata k) - unat (sdata k) = 4 * Suc n" using assms Suc by (auto simp: data_words_def linked_def)
    ultimately have "sint (edata k - sdata k) = int (4 * Suc n)" using assms by (subst sint_small) (simp_all add: linked_def)
    then have "sint (r2 ?d) = 4 * int (Suc n)" by simp
    moreover have "\<not> cond_le ?d" using len unfolding cond_upd sub_flags_signed s of_nat_le_iff by simp
    ultimately show ?thesis using run copy_loop_words [of ?d n] d Suc by simp
  qed
qed

text \<open>
  C30. Reset. When the handler calls \<open>main\<close>, the main stack is empty, \<^verbatim>\<open>.data\<close> holds its initial values
  from flash, and no other word of memory has changed. That includes \<^verbatim>\<open>.bss\<close>: \<^verbatim>\<open>movs r2, #0\<close> overwrites
  the flags of the comparison before the branch reads them, so the clearing loop is never entered
  and static variables start with whatever the memory held.
\<close>

theorem Reset_Handler_memory:
  assumes k: "linked k"
  shows "msp (Reset_Handler k c) = estack k \<and> control (Reset_Handler k c) = 0
    \<and> (\<forall>i < data_words k. words (Reset_Handler k c) (sdata k + of_nat (4 * i)) = words c (sidata k + of_nat (4 * i)))
    \<and> (\<forall>a. unat a < unat (sdata k) \<or> unat (edata k) \<le> unat a \<longrightarrow> words (Reset_Handler k c) a = words c a)"
proof -
  note w = Reset_Handler_words [OF k]
  have "words (Reset_Handler k c) (sdata k + of_nat (4 * i)) = words c (sidata k + of_nat (4 * i))" if i: "i < data_words k" for i
  proof -
    have "sidata k + of_nat (4 * a) \<noteq> sdata k + of_nat (4 * b)" if "a < data_words k" "b < data_words k" for a b
    proof -
      have "unat (sidata k + of_nat (4 * a)) < unat (sdata k + of_nat (4 * b))" 
        using linked_words [OF k that(1)] linked_words [OF k that(2)] by linarith
      then show ?thesis by (metis less_irrefl)
    qed
    moreover have "inj_on (\<lambda>i. sdata k + of_nat (4 * i)) {..<data_words k}"
    proof (rule inj_onI)
      fix a b assume ab: "a \<in> {..<data_words k}" "b \<in> {..<data_words k}" and eq: "sdata k + of_nat (4 * a) = sdata k + of_nat (4 * b)"
      show "a = b" using arg_cong [OF eq, of unat] linked_words(1) [OF k] ab by simp
    qed
    ultimately show ?thesis unfolding w [THEN conjunct1] using i by (intro copy_words_inside) blast+
  qed
  moreover have "words (Reset_Handler k c) a = words c a" if "unat a < unat (sdata k) \<or> unat (edata k) \<le> unat a" for a
    unfolding w [THEN conjunct1]
  proof (rule copy_words_outside)
    fix i assume "i < data_words k"
    then show "a \<noteq> sdata k + of_nat (4 * i)" using linked_words(1,3) [OF k] that by fastforce
  qed
  ultimately show ?thesis using w by blast
qed

text \<open>A layout with three words of data and two of \<^verbatim>\<open>.bss\<close>.\<close>

definition sample_syms :: section_syms where
  "sample_syms = \<lparr>sidata = 0x08001000, sdata = 0x20000000, edata = 0x2000000C, sbss = 0x20000010, ebss = 0x20000018, estack = 0x20020000\<rparr>"

definition sample_machine :: machine where
  "sample_machine = \<lparr>r0 = 0, r1 = 0, r2 = 0, r3 = 0, msp = 0, control = 2, flag_n = False, flag_z = False, flag_v = False,
     words = (\<lambda>a. if a = 0x08001004 then 7 else 99)\<rparr>"

theorem Reset_Handler_memory_witness:
  "linked sample_syms \<and> words (Reset_Handler sample_syms sample_machine) 0x20000004 = 7
    \<and> words (Reset_Handler sample_syms sample_machine) 0x20000010 = 99"
proof -
  have k: "linked sample_syms" by (simp add: linked_def sample_syms_def)
  have n: "data_words sample_syms = 3" by (simp add: data_words_def sample_syms_def)
  have "words (Reset_Handler sample_syms sample_machine) (sdata sample_syms + of_nat (4 * 1)) = words sample_machine (sidata sample_syms + of_nat (4 * 1))"
    using Reset_Handler_memory [OF k, of sample_machine] n by (metis one_less_numeral_iff semiring_norm(77))
  moreover have "words (Reset_Handler sample_syms sample_machine) 0x20000010 = words sample_machine 0x20000010"
    using Reset_Handler_memory [OF k, of sample_machine] by (simp add: sample_syms_def)
  ultimately show ?thesis using k by (simp add: sample_syms_def sample_machine_def)
qed

end
