(* ===== verification/Spec2Isabelle.thy ===== *)
theory Spec2Isabelle
  imports Rtos_Progress Rtos_Race Rtos_Syscalls Rtos_Apps Rtos_Startup
begin

text \<open>
  A verification of the microkernel RTOS for Cortex-M4 (STM32F407 and QEMU).

  \<^bold>\<open>The program.\<close> Tasks are control blocks (\<^verbatim>\<open>TCB_t\<close>) that live in eight circular ready rings, one
  per priority bucket, while they can run, and in the FIFO wait list of a mutex, a semaphore or
  a message queue while they wait. SysTick advances the tick count, wakes the tasks whose
  time has come, fires software timers, checks the stack canaries and requests a context
  switch; PendSV saves the registers of the running task and loads those of the task
  \<^verbatim>\<open>scheduler_get_next\<close> selects. Control blocks and stacks come from a first-fit heap.

  \<^bold>\<open>The state.\<close> \<open>kernel\<close> (\<open>Rtos_Types\<close>) is the memory the kernel works on: one store per C
  struct type, from 32-bit addresses to records with the fields of the struct, the static
  variables of the C files, a byte memory for message buffers and a word memory for stacks, and
  the two registers the kernel writes, ICSR and PRIMASK. Address 0 is \<open>NULL\<close>. An operation
  is a function from \<open>kernel\<close> to an option: \<open>None\<close> is a dereference of an address that
  holds no object, an access outside an array, or a loop that does not end. Loops over
  linked lists are \<open>partial_function (option)\<close>, so that a cyclic list is a value of the
  model; loops over arrays are recursive functions that count the entries left.

  \<^bold>\<open>Blocking.\<close> A blocking call is split where the task gives up the processor
  (\<open>Rtos_Block\<close>): \<open>mutex_lock\<close>, \<open>semaphore_wait\<close>, \<open>msg_queue_send\<close>, \<open>msg_queue_recv\<close> and
  \<open>task_delay\<close> end either with a status or with \<open>None\<close> in its place, the task being blocked;
  the \<open>_resume\<close> functions are the rest of the loop, run when the task is dispatched again.

  \<^bold>\<open>The theories\<close>, in the order of the code.
  \<^item> \<open>Rtos_Prelude\<close>: stores, arrays, linked paths and rings, shared list lemmas.
  \<^item> \<open>Rtos_Types\<close>: constants (\<^verbatim>\<open>include/rtos_config.h\<close>), enumerations, control block
    (\<^verbatim>\<open>include/rtos_types.h\<close>), objects, kernel state.
  \<^item> \<open>Rtos_Scheduler\<close>: \<^verbatim>\<open>src/core/scheduler.c\<close>. \<open>ready_rel s Q\<close> says that the rings in memory are the
    queues \<open>Q\<close>; \<open>sched_inv s Q\<close> adds that every runnable task is in the ring of its priority
    and no other task is in any ring. Every operation refines a list operation on \<open>Q\<close>.
  \<^item> \<open>Rtos_Wait\<close>, \<open>Rtos_Block\<close>: the wait lists and \<^verbatim>\<open>src/core/block.c\<close>. The locale
    \<open>wait_object\<close> is the contract between blocking, timeouts and deletion on the one side and
    the objects with wait lists on the other; mutex, semaphore and both lists of a message
    queue are its interpretations.
  \<^item> \<open>Rtos_Mutex\<close>, \<open>Rtos_Semaphore\<close>, \<open>Rtos_Msgqueue\<close>: \<^verbatim>\<open>src/sync/mutex.c\<close>, \<^verbatim>\<open>src/sync/semaphore.c\<close>,
    \<^verbatim>\<open>src/ipc/msgqueue.c\<close>. A queue's buffer is the list of messages \<open>queue_holds\<close> reads from it.
  \<^item> \<open>Rtos_Waits\<close>: all wait lists together; a task is in the list of exactly the object it is
    blocked on.
  \<^item> \<open>Rtos_Timer\<close>: \<^verbatim>\<open>src/timer/sw_timer.c\<close>; the timer list is sorted by expiry, and a tick calls the
    callbacks of the due timers in its order. Callbacks are a parameter.
  \<^item> \<open>Rtos_Heap\<close>: \<^verbatim>\<open>src/memory/heap.c\<close>; free and allocated blocks tile the pool. The address of the
    pool is a parameter.
  \<^item> \<open>Rtos_Task\<close>, \<open>Rtos_Tick\<close>, \<open>Rtos_Lifecycle\<close>: \<^verbatim>\<open>src/core/task.c\<close>: registry, initial stacks,
    creation, deletion, delays, wake-ups, stack check; what a tick wakes, and so when a delay
    ends; what creation and
    deletion do to the whole kernel. \<open>image\<close> holds the addresses the linker chooses and the size
    of \<^verbatim>\<open>TCB_t\<close>.
  \<^item> \<open>Rtos_System\<close>, \<open>Rtos_Context\<close>: \<^verbatim>\<open>src/platform/system.c\<close>, \<^verbatim>\<open>src/core/context_switch.s\<close> and
    \<^verbatim>\<open>rtos_start\<close>: a whole tick, a whole context switch, the start from reset to the first
    task. Hardware behind polled registers is a parameter.
  \<^item> \<open>Rtos_Typed\<close>: the type invariant \<open>typed\<close>: what is true of every record by itself (buckets, counts,
    indices, owners, array lengths). Every operation keeps it, from any state.
  \<^item> \<open>Rtos_Invariant\<close>, \<open>Rtos_Locking\<close>: the invariant of the whole kernel, \<open>system_rel\<close>: rings, wait lists,
    registry and heap agree with the control blocks. Every service keeps it; locking
    needs that the mutex is free or its owner has not been deleted (\<open>lockable\<close>), unlocking that the
    caller is in the ring of its base priority (\<open>unboosted\<close>), since the end of a boost breaks it
    (below).
  \<^item> \<open>Rtos_Kernel\<close>: the kernel as a transition system (\<open>kernel_step\<close>): calls of the running task,
    ticks, context switches. \<open>system_inv\<close> holds in every reachable state and lets every
    context switch find a task. Objects are initialised once, and a task does not free heap
    blocks of its own. \<open>free_step\<close> drops the conditions on locking and unlocking; \<open>typed\<close> still holds.
  \<^item> \<open>Rtos_Progress\<close>: the services are total. A request with valid arguments is carried out to its
    end from every state with the invariant, hence so is every sequence of such requests.
  \<^item> \<open>Rtos_Startup\<close>: \<^verbatim>\<open>platform/stm32f4/startup_stm32f407xx.s\<close>: the reset handler on registers, flags and
    word memory, instruction by instruction, and the vector table.
  \<^item> \<open>Rtos_Race\<close>: what happens when a post falls into the window between the enqueueing and the
    blocking of a waiter.
  \<^item> \<open>Rtos_Syscalls\<close>: \<^verbatim>\<open>src/platform/syscalls.c\<close>: the end of the C library's heap, output over
    semihosting and USART2.
  \<^item> \<open>Rtos_Examples\<close>, \<open>Rtos_Apps\<close>: the programs under \<^verbatim>\<open>examples\<close>: their \<^verbatim>\<open>main\<close> functions from
    reset to the first task, and their task bodies as loops over kernel calls, interleaved with
    ticks and context switches; the mutex keeps their critical sections apart.

  \<^bold>\<open>Limits of the code\<close> that the theorems show: an unlock that ends a priority boost leaves the
  owner in the ring of the boosted priority; tick counts are compared without regard to
  their wrap; a periodic timer hangs at the wrap; restarting an active timer corrupts the timer
  list; a heap request near \<open>2 ^ 32\<close> wraps; a released semaphore unit can be overtaken;
  a post between enqueueing and blocking is lost; \<^verbatim>\<open>_sbrk\<close> may move below \<^verbatim>\<open>_end\<close>;
  PendSV does not get the lowest priority; the PLL is not set to 168 MHz; the reset handler never
  clears \<^verbatim>\<open>.bss\<close>. The theorems about the start do not rely on cleared statics: \<^verbatim>\<open>task_init\<close> sets the variables
  the invariants speak of (\<open>boot\<close> only says that no object exists yet), and the tick count may start
  anywhere.

  \<^bold>\<open>Not modelled\<close>: the programs under \<^verbatim>\<open>tests\<close>; the linker script, whose layout is the hypothesis
  \<open>linked\<close> of the reset theorem; floating-point context, which the kernel does not save; interrupts between the instructions of an operation: operations are atomic, except
  for the window of the blocking calls that \<open>Rtos_Race\<close> looks at.
\<close>

end
